(* ===== verification/Notm_Prelude.thy ===== *)
theory Notm_Prelude
  imports Main "HOL-Library.Multiset" "HOL-Library.Code_Target_Nat"
begin

text \<open>
  Shared vocabulary of the development: results of fallible Rust functions as a sum type,
  the question-mark operator and the \<open>ensure!\<close> macro over it, and generic facts on
  lists that several components use.  A Rust function returning \<open>Result<T, E>\<close> is a HOL
  function into \<open>'e + 't\<close> (\<open>Inl\<close> for \<open>Err\<close>, \<open>Inr\<close> for \<open>Ok\<close>);
  \<open>Option<T>\<close> is \<open>'t option\<close>.
\<close>

section \<open>Results\<close>

named_theorems result_simps \<open>inversion of successful results\<close>

text \<open>\<open>e?\<close> followed by the rest of the function.\<close>

fun and_then :: "'e + 'a \<Rightarrow> ('a \<Rightarrow> 'e + 'b) \<Rightarrow> 'e + 'b" where
  "and_then (Inl e) f = Inl e"
| "and_then (Inr x) f = f x"

text \<open>\<open>anyhow::ensure!(b, e)\<close>.\<close>

definition ensure :: "bool \<Rightarrow> 'e \<Rightarrow> 'e + unit" where
  "ensure b e = (if b then Inr () else Inl e)"

text \<open>\<open>opt.ok_or(e)\<close>.\<close>

fun ok_or :: "'a option \<Rightarrow> 'e \<Rightarrow> 'e + 'a" where
  "ok_or None e = Inl e"
| "ok_or (Some x) e = Inr x"

text \<open>\<open>result.map(f)\<close> and \<open>result.map_err(f)\<close>.\<close>

fun map_ok :: "('a \<Rightarrow> 'b) \<Rightarrow> 'e + 'a \<Rightarrow> 'e + 'b" where
  "map_ok f (Inl e) = Inl e"
| "map_ok f (Inr x) = Inr (f x)"

fun map_err :: "('e \<Rightarrow> 'f) \<Rightarrow> 'e + 'a \<Rightarrow> 'f + 'a" where
  "map_err f (Inl e) = Inl (f e)"
| "map_err f (Inr x) = Inr x"

text \<open>\<open>iter.map(f).collect::<Result<Vec<_>>>()\<close>: the first error wins.\<close>

fun collect_results :: "('a \<Rightarrow> 'e + 'b) \<Rightarrow> 'a list \<Rightarrow> 'e + 'b list" where
  "collect_results f [] = Inr []"
| "collect_results f (x # xs) =
     and_then (f x) (\<lambda>y. map_ok (\<lambda>ys. y # ys) (collect_results f xs))"

lemma and_then_Inr [result_simps]:
  "and_then m f = Inr y \<longleftrightarrow> (\<exists>x. m = Inr x \<and> f x = Inr y)"
  by (cases m) auto

lemma and_then_Inl [result_simps]:
  "and_then m f = Inl e \<longleftrightarrow> m = Inl e \<or> (\<exists>x. m = Inr x \<and> f x = Inl e)"
  by (cases m) auto

lemma ensure_Inr [result_simps]: "ensure b e = Inr u \<longleftrightarrow> b"
  by (auto simp: ensure_def)

lemma ensure_Inl [result_simps]: "ensure b e = Inl e' \<longleftrightarrow> \<not> b \<and> e' = e"
  by (auto simp: ensure_def)

lemma ensure_simps [simp]: "ensure True e = Inr ()" "ensure False e = Inl e"
  by (simp_all add: ensure_def)

lemma ok_or_Inr [result_simps]: "ok_or m e = Inr x \<longleftrightarrow> m = Some x"
  by (cases m) auto

lemma ok_or_Inl [result_simps]: "ok_or m e = Inl e' \<longleftrightarrow> m = None \<and> e' = e"
  by (cases m) auto

lemma map_ok_Inr [result_simps]: "map_ok f m = Inr y \<longleftrightarrow> (\<exists>x. m = Inr x \<and> y = f x)"
  by (cases m) auto

lemma map_ok_Inl [result_simps]: "map_ok f m = Inl e \<longleftrightarrow> m = Inl e"
  by (cases m) auto

lemma map_err_Inr [result_simps]: "map_err f m = Inr y \<longleftrightarrow> m = Inr y"
  by (cases m) auto

lemma map_err_Inl [result_simps]: "map_err f m = Inl e' \<longleftrightarrow> (\<exists>e. m = Inl e \<and> e' = f e)"
  by (cases m) auto

lemma collect_results_Inr:
  "collect_results f xs = Inr ys \<longleftrightarrow> list_all2 (\<lambda>x y. f x = Inr y) xs ys"
  by (induction xs arbitrary: ys) (auto simp: result_simps list_all2_Cons1)

lemma collect_results_length: "collect_results f xs = Inr ys \<Longrightarrow> length ys = length xs"
  by (simp add: collect_results_Inr list_all2_lengthD)

section \<open>Lists\<close>

lemma drop_takeWhile_length: "drop (length (takeWhile P xs)) xs = dropWhile P xs"
  by (simp add: dropWhile_eq_drop)

lemma butlast_filter_neq_last:
  "distinct xs \<Longrightarrow> xs \<noteq> [] \<Longrightarrow> filter (\<lambda>x. x \<noteq> last xs) xs = butlast xs"
proof (induction xs rule: rev_induct)
  case (snoc x xs)
  then show ?case by (auto simp: filter_id_conv)
qed simp

text \<open>\<open>haystack.windows(n).any(|w| w == needle)\<close>, also \<open>str::contains\<close>.\<close>

fun has_infix :: "'a list \<Rightarrow> 'a list \<Rightarrow> bool" where
  "has_infix needle [] = (needle = [])"
| "has_infix needle (x # xs) =
     (take (length needle) (x # xs) = needle \<or> has_infix needle xs)"

lemma has_infix_iff: "has_infix needle xs \<longleftrightarrow> (\<exists>p q. xs = p @ needle @ q)"
proof (induction xs)
  case (Cons x xs)
  show ?case
  proof
    assume "has_infix needle (x # xs)"
    then consider "take (length needle) (x # xs) = needle" | "has_infix needle xs" by auto
    then show "\<exists>p q. x # xs = p @ needle @ q"
    proof cases
      case 1
      then show ?thesis by (metis append_Nil append_take_drop_id)
    next
      case 2
      with Cons.IH obtain p q where "xs = p @ needle @ q" by blast
      then have "x # xs = (x # p) @ needle @ q" by simp
      then show ?thesis by blast
    qed
  next
    assume "\<exists>p q. x # xs = p @ needle @ q"
    then obtain p q where e: "x # xs = p @ needle @ q" by blast
    show "has_infix needle (x # xs)"
    proof (cases p)
      case Nil
      with e show ?thesis by (metis append_Nil append_eq_conv_conj has_infix.simps(2))
    next
      case (Cons y ys)
      with e have "xs = ys @ needle @ q" by simp
      with Cons.IH show ?thesis by auto
    qed
  qed
qed auto

lemma set_has_infix: "has_infix [x] xs \<longleftrightarrow> x \<in> set xs"
  by (induction xs) auto

section \<open>Loops over a cursor\<close>

text \<open>
  A loop whose index moves right while it is inside the buffer: where each iteration either
  returns with the bound or continues further right, the result satisfies the bound.
\<close>

lemma cursor_progress:
  assumes step: "\<And>i e. R i e \<Longrightarrow> i \<le> e \<or> (\<exists>j. i < n \<and> i < j \<and> R j e)"
    and run: "R i (e :: nat)"
  shows "i \<le> e"
  using run
proof (induction "n - i" arbitrary: i rule: less_induct)
  case less
  from step [OF less.prems] show ?case
  proof
    assume "\<exists>j. i < n \<and> i < j \<and> R j e"
    then obtain j where j: "i < n" "i < j" "R j e" by blast
    then have "n - j < n - i" by linarith
    from less.hyps [OF this j(3)] j(2) show ?thesis by linarith
  qed
qed

end
