(* ===== verification/Rust_Str.thy ===== *)
theory Rust_Str
  imports Notm_Prelude "HOL-Library.Sublist"
begin

text \<open>
  The part of Rust's standard library for \<open>u8\<close>, \<open>char\<close> and \<open>str\<close> that the program uses.
  A byte is an Isabelle \<open>char\<close> (eight bits), so \<open>Vec<u8>\<close> and \<open>str\<close> are both
  \<open>string\<close>; a \<open>str\<close> is a byte string satisfying \<open>valid_utf8\<close>, which is the type
  invariant of Rust's strings and the check of \<open>String::from_utf8\<close>.  A Unicode scalar value
  is a \<open>nat\<close>, decoded from the slice of bytes that encodes it.
\<close>

section \<open>Bytes\<close>

abbreviation bval :: "char \<Rightarrow> nat" where
  "bval c \<equiv> of_char c"

definition is_ascii_byte :: "char \<Rightarrow> bool" where
  "is_ascii_byte c \<longleftrightarrow> bval c < 128"

definition is_ascii_digit :: "char \<Rightarrow> bool" where
  "is_ascii_digit c \<longleftrightarrow> 48 \<le> bval c \<and> bval c \<le> 57"

definition is_ascii_upper :: "char \<Rightarrow> bool" where
  "is_ascii_upper c \<longleftrightarrow> 65 \<le> bval c \<and> bval c \<le> 90"

definition is_ascii_lower :: "char \<Rightarrow> bool" where
  "is_ascii_lower c \<longleftrightarrow> 97 \<le> bval c \<and> bval c \<le> 122"

definition is_ascii_alphanumeric :: "char \<Rightarrow> bool" where
  "is_ascii_alphanumeric c \<longleftrightarrow> is_ascii_digit c \<or> is_ascii_upper c \<or> is_ascii_lower c"

definition is_ascii_graphic :: "char \<Rightarrow> bool" where
  "is_ascii_graphic c \<longleftrightarrow> 33 \<le> bval c \<and> bval c \<le> 126"

definition is_ascii_control :: "char \<Rightarrow> bool" where
  "is_ascii_control c \<longleftrightarrow> bval c < 32 \<or> bval c = 127"

definition is_ascii_whitespace :: "char \<Rightarrow> bool" where
  "is_ascii_whitespace c \<longleftrightarrow> bval c \<in> {9, 10, 12, 13, 32}"

definition to_ascii_lower :: "char \<Rightarrow> char" where
  "to_ascii_lower c = (if is_ascii_upper c then char_of (bval c + 32) else c)"

abbreviation to_ascii_lowercase :: "string \<Rightarrow> string" where
  "to_ascii_lowercase s \<equiv> map to_ascii_lower s"

definition eq_ignore_ascii_case :: "string \<Rightarrow> string \<Rightarrow> bool" where
  "eq_ignore_ascii_case s t \<longleftrightarrow> to_ascii_lowercase s = to_ascii_lowercase t"

abbreviation CR :: char where "CR \<equiv> CHR 0x0D"
abbreviation LF :: char where "LF \<equiv> CHR 0x0A"
abbreviation HT :: char where "HT \<equiv> CHR 0x09"
abbreviation SP :: char where "SP \<equiv> CHR 0x20"
abbreviation DQ :: char where "DQ \<equiv> CHR 0x22"
abbreviation BSL :: char where "BSL \<equiv> CHR 0x5C"
abbreviation CRLF :: string where "CRLF \<equiv> [CR, LF]"

lemmas byte_class_defs =
  is_ascii_byte_def is_ascii_digit_def is_ascii_upper_def is_ascii_lower_def
  is_ascii_alphanumeric_def is_ascii_graphic_def is_ascii_control_def is_ascii_whitespace_def

lemma to_ascii_lower_idem [simp]: "to_ascii_lower (to_ascii_lower c) = to_ascii_lower c"
  by (auto simp: to_ascii_lower_def is_ascii_upper_def)

lemma graphic_not_control: "is_ascii_graphic c \<Longrightarrow> \<not> is_ascii_control c"
  by (auto simp: byte_class_defs)

lemma eq_ignore_ascii_case_refl [simp]: "eq_ignore_ascii_case s s"
  by (simp add: eq_ignore_ascii_case_def)

section \<open>UTF-8\<close>

text \<open>Length of the encoding a lead byte announces (\<open>char::len_utf8\<close> of the decoded char).\<close>

definition utf8_len :: "char \<Rightarrow> nat" where
  "utf8_len b = (if bval b < 128 then 1 else if bval b < 224 then 2 else if bval b < 240 then 3 else 4)"

text \<open>The bytes of each character in order (\<open>str::char_indices\<close>).\<close>

fun char_slices :: "string \<Rightarrow> string list" where
  "char_slices [] = []"
| "char_slices (b # bs) =
     (b # take (utf8_len b - 1) bs) # char_slices (drop (utf8_len b - 1) bs)"

definition is_cont :: "char \<Rightarrow> bool" where
  "is_cont c \<longleftrightarrow> 128 \<le> bval c \<and> bval c \<le> 191"

fun code_point :: "string \<Rightarrow> nat" where
  "code_point [a] = bval a"
| "code_point [a, b] = (bval a mod 32) * 64 + bval b mod 64"
| "code_point [a, b, c] = (bval a mod 16) * 4096 + (bval b mod 64) * 64 + bval c mod 64"
| "code_point [a, b, c, d] =
     (bval a mod 8) * 262144 + (bval b mod 64) * 4096 + (bval c mod 64) * 64 + bval d mod 64"
| "code_point _ = 0"

text \<open>
  Well-formed encodings (\<open>core::str::from_utf8\<close>): no overlong forms, no surrogates, nothing
  above U+10FFFF.
\<close>

fun valid_slice :: "string \<Rightarrow> bool" where
  "valid_slice [a] = (bval a < 128)"
| "valid_slice [a, b] = (194 \<le> bval a \<and> bval a \<le> 223 \<and> is_cont b)"
| "valid_slice [a, b, c] =
     ((bval a = 224 \<and> 160 \<le> bval b \<and> bval b \<le> 191
       \<or> 225 \<le> bval a \<and> bval a \<le> 239 \<and> bval a \<noteq> 237 \<and> is_cont b
       \<or> bval a = 237 \<and> 128 \<le> bval b \<and> bval b \<le> 159) \<and> is_cont c)"
| "valid_slice [a, b, c, d] =
     ((bval a = 240 \<and> 144 \<le> bval b \<and> bval b \<le> 191
       \<or> 241 \<le> bval a \<and> bval a \<le> 243 \<and> is_cont b
       \<or> bval a = 244 \<and> 128 \<le> bval b \<and> bval b \<le> 143) \<and> is_cont c \<and> is_cont d)"
| "valid_slice _ = False"

definition valid_utf8 :: "string \<Rightarrow> bool" where
  "valid_utf8 s \<longleftrightarrow> list_all valid_slice (char_slices s)"

definition chars :: "string \<Rightarrow> nat list" where
  "chars s = map code_point (char_slices s)"

definition is_ascii_str :: "string \<Rightarrow> bool" where
  "is_ascii_str s \<longleftrightarrow> list_all is_ascii_byte s"

text \<open>\<open>char::is_control\<close> (general category Cc) and \<open>char::is_whitespace\<close> (White\_Space).\<close>

definition is_control :: "nat \<Rightarrow> bool" where
  "is_control c \<longleftrightarrow> c < 32 \<or> 127 \<le> c \<and> c \<le> 159"

definition is_whitespace :: "nat \<Rightarrow> bool" where
  "is_whitespace c \<longleftrightarrow>
     9 \<le> c \<and> c \<le> 13 \<or> c = 32 \<or> c = 133 \<or> c = 160 \<or> c = 5760 \<or> 8192 \<le> c \<and> c \<le> 8202
     \<or> c = 8232 \<or> c = 8233 \<or> c = 8239 \<or> c = 8287 \<or> c = 12288"

lemma utf8_len_pos [simp]: "0 < utf8_len b" "utf8_len b \<noteq> 0"
  by (simp_all add: utf8_len_def)

lemma utf8_len_ascii [simp]: "is_ascii_byte b \<Longrightarrow> utf8_len b = 1"
  by (simp add: utf8_len_def is_ascii_byte_def)

lemma concat_char_slices [simp]: "concat (char_slices s) = s"
  by (induction s rule: char_slices.induct) auto

lemma char_slices_nonempty: "x \<in> set (char_slices s) \<Longrightarrow> x \<noteq> []"
  by (induction s rule: char_slices.induct) auto

lemma char_slices_eq_Nil [simp]: "char_slices s = [] \<longleftrightarrow> s = []"
  by (cases s) auto

lemma char_slices_ascii_Cons [simp]:
  "is_ascii_byte b \<Longrightarrow> char_slices (b # bs) = [b] # char_slices bs"
  by simp

lemma valid_slice_length:
  "valid_slice (b # t) \<Longrightarrow> length t = utf8_len b - 1"
  by (cases "b # t" rule: valid_slice.cases) (auto simp: utf8_len_def)

lemma valid_slice_len: "valid_slice s \<Longrightarrow> 1 \<le> length s \<and> length s \<le> 4"
  by (cases s rule: valid_slice.cases) auto

lemma char_slices_single: "valid_slice s \<Longrightarrow> char_slices s = [s]"
  using valid_slice_length by (cases s) (fastforce)+

lemma valid_utf8_Nil [simp]: "valid_utf8 []"
  by (simp add: valid_utf8_def)

lemma valid_utf8_ascii_Cons [simp]: "is_ascii_byte b \<Longrightarrow> valid_utf8 (b # s) = valid_utf8 s"
  by (simp add: valid_utf8_def is_ascii_byte_def)

lemma char_slices_append:
  "valid_utf8 xs \<Longrightarrow> char_slices (xs @ ys) = char_slices xs @ char_slices ys"
proof (induction xs rule: char_slices.induct)
  case (2 b bs)
  let ?n = "utf8_len b - 1"
  from "2.prems" have v: "valid_slice (b # take ?n bs)" and r: "valid_utf8 (drop ?n bs)"
    by (auto simp: valid_utf8_def)
  from valid_slice_length [OF v] have "?n \<le> length bs" by simp
  then show ?case using "2.IH" [OF r] by simp
qed simp

lemma valid_utf8_append [intro]: "valid_utf8 xs \<Longrightarrow> valid_utf8 ys \<Longrightarrow> valid_utf8 (xs @ ys)"
  by (simp add: valid_utf8_def char_slices_append)

lemma valid_utf8_append_left:
  "valid_utf8 xs \<Longrightarrow> valid_utf8 (xs @ ys) \<longleftrightarrow> valid_utf8 ys"
  by (simp add: valid_utf8_def char_slices_append)

lemma chars_append: "valid_utf8 xs \<Longrightarrow> chars (xs @ ys) = chars xs @ chars ys"
  by (simp add: chars_def char_slices_append)

lemma valid_utf8_concat: "list_all valid_slice ss \<Longrightarrow> valid_utf8 (concat ss) \<and> char_slices (concat ss) = ss"
proof (induction ss)
  case (Cons s ss)
  then have "valid_utf8 s" by (simp add: valid_utf8_def char_slices_single)
  with Cons show ?case
    by (auto simp: valid_utf8_append_left char_slices_append char_slices_single)
qed simp

lemma valid_utf8_is_ascii: "is_ascii_str s \<Longrightarrow> valid_utf8 s"
  by (induction s) (auto simp: is_ascii_str_def)

lemma char_slices_is_ascii: "is_ascii_str s \<Longrightarrow> char_slices s = map (\<lambda>c. [c]) s"
  by (induction s) (auto simp: is_ascii_str_def)

lemma chars_is_ascii: "is_ascii_str s \<Longrightarrow> chars s = map bval s"
  by (simp add: chars_def char_slices_is_ascii)

lemma is_ascii_str_append [simp]: "is_ascii_str (s @ t) \<longleftrightarrow> is_ascii_str s \<and> is_ascii_str t"
  by (simp add: is_ascii_str_def)

text \<open>
  An ASCII byte of a valid string is a character of its own: the continuation and lead bytes of
  longer encodings are all at least 128.
\<close>

lemma valid_slice_ascii_mem:
  "valid_slice s \<Longrightarrow> c \<in> set s \<Longrightarrow> is_ascii_byte c \<Longrightarrow> s = [c]"
  by (cases s rule: valid_slice.cases) (auto simp: is_cont_def is_ascii_byte_def)

lemma ascii_byte_is_char:
  assumes "valid_utf8 s" "c \<in> set s" "is_ascii_byte c"
  shows "bval c \<in> set (chars s)"
proof -
  have "c \<in> set (concat (char_slices s))" using assms(2) by simp
  then obtain sl where sl: "sl \<in> set (char_slices s)" "c \<in> set sl"
    by (auto simp del: concat_char_slices)
  with assms have "sl = [c]"
    by (auto simp: valid_utf8_def list_all_iff intro: valid_slice_ascii_mem)
  with sl show ?thesis by (force simp: chars_def)
qed

lemma no_control_bytes:
  assumes "valid_utf8 s" "\<forall>x \<in> set (chars s). \<not> is_control x" "c \<in> set s"
  shows "\<not> is_ascii_control c"
  using ascii_byte_is_char [OF assms(1,3)] assms(2)
  by (auto simp: is_control_def is_ascii_control_def is_ascii_byte_def)

section \<open>Strings\<close>

definition starts_with :: "string \<Rightarrow> string \<Rightarrow> bool" where
  "starts_with s p \<longleftrightarrow> take (length p) s = p"

definition ends_with :: "string \<Rightarrow> string \<Rightarrow> bool" where
  "ends_with s p \<longleftrightarrow> length p \<le> length s \<and> drop (length s - length p) s = p"

text \<open>\<open>str::split\_once\<close> and \<open>str::rsplit\_once\<close> at an ASCII character.\<close>

fun split_once :: "char \<Rightarrow> string \<Rightarrow> (string \<times> string) option" where
  "split_once c [] = None"
| "split_once c (x # xs) =
     (if x = c then Some ([], xs)
      else map_option (\<lambda>(a, b). (x # a, b)) (split_once c xs))"

definition rsplit_once :: "char \<Rightarrow> string \<Rightarrow> (string \<times> string) option" where
  "rsplit_once c s = map_option (\<lambda>(a, b). (rev b, rev a)) (split_once c (rev s))"

text \<open>\<open>str::split\<close> at an ASCII character.\<close>

fun split_char :: "char \<Rightarrow> string \<Rightarrow> string list" where
  "split_char c [] = [[]]"
| "split_char c (x # xs) =
     (if x = c then [] # split_char c xs
      else (case split_char c xs of [] \<Rightarrow> [[x]] | y # ys \<Rightarrow> (x # y) # ys))"

text \<open>\<open>str::trim\<close>, \<open>trim\_start\<close>, \<open>trim\_end\<close>: white space by code point.\<close>

definition ws_slice :: "string \<Rightarrow> bool" where
  "ws_slice sl \<longleftrightarrow> is_whitespace (code_point sl)"

definition trim :: "string \<Rightarrow> string" where
  "trim s = concat (rev (dropWhile ws_slice (rev (dropWhile ws_slice (char_slices s)))))"

text \<open>\<open>str::replace\<close> of one ASCII character by a string, and of one string by another.\<close>

definition replace_char :: "char \<Rightarrow> string \<Rightarrow> string \<Rightarrow> string" where
  "replace_char c r s = concat (map (\<lambda>x. if x = c then r else [x]) s)"

function replace_str :: "string \<Rightarrow> string \<Rightarrow> string \<Rightarrow> string" where
  "replace_str p r [] = []"
| "replace_str p r (x # xs) =
     (if p \<noteq> [] \<and> starts_with (x # xs) p
      then r @ replace_str p r (drop (length p - 1) xs)
      else x # replace_str p r xs)"
  by pat_completeness auto
termination
  by (relation "measure (\<lambda>(p, r, s). length s)") auto

text \<open>
  \<open>str::lines\<close>: a line ends at a line feed, and a carriage return right before that line feed
  is dropped; a last line without a line feed is kept as it is.
\<close>

definition strip_cr :: "string \<Rightarrow> string" where
  "strip_cr l = (if l \<noteq> [] \<and> last l = CR then butlast l else l)"

fun lines :: "string \<Rightarrow> string list" where
  "lines s =
     (let ps = split_char LF s in
      map strip_cr (butlast ps) @ (if last ps = [] then [] else [last ps]))"

text \<open>\<open>str::parse::<u64>\<close> and the decimal rendering of an unsigned integer.\<close>

fun parse_digits :: "nat \<Rightarrow> string \<Rightarrow> nat option" where
  "parse_digits acc [] = Some acc"
| "parse_digits acc (c # cs) =
     (if is_ascii_digit c
      then (let acc' = acc * 10 + (bval c - 48)
            in if acc' < 2 ^ 64 then parse_digits acc' cs else None)
      else None)"

definition parse_u64 :: "string \<Rightarrow> nat option" where
  "parse_u64 s =
     (case s of
        [] \<Rightarrow> None
      | c # cs \<Rightarrow> if c = CHR ''+'' then (if cs = [] then None else parse_digits 0 cs)
                 else parse_digits 0 s)"

fun show_nat :: "nat \<Rightarrow> string" where
  "show_nat n =
     (if n < 10 then [char_of (48 + n)] else show_nat (n div 10) @ [char_of (48 + n mod 10)])"

declare show_nat.simps [simp del]

lemma starts_with_iff: "starts_with s p \<longleftrightarrow> (\<exists>t. s = p @ t)"
  by (metis append_eq_conv_conj append_take_drop_id starts_with_def)

lemma ends_with_iff: "ends_with s p \<longleftrightarrow> (\<exists>t. s = t @ p)"
  by (metis add_diff_cancel_right' append_eq_append_conv append_eq_conv_conj append_take_drop_id
      ends_with_def le_add2 length_append)

lemma split_once_Some:
  "split_once c s = Some (a, b) \<longleftrightarrow> s = a @ c # b \<and> c \<notin> set a"
proof (induction s arbitrary: a)
  case (Cons x xs)
  show ?case
  proof (cases a)
    case Nil
    then show ?thesis by auto
  next
    case (Cons y ys)
    then show ?thesis using Cons.IH [of ys] by auto
  qed
qed simp

lemma split_once_None: "split_once c s = None \<longleftrightarrow> c \<notin> set s"
  by (induction s) auto

lemma set_trim: "set (trim s) \<subseteq> set s"
proof -
  have "set (rev (dropWhile ws_slice (rev (dropWhile ws_slice (char_slices s))))) \<subseteq> set (char_slices s)"
    by (auto dest!: set_dropWhileD)
  then have "set (trim s) \<subseteq> set (concat (char_slices s))"
    unfolding trim_def by (auto simp del: concat_char_slices dest: subsetD)
  then show ?thesis by simp
qed

lemma valid_utf8_trim: "valid_utf8 s \<Longrightarrow> valid_utf8 (trim s)"
  unfolding trim_def valid_utf8_def
  by (rule valid_utf8_concat [THEN conjunct1, unfolded valid_utf8_def])
     (auto simp: list_all_iff dest!: set_dropWhileD)

lemma trim_chars_subset: "valid_utf8 s \<Longrightarrow> set (chars (trim s)) \<subseteq> set (chars s)"
proof -
  assume v: "valid_utf8 s"
  let ?ss = "rev (dropWhile ws_slice (rev (dropWhile ws_slice (char_slices s))))"
  have sub: "set ?ss \<subseteq> set (char_slices s)" by (auto dest!: set_dropWhileD)
  with v have "char_slices (concat ?ss) = ?ss"
    by (intro valid_utf8_concat [THEN conjunct2]) (auto simp: valid_utf8_def list_all_iff)
  with sub show ?thesis by (auto simp: trim_def chars_def)
qed

lemma set_replace_char: "set (replace_char c r s) \<subseteq> (set s - {c}) \<union> set r"
  by (auto simp: replace_char_def split: if_splits)

lemma parse_digits_bound: "parse_digits acc s = Some n \<Longrightarrow> acc < 2 ^ 64 \<Longrightarrow> n < 2 ^ 64"
  by (induction s arbitrary: acc) (auto simp: Let_def split: if_splits)

lemma parse_u64_bound: "parse_u64 s = Some n \<Longrightarrow> n < 2 ^ 64"
  using parse_digits_bound [of 0]
  by (auto simp: parse_u64_def simp del: parse_digits.simps split: list.splits if_splits)

lemma show_nat_digits: "c \<in> set (show_nat n) \<Longrightarrow> is_ascii_digit c"
proof (induction n rule: show_nat.induct)
  case (1 n)
  then show ?case
    by (subst (asm) show_nat.simps) (auto simp: is_ascii_digit_def split: if_splits)
qed

lemma show_nat_nonempty [simp]: "show_nat n \<noteq> []"
  by (subst show_nat.simps) simp

text \<open>Induction over the characters of a valid string: ASCII bytes and longer encodings.\<close>

lemma valid_slice_no_ascii:
  "valid_slice sl \<Longrightarrow> \<not> list_ex is_ascii_byte sl \<or> (\<exists>c. sl = [c] \<and> is_ascii_byte c)"
  unfolding list_ex_iff using valid_slice_ascii_mem by blast

lemma valid_utf8_cases:
  assumes "valid_utf8 s"
  obtains "s = []" | c r where "s = c # r" "is_ascii_byte c" "valid_utf8 r"
    | sl r where "s = sl @ r" "sl \<noteq> []" "valid_slice sl" "\<not> list_ex is_ascii_byte sl" "valid_utf8 r"
proof (cases s)
  case (Cons b bs)
  let ?sl = "b # take (utf8_len b - 1) bs" and ?r = "drop (utf8_len b - 1) bs"
  from assms Cons have v: "valid_slice ?sl" "valid_utf8 ?r" by (auto simp: valid_utf8_def)
  have s: "s = ?sl @ ?r" using Cons by simp
  from valid_slice_no_ascii [OF v(1)] show thesis
  proof
    assume "\<not> list_ex is_ascii_byte ?sl"
    then show thesis using that(3) [OF s _ v(1) _ v(2)] by simp
  next
    assume "\<exists>c. ?sl = [c] \<and> is_ascii_byte c"
    then obtain c where c: "?sl = [c]" "is_ascii_byte c" by blast
    from c(1) have "b = c" by simp
    with c(2) have "?r = bs" by simp
    with v(2) that(2) [of c bs] Cons c(2) \<open>b = c\<close> show thesis by simp
  qed
qed (rule that(1))

lemma valid_utf8_induct [consumes 1, case_names Nil Ascii Slice]:
  assumes "valid_utf8 s"
    and "P []"
    and "\<And>c r. is_ascii_byte c \<Longrightarrow> valid_utf8 r \<Longrightarrow> P r \<Longrightarrow> P (c # r)"
    and "\<And>sl r. valid_slice sl \<Longrightarrow> \<not> list_ex is_ascii_byte sl \<Longrightarrow> valid_utf8 r \<Longrightarrow> P r \<Longrightarrow> P (sl @ r)"
  shows "P s"
  using assms(1)
proof (induction "length s" arbitrary: s rule: less_induct)
  case less
  from less.prems show ?case
  proof (cases rule: valid_utf8_cases)
    case (3 sl r)
    then have "length r < length s" by (cases sl) auto
    with less.hyps 3 assms(4) show ?thesis by blast
  next
    case (2 c r)
    with less.hyps [of r] assms(3) show ?thesis by simp
  qed (use assms(2) in simp)
qed

lemma valid_slice_utf8: "valid_slice sl \<Longrightarrow> valid_utf8 sl"
  by (simp add: valid_utf8_def char_slices_single)

lemma replace_char_append: "replace_char c r (s @ t) = replace_char c r s @ replace_char c r t"
  by (simp add: replace_char_def)

lemma replace_char_absent: "c \<notin> set s \<Longrightarrow> replace_char c r s = s"
  by (induction s) (auto simp: replace_char_def)

lemma valid_utf8_replace_char:
  assumes "valid_utf8 s" "is_ascii_byte c" "valid_utf8 r"
  shows "valid_utf8 (replace_char c r s)"
  using assms(1)
proof (induction rule: valid_utf8_induct)
  case (Slice sl rest)
  then have "c \<notin> set sl" using assms(2) by (auto simp: list_ex_iff)
  with Slice show ?case by (auto simp: replace_char_append replace_char_absent intro: valid_slice_utf8)
qed (use assms(3) in \<open>auto simp: replace_char_def\<close>)

section \<open>Positions in a byte slice\<close>

text \<open>\<open>slice.get(i)\<close>, \<open>&slice[a..b]\<close>, the character at a byte offset, and
  \<open>slice[i..].iter().position(|b| *b == c)\<close> as an absolute offset.\<close>

definition get_at :: "'a list \<Rightarrow> nat \<Rightarrow> 'a option" where
  "get_at xs i = (if i < length xs then Some (xs ! i) else None)"

definition slice :: "nat \<Rightarrow> nat \<Rightarrow> 'a list \<Rightarrow> 'a list" where
  "slice a b xs = take (b - a) (drop a xs)"

definition char_at :: "string \<Rightarrow> nat \<Rightarrow> nat" where
  "char_at s i = (case char_slices (drop i s) of [] \<Rightarrow> 0 | c # _ \<Rightarrow> code_point c)"

definition position_from :: "char \<Rightarrow> string \<Rightarrow> nat \<Rightarrow> nat option" where
  "position_from c s i =
     (let k = i + length (takeWhile (\<lambda>x. x \<noteq> c) (drop i s)) in
      if k < length s then Some k else None)"

lemma get_at_Some: "get_at xs i = Some x \<longleftrightarrow> i < length xs \<and> xs ! i = x"
  by (auto simp: get_at_def)

lemma get_at_None: "get_at xs i = None \<longleftrightarrow> length xs \<le> i"
  by (auto simp: get_at_def)

lemma position_from_Some:
  assumes "position_from c s i = Some k"
  shows "i \<le> k \<and> k < length s \<and> s ! k = c"
proof -
  let ?t = "takeWhile (\<lambda>x. x \<noteq> c) (drop i s)"
  from assms have k: "k = i + length ?t" "k < length s"
    by (auto simp: position_from_def Let_def split: if_splits)
  then have "length ?t < length (drop i s)" by simp
  from nth_length_takeWhile [OF this] k show ?thesis by simp
qed

lemma set_slice: "set (slice a b xs) \<subseteq> set xs"
  unfolding slice_def by (meson order_trans set_drop_subset set_take_subset)

lemma length_slice: "b \<le> length xs \<Longrightarrow> length (slice a b xs) = b - a"
  by (simp add: slice_def)

end
