(* ===== verification/Lru_Cache.thy ===== *)
theory Lru_Cache
  imports Notm_Prelude "HOL-Library.Word"
begin

text \<open>
  The bounded least-recently-used cache of \<open>notm-ui/src/cache.rs\<close>, used for search pages
  (64 entries) and thread details (4096 entries).  The hash map is an association list with
  distinct keys: every operation of the source that iterates it (minimum, retain, collecting
  and sorting the stamps) does not depend on the iteration order.  Recency stamps are 64-bit
  words, and the rebase that keeps the counter from overflowing is modelled.  A failed
  \<open>expect\<close> or \<open>assert!\<close> is the value \<open>None\<close>.

  The specification is a list of key/value pairs, most recently used first; the main results
  say that every operation refines it and never panics.
\<close>

section \<open>State and operations\<close>

definition SEARCH_PAGE_CACHE_CAPACITY :: nat where
  "SEARCH_PAGE_CACHE_CAPACITY = 64"

definition THREAD_DETAIL_CACHE_CAPACITY :: nat where
  "THREAD_DETAIL_CACHE_CAPACITY = 4096"

record 'v cache_entry =
  ce_value :: 'v
  ce_last_used :: "64 word"

record ('k, 'v) lru_cache =
  lru_capacity :: nat
  lru_entries :: "('k \<times> 'v cache_entry) list"
  lru_recency :: "64 word"

definition stamp :: "'k \<times> 'v cache_entry \<Rightarrow> 64 word" where
  "stamp p = ce_last_used (snd p)"

definition checked_add_u64 :: "64 word \<Rightarrow> 64 word \<Rightarrow> 64 word option" where
  "checked_add_u64 a b = (if unat a + unat b < 2 ^ 64 then Some (a + b) else None)"

definition lru_new :: "nat \<Rightarrow> ('k, 'v) lru_cache option" where
  "lru_new capacity =
     (if 0 < capacity \<and> capacity < 2 ^ 64 - 1
      then Some \<lparr>lru_capacity = capacity, lru_entries = [], lru_recency = 0\<rparr>
      else None)"

text \<open>\<open>slice::binary\_search\<close> on a sorted duplicate-free slice: the position of the value.\<close>

fun binary_search :: "'a \<Rightarrow> 'a list \<Rightarrow> nat option" where
  "binary_search x [] = None"
| "binary_search x (y # ys) = (if x = y then Some 0 else map_option Suc (binary_search x ys))"

definition rebase_stamps :: "('k \<times> 'v cache_entry) list \<Rightarrow> 64 word list" where
  "rebase_stamps es = remdups (sort (map stamp es))"

fun rebase_entries ::
  "64 word list \<Rightarrow> ('k \<times> 'v cache_entry) list \<Rightarrow> ('k \<times> 'v cache_entry) list option" where
  "rebase_entries stamps [] = Some []"
| "rebase_entries stamps ((k, e) # es) =
     (case binary_search (ce_last_used e) stamps of
        None \<Rightarrow> None
      | Some i \<Rightarrow> map_option (\<lambda>es'. (k, e\<lparr>ce_last_used := of_nat (i + 1)\<rparr>) # es')
                   (rebase_entries stamps es))"

definition rebase_recency :: "('k, 'v) lru_cache \<Rightarrow> ('k, 'v) lru_cache option" where
  "rebase_recency c =
     (let stamps = rebase_stamps (lru_entries c) in
      map_option (\<lambda>es. c\<lparr>lru_entries := es, lru_recency := of_nat (length stamps)\<rparr>)
        (rebase_entries stamps (lru_entries c)))"

definition next_recency :: "('k, 'v) lru_cache \<Rightarrow> (('k, 'v) lru_cache \<times> 64 word) option" where
  "next_recency c =
     (case checked_add_u64 (lru_recency c) 1 of
        Some n \<Rightarrow> Some (c\<lparr>lru_recency := n\<rparr>, n)
      | None \<Rightarrow> Option.bind (rebase_recency c) (\<lambda>c'.
          Option.bind (checked_add_u64 (lru_recency c') 1) (\<lambda>n.
            Some (c'\<lparr>lru_recency := n\<rparr>, n))))"

definition update_entry ::
  "'k \<Rightarrow> ('v cache_entry \<Rightarrow> 'v cache_entry) \<Rightarrow> ('k \<times> 'v cache_entry) list
     \<Rightarrow> ('k \<times> 'v cache_entry) list" where
  "update_entry k f es = map (\<lambda>(k', e). if k' = k then (k', f e) else (k', e)) es"

definition lru_get :: "'k \<Rightarrow> ('k, 'v) lru_cache \<Rightarrow> (('k, 'v) lru_cache \<times> 'v option) option" where
  "lru_get k c =
     (if k \<notin> fst ` set (lru_entries c) then Some (c, None)
      else Option.bind (next_recency c) (\<lambda>(c', n).
        Option.bind (map_of (lru_entries c') k) (\<lambda>e.
          Some (c'\<lparr>lru_entries := update_entry k (\<lambda>e. e\<lparr>ce_last_used := n\<rparr>) (lru_entries c')\<rparr>,
                Some (ce_value e)))))"

definition evict_lru :: "('k, 'v) lru_cache \<Rightarrow> ('k, 'v) lru_cache" where
  "evict_lru c =
     (case map stamp (lru_entries c) of
        [] \<Rightarrow> c
      | s # ss \<Rightarrow>
          (let oldest = fold min ss s in
           c\<lparr>lru_entries := filter (\<lambda>p. stamp p \<noteq> oldest) (lru_entries c)\<rparr>))"

definition lru_insert ::
  "'k \<Rightarrow> 'v \<Rightarrow> ('k, 'v) lru_cache \<Rightarrow> (('k, 'v) lru_cache \<times> 'v option) option" where
  "lru_insert k v c =
     Option.bind (next_recency c) (\<lambda>(c', n).
       (case map_of (lru_entries c') k of
          Some e \<Rightarrow>
            Some (c'\<lparr>lru_entries :=
                       update_entry k (\<lambda>e. e\<lparr>ce_last_used := n, ce_value := v\<rparr>) (lru_entries c')\<rparr>,
                  Some (ce_value e))
        | None \<Rightarrow>
            (let c'' = (if length (lru_entries c') = lru_capacity c' then evict_lru c' else c') in
             Some (c''\<lparr>lru_entries :=
                        (k, \<lparr>ce_value = v, ce_last_used = n\<rparr>) # lru_entries c''\<rparr>, None))))"

definition lru_clear :: "('k, 'v) lru_cache \<Rightarrow> ('k, 'v) lru_cache" where
  "lru_clear c = c\<lparr>lru_entries := [], lru_recency := 0\<rparr>"

section \<open>Invariant and abstraction\<close>

definition lru_inv :: "('k, 'v) lru_cache \<Rightarrow> bool" where
  "lru_inv c \<longleftrightarrow>
     distinct (map fst (lru_entries c)) \<and> distinct (map stamp (lru_entries c)) \<and>
     (\<forall>p \<in> set (lru_entries c). stamp p \<le> lru_recency c) \<and>
     length (lru_entries c) \<le> lru_capacity c \<and> 0 < lru_capacity c \<and> lru_capacity c < 2 ^ 64 - 1"

definition by_age :: "('k \<times> 'v cache_entry) list \<Rightarrow> ('k \<times> 'v cache_entry) list" where
  "by_age es = sort_key stamp es"

definition strip_stamp :: "'k \<times> 'v cache_entry \<Rightarrow> 'k \<times> 'v" where
  "strip_stamp p = (fst p, ce_value (snd p))"

definition lru_abs :: "('k, 'v) lru_cache \<Rightarrow> ('k \<times> 'v) list" where
  "lru_abs c = rev (map strip_stamp (by_age (lru_entries c)))"

text \<open>The specification: a list of pairs, most recently used first.\<close>

definition spec_get :: "'k \<Rightarrow> ('k \<times> 'v) list \<Rightarrow> ('k \<times> 'v) list \<times> 'v option" where
  "spec_get k xs =
     (case map_of xs k of
        None \<Rightarrow> (xs, None)
      | Some v \<Rightarrow> ((k, v) # filter (\<lambda>p. fst p \<noteq> k) xs, Some v))"

definition spec_insert ::
  "nat \<Rightarrow> 'k \<Rightarrow> 'v \<Rightarrow> ('k \<times> 'v) list \<Rightarrow> ('k \<times> 'v) list \<times> 'v option" where
  "spec_insert cap k v xs =
     (case map_of xs k of
        Some v0 \<Rightarrow> ((k, v) # filter (\<lambda>p. fst p \<noteq> k) xs, Some v0)
      | None \<Rightarrow> ((k, v) # (if length xs = cap then butlast xs else xs), None))"

lemma checked_add_one: "checked_add_u64 a 1 = Some b \<Longrightarrow> b = a + 1 \<and> a < b"
  by (auto simp: checked_add_u64_def word_less_nat_alt unat_word_ariths split: if_splits)

lemma by_age_unique:
  assumes "mset es = mset ys" "distinct (map stamp es)" "sorted (map stamp ys)"
  shows "by_age es = ys"
  unfolding by_age_def
  using assms by (intro sort_key_inj_key_eq) (auto simp: distinct_map)

lemma mset_by_age [simp]: "mset (by_age es) = mset es"
  by (simp add: by_age_def)

lemma set_by_age [simp]: "set (by_age es) = set es"
  by (simp add: by_age_def)

lemma length_by_age [simp]: "length (by_age es) = length es"
  by (simp add: by_age_def)

lemma sorted_by_age: "sorted (map stamp (by_age es))"
  by (simp add: by_age_def)

lemma filter_by_age: "filter P (by_age es) = by_age (filter P es)"
  by (simp add: by_age_def filter_sort)

lemma by_age_newest:
  assumes "mset es' = add_mset p (mset es)" "distinct (map stamp es)"
    and "\<forall>q \<in> set es. stamp q < stamp p"
  shows "by_age es' = by_age es @ [p]"
proof (rule by_age_unique)
  show "mset es' = mset (by_age es @ [p])" using assms(1) by simp
  have "mset (map stamp es') = add_mset (stamp p) (mset (map stamp es))"
    using assms(1) by (metis image_mset_add_mset mset_map)
  moreover have "stamp p \<notin> set (map stamp es)" using assms(3) by auto
  ultimately show "distinct (map stamp es')"
    using assms(2) by (metis distinct.simps(2) mset.simps(2) mset_eq_imp_distinct_iff)
  show "sorted (map stamp (by_age es @ [p]))"
    using assms(3) sorted_by_age [of es] by (auto simp: sorted_append less_imp_le)
qed

section \<open>Operations on the entries\<close>

lemma binary_search_Some:
  "x \<in> set ys \<Longrightarrow> \<exists>i. binary_search x ys = Some i \<and> i < length ys \<and> ys ! i = x"
proof (induction ys)
  case (Cons y ys)
  then show ?case
  proof (cases "x = y")
    case False
    with Cons obtain i where "binary_search x ys = Some i" "i < length ys" "ys ! i = x" by auto
    with False show ?thesis by (intro exI [of _ "Suc i"]) simp
  qed simp
qed simp

definition rank_entry :: "64 word list \<Rightarrow> 'k \<times> 'v cache_entry \<Rightarrow> 'k \<times> 'v cache_entry" where
  "rank_entry stamps p =
     (fst p, (snd p)\<lparr>ce_last_used := of_nat (the (binary_search (stamp p) stamps) + 1)\<rparr>)"

lemma rank_entry_simps [simp]:
  "fst (rank_entry ss p) = fst p" "strip_stamp (rank_entry ss p) = strip_stamp p"
  by (simp_all add: rank_entry_def strip_stamp_def)

lemma rebase_entries_Some:
  "set (map stamp es) \<subseteq> set ss \<Longrightarrow> rebase_entries ss es = Some (map (rank_entry ss) es)"
proof (induction es)
  case (Cons p es)
  obtain k e where p: "p = (k, e)" by force
  from Cons.prems have "ce_last_used e \<in> set ss" by (simp add: p stamp_def)
  from binary_search_Some [OF this] obtain i where "binary_search (ce_last_used e) ss = Some i"
    by blast
  with Cons show ?case by (simp add: p rank_entry_def stamp_def)
qed simp

lemma rebase_stamps_facts:
  "sorted (rebase_stamps es)" "distinct (rebase_stamps es)"
  "set (rebase_stamps es) = set (map stamp es)" "length (rebase_stamps es) \<le> length es"
  using length_remdups_leq [of "sort (map stamp es)"]
  by (auto simp: rebase_stamps_def sorted_remdups)

lemma rank_stamp:
  assumes "length ss < 2 ^ 64" "stamp p \<in> set ss"
  shows "\<exists>i < length ss. ss ! i = stamp p \<and> unat (stamp (rank_entry ss p)) = i + 1"
proof -
  from binary_search_Some [OF assms(2)] obtain i
    where i: "binary_search (stamp p) ss = Some i" "i < length ss" "ss ! i = stamp p" by blast
  with assms(1) have "i + 1 < 2 ^ LENGTH(64)" by simp
  with i have "unat (stamp (rank_entry ss p)) = i + 1"
    by (simp add: rank_entry_def stamp_def unat_of_nat del: of_nat_Suc)
  with i show ?thesis by blast
qed

lemma rank_mono:
  assumes ss: "length ss < 2 ^ 64" "sorted ss" "distinct ss"
    and "stamp p \<in> set ss" "stamp q \<in> set ss" "stamp p < stamp q"
  shows "stamp (rank_entry ss p) < stamp (rank_entry ss q)"
proof -
  obtain i j where ij: "i < length ss" "ss ! i = stamp p" "unat (stamp (rank_entry ss p)) = i + 1"
      "j < length ss" "ss ! j = stamp q" "unat (stamp (rank_entry ss q)) = j + 1"
    using rank_stamp [OF ss(1)] assms(4,5) by metis
  have "i < j"
  proof (rule ccontr)
    assume "\<not> i < j"
    with ij have "ss ! j \<le> ss ! i" by (intro sorted_nth_mono [OF ss(2)]) simp_all
    with ij assms(6) show False by simp
  qed
  with ij show ?thesis by (simp add: word_less_nat_alt)
qed

lemma rank_distinct:
  assumes ss: "length ss < 2 ^ 64" "sorted ss" "distinct ss"
    and es: "set (map stamp es) \<subseteq> set ss" "distinct (map stamp es)"
  shows "distinct (map stamp (map (rank_entry ss) es))"
proof -
  have "inj_on (stamp \<circ> rank_entry ss) (set es)"
  proof (rule inj_onI)
    fix p q assume pq: "p \<in> set es" "q \<in> set es" "(stamp \<circ> rank_entry ss) p = (stamp \<circ> rank_entry ss) q"
    with es have "stamp p \<in> set ss" "stamp q \<in> set ss" by auto
    with pq(3) rank_mono [OF ss, of p q] rank_mono [OF ss, of q p] have "stamp p = stamp q"
      by (metis comp_apply less_irrefl linorder_cases)
    with pq es(2) show "p = q" by (auto simp: distinct_map inj_on_def)
  qed
  with es(2) show ?thesis by (simp add: distinct_map)
qed

lemma by_age_rank:
  assumes ss: "length ss < 2 ^ 64" "sorted ss" "distinct ss"
    and es: "set (map stamp es) \<subseteq> set ss" "distinct (map stamp es)"
  shows "by_age (map (rank_entry ss) es) = map (rank_entry ss) (by_age es)"
proof (rule by_age_unique)
  show "mset (map (rank_entry ss) es) = mset (map (rank_entry ss) (by_age es))"
    by (metis mset_by_age mset_map)
  show "distinct (map stamp (map (rank_entry ss) es))" by (rule rank_distinct [OF ss es])
  have "distinct (map stamp (by_age es))"
    using es(2) by (metis mset_by_age mset_map mset_eq_imp_distinct_iff)
  then have "sorted_wrt (<) (map stamp (by_age es))"
    using sorted_by_age [of es] by (simp add: strict_sorted_iff)
  then have "sorted_wrt (\<lambda>p q. stamp p < stamp q) (by_age es)"
    by (simp add: sorted_wrt_map)
  then have "sorted_wrt (\<lambda>p q. stamp (rank_entry ss p) \<le> stamp (rank_entry ss q)) (by_age es)"
    by (rule sorted_wrt_mono_rel [rotated])
       (use es(1) in \<open>auto intro!: less_imp_le rank_mono [OF ss]\<close>)
  then show "sorted (map stamp (map (rank_entry ss) (by_age es)))"
    by (simp add: sorted_wrt_map)
qed

text \<open>
  Advancing the counter never panics; it keeps the contents and their order, and the new stamp
  is larger than every stamp in the cache, also on the path that rebases the stamps.
\<close>

lemma next_recency_plain:
  assumes "lru_inv c" "checked_add_u64 (lru_recency c) 1 = Some n"
  shows "\<forall>p \<in> set (lru_entries c). stamp p < n"
  using assms checked_add_one [OF assms(2)] by (auto simp: lru_inv_def intro: le_less_trans)

lemma next_recency_rebase:
  assumes inv: "lru_inv c"
  shows "\<exists>c' n. rebase_recency c = Some c' \<and> checked_add_u64 (lru_recency c') 1 = Some n \<and>
     lru_inv c' \<and> lru_abs c' = lru_abs c \<and> lru_capacity c' = lru_capacity c \<and>
     map fst (lru_entries c') = map fst (lru_entries c)"
proof -
  let ?es = "lru_entries c" and ?ss = "rebase_stamps (lru_entries c)"
  note ss = rebase_stamps_facts [of ?es]
  from inv have es: "distinct (map stamp ?es)" "distinct (map fst ?es)"
    and cap: "length ?es \<le> lru_capacity c" "0 < lru_capacity c" "lru_capacity c < 2 ^ 64 - 1"
    by (auto simp: lru_inv_def)
  from ss(4) cap have len: "length ?ss < 2 ^ 64" "length ?ss + 1 < 2 ^ 64" by auto
  have sub: "set (map stamp ?es) \<subseteq> set ?ss" by (simp add: ss(3))
  let ?c = "c\<lparr>lru_entries := map (rank_entry ?ss) ?es, lru_recency := of_nat (length ?ss)\<rparr>"
  from rebase_entries_Some [OF sub] have r: "rebase_recency c = Some ?c"
    by (simp add: rebase_recency_def Let_def)
  from len have u: "unat (of_nat (length ?ss) :: 64 word) = length ?ss"
    by (simp add: unat_of_nat)
  have "stamp (rank_entry ?ss p) \<le> of_nat (length ?ss)" if "p \<in> set ?es" for p
    using rank_stamp [OF len(1), of p] sub that u by (force simp: word_le_nat_alt)
  with rank_distinct [OF len(1) ss(1,2) sub es(1)] es(2) cap have i: "lru_inv ?c"
    by (auto simp: lru_inv_def comp_def)
  have a: "lru_abs ?c = lru_abs c"
    by (simp add: lru_abs_def by_age_rank [OF len(1) ss(1,2) sub es(1)] comp_def)
  have "\<exists>n. checked_add_u64 (lru_recency ?c) 1 = Some n"
    using len u by (simp add: checked_add_u64_def)
  with r i a show ?thesis by (auto simp: comp_def)
qed

lemma lru_inv_recency:
  assumes "lru_inv c" "\<forall>p \<in> set (lru_entries c). stamp p < n"
  shows "lru_inv (c\<lparr>lru_recency := n\<rparr>)"
  using assms by (auto simp: lru_inv_def less_imp_le)

lemma next_recency_ok:
  assumes inv: "lru_inv c"
  obtains c' n where "next_recency c = Some (c', n)" "lru_inv c'" "lru_recency c' = n"
    "\<forall>p \<in> set (lru_entries c'). stamp p < n" "lru_abs c' = lru_abs c"
    "lru_capacity c' = lru_capacity c" "map fst (lru_entries c') = map fst (lru_entries c)"
proof (cases "checked_add_u64 (lru_recency c) 1")
  case (Some n)
  have lt: "\<forall>p \<in> set (lru_entries c). stamp p < n" by (rule next_recency_plain [OF inv Some])
  show ?thesis
    by (rule that [of "c\<lparr>lru_recency := n\<rparr>" n])
       (use Some lt in \<open>auto simp: next_recency_def lru_abs_def intro: lru_inv_recency [OF inv]\<close>)
next
  case None
  from next_recency_rebase [OF inv] obtain c' n
    where c': "rebase_recency c = Some c'" "checked_add_u64 (lru_recency c') 1 = Some n"
      "lru_inv c'" "lru_abs c' = lru_abs c" "lru_capacity c' = lru_capacity c"
      "map fst (lru_entries c') = map fst (lru_entries c)" by blast
  have lt: "\<forall>p \<in> set (lru_entries c'). stamp p < n" by (rule next_recency_plain [OF c'(3,2)])
  show ?thesis
    by (rule that [of "c'\<lparr>lru_recency := n\<rparr>" n])
       (use None c' lt in \<open>auto simp: next_recency_def lru_abs_def intro: lru_inv_recency\<close>)
qed

text \<open>Looking up a key in the abstraction and in the entries agree.\<close>

lemma map_of_strip:
  "distinct (map fst es) \<Longrightarrow> map_of (map strip_stamp es) k = map_option ce_value (map_of es k)"
  by (induction es) (auto simp: strip_stamp_def)

lemma map_of_by_age:
  assumes "distinct (map fst es)"
  shows "map_of (by_age es) = map_of es"
proof -
  have "mset (map fst (by_age es)) = mset (map fst es)" by (metis mset_by_age mset_map)
  then have "distinct (map fst (by_age es))" using assms by (metis mset_eq_imp_distinct_iff)
  with assms show ?thesis by (metis map_of_inject_set set_by_age)
qed

lemma distinct_by_age: "distinct (map fst es) \<Longrightarrow> distinct (map fst (by_age es))"
  by (metis mset_by_age mset_eq_imp_distinct_iff mset_map)

lemma map_of_rev_distinct: "distinct (map fst xs) \<Longrightarrow> map_of (rev xs) = map_of xs"
  by (metis distinct_rev map_of_inject_set rev_map set_rev)

lemma map_of_lru_abs:
  assumes "lru_inv c"
  shows "map_of (lru_abs c) k = map_option ce_value (map_of (lru_entries c) k)"
proof -
  from assms have d: "distinct (map fst (lru_entries c))" by (simp add: lru_inv_def)
  have "map fst (map strip_stamp xs) = map fst xs" for xs :: "('a \<times> 'b cache_entry) list"
    by (simp add: strip_stamp_def)
  with distinct_by_age [OF d] show ?thesis
    by (simp add: lru_abs_def map_of_rev_distinct map_of_strip map_of_by_age d del: map_map)
qed

lemma length_lru_abs [simp]: "length (lru_abs c) = length (lru_entries c)"
  by (simp add: lru_abs_def)

lemma filter_strip:
  "filter (\<lambda>p. fst p \<noteq> k) (map strip_stamp xs) = map strip_stamp (filter (\<lambda>p. fst p \<noteq> k) xs)"
  by (simp add: filter_map comp_def strip_stamp_def)

text \<open>Touching an entry moves it to the front; adding one puts it there.\<close>

lemma mset_update_entry:
  assumes "distinct (map fst es)" "map_of es k = Some e"
  shows "mset (update_entry k f es) = add_mset (k, f e) (mset (filter (\<lambda>p. fst p \<noteq> k) es))"
  using assms
proof (induction es)
  case (Cons p es)
  obtain k' e' where p: "p = (k', e')" by force
  show ?case
  proof (cases "k' = k")
    case True
    with Cons.prems p have "k \<notin> fst ` set es" by auto
    then have "update_entry k f es = es" "filter (\<lambda>p. fst p \<noteq> k) es = es"
      by (force simp: update_entry_def filter_id_conv intro: map_idI)+
    with True p Cons.prems show ?thesis by (simp add: update_entry_def)
  next
    case False
    with Cons p show ?thesis by (simp add: update_entry_def)
  qed
qed simp

lemma map_fst_update_entry [simp]: "map fst (update_entry k f es) = map fst es"
  by (auto simp: update_entry_def)

lemma distinct_filter_stamps:
  "distinct (map stamp es) \<Longrightarrow> distinct (map stamp (filter P es))"
  by (simp add: distinct_map_filter)

lemma lru_abs_newest:
  assumes es: "distinct (map stamp es)" and lt: "\<forall>p \<in> set es. stamp p < stamp q"
    and m: "mset (lru_entries c) = add_mset q (mset es)"
  shows "lru_abs c = strip_stamp q # rev (map strip_stamp (by_age es))"
  by (simp add: lru_abs_def by_age_newest [OF m es lt])

lemma distinct_stamps_add:
  assumes "mset es' = add_mset q (mset es)" "distinct (map stamp es)" "\<forall>p \<in> set es. stamp p < stamp q"
  shows "distinct (map stamp es')"
proof -
  have "mset (map stamp es') = mset (stamp q # map stamp es)"
    using assms(1) by (metis image_mset_add_mset mset.simps(2) mset_map)
  moreover have "distinct (stamp q # map stamp es)" using assms(2,3) by auto
  ultimately show ?thesis by (metis mset_eq_imp_distinct_iff)
qed

lemma touch_entry:
  assumes inv: "lru_inv c" and lt: "\<forall>p \<in> set (lru_entries c). stamp p < n"
    and rec: "lru_recency c = n" and e: "map_of (lru_entries c) k = Some e"
    and f: "ce_last_used (f e) = n"
  shows "lru_inv (c\<lparr>lru_entries := update_entry k f (lru_entries c)\<rparr>) \<and>
     lru_abs (c\<lparr>lru_entries := update_entry k f (lru_entries c)\<rparr>) =
       (k, ce_value (f e)) # filter (\<lambda>p. fst p \<noteq> k) (lru_abs c)"
proof -
  let ?es = "filter (\<lambda>p. fst p \<noteq> k) (lru_entries c)" and ?q = "(k, f e)"
  let ?c = "c\<lparr>lru_entries := update_entry k f (lru_entries c)\<rparr>"
  from inv have d: "distinct (map fst (lru_entries c))" "distinct (map stamp ?es)"
    by (auto simp: lru_inv_def distinct_filter_stamps)
  have m: "mset (lru_entries ?c) = add_mset ?q (mset ?es)"
    using mset_update_entry [OF d(1) e] by simp
  have lt': "\<forall>p \<in> set ?es. stamp p < stamp ?q" using lt f by (auto simp: stamp_def)
  have "stamp ?q \<le> n" using f by (simp add: stamp_def)
  moreover have "set (lru_entries ?c) = insert ?q (set ?es)"
    using m by (metis set_mset_add_mset_insert set_mset_mset)
  moreover have "length (lru_entries ?c) = length (lru_entries c)"
    by (simp add: update_entry_def)
  ultimately have "lru_inv ?c"
    using inv rec distinct_stamps_add [OF m d(2) lt'] by (auto simp: lru_inv_def)
  moreover have "lru_abs ?c = (k, ce_value (f e)) # filter (\<lambda>p. fst p \<noteq> k) (lru_abs c)"
    using lru_abs_newest [OF d(2) lt' m]
    by (simp add: strip_stamp_def lru_abs_def rev_filter [symmetric] filter_strip filter_by_age
        del: filter_map)
  ultimately show ?thesis by blast
qed

text \<open>Eviction removes exactly the least recently used pair.\<close>

lemma fold_min_Min: "fold min ss s = Min (set (s # ss))" for s :: "'a::linorder"
  by (metis Min.set_eq_fold)

lemma evict_abs:
  assumes inv: "lru_inv c" and ne: "lru_entries c \<noteq> []"
  shows "by_age (lru_entries (evict_lru c)) = tl (by_age (lru_entries c))"
proof -
  let ?es = "lru_entries c"
  obtain p ps where b: "by_age ?es = p # ps"
    using ne by (metis length_0_conv length_by_age neq_Nil_conv)
  have sd: "sorted_wrt (<) (map stamp (by_age ?es))"
    using inv sorted_by_age [of ?es]
    by (metis lru_inv_def mset_by_age mset_eq_imp_distinct_iff mset_map strict_sorted_iff)
  then have lt: "\<forall>q \<in> set ps. stamp p < stamp q" by (simp add: b)
  obtain x xs where es: "map stamp ?es = x # xs" using ne by (cases ?es) auto
  have "set (x # xs) = set (map stamp (by_age ?es))" using es by (metis set_by_age set_map)
  moreover have "Min (set (map stamp (by_age ?es))) = stamp p"
    by (rule Min_eqI) (use lt in \<open>auto simp: b less_imp_le\<close>)
  ultimately have "Min (set (x # xs)) = stamp p" by simp
  then have "lru_entries (evict_lru c) = filter (\<lambda>q. stamp q \<noteq> stamp p) ?es"
    by (simp add: evict_lru_def es Let_def fold_min_Min del: set_simps)
  then have "by_age (lru_entries (evict_lru c)) = filter (\<lambda>q. stamp q \<noteq> stamp p) (p # ps)"
    by (metis b filter_by_age)
  moreover have "filter (\<lambda>q. stamp q \<noteq> stamp p) ps = ps"
    using lt by (auto simp: filter_id_conv)
  ultimately show ?thesis by (simp add: b)
qed

lemma evict_lru_frame [simp]:
  "lru_capacity (evict_lru c) = lru_capacity c" "lru_recency (evict_lru c) = lru_recency c"
  by (simp_all add: evict_lru_def Let_def split: list.split)

lemma evict_filter: "\<exists>P. lru_entries (evict_lru c) = filter P (lru_entries c)"
proof (cases "map stamp (lru_entries c)")
  case Nil
  then have "lru_entries (evict_lru c) = filter (\<lambda>_. True) (lru_entries c)"
    by (simp add: evict_lru_def)
  then show ?thesis by blast
next
  case (Cons s ss)
  then show ?thesis by (auto simp: evict_lru_def Let_def)
qed

lemma evict_inv:
  assumes inv: "lru_inv c"
  shows "lru_inv (evict_lru c)"
proof -
  from evict_filter obtain P where "lru_entries (evict_lru c) = filter P (lru_entries c)" by blast
  moreover have "length (filter P (lru_entries c)) \<le> lru_capacity c"
    by (rule order_trans [OF length_filter_le]) (use inv in \<open>simp add: lru_inv_def\<close>)
  ultimately show ?thesis
    using inv by (auto simp: lru_inv_def distinct_map_filter)
qed

section \<open>Refinement of the specification\<close>

lemma lru_new_inv:
  "lru_new capacity = Some c \<Longrightarrow> lru_inv c \<and> lru_abs c = [] \<and> lru_capacity c = capacity"
  by (auto simp: lru_new_def lru_inv_def lru_abs_def by_age_def split: if_splits)

lemma lru_clear_inv: "lru_inv c \<Longrightarrow> lru_inv (lru_clear c) \<and> lru_abs (lru_clear c) = []"
  by (auto simp: lru_clear_def lru_inv_def lru_abs_def by_age_def)

lemma lru_get_refines:
  assumes inv: "lru_inv c"
  shows "\<exists>c' r. lru_get k c = Some (c', r) \<and> lru_inv c' \<and> lru_capacity c' = lru_capacity c \<and>
     (lru_abs c', r) = spec_get k (lru_abs c)"
proof (cases "map_of (lru_entries c) k")
  case None
  then have "k \<notin> fst ` set (lru_entries c)" by (simp add: map_of_eq_None_iff)
  with None inv show ?thesis by (auto simp: lru_get_def spec_get_def map_of_lru_abs)
next
  case (Some e0)
  then have k: "k \<in> fst ` set (lru_entries c)" by (metis map_of_eq_None_iff option.distinct(1))
  obtain c1 n where c1: "next_recency c = Some (c1, n)" "lru_inv c1" "lru_recency c1 = n"
      "\<forall>p \<in> set (lru_entries c1). stamp p < n" "lru_abs c1 = lru_abs c"
      "lru_capacity c1 = lru_capacity c" "map fst (lru_entries c1) = map fst (lru_entries c)"
    by (rule next_recency_ok [OF inv])
  from c1(7) k have "k \<in> fst ` set (lru_entries c1)" by (metis list.set_map)
  then obtain e where e: "map_of (lru_entries c1) k = Some e"
    by (metis map_of_eq_None_iff not_None_eq)
  let ?f = "\<lambda>e. e\<lparr>ce_last_used := n\<rparr>"
  note t = touch_entry [OF c1(2,4,3) e, of ?f]
  have "map_of (lru_abs c) k = Some (ce_value e)"
    using map_of_lru_abs [OF c1(2), of k] c1(5) e by simp
  with t c1 k e show ?thesis
    by (simp add: lru_get_def spec_get_def)
qed

lemma lru_insert_refines:
  assumes inv: "lru_inv c"
  shows "\<exists>c' r. lru_insert k v c = Some (c', r) \<and> lru_inv c' \<and> lru_capacity c' = lru_capacity c \<and>
     (lru_abs c', r) = spec_insert (lru_capacity c) k v (lru_abs c)"
proof -
  obtain c1 n where c1: "next_recency c = Some (c1, n)" "lru_inv c1" "lru_recency c1 = n"
      "\<forall>p \<in> set (lru_entries c1). stamp p < n" "lru_abs c1 = lru_abs c"
      "lru_capacity c1 = lru_capacity c" "map fst (lru_entries c1) = map fst (lru_entries c)"
    by (rule next_recency_ok [OF inv])
  show ?thesis
  proof (cases "map_of (lru_entries c1) k")
    case (Some e)
    have "map_of (lru_abs c) k = Some (ce_value e)"
      using map_of_lru_abs [OF c1(2), of k] c1(5) Some by simp
    with touch_entry [OF c1(2,4,3) Some, of "\<lambda>e. e\<lparr>ce_last_used := n, ce_value := v\<rparr>"] c1 Some
    show ?thesis by (simp add: lru_insert_def spec_insert_def)
  next
    case None
    let ?full = "length (lru_entries c1) = lru_capacity c1"
    define c2 where "c2 = (if ?full then evict_lru c1 else c1)"
    let ?q = "(k, \<lparr>ce_value = v, ce_last_used = n\<rparr>)"
    let ?c = "c2\<lparr>lru_entries := ?q # lru_entries c2\<rparr>"
    have k: "k \<notin> fst ` set (lru_entries c1)" using None by (simp add: map_of_eq_None_iff)
    have sub: "set (lru_entries c2) \<subseteq> set (lru_entries c1)"
      using evict_filter [of c1] by (auto simp: c2_def)
    have inv2: "lru_inv c2" using c1(2) by (simp add: c2_def evict_inv)
    have fr: "lru_capacity c2 = lru_capacity c" "lru_recency c2 = n" using c1 by (simp_all add: c2_def)
    have ab: "lru_abs c2 = (if ?full then butlast (lru_abs c) else lru_abs c)"
    proof (cases ?full)
      case True
      with c1(2) have "lru_entries c1 \<noteq> []" by (auto simp: lru_inv_def)
      with True c1(5) evict_abs [OF c1(2)] show ?thesis
        by (simp add: c2_def lru_abs_def) (metis butlast_rev map_tl rev_map)
    qed (simp add: c2_def c1)
    have len: "length (lru_entries c2) < lru_capacity c"
    proof (cases ?full)
      case True
      then have "length (lru_abs c2) = length (lru_abs c1) - 1" using ab c1(5) by simp
      with True c1(2,6) show ?thesis by (auto simp: lru_inv_def)
    qed (use c1(2,6) in \<open>auto simp: c2_def lru_inv_def\<close>)
    have lt: "\<forall>p \<in> set (lru_entries c2). stamp p < stamp ?q"
      using c1(4) sub by (auto simp: stamp_def)
    have d: "distinct (map stamp (lru_entries c2))" using inv2 by (simp add: lru_inv_def)
    have "lru_abs ?c = (k, v) # lru_abs c2"
      using lru_abs_newest [OF d lt, of ?c] by (simp add: strip_stamp_def lru_abs_def)
    moreover have "lru_inv ?c"
      using inv2 fr k sub lt len by (auto simp: lru_inv_def stamp_def)
    moreover have "map_of (lru_abs c) k = None"
      using map_of_lru_abs [OF c1(2), of k] c1(5) None by simp
    moreover have "?full = (length (lru_abs c) = lru_capacity c)"
      using c1 by (metis length_lru_abs)
    ultimately show ?thesis
      using c1 fr ab None by (simp add: lru_insert_def spec_insert_def c2_def Let_def)
  qed
qed

section \<open>Runs of operations\<close>

datatype ('k, 'v) cache_op = OpGet (op_key: 'k) | OpInsert (op_key: 'k) 'v

fun spec_step :: "nat \<Rightarrow> ('k, 'v) cache_op \<Rightarrow> ('k \<times> 'v) list \<Rightarrow> ('k \<times> 'v) list \<times> 'v option" where
  "spec_step cap (OpGet k) xs = spec_get k xs"
| "spec_step cap (OpInsert k v) xs = spec_insert cap k v xs"

fun spec_run :: "nat \<Rightarrow> ('k, 'v) cache_op list \<Rightarrow> ('k \<times> 'v) list \<Rightarrow> ('k \<times> 'v) list \<times> 'v option list" where
  "spec_run cap [] xs = (xs, [])"
| "spec_run cap (op # ops) xs =
     (let (xs', r) = spec_step cap op xs; (xs'', rs) = spec_run cap ops xs' in (xs'', r # rs))"

fun lru_step :: "('k, 'v) cache_op \<Rightarrow> ('k, 'v) lru_cache \<Rightarrow> (('k, 'v) lru_cache \<times> 'v option) option" where
  "lru_step (OpGet k) c = lru_get k c"
| "lru_step (OpInsert k v) c = lru_insert k v c"

fun run_ops :: "('op \<Rightarrow> 'c \<Rightarrow> ('c \<times> 'r) option) \<Rightarrow> 'op list \<Rightarrow> 'c \<Rightarrow> ('c \<times> 'r list) option" where
  "run_ops step [] c = Some (c, [])"
| "run_ops step (op # ops) c =
     Option.bind (step op c) (\<lambda>(c', r).
       map_option (\<lambda>(c'', rs). (c'', r # rs)) (run_ops step ops c'))"

lemma fst_spec_run_Cons:
  "fst (spec_run cap (op # ops) xs) = fst (spec_run cap ops (fst (spec_step cap op xs)))"
  by (simp add: case_prod_beta Let_def)

lemma distinct_keys_filter: "distinct (map fst xs) \<Longrightarrow> distinct (map fst (filter P xs))"
  by (simp add: distinct_map_filter)

lemma distinct_keys_butlast: "distinct (map fst xs) \<Longrightarrow> distinct (map fst (butlast xs))"
  by (metis distinct_butlast map_butlast)

lemma fst_set_butlast: "k \<notin> fst ` set xs \<Longrightarrow> k \<notin> fst ` set (butlast xs)"
  by (auto dest: in_set_butlastD)

lemma spec_step_shape:
  assumes "distinct (map fst xs)" "length xs \<le> cap" "0 < cap"
  shows "distinct (map fst (fst (spec_step cap op xs))) \<and> length (fst (spec_step cap op xs)) \<le> cap"
proof (cases "map_of xs (op_key op)")
  case None
  then have "op_key op \<notin> fst ` set xs" by (simp add: map_of_eq_None_iff)
  with None assms show ?thesis
    by (cases op) (auto simp: spec_get_def spec_insert_def distinct_keys_butlast
        dest: fst_set_butlast [THEN notE] in_set_butlastD)
next
  case (Some v)
  then have "length (filter (\<lambda>p. fst p \<noteq> op_key op) xs) < length xs"
    by (intro length_filter_less [of "(op_key op, v)"]) (auto dest: map_of_SomeD)
  with Some assms show ?thesis
    by (cases op) (auto simp: spec_get_def spec_insert_def distinct_keys_filter)
qed

text \<open>
  The contract a cache offers its clients: totality, refinement of the list specification, and
  a capacity that does not change.
\<close>

locale lru_store =
  fixes step :: "('k, 'v) cache_op \<Rightarrow> 'c \<Rightarrow> ('c \<times> 'v option) option"
    and contents :: "'c \<Rightarrow> ('k \<times> 'v) list"
    and invar :: "'c \<Rightarrow> bool"
    and cap :: "'c \<Rightarrow> nat"
  assumes step_refines:
    "invar c \<Longrightarrow> \<exists>c' r. step op c = Some (c', r) \<and> invar c' \<and> cap c' = cap c \<and>
       (contents c', r) = spec_step (cap c) op (contents c)"
begin

lemma run_refines:
  "invar c \<Longrightarrow> \<exists>c' rs. run_ops step ops c = Some (c', rs) \<and> invar c' \<and> cap c' = cap c \<and>
     (contents c', rs) = spec_run (cap c) ops (contents c)"
proof (induction ops arbitrary: c)
  case (Cons op ops)
  from step_refines [OF Cons.prems] obtain c1 r
    where c1: "step op c = Some (c1, r)" "invar c1" "cap c1 = cap c"
      "spec_step (cap c) op (contents c) = (contents c1, r)" by metis
  from Cons.IH [OF c1(2)] obtain c2 rs
    where "run_ops step ops c1 = Some (c2, rs)" "invar c2" "cap c2 = cap c"
      "spec_run (cap c) ops (contents c1) = (contents c2, rs)" using c1(3) by metis
  with c1 show ?case by simp
qed simp

end

interpretation lru: lru_store lru_step lru_abs lru_inv lru_capacity
proof
  fix c :: "('a, 'b) lru_cache" and op
  assume "lru_inv c"
  then show "\<exists>c' r. lru_step op c = Some (c', r) \<and> lru_inv c' \<and> lru_capacity c' = lru_capacity c \<and>
      (lru_abs c', r) = spec_step (lru_capacity c) op (lru_abs c)"
    by (cases op) (simp_all add: lru_get_refines lru_insert_refines)
qed

lemma spec_run_shape:
  "distinct (map fst xs) \<Longrightarrow> length xs \<le> cap \<Longrightarrow> 0 < cap \<Longrightarrow>
   distinct (map fst (fst (spec_run cap ops xs))) \<and> length (fst (spec_run cap ops xs)) \<le> cap"
proof (induction ops arbitrary: xs)
  case (Cons op ops)
  from spec_step_shape [OF Cons.prems] Cons.IH [of "fst (spec_step cap op xs)"] Cons.prems(3)
  show ?case unfolding fst_spec_run_Cons by blast
qed simp

section \<open>Retention\<close>

text \<open>
  The pairs in front of a key are those of other keys used since; so a key survives as long as
  fewer than capacity many other keys have been used.
\<close>

definition in_front :: "'k set \<Rightarrow> 'k \<Rightarrow> 'v \<Rightarrow> ('k \<times> 'v) list \<Rightarrow> bool" where
  "in_front K k v xs \<longleftrightarrow> (\<exists>as bs. xs = as @ (k, v) # bs \<and> fst ` set as \<subseteq> K)"

lemma in_front_map_of:
  "in_front K k v xs \<Longrightarrow> distinct (map fst xs) \<Longrightarrow> map_of xs k = Some v"
  by (auto simp: in_front_def map_add_def map_of_eq_None_iff image_iff split: option.splits
      intro: map_of_is_SomeI)

lemma in_front_use:
  assumes "in_front K k v xs" "j \<noteq> k" "j \<in> K"
  shows "in_front K k v ((j, w) # filter (\<lambda>p. fst p \<noteq> j) xs)"
proof -
  from assms(1) obtain as bs where xs: "xs = as @ (k, v) # bs" "fst ` set as \<subseteq> K"
    by (auto simp: in_front_def)
  have "(j, w) # filter (\<lambda>p. fst p \<noteq> j) xs =
      ((j, w) # filter (\<lambda>p. fst p \<noteq> j) as) @ (k, v) # filter (\<lambda>p. fst p \<noteq> j) bs"
    using assms(2) xs(1) by simp
  moreover have "fst ` set ((j, w) # filter (\<lambda>p. fst p \<noteq> j) as) \<subseteq> K"
    using xs(2) assms(3) by auto
  ultimately show ?thesis unfolding in_front_def by blast
qed

lemma in_front_add:
  assumes f: "in_front K k v xs" and j: "j \<in> K" "j \<notin> fst ` set xs"
    and d: "distinct (map fst xs)" and K: "finite K" "card K < cap"
  shows "in_front K k v ((j, w) # (if length xs = cap then butlast xs else xs))"
proof -
  from f obtain as bs where xs: "xs = as @ (k, v) # bs" "fst ` set as \<subseteq> K"
    by (auto simp: in_front_def)
  have sub: "fst ` set as \<subseteq> K - {j}" using xs j(2) by auto
  have "length as = card (fst ` set as)"
    using d xs(1) by (metis distinct_append distinct_card length_map list.set_map map_append)
  also have "\<dots> \<le> card (K - {j})" using sub K(1) by (intro card_mono) auto
  also have "\<dots> < card K" using j(1) K(1) by (intro card_Diff1_less) auto
  finally have "length as + 1 < cap" using K(2) by simp
  then have "length xs = cap \<Longrightarrow> bs \<noteq> []" using xs(1) by auto
  then have "\<exists>bs'. (if length xs = cap then butlast xs else xs) = as @ (k, v) # bs'"
    using xs(1) by (auto simp: butlast_append)
  then obtain bs' where "(j, w) # (if length xs = cap then butlast xs else xs) = ((j, w) # as) @ (k, v) # bs'"
    by auto
  moreover have "fst ` set ((j, w) # as) \<subseteq> K" using xs(2) j(1) by auto
  ultimately show ?thesis unfolding in_front_def by blast
qed

lemma in_front_step:
  assumes f: "in_front K k v xs" and d: "distinct (map fst xs)"
    and op: "op_key op \<in> K \<or> op = OpGet k" and K: "finite K" "card K < cap" "k \<notin> K"
  shows "in_front K k v (fst (spec_step cap op xs))"
proof (cases "op = OpGet k")
  case True
  then show ?thesis
    using in_front_map_of [OF f d] by (auto simp: spec_get_def in_front_def intro: exI [of _ "[]"])
next
  case False
  with op K have j: "op_key op \<in> K" "op_key op \<noteq> k" by auto
  show ?thesis
  proof (cases "map_of xs (op_key op)")
    case None
    then have "op_key op \<notin> fst ` set xs" by (simp add: map_of_eq_None_iff)
    from in_front_add [OF f j(1) this d K(1,2)] None f show ?thesis
      by (cases op) (simp_all add: spec_get_def spec_insert_def)
  next
    case (Some w)
    with in_front_use [OF f j(2,1)] show ?thesis
      by (cases op) (auto simp: spec_get_def spec_insert_def)
  qed
qed

lemma in_front_run:
  assumes "in_front K k v xs" "distinct (map fst xs)" "length xs \<le> cap" "0 < cap"
    and "\<forall>op \<in> set ops. op_key op \<in> K \<or> op = OpGet k" "finite K" "card K < cap" "k \<notin> K"
  shows "in_front K k v (fst (spec_run cap ops xs))"
  using assms
proof (induction ops arbitrary: xs)
  case (Cons op ops)
  have "op_key op \<in> K \<or> op = OpGet k" using Cons.prems(5) by simp
  from in_front_step [OF Cons.prems(1,2) this Cons.prems(6,7,8)]
    spec_step_shape [OF Cons.prems(2,3,4), of op] Cons
  show ?case unfolding fst_spec_run_Cons by simp
qed simp

section \<open>Properties\<close>

text \<open>
  C5. Every sequence of lookups and insertions on a cache made by \<open>new\<close> runs without a panic
  (also when the recency counter overflows and is rebased), returns exactly what the
  most-recently-used-first list returns, and never holds more than its capacity.
\<close>

theorem lru_run_refines_list:
  assumes "lru_new capacity = Some c"
  shows "\<exists>c' rs. run_ops lru_step ops c = Some (c', rs) \<and>
     (lru_abs c', rs) = spec_run capacity ops [] \<and> length (lru_entries c') \<le> capacity"
proof -
  from lru_new_inv [OF assms] have c: "lru_inv c" "lru_abs c = []" "lru_capacity c = capacity"
    by auto
  from lru.run_refines [OF c(1), of ops] c obtain c' rs
    where r: "run_ops lru_step ops c = Some (c', rs)" "lru_inv c'" "lru_capacity c' = capacity"
      "(lru_abs c', rs) = spec_run capacity ops []" by auto
  from r(2,3) have "length (lru_entries c') \<le> capacity" by (simp add: lru_inv_def)
  with r show ?thesis by blast
qed

lemma lru_run_refines_list_witness:
  "\<exists>c c' rs. lru_new 2 = Some c \<and>
     run_ops lru_step [OpInsert (1::nat) ''a'', OpInsert 2 ''b'', OpGet 1, OpInsert 3 ''c'', OpGet 2] c
       = Some (c', rs) \<and>
     (lru_abs c', rs) = ([(3, ''c''), (1, ''a'')], [None, None, Some ''a'', None, None]) \<and>
     length (lru_entries c') \<le> 2"
proof -
  obtain c :: "(nat, string) lru_cache" where c: "lru_new 2 = Some c" by (simp add: lru_new_def)
  have "spec_run 2 [OpInsert (1::nat) ''a'', OpInsert 2 ''b'', OpGet 1, OpInsert 3 ''c'', OpGet 2] []
      = ([(3, ''c''), (1, ''a'')], [None, None, Some ''a'', None, None])"
    by (simp add: spec_insert_def spec_get_def)
  with lru_run_refines_list [OF c, of "[OpInsert 1 ''a'', OpInsert 2 ''b'', OpGet 1, OpInsert 3 ''c'', OpGet 2]"] c
  show ?thesis by auto
qed

text \<open>
  A key just inserted is still found, with its value, after any run that uses fewer than
  capacity many other keys and does not insert that key again: eviction only ever takes the
  least recently used entry.
\<close>

theorem lru_retains_recent_key:
  assumes "lru_inv c"
    and ops: "\<forall>op \<in> set ops. op_key op \<noteq> k \<or> op = OpGet k"
    and few: "card (op_key ` set ops - {k}) < lru_capacity c"
  shows "\<exists>c' rs c''. run_ops lru_step (OpInsert k v # ops) c = Some (c', rs) \<and>
     lru_get k c' = Some (c'', Some v)"
proof -
  let ?K = "op_key ` set ops - {k}" and ?cap = "lru_capacity c"
  from lru.run_refines [OF assms(1), of "OpInsert k v # ops"] obtain c' rs
    where r: "run_ops lru_step (OpInsert k v # ops) c = Some (c', rs)" "lru_inv c'"
      "lru_abs c' = fst (spec_run ?cap (OpInsert k v # ops) (lru_abs c))" by (metis fst_conv)
  let ?xs = "fst (spec_insert ?cap k v (lru_abs c))"
  have d: "distinct (map fst (lru_abs c))" "length (lru_abs c) \<le> ?cap" "0 < ?cap"
    using assms(1) distinct_by_age [of "lru_entries c"]
    by (auto simp: lru_inv_def lru_abs_def strip_stamp_def comp_def rev_map [symmetric])
  from spec_step_shape [OF d, of "OpInsert k v"]
  have sh: "distinct (map fst ?xs)" "length ?xs \<le> ?cap" by auto
  have "in_front ?K k v ?xs"
    by (auto simp: spec_insert_def in_front_def split: option.split intro: exI [of _ "[]"])
  from in_front_run [OF this sh d(3), of ops] ops few
  have "in_front ?K k v (fst (spec_run ?cap ops ?xs))" by auto
  then have "map_of (fst (spec_run ?cap ops ?xs)) k = Some v"
    by (rule in_front_map_of) (use spec_run_shape [OF sh d(3), of ops] in blast)
  with r(3) have "map_of (lru_abs c') k = Some v"
    by (simp only: fst_spec_run_Cons spec_step.simps)
  with lru_get_refines [OF r(2), of k] obtain c'' where "lru_get k c' = Some (c'', Some v)"
    by (auto simp: spec_get_def)
  with r(1) show ?thesis by blast
qed

lemma lru_retains_recent_key_witness:
  "\<exists>c c' rs c''. lru_new 2 = Some (c :: (nat, string) lru_cache) \<and>
     run_ops lru_step [OpInsert 7 ''x'', OpInsert 8 ''y'', OpGet 7] c = Some (c', rs) \<and>
     lru_get 7 c' = Some (c'', Some ''x'')"
proof -
  obtain c :: "(nat, string) lru_cache" where c: "lru_new 2 = Some c" by (simp add: lru_new_def)
  from lru_new_inv [OF c] have i: "lru_inv c" "lru_capacity c = 2" by auto
  have "card (op_key ` set [OpInsert 8 ''y'', OpGet 7] - {7 :: nat}) < lru_capacity c"
    by (simp add: i insert_Diff_if)
  with lru_retains_recent_key [OF i(1), of "[OpInsert 8 ''y'', OpGet 7]" 7 "''x''"] c
  show ?thesis by auto
qed

end
