(* ===== verification/Address.thy ===== *)
theory Address
  imports Rust_Str "HOL-Library.Char_ord" "HOL-Library.List_Lexorder" "HOL-Library.Option_ord"
begin

text \<open>
  Mailbox parsing and formatting of \<open>notm-mail/src/address.rs\<close>.  The address grammar itself
  is third-party code (\<open>mailparse::addrparse\<close>, \<open>MailAddrList::extract\_single\_info\<close>,
  \<open>EmailAddress::is\_valid\<close>): those three functions are the fields of the record
  \<open>address_lib\<close>, an argument of every definition that calls them.  Unicode lower-casing
  (\<open>str::to\_lowercase\<close>) depends on the Unicode tables and is an argument too.
\<close>

section \<open>Data\<close>

datatype mail_address = MailAddress (ma_name: "string option") (ma_email: string)

text \<open>\<open>#[derive(PartialOrd, Ord)]\<close>: lexicographic, the name first, an absent name least.\<close>

instantiation mail_address :: linorder
begin

definition less_eq_mail_address :: "mail_address \<Rightarrow> mail_address \<Rightarrow> bool" where
  "less_eq_mail_address a b \<longleftrightarrow>
     ma_name a < ma_name b \<or> ma_name a = ma_name b \<and> ma_email a \<le> ma_email b"

definition less_mail_address :: "mail_address \<Rightarrow> mail_address \<Rightarrow> bool" where
  "less_mail_address a b \<longleftrightarrow>
     ma_name a < ma_name b \<or> ma_name a = ma_name b \<and> ma_email a < ma_email b"

instance
  by standard
    (auto simp: less_eq_mail_address_def less_mail_address_def intro: mail_address.expand
      dest: less_trans)

end

text \<open>The values \<open>mailparse\<close> hands over.\<close>

record single_info =
  si_display_name :: "string option"
  si_addr :: string

datatype mail_addr = Single single_info | Group string "single_info list"

record address_lib =
  addrparse :: "string \<Rightarrow> string + mail_addr list"
  extract_single_info :: "mail_addr list \<Rightarrow> single_info option"
  email_is_valid :: "string \<Rightarrow> bool"

datatype address_error =
    InvalidAddressList string
  | NoMailboxes
  | InvalidMailbox
  | NotExactlyOne

section \<open>Parsing\<close>

fun mailboxes :: "mail_addr \<Rightarrow> single_info list" where
  "mailboxes (Single s) = [s]"
| "mailboxes (Group g ss) = ss"

definition mail_address_from_single :: "address_lib \<Rightarrow> single_info \<Rightarrow> mail_address option" where
  "mail_address_from_single lib single =
     (let email = trim (si_addr single) in
      if email_is_valid lib email
      then Some (MailAddress
             (case si_display_name single of
                None \<Rightarrow> None
              | Some n \<Rightarrow> if trim n = [] then None else Some (trim n))
             email)
      else None)"

definition parse_address_list :: "address_lib \<Rightarrow> string \<Rightarrow> mail_address list" where
  "parse_address_list lib input =
     (case addrparse lib input of
        Inl _ \<Rightarrow> []
      | Inr addresses \<Rightarrow>
          List.map_filter (mail_address_from_single lib) (concat (map mailboxes addresses)))"

definition parse_address_list_checked ::
  "address_lib \<Rightarrow> string \<Rightarrow> address_error + mail_address list" where
  "parse_address_list_checked lib input =
     (if trim input = [] then Inr []
      else and_then (map_err InvalidAddressList (addrparse lib input)) (\<lambda>addresses.
        (let singles = concat (map mailboxes addresses) in
         and_then (ensure (singles \<noteq> []) NoMailboxes) (\<lambda>_.
           collect_results (\<lambda>s. ok_or (mail_address_from_single lib s) InvalidMailbox) singles))))"

definition parse_one :: "address_lib \<Rightarrow> string \<Rightarrow> mail_address option" where
  "parse_one lib input =
     (case addrparse lib input of
        Inl _ \<Rightarrow> None
      | Inr addresses \<Rightarrow>
          Option.bind (extract_single_info lib addresses) (mail_address_from_single lib))"

definition parse_one_checked :: "address_lib \<Rightarrow> string \<Rightarrow> address_error + mail_address" where
  "parse_one_checked lib input =
     and_then (parse_address_list_checked lib input) (\<lambda>addresses.
       and_then (ensure (length addresses = 1) NotExactlyOne) (\<lambda>_. Inr (hd addresses)))"

section \<open>Formatting\<close>

definition name_char_plain :: "char \<Rightarrow> bool" where
  "name_char_plain c \<longleftrightarrow>
     is_ascii_alphanumeric c \<or> is_ascii_whitespace c \<or> c \<in> set ''!#$%&'' \<or> c = CHR 0x27 \<or>
     c \<in> set ''*+-/=?^_`{|}~''"

definition quote_name :: "string \<Rightarrow> string" where
  "quote_name name =
     (let name = map (\<lambda>c. if c = CR \<or> c = LF then SP else c) name in
      if list_ex (\<lambda>c. \<not> name_char_plain c) name
      then [DQ] @ replace_char DQ [BSL, DQ] (replace_char BSL [BSL, BSL] name) @ [DQ]
      else name)"

definition format_address :: "mail_address \<Rightarrow> string" where
  "format_address a =
     (case ma_name a of
        Some name \<Rightarrow>
          if name \<noteq> [] then quote_name name @ '' <'' @ ma_email a @ ''>'' else ma_email a
      | None \<Rightarrow> ma_email a)"

section \<open>Recipient lists\<close>

fun dedupe_from :: "(string \<Rightarrow> string) \<Rightarrow> string set \<Rightarrow> mail_address list \<Rightarrow> mail_address list" where
  "dedupe_from lower seen [] = []"
| "dedupe_from lower seen (a # addrs) =
     (let key = lower (ma_email a) in
      if key \<in> seen then dedupe_from lower seen addrs
      else a # dedupe_from lower (insert key seen) addrs)"

definition dedupe_addresses :: "(string \<Rightarrow> string) \<Rightarrow> mail_address list \<Rightarrow> mail_address list" where
  "dedupe_addresses lower addrs = dedupe_from lower {} addrs"

definition exclude_identities ::
  "(string \<Rightarrow> string) \<Rightarrow> mail_address list \<Rightarrow> string list \<Rightarrow> mail_address list" where
  "exclude_identities lower addrs identities =
     (let ids = lower ` set identities in filter (\<lambda>a. lower (ma_email a) \<notin> ids) addrs)"

section \<open>Lemmas\<close>

lemma mail_address_from_single_valid:
  "mail_address_from_single lib s = Some a \<Longrightarrow>
     email_is_valid lib (ma_email a) \<and> ma_email a = trim (si_addr s) \<and> ma_name a \<noteq> Some []"
  by (auto simp: mail_address_from_single_def Let_def split: if_splits option.splits)

lemma collect_map_filter:
  "collect_results (\<lambda>s. ok_or (f s) e) xs = Inr ys \<Longrightarrow> List.map_filter f xs = ys"
  by (induction xs arbitrary: ys) (auto simp: result_simps map_filter_simps)

lemma collect_ok_or_set:
  "collect_results (\<lambda>s. ok_or (f s) e) xs = Inr ys \<Longrightarrow> y \<in> set ys \<Longrightarrow> \<exists>x \<in> set xs. f x = Some y"
  by (induction xs arbitrary: ys) (auto simp: result_simps)

lemma dedupe_from_keys:
  "distinct (map (lower \<circ> ma_email) (dedupe_from lower seen xs)) \<and>
   (lower \<circ> ma_email) ` set (dedupe_from lower seen xs) = (lower \<circ> ma_email) ` set xs - seen"
  by (induction xs arbitrary: seen) (auto simp: Let_def)

lemma dedupe_from_subseq: "subseq (dedupe_from lower seen xs) xs"
  by (induction xs arbitrary: seen) (auto simp: Let_def)

text \<open>The kept address for a key is the first one with that key.\<close>

lemma dedupe_from_find:
  "k \<notin> seen \<Longrightarrow>
   List.find (\<lambda>a. lower (ma_email a) = k) (dedupe_from lower seen xs) =
   List.find (\<lambda>a. lower (ma_email a) = k) xs"
  by (induction xs arbitrary: seen) (auto simp: Let_def)

text \<open>
  Reading a display name back (RFC 5322 phrase or quoted-string): a quoted pair stands for
  its second character.
\<close>

fun unescape :: "string \<Rightarrow> string" where
  "unescape [] = []"
| "unescape [c] = [c]"
| "unescape (c # d # cs) = (if c = BSL then d # unescape cs else c # unescape (d # cs))"

definition read_name :: "string \<Rightarrow> string" where
  "read_name s =
     (if s \<noteq> [] \<and> hd s = DQ \<and> last s = DQ \<and> 2 \<le> length s
      then unescape (butlast (tl s)) else s)"

abbreviation escape_quotes :: "string \<Rightarrow> string" where
  "escape_quotes s \<equiv> replace_char DQ [BSL, DQ] (replace_char BSL [BSL, BSL] s)"

lemma escape_quotes_Cons:
  "escape_quotes (c # cs) =
     (if c = BSL then [BSL, BSL] else if c = DQ then [BSL, DQ] else [c]) @ escape_quotes cs"
  by (simp add: replace_char_def)

lemma unescape_Cons_plain: "c \<noteq> BSL \<Longrightarrow> unescape (c # cs) = c # unescape cs"
  by (cases cs) auto

lemma unescape_escape: "unescape (escape_quotes s) = s"
  by (induction s)
    (auto simp: escape_quotes_Cons unescape_Cons_plain simp del: append_Cons[symmetric],
     auto simp: replace_char_def)

lemma name_char_plain_DQ [simp]: "\<not> name_char_plain DQ"
  by (simp add: name_char_plain_def byte_class_defs)

section \<open>Properties\<close>

text \<open>
  C20. Quoting a display name is reversible and header safe: whatever characters the name has,
  the quoted form contains no carriage return or line feed, and reading it back (undoing the
  quotes and quoted pairs) gives the name with its line breaks turned into spaces.
\<close>

theorem quote_name_roundtrip:
  "read_name (quote_name name) = map (\<lambda>c. if c = CR \<or> c = LF then SP else c) name \<and>
   CR \<notin> set (quote_name name) \<and> LF \<notin> set (quote_name name)"
proof -
  define n where "n = map (\<lambda>c. if c = CR \<or> c = LF then SP else c) name"
  have nl: "CR \<notin> set n" "LF \<notin> set n" by (auto simp: n_def)
  have def: "quote_name name = (if list_ex (\<lambda>c. \<not> name_char_plain c) n
      then [DQ] @ escape_quotes n @ [DQ] else n)"
    by (simp only: quote_name_def Let_def n_def)
  have "read_name (quote_name name) = n \<and> CR \<notin> set (quote_name name) \<and> LF \<notin> set (quote_name name)"
  proof (cases "list_ex (\<lambda>c. \<not> name_char_plain c) n")
    case True
    then have q: "quote_name name = [DQ] @ escape_quotes n @ [DQ]" using def by simp
    have "read_name (quote_name name) = n"
      unfolding q by (simp add: read_name_def unescape_escape)
    moreover have "set (escape_quotes n) \<subseteq> set n \<union> {BSL, DQ}"
      using set_replace_char [of DQ "[BSL, DQ]" "replace_char BSL [BSL, BSL] n"]
        set_replace_char [of BSL "[BSL, BSL]" n] by auto
    ultimately show ?thesis unfolding q using nl by auto
  next
    case False
    then have q: "quote_name name = n" using def by simp
    have "\<forall>c \<in> set n. name_char_plain c" using False by (simp add: list_ex_iff)
    then have "DQ \<notin> set n" using name_char_plain_DQ by blast
    then have "hd n \<noteq> DQ \<or> n = []" using hd_in_set by fastforce
    then have "read_name n = n" by (auto simp: read_name_def)
    with q nl show ?thesis by simp
  qed
  then show ?thesis unfolding n_def .
qed

text \<open>
  A recipient field that passes the checked parser contains no mailbox the lenient parser
  would have dropped: the two parsers return the same nonempty list, with one entry for each
  mailbox of the parsed field, and every address satisfies the validator.
\<close>

theorem parse_address_list_checked_complete:
  assumes "parse_address_list_checked lib input = Inr addrs" and "trim input \<noteq> []"
  shows "parse_address_list lib input = addrs \<and> addrs \<noteq> [] \<and>
     (\<exists>parsed. addrparse lib input = Inr parsed \<and>
        length addrs = length (concat (map mailboxes parsed))) \<and>
     list_all (\<lambda>a. email_is_valid lib (ma_email a)) addrs"
proof -
  from assms obtain parsed where p: "addrparse lib input = Inr parsed"
      "concat (map mailboxes parsed) \<noteq> []"
      "collect_results (\<lambda>s. ok_or (mail_address_from_single lib s) InvalidMailbox)
         (concat (map mailboxes parsed)) = Inr addrs"
    by (auto simp: parse_address_list_checked_def Let_def result_simps simp del: concat_eq_Nil_conv)
  from collect_results_length [OF p(3)] p(2) have "addrs \<noteq> []" by auto
  moreover have "parse_address_list lib input = addrs"
    using p by (simp add: parse_address_list_def collect_map_filter [OF p(3)])
  moreover have "list_all (\<lambda>a. email_is_valid lib (ma_email a)) addrs"
    using collect_ok_or_set [OF p(3)] mail_address_from_single_valid
    by (fastforce simp: list_all_iff)
  ultimately show ?thesis using p(1) collect_results_length [OF p(3)] by blast
qed

text \<open>A concrete address library: one bare mailbox, valid when it contains an at sign.\<close>

definition bare_lib :: address_lib where
  "bare_lib = \<lparr>
     addrparse = (\<lambda>s. if s = [] then Inl ''empty''
                      else Inr [Single \<lparr>si_display_name = None, si_addr = s\<rparr>]),
     extract_single_info = (\<lambda>as. case as of [Single s] \<Rightarrow> Some s | _ \<Rightarrow> None),
     email_is_valid = (\<lambda>s. CHR ''@'' \<in> set s)\<rparr>"

lemma parse_address_list_checked_complete_witness:
  "parse_address_list_checked bare_lib ''a@b'' = Inr [MailAddress None ''a@b''] \<and>
   parse_address_list bare_lib ''a@b'' = [MailAddress None ''a@b'']"
proof -
  have t: "trim ''a@b'' = ''a@b''"
    by (simp add: trim_def ws_slice_def is_whitespace_def utf8_len_def)
  have c: "parse_address_list_checked bare_lib ''a@b'' = Inr [MailAddress None ''a@b'']"
    by (simp add: parse_address_list_checked_def bare_lib_def t mail_address_from_single_def Let_def)
  from parse_address_list_checked_complete [OF c] t c show ?thesis by simp
qed

text \<open>
  Removing duplicate recipients keeps the original order, keeps for every address key
  exactly one entry, namely the first one given, and invents nothing.
\<close>

theorem dedupe_addresses_keeps_first:
  "subseq (dedupe_addresses lower addrs) addrs \<and>
   distinct (map (lower \<circ> ma_email) (dedupe_addresses lower addrs)) \<and>
   (\<forall>k. List.find (\<lambda>a. lower (ma_email a) = k) (dedupe_addresses lower addrs) =
        List.find (\<lambda>a. lower (ma_email a) = k) addrs)"
  using dedupe_from_keys [of lower "{}" addrs] dedupe_from_find [of _ "{}" lower addrs]
  by (simp add: dedupe_addresses_def dedupe_from_subseq)

end
