(* ===== verification/Mailto.thy ===== *)
theory Mailto
  imports Rust_Str
begin

text \<open>
  RFC 6068 \<open>mailto\<close> URIs, \<open>notm-mail/src/mailto.rs\<close>.  The request built from an untrusted
  link is the state of the field loop; every rejected URI is a value of \<open>mailto_error\<close>.
\<close>

section \<open>Data\<close>

record mailto_request =
  mr_to :: "string list"
  mr_cc :: "string list"
  mr_bcc :: "string list"
  mr_subject :: string
  mr_body :: string

definition empty_request :: mailto_request where
  "empty_request = \<lparr>mr_to = [], mr_cc = [], mr_bcc = [], mr_subject = [], mr_body = []\<rparr>"

datatype mailto_error =
    NotMailto
  | HasAuthority
  | MissingEquals
  | BadHeaderName
  | ControlCharacter string
  | BodyControlCharacter
  | BadPercentEncoding string
  | NotUtf8 string

section \<open>Percent decoding\<close>

fun hex_value :: "char \<Rightarrow> nat option" where
  "hex_value c =
     (if 48 \<le> bval c \<and> bval c \<le> 57 then Some (bval c - 48)
      else if 97 \<le> bval c \<and> bval c \<le> 102 then Some (bval c - 97 + 10)
      else if 65 \<le> bval c \<and> bval c \<le> 70 then Some (bval c - 65 + 10)
      else None)"

text \<open>
  The loop over \<open>index\<close>: the argument is the source from the index on, so
  \<open>source.get(index + 1)\<close> is the next character of the list if there is one.
\<close>

fun percent_loop :: "string \<Rightarrow> string \<Rightarrow> mailto_error + string" where
  "percent_loop field [] = Inr []"
| "percent_loop field (c # cs) =
     (if c \<noteq> CHR ''%'' then map_ok (\<lambda>ds. c # ds) (percent_loop field cs)
      else (case cs of
              [] \<Rightarrow> Inl (BadPercentEncoding field)
            | h # cs' \<Rightarrow>
                (case hex_value h of
                   None \<Rightarrow> Inl (BadPercentEncoding field)
                 | Some high \<Rightarrow>
                     (case cs' of
                        [] \<Rightarrow> Inl (BadPercentEncoding field)
                      | l # cs'' \<Rightarrow>
                          (case hex_value l of
                             None \<Rightarrow> Inl (BadPercentEncoding field)
                           | Some low \<Rightarrow>
                               map_ok (\<lambda>ds. char_of (high * 16 + low) # ds)
                                 (percent_loop field cs''))))))"

definition percent_decode :: "string \<Rightarrow> string \<Rightarrow> mailto_error + string" where
  "percent_decode value field =
     and_then (percent_loop field value) (\<lambda>decoded.
       if valid_utf8 decoded then Inr decoded else Inl (NotUtf8 field))"

section \<open>Fields\<close>

definition ensure_header_value_is_safe :: "string \<Rightarrow> string \<Rightarrow> mailto_error + unit" where
  "ensure_header_value_is_safe value field =
     ensure (\<not> list_ex is_control (chars value)) (ControlCharacter field)"

definition ensure_body_value_is_safe :: "string \<Rightarrow> mailto_error + unit" where
  "ensure_body_value_is_safe value =
     ensure (\<not> list_ex (\<lambda>c. is_control c \<and> c \<notin> {13, 10, 9}) (chars value)) BodyControlCharacter"

definition validate_header_name :: "string \<Rightarrow> mailto_error + unit" where
  "validate_header_name name =
     ensure (name \<noteq> [] \<and>
             list_all (\<lambda>b. 33 \<le> bval b \<and> bval b \<le> 126 \<and> b \<noteq> CHR '':'') name) BadHeaderName"

definition normalize_body_line_breaks :: "string \<Rightarrow> string" where
  "normalize_body_line_breaks value = replace_char CR [LF] (replace_str CRLF [LF] value)"

definition append_address_value ::
  "string list \<Rightarrow> string \<Rightarrow> string \<Rightarrow> mailto_error + string list" where
  "append_address_value destination value field =
     and_then (ensure_header_value_is_safe value field) (\<lambda>_.
       let value = trim value in
       Inr (if value \<noteq> [] then destination @ [value] else destination))"

text \<open>The state of the loop over the header fields.\<close>

record mailto_state =
  ms_request :: mailto_request
  ms_subject_seen :: bool
  ms_body_seen :: bool

text \<open>The \<open>match\<close> on the lower-cased name.\<close>

definition apply_field ::
  "mailto_state \<Rightarrow> string \<Rightarrow> string \<Rightarrow> mailto_error + mailto_state" where
  "apply_field st key value =
     (let r = ms_request st in
      if key = ''to'' then
        map_ok (\<lambda>v. st\<lparr>ms_request := r\<lparr>mr_to := v\<rparr>\<rparr>) (append_address_value (mr_to r) value ''to'')
      else if key = ''cc'' then
        map_ok (\<lambda>v. st\<lparr>ms_request := r\<lparr>mr_cc := v\<rparr>\<rparr>) (append_address_value (mr_cc r) value ''cc'')
      else if key = ''bcc'' then
        map_ok (\<lambda>v. st\<lparr>ms_request := r\<lparr>mr_bcc := v\<rparr>\<rparr>) (append_address_value (mr_bcc r) value ''bcc'')
      else if key = ''subject'' \<and> \<not> ms_subject_seen st then
        and_then (ensure_header_value_is_safe value ''subject'') (\<lambda>_.
          Inr (st\<lparr>ms_request := r\<lparr>mr_subject := value\<rparr>, ms_subject_seen := True\<rparr>))
      else if key = ''body'' \<and> \<not> ms_body_seen st then
        and_then (ensure_body_value_is_safe value) (\<lambda>_.
          Inr (st\<lparr>ms_request := r\<lparr>mr_body := normalize_body_line_breaks value\<rparr>,
                  ms_body_seen := True\<rparr>))
      else Inr st)"

text \<open>One encoded field: split at the first equals sign, decode and check both halves.\<close>

definition decode_field :: "string \<Rightarrow> mailto_error + string \<times> string" where
  "decode_field encoded_field =
     and_then (ok_or (split_once CHR ''='' encoded_field) MissingEquals) (\<lambda>(encoded_name, encoded_value).
       and_then (percent_decode encoded_name ''header name'') (\<lambda>name.
         and_then (validate_header_name name) (\<lambda>_.
           and_then (percent_decode encoded_value (name @ '' value'')) (\<lambda>value.
             Inr (name, value)))))"

fun apply_fields :: "mailto_state \<Rightarrow> string list \<Rightarrow> mailto_error + mailto_state" where
  "apply_fields st [] = Inr st"
| "apply_fields st (f # fs) =
     and_then (decode_field f) (\<lambda>(name, value).
       and_then (apply_field st (to_ascii_lowercase name) value) (\<lambda>st'. apply_fields st' fs))"

definition parse_mailto_uri :: "string \<Rightarrow> mailto_error + mailto_request" where
  "parse_mailto_uri uri =
     and_then (ensure (7 \<le> length uri \<and> eq_ignore_ascii_case (take 7 uri) ''mailto:'') NotMailto) (\<lambda>_.
       (let without_scheme = drop 7 uri in
        and_then (ensure (\<not> starts_with without_scheme ''//'') HasAuthority) (\<lambda>_.
          (let without_fragment =
                 (case split_once CHR ''#'' without_scheme of
                    None \<Rightarrow> without_scheme | Some (value, _) \<Rightarrow> value);
               (recipient_part, query) =
                 (case split_once CHR ''?'' without_fragment of
                    None \<Rightarrow> (without_fragment, None)
                  | Some (recipient, query) \<Rightarrow> (recipient, Some query))
           in and_then (percent_decode recipient_part ''recipient'') (\<lambda>recipients.
                and_then (append_address_value [] recipients ''recipient'') (\<lambda>to.
                  (let st = \<lparr>ms_request = empty_request\<lparr>mr_to := to\<rparr>,
                             ms_subject_seen = False, ms_body_seen = False\<rparr>
                   in case query of
                        None \<Rightarrow> Inr (ms_request st)
                      | Some q \<Rightarrow>
                          map_ok ms_request
                            (apply_fields st (filter (\<lambda>f. f \<noteq> []) (split_char CHR ''&'' q))))))))))"

section \<open>Lemmas\<close>

text \<open>
  What may reach the composer from a link. The control characters of Unicode are U+0000 to U+001F
  and U+007F to U+009F.
\<close>

definition safe_header :: "string \<Rightarrow> bool" where
  "safe_header s \<longleftrightarrow> valid_utf8 s \<and> (\<forall>c \<in> set (chars s). 32 \<le> c \<and> c \<noteq> 127 \<and> \<not> (128 \<le> c \<and> c \<le> 159))"

definition safe_body :: "string \<Rightarrow> bool" where
  "safe_body s \<longleftrightarrow> valid_utf8 s \<and>
     (\<forall>c \<in> set (chars s). c = 9 \<or> c = 10 \<or> 32 \<le> c \<and> c \<noteq> 127 \<and> \<not> (128 \<le> c \<and> c \<le> 159))"

definition safe_request :: "mailto_request \<Rightarrow> bool" where
  "safe_request r \<longleftrightarrow>
     (\<forall>a \<in> set (mr_to r) \<union> set (mr_cc r) \<union> set (mr_bcc r). a \<noteq> [] \<and> safe_header a) \<and>
     safe_header (mr_subject r) \<and> safe_body (mr_body r)"

lemma percent_decode_valid: "percent_decode v f = Inr d \<Longrightarrow> valid_utf8 d"
  by (auto simp: percent_decode_def result_simps split: if_splits)

lemma header_value_safe:
  "ensure_header_value_is_safe v f = Inr u \<Longrightarrow> valid_utf8 v \<Longrightarrow> safe_header v"
  by (fastforce simp: ensure_header_value_is_safe_def result_simps safe_header_def list_ex_iff is_control_def)

lemma safe_header_trim: "safe_header s \<Longrightarrow> safe_header (trim s)"
  using trim_chars_subset valid_utf8_trim by (force simp: safe_header_def)

lemma append_address_value_safe:
  assumes "append_address_value dest v f = Inr dest'" "valid_utf8 v"
    and "\<forall>a \<in> set dest. a \<noteq> [] \<and> safe_header a"
  shows "\<forall>a \<in> set dest'. a \<noteq> [] \<and> safe_header a"
proof -
  from assms(1) have e: "ensure_header_value_is_safe v f = Inr ()"
    and d: "dest' = (if trim v \<noteq> [] then dest @ [trim v] else dest)"
    by (auto simp: append_address_value_def result_simps Let_def)
  from header_value_safe [OF e assms(2)] have "safe_header (trim v)" by (rule safe_header_trim)
  with d assms(3) show ?thesis by auto
qed

text \<open>The characters of a body after its line breaks are normalized.\<close>

lemma chars_ascii_Cons: "is_ascii_byte c \<Longrightarrow> chars (c # s) = bval c # chars s"
  by (simp add: chars_def)

lemma chars_slice_append: "valid_slice sl \<Longrightarrow> chars (sl @ s) = chars sl @ chars s"
  by (intro chars_append valid_slice_utf8)

lemma replace_crlf_absent: "CR \<notin> set t \<Longrightarrow> replace_str CRLF [LF] (t @ s) = t @ replace_str CRLF [LF] s"
  by (induction t) (auto simp: starts_with_def)

lemma replace_crlf_chars:
  assumes "valid_utf8 s"
  shows "valid_utf8 (replace_str CRLF [LF] s) \<and>
    set (chars (replace_str CRLF [LF] s)) \<subseteq> insert (bval LF) (set (chars s))"
  using assms
proof (induction "length s" arbitrary: s rule: less_induct)
  case less
  have lf: "is_ascii_byte LF" by (simp add: is_ascii_byte_def)
  from less.prems show ?case
  proof (cases rule: valid_utf8_cases)
    case (2 c r)
    show ?thesis
    proof (cases "starts_with s CRLF")
      case True
      then obtain t where s: "s = CRLF @ t" by (auto simp: starts_with_iff)
      with less.prems have "valid_utf8 t" by (simp add: is_ascii_byte_def)
      with less.hyps [of t] lf show ?thesis
        by (auto simp: s starts_with_def chars_ascii_Cons is_ascii_byte_def)
    next
      case False
      with 2 less.hyps [of r] show ?thesis by (auto simp: chars_ascii_Cons)
    qed
  next
    case (3 sl r)
    then have "length r < length s" "CR \<notin> set sl"
      by (cases sl; auto simp: list_ex_iff is_ascii_byte_def)+
    with 3 less.hyps [of r] show ?thesis
      by (auto simp: replace_crlf_absent chars_slice_append valid_utf8_append_left valid_slice_utf8)
  qed auto
qed

lemma code_point_non_ascii:
  assumes "valid_slice sl" "\<not> list_ex is_ascii_byte sl"
  shows "128 \<le> code_point sl"
proof -
  have two: "2 \<le> a mod 32" if "194 \<le> a" "a \<le> 223" for a :: nat using that by presburger
  have three: "1 \<le> a mod 16" if "225 \<le> a" "a \<le> 239" for a :: nat using that by presburger
  have four: "1 \<le> a mod 8" if "241 \<le> a" "a \<le> 244" for a :: nat using that by presburger
  have c: "16 \<le> b mod 64" if "144 \<le> b" "b \<le> 191" for b :: nat using that by presburger
  consider (1) x where "sl = [x]" | (2) x y where "sl = [x, y]" | (3) x y z where "sl = [x, y, z]"
    | (4) w x y z where "sl = [w, x, y, z]"
    using assms(1) by (cases sl rule: valid_slice.cases) auto
  then show ?thesis
  proof cases
    case (2 x y)
    with assms(1) two [of "bval x"] show ?thesis by simp
  next
    case (3 x y z)
    with assms(1) have "bval x = 224 \<and> 160 \<le> bval y \<and> bval y \<le> 191 \<or> 1 \<le> bval x mod 16"
      using three [of "bval x"] by auto
    with 3 c [of "bval y"] show ?thesis by auto
  next
    case (4 w x y z)
    with assms(1) have "bval w = 240 \<and> 144 \<le> bval x \<and> bval x \<le> 191 \<or> 1 \<le> bval w mod 8"
      using four [of "bval w"] by auto
    with 4 c [of "bval x"] show ?thesis by auto
  qed (use assms in \<open>simp add: is_ascii_byte_def\<close>)
qed

lemma replace_char_chars:
  assumes "valid_utf8 s" "is_ascii_byte c" "is_ascii_byte d" "c \<noteq> d"
  shows "set (chars (replace_char c [d] s)) \<subseteq> insert (bval d) (set (chars s)) - {bval c}"
  using assms(1)
proof (induction rule: valid_utf8_induct)
  case (Ascii x r)
  have "bval x \<noteq> (bval c :: nat)" if "x \<noteq> c" using that by simp
  moreover have "bval d \<noteq> (bval c :: nat)" using assms(4) by simp
  ultimately show ?case using Ascii assms(3) by (auto simp: replace_char_def chars_ascii_Cons)
next
  case (Slice sl r)
  then have c: "c \<notin> set sl" using assms(2) by (auto simp: list_ex_iff)
  have "\<not> (bval c :: nat) \<in> set (chars sl)"
  proof
    assume "bval c \<in> set (chars sl)"
    then have "code_point sl = bval c" using Slice by (simp add: chars_def char_slices_single)
    moreover have "128 \<le> code_point sl" using Slice(1,2) by (rule code_point_non_ascii)
    ultimately show False using assms(2) by (simp add: is_ascii_byte_def)
  qed
  with Slice c show ?case by (auto simp: replace_char_append replace_char_absent chars_slice_append)
qed (simp add: replace_char_def chars_def)

lemma body_value_safe:
  assumes "ensure_body_value_is_safe v = Inr u" "valid_utf8 v"
  shows "safe_body (normalize_body_line_breaks v)"
proof -
  let ?w = "replace_str CRLF [LF] v"
  have a: "is_ascii_byte CR" "is_ascii_byte LF" by (simp_all add: is_ascii_byte_def)
  note w = replace_crlf_chars [OF assms(2)]
  have n: "valid_utf8 (replace_char CR [LF] ?w)"
    using w a by (intro valid_utf8_replace_char) simp_all
  have "set (chars (replace_char CR [LF] ?w)) \<subseteq> insert (bval LF) (set (chars v)) - {bval CR}"
    using replace_char_chars [of ?w CR LF] w a by auto
  moreover have "c = bval CR \<or> c = bval LF \<or> c = bval HT" if "c \<in> set (chars v)" "is_control c" for c
    using assms(1) that by (auto simp: ensure_body_value_is_safe_def result_simps list_ex_iff)
  ultimately have "is_control c \<longrightarrow> c = 9 \<or> c = 10" if "c \<in> set (chars (replace_char CR [LF] ?w))" for c
    using that by auto
  with n show ?thesis unfolding safe_body_def normalize_body_line_breaks_def is_control_def by fastforce
qed

lemma decode_field_valid: "decode_field f = Inr (n, v) \<Longrightarrow> valid_utf8 v"
  by (auto simp: decode_field_def result_simps split: prod.splits dest: percent_decode_valid)

lemma apply_field_cases:
  assumes "apply_field st n v = Inr st'"
  obtains
    (to) t where "append_address_value (mr_to (ms_request st)) v ''to'' = Inr t"
      "ms_request st' = (ms_request st)\<lparr>mr_to := t\<rparr>"
  | (cc) t where "append_address_value (mr_cc (ms_request st)) v ''cc'' = Inr t"
      "ms_request st' = (ms_request st)\<lparr>mr_cc := t\<rparr>"
  | (bcc) t where "append_address_value (mr_bcc (ms_request st)) v ''bcc'' = Inr t"
      "ms_request st' = (ms_request st)\<lparr>mr_bcc := t\<rparr>"
  | (subject) "ensure_header_value_is_safe v ''subject'' = Inr ()"
      "ms_request st' = (ms_request st)\<lparr>mr_subject := v\<rparr>"
  | (body) "ensure_body_value_is_safe v = Inr ()"
      "ms_request st' = (ms_request st)\<lparr>mr_body := normalize_body_line_breaks v\<rparr>"
  | (ignored) "st' = st"
proof -
  note d = assms [unfolded apply_field_def Let_def]
  consider "n = ''to''" | "n = ''cc''" | "n = ''bcc''" | "n = ''subject''" | "n = ''body''"
    | "n \<notin> {''to'', ''cc'', ''bcc'', ''subject'', ''body''}" by blast
  then show ?thesis
  proof cases
    case 1
    with d show ?thesis by (auto simp: result_simps intro: to)
  next
    case 2
    with d show ?thesis by (auto simp: result_simps intro: cc)
  next
    case 3
    with d show ?thesis by (auto simp: result_simps intro: bcc)
  next
    case 4
    with d show ?thesis by (auto simp: result_simps intro: subject ignored split: if_splits)
  next
    case 5
    with d show ?thesis by (auto simp: result_simps intro: body ignored split: if_splits)
  next
    case 6
    with d show ?thesis by (auto intro: ignored)
  qed
qed

lemma safe_request_update:
  assumes "safe_request r"
  shows "\<forall>a \<in> set t. a \<noteq> [] \<and> safe_header a \<Longrightarrow> safe_request (r\<lparr>mr_to := t\<rparr>)"
    and "\<forall>a \<in> set t. a \<noteq> [] \<and> safe_header a \<Longrightarrow> safe_request (r\<lparr>mr_cc := t\<rparr>)"
    and "\<forall>a \<in> set t. a \<noteq> [] \<and> safe_header a \<Longrightarrow> safe_request (r\<lparr>mr_bcc := t\<rparr>)"
    and "safe_header s \<Longrightarrow> safe_request (r\<lparr>mr_subject := s\<rparr>)"
    and "safe_body s \<Longrightarrow> safe_request (r\<lparr>mr_body := s\<rparr>)"
  using assms by (simp_all add: safe_request_def ball_Un)

lemma safe_request_addresses:
  assumes "safe_request r"
  shows "\<forall>a \<in> set (mr_to r). a \<noteq> [] \<and> safe_header a"
    and "\<forall>a \<in> set (mr_cc r). a \<noteq> [] \<and> safe_header a"
    and "\<forall>a \<in> set (mr_bcc r). a \<noteq> [] \<and> safe_header a"
  using assms by (simp_all add: safe_request_def ball_Un)

lemma apply_field_safe:
  assumes "apply_field st n v = Inr st'" "valid_utf8 v" "safe_request (ms_request st)"
  shows "safe_request (ms_request st')"
  using assms(1)
proof (cases rule: apply_field_cases)
  case (to t)
  show ?thesis unfolding to(2)
    by (intro safe_request_update append_address_value_safe [OF to(1)] safe_request_addresses assms)
next
  case (cc t)
  show ?thesis unfolding cc(2)
    by (intro safe_request_update append_address_value_safe [OF cc(1)] safe_request_addresses assms)
next
  case (bcc t)
  show ?thesis unfolding bcc(2)
    by (intro safe_request_update append_address_value_safe [OF bcc(1)] safe_request_addresses assms)
next
  case subject
  show ?thesis unfolding subject(2)
    by (intro safe_request_update header_value_safe [OF subject(1)] assms)
next
  case body
  show ?thesis unfolding body(2)
    by (intro safe_request_update body_value_safe [OF body(1)] assms)
qed (use assms(3) in simp)

lemma apply_fields_safe:
  "apply_fields st fs = Inr st' \<Longrightarrow> safe_request (ms_request st) \<Longrightarrow> safe_request (ms_request st')"
  by (induction fs arbitrary: st)
     (auto simp: result_simps dest: decode_field_valid apply_field_safe)

lemma safe_empty_request: "safe_request empty_request"
  by (simp add: safe_request_def empty_request_def safe_header_def safe_body_def chars_def)

section \<open>Percent encoding and decoding\<close>

text \<open>
  The escape of one byte as \<open>%XY\<close> with upper-case hexadecimal digits.
\<close>

definition hex_digit :: "nat \<Rightarrow> char" where
  "hex_digit n = (if n < 10 then char_of (48 + n) else char_of (55 + n))"

lemma hex_value_digit: "n < 16 \<Longrightarrow> hex_value (hex_digit n) = Some n"
  by (auto simp: hex_digit_def)

lemma hex_pair: "char_of (bval c div 16 * 16 + bval c mod 16) = c"
  by (simp add: mult.commute)

lemma percent_loop_escaped:
  "percent_loop f ([CHR ''%'', hex_digit (bval c div 16), hex_digit (bval c mod 16)] @ cs) =
     map_ok (\<lambda>ds. c # ds) (percent_loop f cs)"
proof -
  have "(bval c :: nat) < 256" by simp
  then have "bval c div 16 < (16 :: nat)" by linarith
  then show ?thesis
    by (simp add: hex_value_digit hex_pair del: hex_value.simps)
qed

lemma percent_loop_plain: "c \<noteq> CHR ''%'' \<Longrightarrow> percent_loop f (c # cs) = map_ok (\<lambda>ds. c # ds) (percent_loop f cs)"
  by simp

section \<open>Properties\<close>

text \<open>
  C19. Whatever link is opened, an accepted request is safe to put into the composer: every
  recipient is nonempty and, like the subject, valid UTF-8 without any Unicode control character
  (so no header can be injected), and the body is valid UTF-8 whose only Unicode control characters
  are line feeds and tabs.
\<close>

theorem parse_mailto_uri_safe:
  assumes "parse_mailto_uri uri = Inr r"
  shows "safe_request r"
proof -
  let ?rest = "drop 7 uri"
  let ?frag = "case split_once CHR ''#'' ?rest of None \<Rightarrow> ?rest | Some (value, _) \<Rightarrow> value"
  let ?st = "\<lambda>to. \<lparr>ms_request = empty_request\<lparr>mr_to := to\<rparr>, ms_subject_seen = False, ms_body_seen = False\<rparr>"
  obtain rp query where q: "(case split_once CHR ''?'' ?frag of
       None \<Rightarrow> (?frag, None) | Some (recipient, query) \<Rightarrow> (recipient, Some query)) = (rp, query)"
    by fastforce
  from assms obtain recipients to where
      rec: "percent_decode rp ''recipient'' = Inr recipients"
        "append_address_value [] recipients ''recipient'' = Inr to"
    and r: "(case query of None \<Rightarrow> Inr (ms_request (?st to))
             | Some q \<Rightarrow> map_ok ms_request
                 (apply_fields (?st to) (filter (\<lambda>f. f \<noteq> []) (split_char CHR ''&'' q)))) = Inr r"
    by (simp add: parse_mailto_uri_def Let_def result_simps q) blast
  have "\<forall>a \<in> set to. a \<noteq> [] \<and> safe_header a"
    using append_address_value_safe [OF rec(2) percent_decode_valid [OF rec(1)]] by simp
  then have "safe_request (ms_request (?st to))"
    using safe_empty_request by (simp add: safe_request_def empty_request_def)
  then show ?thesis
    using r by (auto simp: result_simps split: option.splits dest: apply_fields_safe)
qed

lemma parse_mailto_uri_safe_witness:
  "parse_mailto_uri ''mailto:a@b?subject=Hi%20x&body=1%0D%0A2%0D%C2%A0'' =
     Inr \<lparr>mr_to = [''a@b''], mr_cc = [], mr_bcc = [], mr_subject = ''Hi x'',
          mr_body = [CHR ''1'', LF, CHR ''2'', LF, CHR 0xC2, CHR 0xA0]\<rparr> \<and>
   safe_request \<lparr>mr_to = [''a@b''], mr_cc = [], mr_bcc = [], mr_subject = ''Hi x'',
          mr_body = [CHR ''1'', LF, CHR ''2'', LF, CHR 0xC2, CHR 0xA0]\<rparr>"
proof -
  have p: "parse_mailto_uri ''mailto:a@b?subject=Hi%20x&body=1%0D%0A2%0D%C2%A0'' =
     Inr \<lparr>mr_to = [''a@b''], mr_cc = [], mr_bcc = [], mr_subject = ''Hi x'',
          mr_body = [CHR ''1'', LF, CHR ''2'', LF, CHR 0xC2, CHR 0xA0]\<rparr>"
    by code_simp
  from p parse_mailto_uri_safe [OF p] show ?thesis by blast
qed

text \<open>What a link's decoded fields mean, field by field.\<close>

definition field_values :: "string \<Rightarrow> (string \<times> string) list \<Rightarrow> string list" where
  "field_values key nvs = map snd (filter (\<lambda>(n, v). to_ascii_lowercase n = key) nvs)"

definition address_values :: "string \<Rightarrow> (string \<times> string) list \<Rightarrow> string list" where
  "address_values key nvs = filter (\<lambda>v. v \<noteq> []) (map trim (field_values key nvs))"

definition first_or :: "string \<Rightarrow> string list \<Rightarrow> string" where
  "first_or d vs = (case vs of [] \<Rightarrow> d | v # _ \<Rightarrow> v)"

lemma append_address_value_Inr:
  "append_address_value dest v f = Inr dest' \<Longrightarrow> dest' = dest @ filter (\<lambda>v. v \<noteq> []) [trim v]"
  by (auto simp: append_address_value_def result_simps Let_def)

lemma apply_field_effect:
  assumes "apply_field st k v = Inr st'" and "to_ascii_lowercase k' = k"
  shows "mr_to (ms_request st') = mr_to (ms_request st) @ address_values ''to'' [(k', v)] \<and>
     mr_cc (ms_request st') = mr_cc (ms_request st) @ address_values ''cc'' [(k', v)] \<and>
     mr_bcc (ms_request st') = mr_bcc (ms_request st) @ address_values ''bcc'' [(k', v)] \<and>
     mr_subject (ms_request st') =
       (if k = ''subject'' \<and> \<not> ms_subject_seen st then v else mr_subject (ms_request st)) \<and>
     ms_subject_seen st' = (k = ''subject'' \<or> ms_subject_seen st) \<and>
     mr_body (ms_request st') =
       (if k = ''body'' \<and> \<not> ms_body_seen st then normalize_body_line_breaks v
        else mr_body (ms_request st)) \<and>
     ms_body_seen st' = (k = ''body'' \<or> ms_body_seen st)"
proof -
  have av: "address_values key [(k', v)] = (if k = key then filter (\<lambda>v. v \<noteq> []) [trim v] else [])"
    for key using assms(2) by (simp add: address_values_def field_values_def)
  note d = assms(1) [unfolded apply_field_def Let_def]
  consider "k = ''to''" | "k = ''cc''" | "k = ''bcc''" | "k = ''subject''" | "k = ''body''"
    | "k \<notin> {''to'', ''cc'', ''bcc'', ''subject'', ''body''}" by blast
  then show ?thesis
  proof cases
    case 1
    with d show ?thesis unfolding av by (auto simp: result_simps dest: append_address_value_Inr)
  next
    case 2
    with d show ?thesis unfolding av by (auto simp: result_simps dest: append_address_value_Inr)
  next
    case 3
    with d show ?thesis unfolding av by (auto simp: result_simps dest: append_address_value_Inr)
  next
    case 4
    with d show ?thesis unfolding av by (auto simp: result_simps split: if_splits)
  next
    case 5
    with d show ?thesis unfolding av by (auto simp: result_simps split: if_splits)
  next
    case 6
    with d show ?thesis unfolding av by auto
  qed
qed

lemma address_values_Cons: "address_values key (nv # nvs) = address_values key [nv] @ address_values key nvs"
  by (simp add: address_values_def field_values_def split: prod.split)

lemma field_values_Cons:
  "field_values key ((n, v) # nvs) =
     (if to_ascii_lowercase n = key then v # field_values key nvs else field_values key nvs)"
  by (simp add: field_values_def)

lemma apply_fields_effect:
  "apply_fields st fs = Inr st' \<Longrightarrow>
   \<exists>nvs. collect_results decode_field fs = Inr nvs \<and>
     mr_to (ms_request st') = mr_to (ms_request st) @ address_values ''to'' nvs \<and>
     mr_cc (ms_request st') = mr_cc (ms_request st) @ address_values ''cc'' nvs \<and>
     mr_bcc (ms_request st') = mr_bcc (ms_request st) @ address_values ''bcc'' nvs \<and>
     mr_subject (ms_request st') =
       (if ms_subject_seen st then mr_subject (ms_request st)
        else first_or (mr_subject (ms_request st)) (field_values ''subject'' nvs)) \<and>
     mr_body (ms_request st') =
       (if ms_body_seen st then mr_body (ms_request st)
        else first_or (mr_body (ms_request st))
          (map normalize_body_line_breaks (field_values ''body'' nvs)))"
proof (induction fs arbitrary: st)
  case Nil
  then show ?case by (simp add: address_values_def field_values_def first_or_def)
next
  case (Cons f fs)
  from Cons.prems obtain n v st1 where f: "decode_field f = Inr (n, v)"
      "apply_field st (to_ascii_lowercase n) v = Inr st1" "apply_fields st1 fs = Inr st'"
    by (auto simp: result_simps split: prod.splits)
  from Cons.IH [OF f(3)] obtain nvs where c: "collect_results decode_field fs = Inr nvs"
    and rest: "mr_to (ms_request st') = mr_to (ms_request st1) @ address_values ''to'' nvs"
     "mr_cc (ms_request st') = mr_cc (ms_request st1) @ address_values ''cc'' nvs"
     "mr_bcc (ms_request st') = mr_bcc (ms_request st1) @ address_values ''bcc'' nvs"
     "mr_subject (ms_request st') =
       (if ms_subject_seen st1 then mr_subject (ms_request st1)
        else first_or (mr_subject (ms_request st1)) (field_values ''subject'' nvs))"
     "mr_body (ms_request st') =
       (if ms_body_seen st1 then mr_body (ms_request st1)
        else first_or (mr_body (ms_request st1))
          (map normalize_body_line_breaks (field_values ''body'' nvs)))" by blast
  note eff = apply_field_effect [OF f(2) refl]
  have "collect_results decode_field (f # fs) = Inr ((n, v) # nvs)" using f(1) c by simp
  with rest eff show ?case
    by (intro exI [of _ "(n, v) # nvs"] conjI)
       (simp_all only: address_values_Cons [of _ "(n, v)" nvs] field_values_Cons append_assoc
          first_or_def, auto)
qed

text \<open>
  The request is exactly what the link's decoded fields say: recipients accumulate in order
  behind the path's recipient, the first subject and the first body count and later ones are
  ignored, and no other header has any effect.
\<close>

theorem parse_mailto_fields:
  assumes "apply_fields \<lparr>ms_request = empty_request\<lparr>mr_to := to\<rparr>,
             ms_subject_seen = False, ms_body_seen = False\<rparr> fs = Inr st"
  shows "\<exists>nvs. collect_results decode_field fs = Inr nvs \<and>
     ms_request st = \<lparr>mr_to = to @ address_values ''to'' nvs,
       mr_cc = address_values ''cc'' nvs, mr_bcc = address_values ''bcc'' nvs,
       mr_subject = first_or [] (field_values ''subject'' nvs),
       mr_body = first_or [] (map normalize_body_line_breaks (field_values ''body'' nvs))\<rparr>"
proof -
  from apply_fields_effect [OF assms] obtain nvs where "collect_results decode_field fs = Inr nvs"
     "mr_to (ms_request st) = to @ address_values ''to'' nvs"
     "mr_cc (ms_request st) = address_values ''cc'' nvs"
     "mr_bcc (ms_request st) = address_values ''bcc'' nvs"
     "mr_subject (ms_request st) = first_or [] (field_values ''subject'' nvs)"
     "mr_body (ms_request st) = first_or [] (map normalize_body_line_breaks (field_values ''body'' nvs))"
    by (auto simp: empty_request_def)
  then show ?thesis by (intro exI [of _ nvs]) (cases "ms_request st", simp)
qed

lemma parse_mailto_fields_witness:
  "\<exists>st nvs. apply_fields \<lparr>ms_request = empty_request\<lparr>mr_to := []\<rparr>,
       ms_subject_seen = False, ms_body_seen = False\<rparr>
     [''Subject=a'', ''from=evil@x'', ''subject=b''] = Inr st \<and>
   collect_results decode_field [''Subject=a'', ''from=evil@x'', ''subject=b''] = Inr nvs \<and>
   mr_subject (ms_request st) = ''a''"
proof -
  let ?fs = "[''Subject=a'', ''from=evil@x'', ''subject=b'']"
  let ?r = "\<lparr>mr_to = [], mr_cc = [], mr_bcc = [], mr_subject = ''a'', mr_body = []\<rparr>"
  have a: "apply_fields \<lparr>ms_request = empty_request\<lparr>mr_to := []\<rparr>,
       ms_subject_seen = False, ms_body_seen = False\<rparr> ?fs =
     Inr \<lparr>ms_request = ?r, ms_subject_seen = True, ms_body_seen = False\<rparr>"
    by code_simp
  from parse_mailto_fields [OF a] a show ?thesis by auto
qed

end
