(* ===== verification/Message_Id.thy ===== *)
theory Message_Id
  imports Rust_Str
begin

text \<open>
  Message identifiers and threading headers of \<open>notm-mail/src/rfc5322.rs\<close>: the cursor parsers
  over the bytes of a header value, the obsolete syntax accepted in \<open>In-Reply-To\<close> and
  \<open>References\<close>, and the canonical form of an identifier.  Every parser works on the whole
  value and a byte index, as the source does; loops are recursive functions whose termination
  follows from the index moving right.
\<close>

section \<open>Errors\<close>

datatype header_error =
    ForbiddenControl string nat
  | TextOutsideId string
  | InvalidQuotedPhrase string
  | InvalidPhraseToken string
  | EncodedWordAdjacentText string
  | EncodedWordUnterminated string
  | EncodedWordBadCharset string
  | EncodedWordIncomplete string
  | EncodedWordBadEncoding string
  | EncodedWordBadText string
  | EncodedWordTooLong string
  | UnterminatedComment string
  | InvalidCommentCharacter string
  | IncompleteQuotedPair string
  | InvalidQuotedPair string
  | UnterminatedId string
  | NotBracketedAscii string
  | NoSingleSeparator string
  | InvalidObsoleteIdLeft string
  | InvalidObsoleteIdRight string
  | InvalidIdLeft string
  | InvalidIdRight string
  | UnterminatedQuotedComponent string
  | HeaderTokenTooLong string
  | HeaderTooLong string

section \<open>Character classes\<close>

definition is_wsp :: "char \<Rightarrow> bool" where
  "is_wsp b \<longleftrightarrow> b = SP \<or> b = HT"

definition is_atext :: "char \<Rightarrow> bool" where
  "is_atext b \<longleftrightarrow>
     is_ascii_alphanumeric b \<or> b \<in> set ''!#$%&'' \<or> b = CHR 0x27 \<or> b \<in> set ''*+-/=?^_`{|}~''"

text \<open>No control character other than a tab in a header value.\<close>

definition validate_header_text :: "string \<Rightarrow> string \<Rightarrow> header_error + unit" where
  "validate_header_text field value =
     (case List.find (\<lambda>c. c \<noteq> 9 \<and> is_control c) (chars value) of
        Some c \<Rightarrow> Inl (ForbiddenControl field c)
      | None \<Rightarrow> Inr ())"

definition valid_dot_atom :: "string \<Rightarrow> bool" where
  "valid_dot_atom value \<longleftrightarrow>
     value \<noteq> [] \<and> value ! 0 \<noteq> CHR ''.'' \<and> value ! (length value - 1) \<noteq> CHR ''.'' \<and>
     \<not> has_infix ''..'' value \<and> list_all (\<lambda>b. b = CHR ''.'' \<or> is_atext b) value"

function no_fold_literal_loop :: "string \<Rightarrow> nat \<Rightarrow> bool" where
  "no_fold_literal_loop content index =
     (if index < length content
      then (let b = content ! index in
            if b = BSL
            then (case get_at content (index + 1) of
                    None \<Rightarrow> False
                  | Some e \<Rightarrow> if is_wsp e \<or> is_ascii_graphic e
                              then no_fold_literal_loop content (index + 2) else False)
            else if 33 \<le> bval b \<and> bval b \<le> 90 \<or> 94 \<le> bval b \<and> bval b \<le> 126
            then no_fold_literal_loop content (index + 1)
            else False)
      else True)"
  by pat_completeness auto
termination by (relation "measure (\<lambda>(c, i). length c - i)") auto

declare no_fold_literal_loop.simps [simp del]

definition valid_no_fold_literal :: "string \<Rightarrow> bool" where
  "valid_no_fold_literal value \<longleftrightarrow>
     3 \<le> length value \<and> starts_with value ''['' \<and> ends_with value '']'' \<and>
     no_fold_literal_loop (slice 1 (length value - 1) value) 0"

definition valid_id_right :: "string \<Rightarrow> bool" where
  "valid_id_right value =
     (if starts_with value ''['' then valid_no_fold_literal value else valid_dot_atom value)"

section \<open>Words of an id-left\<close>

function atom_end :: "string \<Rightarrow> nat \<Rightarrow> nat" where
  "atom_end value i = (if i < length value \<and> is_atext (value ! i) then atom_end value (i + 1) else i)"
  by pat_completeness auto
termination by (relation "measure (\<lambda>(v, i). length v - i)") auto

declare atom_end.simps [simp del]

definition parse_id_left_atom :: "string \<Rightarrow> nat \<Rightarrow> nat option" where
  "parse_id_left_atom value index =
     (let e = atom_end value index in if e \<noteq> index then Some e else None)"

text \<open>The loop of \<open>parse\_quoted\_id\_word\<close>, from after the opening quote.\<close>

definition is_qtext_or_wsp :: "char \<Rightarrow> bool" where
  "is_qtext_or_wsp b \<longleftrightarrow>
     is_wsp b \<or> bval b = 33 \<or> 35 \<le> bval b \<and> bval b \<le> 91 \<or> 93 \<le> bval b \<and> bval b \<le> 126"

function quoted_word_loop :: "string \<Rightarrow> bool \<Rightarrow> nat \<Rightarrow> nat option" where
  "quoted_word_loop value escaped i =
     (case get_at value i of
        None \<Rightarrow> None
      | Some b \<Rightarrow>
          if escaped then (if is_wsp b \<or> is_ascii_graphic b then quoted_word_loop value False (i + 1) else None)
          else if b = BSL then quoted_word_loop value True (i + 1)
          else if b = DQ then Some (i + 1)
          else if is_qtext_or_wsp b then quoted_word_loop value False (i + 1)
          else None)"
  by pat_completeness auto
termination by (relation "measure (\<lambda>(v, e, i). length v - i)") (auto simp: get_at_Some)

declare quoted_word_loop.simps [simp del]

definition parse_quoted_id_word :: "string \<Rightarrow> nat \<Rightarrow> nat option" where
  "parse_quoted_id_word value index = quoted_word_loop value False (index + 1)"

definition parse_id_left_word :: "string \<Rightarrow> nat \<Rightarrow> nat option" where
  "parse_id_left_word value index =
     (if get_at value index = Some DQ then parse_quoted_id_word value index
      else parse_id_left_atom value index)"

lemma atom_end_bounds: "i \<le> length v \<Longrightarrow> i \<le> atom_end v i \<and> atom_end v i \<le> length v"
proof (induction v i rule: atom_end.induct)
  case (1 v i)
  then show ?case by (subst (1 2) atom_end.simps) (auto simp: atom_end.simps [of v i])
qed

lemma parse_id_left_atom_bounds:
  "parse_id_left_atom v i = Some e \<Longrightarrow> i < e \<and> (i \<le> length v \<longrightarrow> e \<le> length v)"
proof -
  have "i \<le> atom_end v i" for v i
    by (induction v i rule: atom_end.induct) (metis add_leD1 atom_end.simps order_refl)
  then show "parse_id_left_atom v i = Some e \<Longrightarrow> i < e \<and> (i \<le> length v \<longrightarrow> e \<le> length v)"
    using atom_end_bounds [of i v]
    by (auto simp: parse_id_left_atom_def Let_def le_neq_implies_less split: if_splits)
qed

lemma quoted_word_loop_bounds: "quoted_word_loop v esc i = Some e \<Longrightarrow> i < e \<and> e \<le> length v"
proof (induction v esc i rule: quoted_word_loop.induct)
  case (1 v esc i)
  then show ?case
    by (subst (asm) (3) quoted_word_loop.simps)
       (fastforce simp: get_at_Some split: option.splits if_splits)
qed

lemma parse_id_left_word_bounds:
  "parse_id_left_word v i = Some e \<Longrightarrow> i < e \<and> (i \<le> length v \<longrightarrow> e \<le> length v)"
  using parse_id_left_atom_bounds [of v i e] quoted_word_loop_bounds [of v False "i + 1" e]
  by (auto simp: parse_id_left_word_def parse_quoted_id_word_def split: if_splits)

text \<open>The loop of \<open>valid\_obs\_id\_left\<close>: a word, then either the end or a dot and another word.\<close>

function obs_id_left_loop :: "string \<Rightarrow> nat \<Rightarrow> bool" where
  "obs_id_left_loop value index =
     (case parse_id_left_word value index of
        None \<Rightarrow> False
      | Some index' \<Rightarrow>
          if index' = length value then True
          else if get_at value index' \<noteq> Some CHR ''.'' then False
          else if index' + 1 = length value then False
          else obs_id_left_loop value (index' + 1))"
  by pat_completeness auto
termination
  by (relation "measure (\<lambda>(v, i). length v - i)")
     (auto simp: get_at_Some dest!: parse_id_left_word_bounds)

declare obs_id_left_loop.simps [simp del]

definition valid_obs_id_left :: "string \<Rightarrow> bool" where
  "valid_obs_id_left value \<longleftrightarrow> value \<noteq> [] \<and> obs_id_left_loop value 0"

section \<open>Comments and folding white space\<close>

text \<open>
  The comment loop of \<open>skip\_message\_id\_cfws\<close>, from after the opening parenthesis at
  nesting \<open>depth\<close>.
\<close>

function cfws_comment :: "string \<Rightarrow> string \<Rightarrow> nat \<Rightarrow> nat \<Rightarrow> header_error + nat" where
  "cfws_comment field value depth index =
     (if depth = 0 then Inr index
      else (case get_at value index of
         None \<Rightarrow> Inl (UnterminatedComment field)
       | Some byte \<Rightarrow>
           if \<not> is_ascii_byte byte then
             (if is_control (char_at value index) then Inl (InvalidCommentCharacter field)
              else cfws_comment field value depth (index + utf8_len byte))
           else if \<not> (is_wsp byte \<or> is_ascii_graphic byte) then Inl (InvalidCommentCharacter field)
           else if byte = BSL then
             (case get_at value (index + 1) of
                None \<Rightarrow> Inl (IncompleteQuotedPair field)
              | Some e \<Rightarrow>
                  if is_ascii_byte e then
                    (if is_wsp e \<or> is_ascii_graphic e then cfws_comment field value depth (index + 2)
                     else Inl (InvalidQuotedPair field))
                  else if is_control (char_at value (index + 1)) then Inl (InvalidQuotedPair field)
                  else cfws_comment field value depth (index + 1 + (utf8_len e - 1) + 1))
           else if byte = CHR ''('' then cfws_comment field value (depth + 1) (index + 1)
           else if byte = CHR '')'' then cfws_comment field value (depth - 1) (index + 1)
           else cfws_comment field value depth (index + 1)))"
  by pat_completeness auto
termination by (relation "measure (\<lambda>(f, v, d, i). length v - i)") (auto simp: get_at_Some diff_less_mono2)

declare cfws_comment.simps [simp del]

function skip_wsp :: "string \<Rightarrow> nat \<Rightarrow> nat" where
  "skip_wsp value i = (if i < length value \<and> is_wsp (value ! i) then skip_wsp value (i + 1) else i)"
  by pat_completeness auto
termination by (relation "measure (\<lambda>(v, i). length v - i)") auto

declare skip_wsp.simps [simp del]

lemma skip_wsp_ge: "i \<le> skip_wsp v i"
  by (induction v i rule: skip_wsp.induct) (metis add_leD1 skip_wsp.simps order_refl)

lemma skip_wsp_le: "i \<le> length v \<Longrightarrow> skip_wsp v i \<le> length v"
proof (induction v i rule: skip_wsp.induct)
  case (1 v i)
  then show ?case by (auto simp: skip_wsp.simps [of v i])
qed

lemma cfws_comment_step:
  assumes "cfws_comment f v d i = Inr e" "d \<noteq> 0"
  shows "\<exists>d' i'. i < length v \<and> i < i' \<and> cfws_comment f v d' i' = Inr e"
proof -
  from assms obtain b where b: "get_at v i = Some b"
    by (subst (asm) cfws_comment.simps) (auto split: option.splits)
  then have i: "i < length v" by (simp add: get_at_Some)
  have "\<exists>d' k. cfws_comment f v d' (i + Suc k) = Inr e"
  proof (cases "is_ascii_byte b")
    case False
    with assms b have "cfws_comment f v d (i + utf8_len b) = Inr e"
      by (subst (asm) cfws_comment.simps) (auto split: if_splits)
    moreover obtain k where "utf8_len b = Suc k" using utf8_len_pos(2) by (metis not0_implies_Suc)
    ultimately show ?thesis by metis
  next
    case True
    show ?thesis
    proof (cases "b = BSL")
      case True
      then obtain c where c: "get_at v (i + 1) = Some c"
        using assms b \<open>is_ascii_byte b\<close>
        by (subst (asm) cfws_comment.simps) (auto split: if_splits option.splits)
      have "cfws_comment f v d (i + 2) = Inr e \<or> cfws_comment f v d (i + 1 + (utf8_len c - 1) + 1) = Inr e"
        using assms b c True \<open>is_ascii_byte b\<close>
        by (subst (asm) cfws_comment.simps) (auto split: if_splits)
      then show ?thesis by (metis add.assoc add_Suc_right numeral_2_eq_2 One_nat_def plus_1_eq_Suc add.commute)
    next
      case False
      with assms b \<open>is_ascii_byte b\<close> have "\<exists>d'. cfws_comment f v d' (i + 1) = Inr e"
        by (subst (asm) cfws_comment.simps) (auto split: if_splits)
      then show ?thesis by (metis One_nat_def)
    qed
  qed
  then obtain d' k where "cfws_comment f v d' (i + Suc k) = Inr e" by blast
  with i show ?thesis by (intro exI [of _ d'] exI [of _ "i + Suc k"]) simp
qed

lemma cfws_comment_zero [simp]: "cfws_comment f v 0 i = Inr i"
  by (simp add: cfws_comment.simps)

lemma cfws_comment_ge: "cfws_comment f v d i = Inr e \<Longrightarrow> i \<le> e"
proof (induction "length v - i" arbitrary: d i rule: less_induct)
  case less
  show ?case
  proof (cases "d = 0")
    case False
    from cfws_comment_step [OF less.prems this] obtain d' i'
      where s: "i < length v" "i < i'" "cfws_comment f v d' i' = Inr e" by blast
    then have "length v - i' < length v - i" by simp
    from less.hyps [OF this s(3)] s(2) show ?thesis by simp
  qed (use less.prems in simp)
qed

function skip_message_id_cfws :: "string \<Rightarrow> string \<Rightarrow> nat \<Rightarrow> header_error + nat" where
  "skip_message_id_cfws field value index =
     (let i = skip_wsp value index in
      if get_at value i \<noteq> Some CHR ''('' then Inr i
      else (case cfws_comment field value 1 (i + 1) of
              Inl e \<Rightarrow> Inl e
            | Inr i' \<Rightarrow> skip_message_id_cfws field value i'))"
  by pat_completeness auto
termination
proof (relation "measure (\<lambda>(f, v, i). length v - i)", goal_cases)
  case (2 f v index i i')
  then show ?case
    using cfws_comment_ge [of f v 1 "i + 1" i'] skip_wsp_ge [of index v]
    by (auto simp: get_at_Some)
qed simp

declare skip_message_id_cfws.simps [simp del]

lemma skip_message_id_cfws_ge: "skip_message_id_cfws f v i = Inr e \<Longrightarrow> i \<le> e"
proof (induction f v i rule: skip_message_id_cfws.induct)
  case (1 f v i)
  from "1.prems" consider "e = skip_wsp v i"
    | i' where "get_at v (skip_wsp v i) = Some CHR ''(''" "cfws_comment f v 1 (skip_wsp v i + 1) = Inr i'"
        "skip_message_id_cfws f v i' = Inr e"
    by (subst (asm) skip_message_id_cfws.simps) (auto simp: Let_def split: if_splits sum.splits)
  then show ?case
  proof cases
    case 1
    then show ?thesis by (simp add: skip_wsp_ge)
  next
    case 2
    from "1.IH" [OF refl _ 2(2,3)] 2(1) have "i' \<le> e" by simp
    with cfws_comment_ge [OF 2(2)] skip_wsp_ge [of i v] show ?thesis by linarith
  qed
qed

text \<open>\<open>skip\_obsolete\_message\_id\_comment\<close>: the loop from the given depth.\<close>

function obsolete_comment_loop :: "string \<Rightarrow> string \<Rightarrow> nat \<Rightarrow> nat \<Rightarrow> header_error + nat" where
  "obsolete_comment_loop field value depth index =
     (if depth = 0 then Inr index
      else (case get_at value index of
         None \<Rightarrow> Inl (UnterminatedComment field)
       | Some byte \<Rightarrow>
           if \<not> is_ascii_byte byte then
             (if is_control (char_at value index) then Inl (InvalidCommentCharacter field)
              else obsolete_comment_loop field value depth (index + utf8_len byte))
           else if byte = BSL then
             (case get_at value (index + 1) of
                None \<Rightarrow> Inl (IncompleteQuotedPair field)
              | Some e \<Rightarrow>
                  if is_ascii_byte e then
                    (if is_wsp e \<or> is_ascii_graphic e then obsolete_comment_loop field value depth (index + 2)
                     else Inl (InvalidQuotedPair field))
                  else if is_control (char_at value (index + 1)) then Inl (InvalidQuotedPair field)
                  else obsolete_comment_loop field value depth (index + 1 + (utf8_len e - 1) + 1))
           else if byte = CHR ''('' then obsolete_comment_loop field value (depth + 1) (index + 1)
           else if byte = CHR '')'' then obsolete_comment_loop field value (depth - 1) (index + 1)
           else if is_wsp byte \<or> 33 \<le> bval byte \<and> bval byte \<le> 126
             then obsolete_comment_loop field value depth (index + 1)
           else Inl (InvalidCommentCharacter field)))"
  by pat_completeness auto
termination by (relation "measure (\<lambda>(f, v, d, i). length v - i)") (auto simp: get_at_Some diff_less_mono2)

declare obsolete_comment_loop.simps [simp del]

definition skip_obsolete_message_id_comment :: "string \<Rightarrow> string \<Rightarrow> nat \<Rightarrow> header_error + nat" where
  "skip_obsolete_message_id_comment field value index = obsolete_comment_loop field value 1 (index + 1)"

lemma obsolete_comment_loop_eq: "obsolete_comment_loop f v d i = cfws_comment f v d i"
proof (induction "length v - i" arbitrary: d i rule: less_induct)
  case less
  have sp: "is_ascii_graphic BSL" "is_ascii_graphic CHR ''(''" "is_ascii_graphic CHR '')''"
    by (simp_all add: is_ascii_graphic_def)
  show ?case
  proof (cases "get_at v i")
    case None
    then show ?thesis by (simp add: obsolete_comment_loop.simps cfws_comment.simps)
  next
    case (Some b)
    then have "i < length v" by (simp add: get_at_Some)
    then have IH: "i < j \<Longrightarrow> obsolete_comment_loop f v d j = cfws_comment f v d j" for d j
      using less.hyps [of j d] by (simp add: diff_less_mono2)
    consider "d = 0" | "d \<noteq> 0" "\<not> is_ascii_byte b" | "d \<noteq> 0" "is_ascii_byte b" "b = BSL"
      | "d \<noteq> 0" "is_ascii_byte b" "b \<noteq> BSL" by blast
    then show ?thesis
    proof cases
      case 1
      then show ?thesis by (simp add: obsolete_comment_loop.simps)
    next
      case 2
      with Some IH [of "i + utf8_len b"] show ?thesis
        by (simp add: obsolete_comment_loop.simps [of f v d i] cfws_comment.simps [of f v d i])
    next
      case 3
      with Some sp IH show ?thesis
        by (simp add: obsolete_comment_loop.simps [of f v d i] cfws_comment.simps [of f v d i]
            split: option.split)
    next
      case 4
      with Some sp IH [of "i + 1"] show ?thesis
        by (simp add: obsolete_comment_loop.simps [of f v d i] cfws_comment.simps [of f v d i]
            is_ascii_graphic_def)
    qed
  qed
qed

function skip_obsolete_message_id_cfws :: "string \<Rightarrow> string \<Rightarrow> nat \<Rightarrow> header_error + nat" where
  "skip_obsolete_message_id_cfws field value index =
     (let i = skip_wsp value index in
      if get_at value i \<noteq> Some CHR ''('' then Inr i
      else (case skip_obsolete_message_id_comment field value i of
              Inl e \<Rightarrow> Inl e
            | Inr i' \<Rightarrow> skip_obsolete_message_id_cfws field value i'))"
  by pat_completeness auto
termination
proof (relation "measure (\<lambda>(f, v, i). length v - i)", goal_cases)
  case (2 f v index i i')
  then show ?case
    using cfws_comment_ge [of f v 1 "i + 1" i'] skip_wsp_ge [of index v]
    by (auto simp: get_at_Some skip_obsolete_message_id_comment_def obsolete_comment_loop_eq)
qed simp

declare skip_obsolete_message_id_cfws.simps [simp del]

lemma skip_obsolete_cfws_eq: "skip_obsolete_message_id_cfws f v i = skip_message_id_cfws f v i"
proof (induction f v i rule: skip_message_id_cfws.induct)
  case (1 f v i)
  show ?case
  proof (cases "get_at v (skip_wsp v i) = Some CHR ''(''")
    case True
    show ?thesis
      using "1.IH" [OF refl] True
      by (subst skip_message_id_cfws.simps, subst skip_obsolete_message_id_cfws.simps)
         (auto simp: skip_obsolete_message_id_comment_def obsolete_comment_loop_eq Let_def
           split: sum.splits)
  next
    case False
    then show ?thesis
      by (subst skip_message_id_cfws.simps, subst skip_obsolete_message_id_cfws.simps) simp
  qed
qed

section \<open>Ignored phrases of the obsolete threading syntax\<close>

definition encoded_word_special :: "char \<Rightarrow> bool" where
  "encoded_word_special b \<longleftrightarrow> b \<in> set ''()<>@,;:'' \<or> b = DQ \<or> b = BSL \<or> b \<in> set ''/[]?=''"

definition valid_rfc2047_charset_token :: "string \<Rightarrow> bool" where
  "valid_rfc2047_charset_token value \<longleftrightarrow>
     value \<noteq> [] \<and> list_all (\<lambda>b. is_ascii_graphic b \<and> \<not> encoded_word_special b) value"

definition valid_rfc2047_encoding_token :: "string \<Rightarrow> bool" where
  "valid_rfc2047_encoding_token value \<longleftrightarrow>
     value \<noteq> [] \<and>
     list_all (\<lambda>b. is_ascii_graphic b \<and> \<not> (encoded_word_special b \<or> b = CHR ''.'')) value"

definition parse_obsolete_threading_encoded_word :: "string \<Rightarrow> string \<Rightarrow> nat \<Rightarrow> header_error + nat" where
  "parse_obsolete_threading_encoded_word field value index =
     and_then (ensure (index = 0 \<or> is_wsp (value ! (index - 1))) (EncodedWordAdjacentText field)) (\<lambda>_.
     and_then (ok_or (position_from CHR ''?'' value (index + 2)) (EncodedWordUnterminated field)) (\<lambda>charset_end.
     and_then (ensure (valid_rfc2047_charset_token (slice (index + 2) charset_end value))
                 (EncodedWordBadCharset field)) (\<lambda>_.
     and_then (ok_or (position_from CHR ''?'' value (charset_end + 1)) (EncodedWordIncomplete field)) (\<lambda>encoding_end.
     and_then (ensure (valid_rfc2047_encoding_token (slice (charset_end + 1) encoding_end value))
                 (EncodedWordBadEncoding field)) (\<lambda>_.
     and_then (ok_or (position_from CHR ''?'' value (encoding_end + 1)) (EncodedWordUnterminated field)) (\<lambda>text_end.
     and_then (ensure (get_at value (text_end + 1) = Some CHR ''='' \<and> text_end \<noteq> encoding_end + 1)
                 (EncodedWordBadText field)) (\<lambda>_.
     and_then (ensure (list_all (\<lambda>b. is_ascii_graphic b \<and> b \<noteq> CHR ''?'')
                        (slice (encoding_end + 1) text_end value)) (EncodedWordBadText field)) (\<lambda>_.
     (let stop = text_end + 2 in
     and_then (ensure (stop - index \<le> 75) (EncodedWordTooLong field)) (\<lambda>_.
     (case get_at value stop of
        None \<Rightarrow> Inr stop
      | Some next \<Rightarrow> and_then (ensure (is_wsp next) (EncodedWordAdjacentText field)) (\<lambda>_. Inr stop))))))))))))"

function threading_atom_end :: "string \<Rightarrow> nat \<Rightarrow> nat option" where
  "threading_atom_end value i =
     (case get_at value i of
        None \<Rightarrow> Some i
      | Some b \<Rightarrow>
          if is_ascii_byte b
          then (if \<not> is_atext b then Some i else threading_atom_end value (i + 1))
          else if is_control (char_at value i) then None
          else threading_atom_end value (i + utf8_len b))"
  by pat_completeness auto
termination by (relation "measure (\<lambda>(v, i). length v - i)") (auto simp: get_at_Some diff_less_mono2)

declare threading_atom_end.simps [simp del]

definition parse_obsolete_threading_atom :: "string \<Rightarrow> nat \<Rightarrow> nat option" where
  "parse_obsolete_threading_atom value index =
     Option.bind (threading_atom_end value index) (\<lambda>e. if e \<noteq> index then Some e else None)"

function threading_quoted_loop :: "string \<Rightarrow> nat \<Rightarrow> nat option" where
  "threading_quoted_loop value index =
     (case get_at value index of
        None \<Rightarrow> None
      | Some byte \<Rightarrow>
          if byte = BSL then
            (case get_at value (index + 1) of
               None \<Rightarrow> None
             | Some escaped \<Rightarrow>
                 if is_wsp escaped \<or> is_ascii_graphic escaped
                 then threading_quoted_loop value (index + 2) else None)
          else if byte = DQ then Some (index + 1)
          else if is_qtext_or_wsp byte then threading_quoted_loop value (index + 1)
          else if is_ascii_byte byte then None
          else if is_control (char_at value index) then None
          else threading_quoted_loop value (index + utf8_len byte))"
  by pat_completeness auto
termination by (relation "measure (\<lambda>(v, i). length v - i)") (auto simp: get_at_Some diff_less_mono2)

declare threading_quoted_loop.simps [simp del]

definition parse_obsolete_threading_quoted_word :: "string \<Rightarrow> nat \<Rightarrow> nat option" where
  "parse_obsolete_threading_quoted_word value index = threading_quoted_loop value (index + 1)"

definition parse_obsolete_threading_word :: "string \<Rightarrow> string \<Rightarrow> nat \<Rightarrow> header_error + nat" where
  "parse_obsolete_threading_word field value index =
     (if index + 2 \<le> length value \<and> slice index (index + 2) value = ''=?''
      then parse_obsolete_threading_encoded_word field value index
      else if get_at value index = Some DQ
      then ok_or (parse_obsolete_threading_quoted_word value index) (InvalidQuotedPhrase field)
      else ok_or (parse_obsolete_threading_atom value index) (InvalidPhraseToken field))"

lemma threading_atom_end_ge: "threading_atom_end v i = Some e \<Longrightarrow> i \<le> e"
proof (induction v i rule: threading_atom_end.induct)
  case (1 v i)
  from "1.prems" show ?case
    by (subst (asm) threading_atom_end.simps)
       (auto split: option.splits if_splits dest: "1.IH" intro: order_trans)
qed

lemma threading_quoted_loop_step:
  assumes "threading_quoted_loop v i = Some e"
  shows "e = i + 1 \<or> threading_quoted_loop v (i + 1) = Some e \<or> threading_quoted_loop v (i + 2) = Some e
     \<or> (\<exists>b. threading_quoted_loop v (i + utf8_len b) = Some e)"
  using assms by (subst (asm) threading_quoted_loop.simps) (auto split: option.splits if_splits)

lemma threading_quoted_loop_ge: "threading_quoted_loop v i = Some e \<Longrightarrow> i \<le> e"
proof (rule cursor_progress [where R = "\<lambda>i e. threading_quoted_loop v i = Some e" and n = "length v"])
  fix i e assume r: "threading_quoted_loop v i = Some e"
  then have "i < length v"
    by (subst (asm) threading_quoted_loop.simps) (auto simp: get_at_Some split: option.splits)
  with threading_quoted_loop_step [OF r]
  show "i \<le> e \<or> (\<exists>j. i < length v \<and> i < j \<and> threading_quoted_loop v j = Some e)"
    by (metis add.commute add_lessD1 le_add1 less_add_same_cancel1 utf8_len_pos(1) zero_less_one zero_less_numeral)
qed

lemma encoded_word_gt: "parse_obsolete_threading_encoded_word f v i = Inr e \<Longrightarrow> i < e"
  by (auto simp: parse_obsolete_threading_encoded_word_def result_simps Let_def
      dest!: position_from_Some split: option.splits)

lemma threading_word_gt: "parse_obsolete_threading_word f v i = Inr e \<Longrightarrow> i < e"
  using Suc_le_lessD threading_quoted_loop_ge [of v "i + 1" e] threading_atom_end_ge [of v i e] encoded_word_gt [of f v i e]
  by (auto simp: parse_obsolete_threading_word_def result_simps parse_obsolete_threading_quoted_word_def
      parse_obsolete_threading_atom_def bind_eq_Some_conv split: if_splits)

text \<open>The loop of \<open>parse\_obsolete\_threading\_phrase\<close>, after its first word.\<close>

function threading_phrase_loop :: "string \<Rightarrow> string \<Rightarrow> nat \<Rightarrow> header_error + nat" where
  "threading_phrase_loop field value index =
     (case skip_message_id_cfws field value index of
        Inl e \<Rightarrow> Inl e
      | Inr i \<Rightarrow>
          (case get_at value i of
             None \<Rightarrow> Inr i
           | Some byte \<Rightarrow>
               if byte = CHR ''<'' then Inr i
               else if byte = CHR ''.'' then threading_phrase_loop field value (i + 1)
               else (case parse_obsolete_threading_word field value i of
                       Inl e \<Rightarrow> Inl e
                     | Inr i' \<Rightarrow> threading_phrase_loop field value i')))"
  by pat_completeness auto
termination
proof (relation "measure (\<lambda>(f, v, i). length v - i)", goal_cases)
  case (2 f v index i b)
  with skip_message_id_cfws_ge [of f v index i] show ?case by (auto simp: get_at_Some)
next
  case (3 f v index i b i')
  with skip_message_id_cfws_ge [of f v index i] threading_word_gt [of f v i i']
  show ?case by (auto simp: get_at_Some)
qed simp

declare threading_phrase_loop.simps [simp del]

definition parse_obsolete_threading_phrase :: "string \<Rightarrow> string \<Rightarrow> nat \<Rightarrow> header_error + nat" where
  "parse_obsolete_threading_phrase field value index =
     and_then (parse_obsolete_threading_word field value index) (threading_phrase_loop field value)"

lemma threading_phrase_loop_ge: "threading_phrase_loop f v i = Inr e \<Longrightarrow> i \<le> e"
proof (rule cursor_progress [where R = "\<lambda>i e. threading_phrase_loop f v i = Inr e" and n = "length v"])
  fix i e assume r: "threading_phrase_loop f v i = Inr e"
  then obtain k where k: "skip_message_id_cfws f v i = Inr k"
    by (subst (asm) threading_phrase_loop.simps) (auto split: sum.splits)
  note ik = skip_message_id_cfws_ge [OF k]
  from r k have "e = k \<or> k < length v \<and> (threading_phrase_loop f v (k + 1) = Inr e \<or>
      (\<exists>k'. parse_obsolete_threading_word f v k = Inr k' \<and> threading_phrase_loop f v k' = Inr e))"
    by (subst (asm) threading_phrase_loop.simps)
       (auto simp: get_at_Some split: sum.splits option.splits if_splits)
  then consider "e = k" | "k < length v" "threading_phrase_loop f v (k + 1) = Inr e"
    | k' where "k < length v" "k < k'" "threading_phrase_loop f v k' = Inr e"
    using threading_word_gt by blast
  then show "i \<le> e \<or> (\<exists>j. i < length v \<and> i < j \<and> threading_phrase_loop f v j = Inr e)"
  proof cases
    case 2
    then show ?thesis using ik by (intro disjI2 exI [of _ "k + 1"]) auto
  next
    case (3 k')
    then show ?thesis using ik by (intro disjI2 exI [of _ k']) auto
  qed (use ik in simp)
qed

lemma threading_phrase_gt: "parse_obsolete_threading_phrase f v i = Inr e \<Longrightarrow> i < e"
  using threading_word_gt threading_phrase_loop_ge
  by (fastforce simp: parse_obsolete_threading_phrase_def result_simps)

section \<open>Delimiting an identifier\<close>

text \<open>The scanner state shared by \<open>find\_message\_id\_end\<close> and \<open>message\_id\_separator\<close>.\<close>

record id_scan =
  sc_quoted :: bool
  sc_literal :: bool
  sc_escaped :: bool
  sc_depth :: nat

definition id_scan_start :: id_scan where
  "id_scan_start = \<lparr>sc_quoted = False, sc_literal = False, sc_escaped = False, sc_depth = 0\<rparr>"

text \<open>
  One byte of either scanner: \<open>None\<close> when the byte is plain at the top level, so that the
  caller may look at it (the last branch of both if-chains), otherwise the next state.
\<close>

definition id_scan_step :: "id_scan \<Rightarrow> char \<Rightarrow> id_scan option" where
  "id_scan_step st byte =
     (if sc_depth st \<noteq> 0 then
        Some (if sc_escaped st then st\<lparr>sc_escaped := False\<rparr>
              else if byte = BSL then st\<lparr>sc_escaped := True\<rparr>
              else if byte = CHR ''('' then st\<lparr>sc_depth := sc_depth st + 1\<rparr>
              else if byte = CHR '')'' then st\<lparr>sc_depth := sc_depth st - 1\<rparr>
              else st)
      else if sc_escaped st then Some (st\<lparr>sc_escaped := False\<rparr>)
      else if (sc_quoted st \<or> sc_literal st) \<and> byte = BSL then Some (st\<lparr>sc_escaped := True\<rparr>)
      else if \<not> sc_literal st \<and> byte = DQ then Some (st\<lparr>sc_quoted := \<not> sc_quoted st\<rparr>)
      else if \<not> sc_quoted st \<and> byte = CHR ''['' then Some (st\<lparr>sc_literal := True\<rparr>)
      else if sc_literal st \<and> byte = CHR '']'' then Some (st\<lparr>sc_literal := False\<rparr>)
      else if \<not> sc_quoted st \<and> \<not> sc_literal st \<and> byte = CHR ''('' then Some (st\<lparr>sc_depth := 1\<rparr>)
      else if \<not> sc_quoted st \<and> \<not> sc_literal st then None
      else Some st)"

function find_id_end_loop :: "string \<Rightarrow> string \<Rightarrow> id_scan \<Rightarrow> nat \<Rightarrow> header_error + nat" where
  "find_id_end_loop field value st index =
     (case get_at value index of
        None \<Rightarrow> Inl (UnterminatedId field)
      | Some byte \<Rightarrow>
          (case id_scan_step st byte of
             None \<Rightarrow> if byte = CHR ''>'' then Inr index
                     else find_id_end_loop field value st (index + 1)
           | Some st' \<Rightarrow> find_id_end_loop field value st' (index + 1)))"
  by pat_completeness auto
termination by (relation "measure (\<lambda>(f, v, s, i). length v - i)") (auto simp: get_at_Some)

declare find_id_end_loop.simps [simp del]

definition find_message_id_end :: "string \<Rightarrow> string \<Rightarrow> nat \<Rightarrow> header_error + nat" where
  "find_message_id_end field value index = find_id_end_loop field value id_scan_start index"

fun separator_loop :: "id_scan \<Rightarrow> nat option \<Rightarrow> nat \<Rightarrow> string \<Rightarrow> nat option" where
  "separator_loop st separator index [] =
     (if \<not> sc_quoted st \<and> \<not> sc_literal st \<and> \<not> sc_escaped st \<and> sc_depth st = 0
      then separator else None)"
| "separator_loop st separator index (byte # bytes) =
     (case id_scan_step st byte of
        None \<Rightarrow>
          if byte = CHR ''@''
          then (if separator \<noteq> None then None else separator_loop st (Some index) (index + 1) bytes)
          else separator_loop st separator (index + 1) bytes
      | Some st' \<Rightarrow> separator_loop st' separator (index + 1) bytes)"

definition message_id_separator :: "string \<Rightarrow> nat option" where
  "message_id_separator inner = separator_loop id_scan_start None 0 inner"

lemma find_id_end_loop_bounds:
  "find_id_end_loop f v st i = Inr e \<Longrightarrow> i \<le> e \<and> e < length v \<and> v ! e = CHR ''>''"
proof (induction f v st i rule: find_id_end_loop.induct)
  case (1 f v st i)
  from "1.prems" obtain b where b: "get_at v i = Some b"
    by (subst (asm) find_id_end_loop.simps) (auto split: option.splits)
  show ?case
  proof (cases "id_scan_step st b")
    case None
    with "1.prems" b have "b = CHR ''>'' \<and> e = i \<or> b \<noteq> CHR ''>'' \<and> find_id_end_loop f v st (i + 1) = Inr e"
      by (subst (asm) find_id_end_loop.simps) (auto split: if_splits)
    then show ?thesis using "1.IH"(1) [OF b None] b by (auto simp: get_at_Some)
  next
    case (Some st')
    with "1.prems" b have "find_id_end_loop f v st' (i + 1) = Inr e"
      by (subst (asm) find_id_end_loop.simps) simp
    with "1.IH"(2) [OF b Some] show ?thesis by auto
  qed
qed

lemma separator_loop_bounds:
  "separator_loop st sep i bs = Some k \<Longrightarrow>
     sep = Some k \<or> i \<le> k \<and> k < i + length bs \<and> bs ! (k - i) = CHR ''@''"
proof (induction st sep i bs rule: separator_loop.induct)
  case (2 st sep i b bs)
  show ?case
  proof (cases "id_scan_step st b")
    case None
    show ?thesis
    proof (cases "b = CHR ''@''")
      case True
      with None "2.prems" have "separator_loop st (Some i) (i + 1) bs = Some k" by (auto split: if_splits)
      moreover from "2.prems" None True have "sep = None" by (auto split: if_splits)
      ultimately show ?thesis using "2.IH"(1) [OF None True] True by (auto simp: nth_Cons')
    next
      case False
      with None "2.prems" "2.IH"(2) [OF None False] show ?thesis by (auto simp: nth_Cons')
    qed
  next
    case (Some st')
    with "2.prems" "2.IH"(3) [OF Some] show ?thesis by (auto simp: nth_Cons')
  qed
qed (auto split: if_splits)

lemma message_id_separator_Some:
  "message_id_separator s = Some k \<Longrightarrow> k < length s \<and> s ! k = CHR ''@''"
  using separator_loop_bounds [of id_scan_start None 0 s k] by (auto simp: message_id_separator_def)

lemma skip_comment_gt: "skip_obsolete_message_id_comment f v i = Inr e \<Longrightarrow> i < e"
  using cfws_comment_ge [of f v 1 "i + 1" e]
  by (simp add: skip_obsolete_message_id_comment_def obsolete_comment_loop_eq)

lemma skip_obsolete_cfws_ge: "skip_obsolete_message_id_cfws f v i = Inr e \<Longrightarrow> i \<le> e"
  by (simp add: skip_obsolete_cfws_eq skip_message_id_cfws_ge)

section \<open>The obsolete identifier grammar with comments\<close>

definition parse_obs_id_left_word :: "string \<Rightarrow> string \<Rightarrow> nat \<Rightarrow> header_error + nat option" where
  "parse_obs_id_left_word field value index =
     and_then (skip_obsolete_message_id_cfws field value index) (\<lambda>index.
       (case get_at value index of
          None \<Rightarrow> Inr None
        | Some first \<Rightarrow>
            (let next = (if first = DQ then parse_quoted_id_word value index
                         else parse_id_left_atom value index)
             in case next of
                  None \<Rightarrow> Inr None
                | Some next \<Rightarrow> map_ok Some (skip_obsolete_message_id_cfws field value next))))"

definition parse_obs_domain_atom :: "string \<Rightarrow> string \<Rightarrow> nat \<Rightarrow> header_error + nat option" where
  "parse_obs_domain_atom field value index =
     and_then (skip_obsolete_message_id_cfws field value index) (\<lambda>index.
       (case parse_id_left_atom value index of
          None \<Rightarrow> Inr None
        | Some next \<Rightarrow> map_ok Some (skip_obsolete_message_id_cfws field value next)))"

lemma parse_obs_id_left_word_Some:
  assumes "parse_obs_id_left_word f v i = Inr (Some k)"
  obtains j n where "skip_obsolete_message_id_cfws f v i = Inr j" "parse_id_left_word v j = Some n"
    "skip_obsolete_message_id_cfws f v n = Inr k"
proof -
  from assms [unfolded parse_obs_id_left_word_def Let_def]
  obtain j where j: "skip_obsolete_message_id_cfws f v i = Inr j"
    and r: "(case get_at v j of None \<Rightarrow> Inr None
       | Some first \<Rightarrow> (case (if first = DQ then parse_quoted_id_word v j else parse_id_left_atom v j) of
           None \<Rightarrow> Inr None
         | Some next \<Rightarrow> map_ok Some (skip_obsolete_message_id_cfws f v next))) = Inr (Some k)"
    by (auto simp: result_simps)
  from r obtain first where first: "get_at v j = Some first" by (auto split: option.splits)
  then have "(if first = DQ then parse_quoted_id_word v j else parse_id_left_atom v j) = parse_id_left_word v j"
    by (simp add: parse_id_left_word_def)
  with r first obtain n where "parse_id_left_word v j = Some n"
      "skip_obsolete_message_id_cfws f v n = Inr k"
    by (auto simp: result_simps split: option.splits)
  with j that show ?thesis by blast
qed

lemma parse_obs_id_left_word_gt: "parse_obs_id_left_word f v i = Inr (Some k) \<Longrightarrow> i < k"
  by (erule parse_obs_id_left_word_Some)
     (metis le_less_trans less_le_trans parse_id_left_word_bounds skip_obsolete_cfws_ge)

lemma parse_obs_domain_atom_Some:
  assumes "parse_obs_domain_atom f v i = Inr (Some k)"
  obtains j n where "skip_obsolete_message_id_cfws f v i = Inr j" "parse_id_left_atom v j = Some n"
    "skip_obsolete_message_id_cfws f v n = Inr k"
proof -
  from assms obtain j where j: "skip_obsolete_message_id_cfws f v i = Inr j"
    and r: "(case parse_id_left_atom v j of None \<Rightarrow> Inr None
         | Some next \<Rightarrow> map_ok Some (skip_obsolete_message_id_cfws f v next)) = Inr (Some k)"
    by (auto simp: parse_obs_domain_atom_def result_simps)
  from r obtain n where "parse_id_left_atom v j = Some n"
      "skip_obsolete_message_id_cfws f v n = Inr k"
    by (auto simp: result_simps split: option.splits)
  with j that show ?thesis by blast
qed

lemma parse_obs_domain_atom_gt: "parse_obs_domain_atom f v i = Inr (Some k) \<Longrightarrow> i < k"
  by (erule parse_obs_domain_atom_Some)
     (metis le_less_trans less_le_trans parse_id_left_atom_bounds skip_obsolete_cfws_ge)

text \<open>
  The loops of \<open>valid\_obs\_id\_left\_with\_cfws\<close> and
  \<open>valid\_obs\_id\_right\_with\_cfws\<close>: a part, then the end or a dot and another part.
\<close>

function obs_left_loop :: "string \<Rightarrow> string \<Rightarrow> nat \<Rightarrow> header_error + bool" where
  "obs_left_loop field value index =
     (case parse_obs_id_left_word field value index of
        Inl e \<Rightarrow> Inl e
      | Inr None \<Rightarrow> Inr False
      | Inr (Some index') \<Rightarrow>
          if index' = length value then Inr True
          else if get_at value index' \<noteq> Some CHR ''.'' then Inr False
          else if index' + 1 = length value then Inr False
          else obs_left_loop field value (index' + 1))"
  by pat_completeness auto
termination
proof (relation "measure (\<lambda>(f, v, i). length v - i)", goal_cases)
  case (2 f v i r k)
  then have "i < k" using parse_obs_id_left_word_gt by blast
  with 2 show ?case by (auto simp: get_at_Some)
qed simp

declare obs_left_loop.simps [simp del]

function obs_right_loop :: "string \<Rightarrow> string \<Rightarrow> nat \<Rightarrow> header_error + bool" where
  "obs_right_loop field value index =
     (case parse_obs_domain_atom field value index of
        Inl e \<Rightarrow> Inl e
      | Inr None \<Rightarrow> Inr False
      | Inr (Some index') \<Rightarrow>
          if index' = length value then Inr True
          else if get_at value index' \<noteq> Some CHR ''.'' then Inr False
          else if index' + 1 = length value then Inr False
          else obs_right_loop field value (index' + 1))"
  by pat_completeness auto
termination
proof (relation "measure (\<lambda>(f, v, i). length v - i)", goal_cases)
  case (2 f v i r k)
  then have "i < k" using parse_obs_domain_atom_gt by blast
  with 2 show ?case by (auto simp: get_at_Some)
qed simp

declare obs_right_loop.simps [simp del]

function domain_literal_loop :: "string \<Rightarrow> string \<Rightarrow> bool \<Rightarrow> nat \<Rightarrow> header_error + bool" where
  "domain_literal_loop field value has_content index =
     (case get_at value index of
        None \<Rightarrow> Inr False
      | Some byte \<Rightarrow>
          if byte = CHR '']'' then
            (if \<not> has_content then Inr False
             else map_ok (\<lambda>i. i = length value) (skip_obsolete_message_id_cfws field value (index + 1)))
          else if is_wsp byte then domain_literal_loop field value has_content (index + 1)
          else if byte = BSL then
            (case get_at value (index + 1) of
               None \<Rightarrow> Inr False
             | Some escaped \<Rightarrow>
                 if \<not> is_wsp escaped \<and> \<not> is_ascii_graphic escaped then Inr False
                 else domain_literal_loop field value True (index + 2))
          else if 33 \<le> bval byte \<and> bval byte \<le> 90 \<or> 94 \<le> bval byte \<and> bval byte \<le> 126
            then domain_literal_loop field value True (index + 1)
          else Inr False)"
  by pat_completeness auto
termination by (relation "measure (\<lambda>(f, v, h, i). length v - i)") (auto simp: get_at_Some)

declare domain_literal_loop.simps [simp del]

definition valid_obs_domain_literal :: "string \<Rightarrow> string \<Rightarrow> nat \<Rightarrow> header_error + bool" where
  "valid_obs_domain_literal field value index = domain_literal_loop field value False (index + 1)"

definition valid_obs_id_left_with_cfws :: "string \<Rightarrow> string \<Rightarrow> header_error + bool" where
  "valid_obs_id_left_with_cfws field value =
     (if value = [] then Inr False else obs_left_loop field value 0)"

definition valid_obs_id_right_with_cfws :: "string \<Rightarrow> string \<Rightarrow> header_error + bool" where
  "valid_obs_id_right_with_cfws field value =
     (if value = [] then Inr False
      else and_then (skip_obsolete_message_id_cfws field value 0) (\<lambda>start.
        if get_at value start = Some CHR ''['' then valid_obs_domain_literal field value start
        else obs_right_loop field value 0))"

section \<open>Canonical identifiers\<close>

text \<open>The loop of \<open>strip\_obsolete\_message\_id\_cfws\<close>; the result is the rest of \<open>canonical\<close>.\<close>

function strip_cfws_loop ::
  "string \<Rightarrow> string \<Rightarrow> bool \<Rightarrow> bool \<Rightarrow> bool \<Rightarrow> nat \<Rightarrow> header_error + string" where
  "strip_cfws_loop field value quoted literal escaped index =
     (case get_at value index of
        None \<Rightarrow>
          if \<not> quoted \<and> \<not> literal \<and> \<not> escaped then Inr []
          else Inl (UnterminatedQuotedComponent field)
      | Some byte \<Rightarrow>
          if escaped then
            map_ok (\<lambda>r. byte # r) (strip_cfws_loop field value quoted literal False (index + 1))
          else if (quoted \<or> literal) \<and> byte = BSL then
            map_ok (\<lambda>r. byte # r) (strip_cfws_loop field value quoted literal True (index + 1))
          else if \<not> literal \<and> byte = DQ then
            map_ok (\<lambda>r. byte # r) (strip_cfws_loop field value (\<not> quoted) literal False (index + 1))
          else if \<not> quoted \<and> byte = CHR ''['' then
            map_ok (\<lambda>r. byte # r) (strip_cfws_loop field value quoted True False (index + 1))
          else if literal \<and> byte = CHR '']'' then
            map_ok (\<lambda>r. byte # r) (strip_cfws_loop field value quoted False False (index + 1))
          else if \<not> quoted \<and> is_wsp byte then
            strip_cfws_loop field value quoted literal False (index + 1)
          else if \<not> quoted \<and> \<not> literal \<and> byte = CHR ''('' then
            (case skip_obsolete_message_id_comment field value index of
               Inl e \<Rightarrow> Inl e
             | Inr index' \<Rightarrow> strip_cfws_loop field value quoted literal False index')
          else map_ok (\<lambda>r. byte # r) (strip_cfws_loop field value quoted literal False (index + 1)))"
  by pat_completeness auto
termination
  by (relation "measure (\<lambda>(f, v, q, l, e, i). length v - i)")
     (auto simp: get_at_Some dest!: skip_comment_gt)

declare strip_cfws_loop.simps [simp del]

definition strip_obsolete_message_id_cfws :: "string \<Rightarrow> string \<Rightarrow> header_error + string" where
  "strip_obsolete_message_id_cfws field value = strip_cfws_loop field value False False False 0"

definition canonical_message_id_core :: "string \<Rightarrow> string \<Rightarrow> bool \<Rightarrow> header_error + string" where
  "canonical_message_id_core field value allow_obsolete_internal_cfws =
     and_then (ensure (starts_with value ''<'' \<and> ends_with value ''>'' \<and>
                       (allow_obsolete_internal_cfws \<or> is_ascii_str value)) (NotBracketedAscii field)) (\<lambda>_.
     let source_inner = slice 1 (length value - 1) value in
     and_then (ok_or (message_id_separator source_inner) (NoSingleSeparator field)) (\<lambda>source_separator.
     let source_left = take source_separator source_inner;
         source_right = drop (source_separator + 1) source_inner in
     and_then
       (if allow_obsolete_internal_cfws then
          and_then (valid_obs_id_left_with_cfws field source_left) (\<lambda>l.
          and_then (ensure l (InvalidObsoleteIdLeft field)) (\<lambda>_.
          and_then (valid_obs_id_right_with_cfws field source_right) (\<lambda>r.
          and_then (ensure r (InvalidObsoleteIdRight field)) (\<lambda>_.
            strip_obsolete_message_id_cfws field source_inner))))
        else
          and_then (ensure (valid_dot_atom source_left) (InvalidIdLeft field)) (\<lambda>_.
          and_then (ensure (valid_id_right source_right) (InvalidIdRight field)) (\<lambda>_.
            Inr source_inner))) (\<lambda>inner.
     and_then (ok_or (message_id_separator inner) (NoSingleSeparator field)) (\<lambda>separator.
     and_then (ensure (valid_obs_id_left (take separator inner)) (InvalidIdLeft field)) (\<lambda>_.
     and_then (ensure (valid_id_right (drop (separator + 1) inner)) (InvalidIdRight field)) (\<lambda>_.
       Inr (''<'' @ inner @ ''>'')))))))"

section \<open>Sequences of identifiers\<close>

text \<open>The loop of \<open>parse\_message\_id\_sequence\<close>; the result is the rest of \<open>ids\<close>.\<close>

function message_id_loop :: "string \<Rightarrow> string \<Rightarrow> bool \<Rightarrow> nat \<Rightarrow> header_error + string list" where
  "message_id_loop field value allow index =
     (if \<not> index < length value then Inr []
      else (case skip_message_id_cfws field value index of
         Inl e \<Rightarrow> Inl e
       | Inr i \<Rightarrow>
           if i = length value then Inr []
           else if get_at value i \<noteq> Some CHR ''<'' then
             (if \<not> allow then Inl (TextOutsideId field)
              else (case parse_obsolete_threading_phrase field value i of
                      Inl e \<Rightarrow> Inl e
                    | Inr i' \<Rightarrow> message_id_loop field value allow i'))
           else (case find_message_id_end field value (i + 1) of
                   Inl e \<Rightarrow> Inl e
                 | Inr stop \<Rightarrow>
                     (case canonical_message_id_core field (slice i (stop + 1) value) allow of
                        Inl e \<Rightarrow> Inl e
                      | Inr c \<Rightarrow>
                          map_ok (\<lambda>cs. c # cs) (message_id_loop field value allow (stop + 1))))))"
  by pat_completeness auto
termination
proof (relation "measure (\<lambda>(f, v, a, i). length v - i)", goal_cases)
  case (2 f v a index i i')
  with skip_message_id_cfws_ge [of f v index i] threading_phrase_gt [of f v i i'] show ?case by auto
next
  case (3 f v a index i stop c)
  with skip_message_id_cfws_ge [of f v index i] find_id_end_loop_bounds [of f v id_scan_start "i + 1" stop]
  show ?case by (auto simp: find_message_id_end_def)
qed simp

declare message_id_loop.simps [simp del]

definition parse_message_id_sequence :: "string \<Rightarrow> string \<Rightarrow> bool \<Rightarrow> header_error + string list" where
  "parse_message_id_sequence field value allow_obsolete_threading_syntax =
     message_id_loop field value allow_obsolete_threading_syntax 0"

fun message_id_tokens :: "string \<Rightarrow> string list \<Rightarrow> header_error + string list" where
  "message_id_tokens field [] = Inr []"
| "message_id_tokens field (value # values) =
     (let allow_obsolete = (field = ''In-Reply-To'' \<or> field = ''References'') in
      and_then (validate_header_text field value) (\<lambda>_.
      and_then (parse_message_id_sequence field value allow_obsolete) (\<lambda>ids.
        map_ok (\<lambda>rest. ids @ rest) (message_id_tokens field values))))"

section \<open>What a canonical identifier looks like\<close>

text \<open>The bytes an identifier may carry: printable ASCII, and white space inside quotes.\<close>

definition id_byte :: "char \<Rightarrow> bool" where
  "id_byte b \<longleftrightarrow> is_wsp b \<or> is_ascii_graphic b"

definition well_formed_id :: "string \<Rightarrow> bool" where
  "well_formed_id s \<longleftrightarrow>
     (\<exists>l r. s = ''<'' @ l @ ''@'' @ r @ ''>'' \<and> valid_obs_id_left l \<and> valid_id_right r) \<and>
     list_all id_byte s"

lemma atext_graphic: "is_atext b \<Longrightarrow> is_ascii_graphic b"
  by (auto simp: is_atext_def byte_class_defs)

lemma qtext_id_byte: "is_qtext_or_wsp b \<Longrightarrow> id_byte b"
  by (auto simp: is_qtext_or_wsp_def id_byte_def is_ascii_graphic_def)

lemma id_byte_punct [simp]: "id_byte CHR ''.''" "id_byte CHR ''@''" "id_byte CHR ''<''" "id_byte CHR ''>''"
   "id_byte CHR ''[''" "id_byte CHR '']''" "id_byte DQ" "id_byte BSL"
  by (simp_all add: id_byte_def is_ascii_graphic_def)

lemma id_byte_ascii: "id_byte b \<Longrightarrow> is_ascii_byte b"
  by (auto simp: id_byte_def is_wsp_def byte_class_defs)

lemma id_byte_not_break: "id_byte b \<Longrightarrow> b \<noteq> CR \<and> b \<noteq> LF"
  by (auto simp: id_byte_def is_wsp_def is_ascii_graphic_def)

lemma atom_end_bytes: "i \<le> j \<Longrightarrow> j < atom_end v i \<Longrightarrow> is_atext (v ! j)"
proof (induction v i rule: atom_end.induct)
  case (1 v i)
  show ?case
  proof (cases "i < length v \<and> is_atext (v ! i)")
    case True
    with "1.prems" "1.IH" show ?thesis by (cases "j = i") (auto simp: atom_end.simps [of v i])
  next
    case False
    with "1.prems" show ?thesis by (auto simp: atom_end.simps [of v i])
  qed
qed

lemma quoted_word_loop_bytes:
  "quoted_word_loop v esc i = Some e \<Longrightarrow> i \<le> j \<Longrightarrow> j < e \<Longrightarrow> id_byte (v ! j)"
proof (induction "length v - i" arbitrary: esc i rule: less_induct)
  case less
  from less.prems(1) obtain b where b: "get_at v i = Some b"
    by (subst (asm) quoted_word_loop.simps) (auto split: option.splits)
  from less.prems(1) b have c: "id_byte b \<and> (e = i + 1 \<or> (\<exists>esc'. quoted_word_loop v esc' (i + 1) = Some e))"
    by (subst (asm) quoted_word_loop.simps) (auto split: if_splits simp: id_byte_def is_ascii_graphic_def dest!: qtext_id_byte)
  show ?case
  proof (cases "j = i")
    case True
    with b c show ?thesis by (simp add: get_at_Some)
  next
    case False
    with c less.prems(2,3) obtain esc' where q: "quoted_word_loop v esc' (i + 1) = Some e" by auto
    from b have "i < length v" by (simp add: get_at_Some)
    with less.hyps [OF _ q] less.prems(2,3) False show ?thesis by simp
  qed
qed

lemma parse_id_left_word_bytes:
  assumes "parse_id_left_word v i = Some e" "i \<le> j" "j < e"
  shows "id_byte (v ! j)"
proof (cases "get_at v i = Some DQ")
  case True
  with assms have q: "quoted_word_loop v False (i + 1) = Some e"
    by (simp add: parse_id_left_word_def parse_quoted_id_word_def)
  from True have "v ! i = DQ" by (simp add: get_at_Some)
  with quoted_word_loop_bytes [OF q, of j] assms show ?thesis by (cases "j = i") auto
next
  case False
  with assms have "e = atom_end v i"
    by (auto simp: parse_id_left_word_def parse_id_left_atom_def Let_def split: if_splits)
  with assms atom_end_bytes [of i j v] show ?thesis by (auto simp: id_byte_def dest: atext_graphic)
qed

lemma obs_id_left_loop_bytes:
  "obs_id_left_loop v i \<Longrightarrow> i \<le> j \<Longrightarrow> j < length v \<Longrightarrow> id_byte (v ! j)"
proof (induction v i rule: obs_id_left_loop.induct)
  case (1 v i)
  from "1.prems"(1) obtain k where k: "parse_id_left_word v i = Some k"
    by (subst (asm) obs_id_left_loop.simps) (auto split: option.splits)
  from "1.prems"(1) k have c: "k = length v \<or> k \<noteq> length v \<and> get_at v k = Some CHR ''.'' \<and>
      k + 1 \<noteq> length v \<and> obs_id_left_loop v (k + 1)"
    by (subst (asm) obs_id_left_loop.simps) (auto split: if_splits)
  consider "j < k" | "j = k" | "k < j" by linarith
  then show ?case
  proof cases
    case 1
    with parse_id_left_word_bytes [OF k "1.prems"(2)] show ?thesis by simp
  next
    case 2
    with c "1.prems"(3) show ?thesis by (auto simp: get_at_Some)
  next
    case 3
    with c "1.prems"(3) have "k \<noteq> length v" "get_at v k = Some CHR ''.''" "k + 1 \<noteq> length v"
      "obs_id_left_loop v (k + 1)" by auto
    with "1.IH" [OF k] 3 "1.prems"(3) show ?thesis by auto
  qed
qed

lemma valid_obs_id_left_bytes: "valid_obs_id_left v \<Longrightarrow> list_all id_byte v"
  using obs_id_left_loop_bytes [of v 0] by (auto simp: valid_obs_id_left_def list_all_length)

lemma no_fold_literal_loop_bytes:
  "no_fold_literal_loop c i \<Longrightarrow> i \<le> j \<Longrightarrow> j < length c \<Longrightarrow> id_byte (c ! j)"
proof (induction c i rule: no_fold_literal_loop.induct)
  case (1 c i)
  then have i: "i < length c" by simp
  let ?b = "c ! i"
  show ?case
  proof (cases "?b = BSL")
    case True
    with "1.prems"(1) i obtain e where e: "get_at c (i + 1) = Some e" "id_byte e" "no_fold_literal_loop c (i + 2)"
      by (subst (asm) no_fold_literal_loop.simps) (auto simp: id_byte_def Let_def split: option.splits if_splits)
    consider "j = i" | "j = i + 1" | "i + 2 \<le> j" using "1.prems"(2) by linarith
    then show ?thesis
    proof cases
      case 3
      with "1.IH"(1) [OF i refl True e(1) _ e(3)] e(2) "1.prems"(3) show ?thesis by (simp add: id_byte_def)
    qed (use True e in \<open>auto simp: get_at_Some\<close>)
  next
    case False
    with "1.prems"(1) i have r: "33 \<le> bval ?b \<and> bval ?b \<le> 90 \<or> 94 \<le> bval ?b \<and> bval ?b \<le> (126 :: nat)"
        "no_fold_literal_loop c (i + 1)"
      by (subst (asm) no_fold_literal_loop.simps, simp add: Let_def split: if_splits)+
    from r(1) have "id_byte ?b" by (auto simp: id_byte_def is_ascii_graphic_def)
    with "1.IH"(2) [OF i refl False r] "1.prems"(2,3) show ?thesis by (cases "j = i") auto
  qed
qed

lemma bracketed_slice:
  assumes "starts_with v [a]" "ends_with v [b]" "2 \<le> length v"
  shows "v = a # slice 1 (length v - 1) v @ [b]"
proof -
  from assms(1) obtain t where t: "v = a # t" by (auto simp: starts_with_iff)
  from assms(2) obtain u where u: "v = u @ [b]" by (auto simp: ends_with_iff)
  from t u assms(3) obtain m where m: "u = a # m" by (cases u) auto
  with u have "slice 1 (length v - 1) v = m" by (simp add: slice_def)
  with m u show ?thesis by simp
qed

lemma valid_id_right_bytes:
  assumes "valid_id_right v"
  shows "list_all id_byte v"
proof (cases "starts_with v ''[''")
  case True
  with assms have l: "3 \<le> length v" "ends_with v '']''" "no_fold_literal_loop (slice 1 (length v - 1) v) 0"
    by (auto simp: valid_id_right_def valid_no_fold_literal_def)
  have "list_all id_byte (slice 1 (length v - 1) v)"
    using no_fold_literal_loop_bytes [OF l(3)] by (auto simp: list_all_length)
  moreover obtain m where m: "m = slice 1 (length v - 1) v" by blast
  ultimately have mm: "list_all id_byte m" by simp
  from l(1) have "2 \<le> length v" by linarith
  from bracketed_slice [OF True l(2) this] have v: "v = CHR ''['' # m @ '']''" unfolding m .
  show ?thesis unfolding v using mm by simp
next
  case False
  with assms have "list_all (\<lambda>b. b = CHR ''.'' \<or> is_atext b) v"
    by (simp add: valid_id_right_def valid_dot_atom_def)
  then show ?thesis
  proof (rule list.pred_mono_strong)
    fix b
    assume "b = CHR ''.'' \<or> is_atext b"
    then show "id_byte b" using atext_graphic [of b] id_byte_punct(1) by (elim disjE) (simp_all add: id_byte_def)
  qed
qed

lemma canonical_message_id_well_formed:
  assumes "canonical_message_id_core f v allow = Inr c"
  shows "well_formed_id c"
proof -
  from assms obtain inner k where k: "message_id_separator inner = Some k"
    "valid_obs_id_left (take k inner)" "valid_id_right (drop (k + 1) inner)" "c = ''<'' @ inner @ ''>''"
    by (auto simp: canonical_message_id_core_def result_simps Let_def)
  define l r where "l = take k inner" and "r = drop (k + 1) inner"
  from message_id_separator_Some [OF k(1)] have "inner = l @ ''@'' @ r"
    using id_take_nth_drop [of k inner] by (simp add: l_def r_def)
  with k(4) have c: "c = ''<'' @ l @ ''@'' @ r @ ''>''" by simp
  from k l_def r_def have v: "valid_obs_id_left l" "valid_id_right r" by simp_all
  have "list_all id_byte c"
    using valid_obs_id_left_bytes [OF v(1)] valid_id_right_bytes [OF v(2)] by (simp add: c)
  with c v show ?thesis unfolding well_formed_id_def by blast
qed

lemma message_id_loop_well_formed:
  "message_id_loop f v allow i = Inr ids \<Longrightarrow> list_all well_formed_id ids"
proof (induction f v allow i arbitrary: ids rule: message_id_loop.induct)
  case (1 f v allow i)
  show ?case
  proof (cases "i < length v")
    case False
    with "1.prems" show ?thesis by (subst (asm) message_id_loop.simps) simp
  next
    case True
    with "1.prems" obtain j where j: "skip_message_id_cfws f v i = Inr j"
      by (subst (asm) message_id_loop.simps) (auto split: sum.splits)
    consider "j = length v" | "j \<noteq> length v" "get_at v j \<noteq> Some CHR ''<''"
      | "j \<noteq> length v" "get_at v j = Some CHR ''<''" by blast
    then show ?thesis
    proof cases
      case 1
      with "1.prems" True j show ?thesis by (subst (asm) message_id_loop.simps) simp
    next
      case 2
      with "1.prems" True j obtain j' where j': "allow" "parse_obsolete_threading_phrase f v j = Inr j'"
          "message_id_loop f v allow j' = Inr ids"
        by (subst (asm) message_id_loop.simps) (auto split: sum.splits if_splits)
      from "1.IH"(1) [OF _ j 2 _ j'(2,3)] True j'(1) show ?thesis by simp
    next
      case 3
      with "1.prems" True j obtain stop c rest where r: "find_message_id_end f v (j + 1) = Inr stop"
          "canonical_message_id_core f (slice j (stop + 1) v) allow = Inr c"
          "message_id_loop f v allow (stop + 1) = Inr rest" "ids = c # rest"
        by (subst (asm) message_id_loop.simps) (auto simp: result_simps split: sum.splits if_splits)
      from "1.IH"(2) [OF _ j 3(1) _ r(1,2,3)] True 3 canonical_message_id_well_formed [OF r(2)] r(4)
      show ?thesis by simp
    qed
  qed
qed

lemma message_id_tokens_well_formed:
  "message_id_tokens f vs = Inr ids \<Longrightarrow> list_all well_formed_id ids"
  by (induction vs arbitrary: ids)
     (auto simp: result_simps Let_def parse_message_id_sequence_def dest!: message_id_loop_well_formed)

lemma well_formed_id_ascii: "well_formed_id s \<Longrightarrow> is_ascii_str s \<and> CR \<notin> set s \<and> LF \<notin> set s"
  by (auto simp: well_formed_id_def is_ascii_str_def list_all_iff dest: id_byte_ascii id_byte_not_break)


lemma sublist_slice: "i \<le> j \<Longrightarrow> has_infix (slice i j v) v"
  unfolding has_infix_iff slice_def by (metis append_take_drop_id)

text \<open>Strict mode keeps the identifier as it is written; its left part is a dot-atom.\<close>

lemma canonical_message_id_strict:
  assumes "canonical_message_id_core f v False = Inr c"
  shows "c = v \<and> (\<exists>l r. c = ''<'' @ l @ ''@'' @ r @ ''>'' \<and> valid_dot_atom l \<and> valid_id_right r)"
proof -
  define inner where "inner = slice 1 (length v - 1) v"
  from assms have b: "starts_with v ''<''" "ends_with v ''>''" and c: "c = ''<'' @ inner @ ''>''"
    by (auto simp: canonical_message_id_core_def result_simps Let_def inner_def)
  from assms obtain k where k: "message_id_separator inner = Some k" "valid_dot_atom (take k inner)"
      "valid_id_right (drop (k + 1) inner)"
    by (auto simp: canonical_message_id_core_def result_simps Let_def inner_def)
  have "2 \<le> length v"
  proof (rule ccontr)
    assume "\<not> 2 \<le> length v"
    then have "inner = []" by (simp add: inner_def slice_def)
    with message_id_separator_Some [OF k(1)] show False by simp
  qed
  from bracketed_slice [OF b this] have v: "v = CHR ''<'' # inner @ [CHR ''>'']" unfolding inner_def .
  define l r where "l = take k inner" and "r = drop (k + 1) inner"
  from message_id_separator_Some [OF k(1)] have "inner = l @ ''@'' @ r"
    using id_take_nth_drop [of k inner] by (simp add: l_def r_def)
  with c have "c = ''<'' @ l @ ''@'' @ r @ ''>''" by simp
  moreover from c v have "c = v" by simp
  ultimately show ?thesis using k(2,3) l_def r_def by blast
qed

lemma message_id_loop_strict:
  "message_id_loop f v False i = Inr ids \<Longrightarrow>
     \<forall>c \<in> set ids. has_infix c v \<and> (\<exists>l r. c = ''<'' @ l @ ''@'' @ r @ ''>'' \<and> valid_dot_atom l \<and> valid_id_right r)"
proof (induction "length v - i" arbitrary: i ids rule: less_induct)
  case less
  show ?case
  proof (cases "i < length v")
    case False
    with less.prems show ?thesis by (subst (asm) message_id_loop.simps) simp
  next
    case True
    with less.prems obtain j where j: "skip_message_id_cfws f v i = Inr j"
      by (subst (asm) message_id_loop.simps) (auto split: sum.splits)
    show ?thesis
    proof (cases "j = length v")
      case True
      with less.prems \<open>i < length v\<close> j show ?thesis by (subst (asm) message_id_loop.simps) simp
    next
      case False
      with less.prems True j obtain stop c rest where r: "find_message_id_end f v (j + 1) = Inr stop"
          "canonical_message_id_core f (slice j (stop + 1) v) False = Inr c"
          "message_id_loop f v False (stop + 1) = Inr rest" "ids = c # rest"
        by (subst (asm) message_id_loop.simps) (auto simp: result_simps split: sum.splits if_splits)
      from r(1) have s: "j < stop" "stop < length v"
        using find_id_end_loop_bounds [of f v id_scan_start "j + 1" stop]
        by (auto simp: find_message_id_end_def)
      have "length v - (stop + 1) < length v - i" using skip_message_id_cfws_ge [OF j] s by simp
      from less.hyps [OF this r(3)] canonical_message_id_strict [OF r(2)] sublist_slice [of j "stop + 1" v]
      show ?thesis using s(1) r(4) by auto
    qed
  qed
qed

text \<open>
  C12. Every identifier that reaches a Message-ID, In-Reply-To or References header has the
  form \<open><left@right>\<close>, its left part a dot-separated sequence of atoms and quoted strings,
  its right part a dot-atom or a domain literal, and it consists of printable ASCII, spaces and
  tabs only, so it can neither break the line nor make the later ASCII conversion panic. The
  comments, folding white space and phrases that the obsolete syntax allows around these parts never
  survive.
\<close>

theorem message_id_tokens_safe:
  assumes "message_id_tokens field values = Inr ids"
  shows "\<forall>i \<in> set ids. well_formed_id i \<and> is_ascii_str i \<and> CR \<notin> set i \<and> LF \<notin> set i"
  using message_id_tokens_well_formed [OF assms] well_formed_id_ascii by (auto simp: list_all_iff)

theorem message_id_tokens_safe_witness:
  "message_id_tokens ''References'' [''old phrase <(c) a . b (d)@ x.y >'', ''<c@[::1]>''] =
     Inr [''<a.b@x.y>'', ''<c@[::1]>''] \<and> well_formed_id ''<a.b@x.y>''"
proof -
  have e: "message_id_tokens ''References'' [''old phrase <(c) a . b (d)@ x.y >'', ''<c@[::1]>''] =
     Inr [''<a.b@x.y>'', ''<c@[::1]>'']" by code_simp
  from message_id_tokens_safe [OF e] have "well_formed_id ''<a.b@x.y>''" by simp
  with e show ?thesis ..
qed

text \<open>
  A Message-ID is never rewritten: what the strict parser accepts for it is copied from the
  input unchanged and is a dot-atom, an at sign and a dot-atom or domain literal in brackets.
\<close>

theorem message_id_strict_verbatim:
  assumes "message_id_tokens ''Message-ID'' [value] = Inr ids"
  shows "\<forall>i \<in> set ids. has_infix i value \<and>
           (\<exists>l r. i = ''<'' @ l @ ''@'' @ r @ ''>'' \<and> valid_dot_atom l \<and> valid_id_right r)"
proof -
  from assms have "message_id_loop ''Message-ID'' value False 0 = Inr ids"
    by (auto simp: result_simps Let_def parse_message_id_sequence_def)
  then show ?thesis by (rule message_id_loop_strict)
qed

theorem message_id_strict_verbatim_witness:
  "message_id_tokens ''Message-ID'' ['' (c) <a.b@x.y> ''] = Inr [''<a.b@x.y>''] \<and>
   has_infix ''<a.b@x.y>'' '' (c) <a.b@x.y> ''"
proof -
  have e: "message_id_tokens ''Message-ID'' ['' (c) <a.b@x.y> ''] = Inr [''<a.b@x.y>'']" by code_simp
  from message_id_strict_verbatim [OF e] have "has_infix ''<a.b@x.y>'' '' (c) <a.b@x.y> ''" by simp
  with e show ?thesis ..
qed

text \<open>
  The two routines that skip comments and folding white space, the one written for
  sequences of identifiers and the one written for the inside of an obsolete identifier, are
  the same function, errors included.
\<close>

theorem cfws_skippers_agree:
  "skip_obsolete_message_id_cfws field value index = skip_message_id_cfws field value index"
  by (rule skip_obsolete_cfws_eq)

end
