(* ===== verification/Wire.thy ===== *)
theory Wire
  imports Message_Id Address Mailto
begin

text \<open>
  The lower half of \<open>notm-mail/src/rfc5322.rs\<close>: header writers, encoded words, MIME
  parameters, boundaries, line endings and the final check of the rendered bytes.  The output
  vector \<open>out\<close> is passed and returned; a writer that fails yields the error (the caller
  drops the partial output, as \<open>render_message\<close> does).  Base64 and quoted-printable
  encoding are third-party code: the fields of \<open>wire_lib\<close>, an argument of what calls them.
\<close>

section \<open>Constants, errors and external code\<close>

definition RECOMMENDED_HEADER_LINE_LENGTH :: nat where "RECOMMENDED_HEADER_LINE_LENGTH = 78"
definition MAX_WIRE_LINE_LENGTH :: nat where "MAX_WIRE_LINE_LENGTH = 998"
definition ENCODED_WORD_INPUT_BYTES :: nat where "ENCODED_WORD_INPUT_BYTES = 39"
definition MIME_PARAMETER_SEGMENT_LENGTH :: nat where "MIME_PARAMETER_SEGMENT_LENGTH = 42"

lemmas wire_limits = RECOMMENDED_HEADER_LINE_LENGTH_def MAX_WIRE_LINE_LENGTH_def
  ENCODED_WORD_INPUT_BYTES_def MIME_PARAMETER_SEGMENT_LENGTH_def

datatype wire_error =
    HeaderInvalid header_error
  | AddressInvalid address_error
  | BadMailbox string nat wire_error
  | RequiresOneMailbox string
  | BareCarriageReturn
  | BareLineFeed
  | WireLineTooLong
  | NoFinalCrlf
  | ParameterTooLong string
  | ContentTypeTooLong
  | EmbeddedNul string
  | EmbeddedNoSeparator
  | EmbeddedUnparsable
  | EmbeddedNoHeaders
  | EmbeddedWire wire_error
  | MessageIdCount
  | InReplyToEmpty
  | ReferencesEmpty

record wire_lib =
  wl_address :: address_lib
  wl_base64 :: "string \<Rightarrow> string"
  wl_quoted_printable :: "string \<Rightarrow> string"

definition check_header_text :: "string \<Rightarrow> string \<Rightarrow> wire_error + unit" where
  "check_header_text field value = map_err HeaderInvalid (validate_header_text field value)"

section \<open>Chunks of at most a given number of bytes\<close>

text \<open>\<open>str::char\_indices\<close>, from a byte offset.\<close>

fun char_indices :: "nat \<Rightarrow> string list \<Rightarrow> (nat \<times> string) list" where
  "char_indices offset [] = []"
| "char_indices offset (c # cs) = (offset, c) # char_indices (offset + length c) cs"

fun utf8_chunks_loop :: "string \<Rightarrow> nat \<Rightarrow> nat \<Rightarrow> nat \<Rightarrow> (nat \<times> string) list \<Rightarrow> string list" where
  "utf8_chunks_loop value max_bytes start bytes [] = [drop start value]"
| "utf8_chunks_loop value max_bytes start bytes ((offset, character) # rest) =
     (let character_bytes = length character in
      if bytes \<noteq> 0 \<and> bytes + character_bytes > max_bytes
      then slice start offset value # utf8_chunks_loop value max_bytes offset character_bytes rest
      else utf8_chunks_loop value max_bytes start (bytes + character_bytes) rest)"

definition utf8_chunks :: "string \<Rightarrow> nat \<Rightarrow> string list" where
  "utf8_chunks value max_bytes = utf8_chunks_loop value max_bytes 0 0 (char_indices 0 (char_slices value))"

definition encode_words :: "wire_lib \<Rightarrow> string \<Rightarrow> string list" where
  "encode_words lib value =
     (if value = [] then [[]]
      else map (\<lambda>chunk. ''=?UTF-8?B?'' @ wl_base64 lib chunk @ ''?='')
             (utf8_chunks value ENCODED_WORD_INPUT_BYTES))"

section \<open>Header writers\<close>

text \<open>The token loop of \<open>write\_token\_header\<close>, \<open>line\_length\<close> bytes into the current line.\<close>

fun write_tokens :: "string \<Rightarrow> string \<Rightarrow> nat \<Rightarrow> string list \<Rightarrow> wire_error + string" where
  "write_tokens out name line_length [] = Inr (out @ CRLF)"
| "write_tokens out name line_length (token # tokens) =
     and_then (check_header_text name token) (\<lambda>_.
     and_then (ensure (length token < MAX_WIRE_LINE_LENGTH) (HeaderInvalid (HeaderTokenTooLong name))) (\<lambda>_.
       if line_length + 1 + length token \<le> RECOMMENDED_HEADER_LINE_LENGTH
       then write_tokens (out @ [SP] @ token) name (line_length + 1 + length token) tokens
       else write_tokens (out @ CRLF @ [SP] @ token) name (1 + length token) tokens))"

definition write_token_header :: "string \<Rightarrow> string \<Rightarrow> string list \<Rightarrow> wire_error + string" where
  "write_token_header out name tokens =
     (let out = out @ name @ '':'';
          line_length = length name + 1 in
      if tokens = [] then Inr (out @ CRLF) else write_tokens out name line_length tokens)"

definition write_literal_header :: "string \<Rightarrow> string \<Rightarrow> string \<Rightarrow> wire_error + string" where
  "write_literal_header out name value =
     and_then (check_header_text name value) (\<lambda>_.
     and_then (ensure (length name + 2 + length value \<le> MAX_WIRE_LINE_LENGTH)
                 (HeaderInvalid (HeaderTooLong name))) (\<lambda>_.
       Inr (out @ name @ '': '' @ value @ CRLF)))"

definition write_subject_header :: "wire_lib \<Rightarrow> string \<Rightarrow> string \<Rightarrow> wire_error + string" where
  "write_subject_header lib out subject =
     and_then (check_header_text ''Subject'' subject) (\<lambda>_.
       (let tokens = (if \<not> is_ascii_str subject
                         \<or> length ''Subject: '' + length subject > RECOMMENDED_HEADER_LINE_LENGTH
                      then encode_words lib subject else [subject])
        in write_token_header out ''Subject'' tokens))"

definition render_mailbox_tokens :: "wire_lib \<Rightarrow> string \<Rightarrow> string \<Rightarrow> wire_error + string list" where
  "render_mailbox_tokens lib field input =
     and_then (check_header_text field input) (\<lambda>_.
     and_then (map_err AddressInvalid (parse_one_checked (wl_address lib) input)) (\<lambda>address.
     and_then (check_header_text field (ma_email address)) (\<lambda>_.
       (case ma_name address of
          Some name \<Rightarrow>
            if name \<noteq> [] then
              and_then (check_header_text field name) (\<lambda>_.
                Inr ((if \<not> is_ascii_str name \<or> length name > ENCODED_WORD_INPUT_BYTES
                      then encode_words lib name else [quote_name name]) @
                     [''<'' @ ma_email address @ ''>'']))
            else Inr [ma_email address]
        | None \<Rightarrow> Inr [ma_email address]))))"

text \<open>\<open>mailbox.last\_mut().expect(..).push(',')\<close>; the \<open>expect\<close> is \<open>mailbox\_tokens\_nonempty\<close>.\<close>

definition push_last :: "string \<Rightarrow> string list \<Rightarrow> string list" where
  "push_last s ts = butlast ts @ [last ts @ s]"

fun address_tokens :: "wire_lib \<Rightarrow> string \<Rightarrow> nat \<Rightarrow> nat \<Rightarrow> string list \<Rightarrow> wire_error + string list" where
  "address_tokens lib field total_count index [] = Inr []"
| "address_tokens lib field total_count index (value # values) =
     and_then (map_err (BadMailbox field (index + 1)) (render_mailbox_tokens lib field value)) (\<lambda>mailbox.
       (let mailbox = (if index + 1 \<noteq> total_count then push_last '','' mailbox else mailbox) in
        map_ok (\<lambda>rest. mailbox @ rest) (address_tokens lib field total_count (index + 1) values)))"

definition write_address_header ::
  "wire_lib \<Rightarrow> string \<Rightarrow> string \<Rightarrow> string list \<Rightarrow> bool \<Rightarrow> wire_error + string" where
  "write_address_header lib out field values allow_empty =
     and_then (ensure (allow_empty \<or> length values = 1) (RequiresOneMailbox field)) (\<lambda>_.
     and_then (address_tokens lib field (length values) 0 values) (\<lambda>tokens.
       write_token_header out field tokens))"

section \<open>MIME headers\<close>

definition write_text_part_headers :: "string \<Rightarrow> string \<Rightarrow> wire_error + string" where
  "write_text_part_headers out content_type =
     and_then (write_literal_header out ''Content-Type'' (content_type @ ''; charset=utf-8'')) (\<lambda>out.
       write_literal_header out ''Content-Transfer-Encoding'' ''quoted-printable'')"

definition write_multipart_header :: "string \<Rightarrow> string \<Rightarrow> string \<Rightarrow> wire_error + string" where
  "write_multipart_header out content_type boundary =
     and_then (write_literal_header out ''Content-Type'' (content_type @ '';'')) (\<lambda>out.
       Inr (out @ '' boundary='' @ [DQ] @ boundary @ [DQ] @ CRLF))"

definition percent_encode_mime_parameter :: "string \<Rightarrow> string" where
  "percent_encode_mime_parameter value =
     concat (map (\<lambda>byte.
       if is_ascii_alphanumeric byte \<or> byte \<in> set ''-._~'' then [byte]
       else [CHR ''%'', ''0123456789ABCDEF'' ! (bval byte div 16), ''0123456789ABCDEF'' ! (bval byte mod 16)])
       value)"

definition percent_encoded_character_atoms :: "string \<Rightarrow> string list" where
  "percent_encoded_character_atoms value = map percent_encode_mime_parameter (char_slices value)"

text \<open>The segment loop of \<open>render\_mime\_parameter\<close>.\<close>

fun parameter_segments :: "string \<Rightarrow> string list \<Rightarrow> string list" where
  "parameter_segments current [] = [current]"
| "parameter_segments current (atom # atoms) =
     (if current \<noteq> [] \<and> length current + length atom > MIME_PARAMETER_SEGMENT_LENGTH
      then current # parameter_segments atom atoms
      else parameter_segments (current @ atom) atoms)"

definition segment_prefix :: "string \<Rightarrow> nat \<Rightarrow> string" where
  "segment_prefix name index =
     name @ ''*'' @ show_nat index @ ''*='' @ (if index = 0 then ''utf-8'' @ replicate 2 (CHR 0x27) else [])"

fun label_segments :: "string \<Rightarrow> nat \<Rightarrow> string list \<Rightarrow> string list" where
  "label_segments name index [] = []"
| "label_segments name index (segment # segments) =
     (segment_prefix name index @ segment) # label_segments name (index + 1) segments"

definition plain_parameter :: "string \<Rightarrow> bool" where
  "plain_parameter value \<longleftrightarrow>
     is_ascii_str value \<and> length value \<le> MIME_PARAMETER_SEGMENT_LENGTH \<and>
     \<not> list_ex (\<lambda>byte. is_ascii_control byte \<or> byte \<in> {DQ, BSL, CHR '';''}) value"

definition render_mime_parameter :: "string \<Rightarrow> string \<Rightarrow> string list" where
  "render_mime_parameter name value =
     (if plain_parameter value then [name @ ''='' @ [DQ] @ value @ [DQ]]
      else label_segments name 0 (parameter_segments [] (percent_encoded_character_atoms value)))"

fun write_parameters :: "string \<Rightarrow> string \<Rightarrow> string list \<Rightarrow> wire_error + string" where
  "write_parameters out name [] = Inr out"
| "write_parameters out name (parameter # parameters) =
     and_then (ensure (1 + length parameter + (if parameters \<noteq> [] then 1 else 0)
                         \<le> RECOMMENDED_HEADER_LINE_LENGTH) (ParameterTooLong name)) (\<lambda>_.
       write_parameters (out @ [SP] @ parameter @ (if parameters \<noteq> [] then '';'' else []) @ CRLF)
         name parameters)"

definition write_parameterized_header ::
  "string \<Rightarrow> string \<Rightarrow> string \<Rightarrow> string \<Rightarrow> string \<Rightarrow> wire_error + string" where
  "write_parameterized_header out name value parameter_name parameter_value =
     and_then (write_literal_header out name (value @ '';'')) (\<lambda>out.
       write_parameters out name (render_mime_parameter parameter_name parameter_value))"

definition is_mime_token :: "string \<Rightarrow> bool" where
  "is_mime_token value \<longleftrightarrow>
     value \<noteq> [] \<and>
     list_all (\<lambda>byte. is_ascii_graphic byte \<and> byte \<notin> set ''()<>@,;:'' \<and> byte \<noteq> BSL \<and> byte \<noteq> DQ \<and>
                      byte \<notin> set ''/[]?='') value"

definition safe_attachment_content_type :: "string \<Rightarrow> string" where
  "safe_attachment_content_type content_type =
     (case split_once CHR ''/'' content_type of
        None \<Rightarrow> ''application/octet-stream''
      | Some (top_level, subtype) \<Rightarrow>
          if eq_ignore_ascii_case top_level ''multipart'' \<or> CHR ''/'' \<in> set subtype \<or>
             \<not> is_mime_token top_level \<or> \<not> is_mime_token subtype
          then ''application/octet-stream'' else content_type)"

section \<open>Bodies\<close>

definition write_boundary :: "string \<Rightarrow> string \<Rightarrow> bool \<Rightarrow> string" where
  "write_boundary out boundary closing =
     out @ ''--'' @ boundary @ (if closing then ''--'' else []) @ CRLF"

definition ensure_crlf_terminated :: "string \<Rightarrow> string" where
  "ensure_crlf_terminated out = (if ends_with out CRLF then out else out @ CRLF)"

fun normalize_line_endings :: "string \<Rightarrow> string" where
  "normalize_line_endings [] = []"
| "normalize_line_endings (b # bs) =
     (if b = CR then CRLF @ normalize_line_endings (if bs \<noteq> [] \<and> hd bs = LF then tl bs else bs)
      else if b = LF then CRLF @ normalize_line_endings bs
      else b # normalize_line_endings bs)"

definition write_quoted_printable_body :: "wire_lib \<Rightarrow> string \<Rightarrow> string \<Rightarrow> string" where
  "write_quoted_printable_body lib out body =
     ensure_crlf_terminated (out @ wl_quoted_printable lib (normalize_line_endings body))"

function validate_wire_loop :: "string \<Rightarrow> nat \<Rightarrow> nat \<Rightarrow> wire_error + unit" where
  "validate_wire_loop bytes line_start index =
     (if index < length bytes then
        (if bytes ! index = CR then
           (if get_at bytes (index + 1) \<noteq> Some LF then Inl BareCarriageReturn
            else if \<not> index - line_start \<le> MAX_WIRE_LINE_LENGTH then Inl WireLineTooLong
            else validate_wire_loop bytes (index + 2) (index + 2))
         else if bytes ! index = LF then Inl BareLineFeed
         else validate_wire_loop bytes line_start (index + 1))
      else ensure (line_start = length bytes) NoFinalCrlf)"
  by pat_completeness auto
termination by (relation "measure (\<lambda>(b, s, i). length b - i)") auto

declare validate_wire_loop.simps [simp del]

definition validate_wire :: "string \<Rightarrow> wire_error + unit" where
  "validate_wire bytes = validate_wire_loop bytes 0 0"

definition escape_html :: "string \<Rightarrow> string" where
  "escape_html value =
     replace_char CHR 0x27 ''&#39;''
       (replace_char DQ ''&quot;''
         (replace_char CHR ''>'' ''&gt;''
           (replace_char CHR ''<'' ''&lt;''
             (replace_char CHR ''&'' ''&amp;'' value))))"

fun html_lines :: "nat \<Rightarrow> string list \<Rightarrow> string" where
  "html_lines index [] = []"
| "html_lines index (line # rest) =
     (if index > 0 then ''<br>'' else []) @ escape_html line @ html_lines (index + 1) rest"

definition plain_text_to_html_fragment :: "string \<Rightarrow> string" where
  "plain_text_to_html_fragment body = ''<div>'' @ html_lines 0 (lines body) @ ''</div>''"

section \<open>Lines on the wire\<close>

text \<open>
  The specification of rendered bytes: a sequence of lines, each ended by CRLF, without stray
  carriage returns and line feeds, none longer than a limit.
\<close>

definition clean :: "string \<Rightarrow> bool" where
  "clean s \<longleftrightarrow> CR \<notin> set s \<and> LF \<notin> set s"

definition join_lines :: "string list \<Rightarrow> string" where
  "join_lines ls = concat (map (\<lambda>l. l @ CRLF) ls)"

definition wire_text :: "string \<Rightarrow> bool" where
  "wire_text s \<longleftrightarrow>
     (\<exists>ls. s = join_lines ls \<and> (\<forall>l \<in> set ls. clean l \<and> length l \<le> MAX_WIRE_LINE_LENGTH))"

lemma clean_append [simp]: "clean (s @ t) \<longleftrightarrow> clean s \<and> clean t"
  by (auto simp: clean_def)

lemma clean_Cons [simp]: "clean (c # s) \<longleftrightarrow> c \<noteq> CR \<and> c \<noteq> LF \<and> clean s"
  by (auto simp: clean_def)

lemma clean_Nil [simp]: "clean []"
  by (simp add: clean_def)

lemma join_lines_simps [simp]:
  "join_lines [] = []" "join_lines (l # ls) = l @ CRLF @ join_lines ls"
  "join_lines (ls @ ms) = join_lines ls @ join_lines ms"
  by (simp_all add: join_lines_def)

text \<open>The check as a scan that counts the bytes of the current line.\<close>

fun wire_scan :: "nat \<Rightarrow> string \<Rightarrow> bool" where
  "wire_scan k [] = (k = 0)"
| "wire_scan k (b # bs) =
     (if b = CR then bs \<noteq> [] \<and> hd bs = LF \<and> k \<le> MAX_WIRE_LINE_LENGTH \<and> wire_scan 0 (tl bs)
      else b \<noteq> LF \<and> wire_scan (k + 1) bs)"

lemma validate_wire_loop_scan:
  "line_start \<le> index \<Longrightarrow> index \<le> length bytes \<Longrightarrow>
     validate_wire_loop bytes line_start index = Inr () \<longleftrightarrow> wire_scan (index - line_start) (drop index bytes)"
proof (induction bytes line_start index rule: validate_wire_loop.induct)
  case (1 bytes line_start index)
  show ?case
  proof (cases "index < length bytes")
    case False
    with 1 show ?thesis by (subst validate_wire_loop.simps) (auto simp: result_simps)
  next
    case True
    let ?b = "bytes ! index"
    have d: "drop index bytes = ?b # drop (index + 1) bytes" using True by (simp add: Cons_nth_drop_Suc)
    show ?thesis
    proof (cases "?b = CR")
      case cr: True
      show ?thesis
      proof (cases "get_at bytes (index + 1) = Some LF \<and> index - line_start \<le> MAX_WIRE_LINE_LENGTH")
        case False
        with True cr d show ?thesis
          by (subst validate_wire_loop.simps) (auto simp: get_at_def hd_drop_conv_nth)
      next
        case ok: True
        then have lt: "index + 1 < length bytes" "bytes ! (index + 1) = LF" by (auto simp: get_at_Some)
        then have "drop (index + 1) bytes = LF # drop (index + 2) bytes"
          by (metis Cons_nth_drop_Suc Suc_eq_plus1 add_2_eq_Suc')
        with "1.IH"(1) [OF True cr] ok lt cr d True show ?thesis
          by (subst validate_wire_loop.simps) simp
      qed
    next
      case False
      with "1.IH"(2) [OF True False] "1.prems" True d show ?thesis
        by (subst validate_wire_loop.simps) (auto simp: Suc_diff_le)
    qed
  qed
qed

lemma wire_text_Nil [simp]: "wire_text []"
  unfolding wire_text_def by (rule exI [of _ "[]"]) simp

lemma wire_text_line:
  "clean l \<Longrightarrow> length l \<le> MAX_WIRE_LINE_LENGTH \<Longrightarrow> wire_text s \<Longrightarrow> wire_text (l @ CRLF @ s)"
proof -
  assume l: "clean l" "length l \<le> MAX_WIRE_LINE_LENGTH" and "wire_text s"
  then obtain ls where "s = join_lines ls" "\<forall>l \<in> set ls. clean l \<and> length l \<le> MAX_WIRE_LINE_LENGTH"
    by (auto simp: wire_text_def)
  with l show "wire_text (l @ CRLF @ s)" unfolding wire_text_def by (intro exI [of _ "l # ls"]) auto
qed

lemma wire_scan_line:
  "clean l \<Longrightarrow> wire_scan k (l @ CRLF @ r) \<longleftrightarrow> k + length l \<le> MAX_WIRE_LINE_LENGTH \<and> wire_scan 0 r"
  by (induction l arbitrary: k) auto

lemma wire_scan_split:
  "wire_scan k s \<Longrightarrow> s = [] \<and> k = 0 \<or>
     (\<exists>l rest. s = l @ CRLF @ rest \<and> clean l \<and> k + length l \<le> MAX_WIRE_LINE_LENGTH \<and> wire_text rest)"
proof (induction k s rule: wire_scan.induct)
  case (2 k b bs)
  show ?case
  proof (cases "b = CR")
    case True
    with "2.prems" have h: "bs \<noteq> []" "hd bs = LF" "k \<le> MAX_WIRE_LINE_LENGTH" "wire_scan 0 (tl bs)" by auto
    from "2.IH"(1) [OF True h(4)] have "wire_text (tl bs)"
      using wire_text_line wire_text_Nil by (elim disjE exE conjE) simp_all
    moreover from h(1,2) have "bs = LF # tl bs" by (cases bs) auto
    ultimately show ?thesis using True h(3) by (intro disjI2 exI [of _ "[]"] exI [of _ "tl bs"]) simp
  next
    case False
    with "2.prems" have lf: "b \<noteq> LF" "wire_scan (k + 1) bs" by auto
    from "2.IH"(2) [OF False lf(2)] obtain l rest where
      "bs = l @ CRLF @ rest" "clean l" "k + 1 + length l \<le> MAX_WIRE_LINE_LENGTH" "wire_text rest"
      by auto
    with False lf(1) show ?thesis by (intro disjI2 exI [of _ "b # l"] exI [of _ rest]) simp
  qed
qed simp

lemma wire_text_cases: "wire_text s \<longleftrightarrow> wire_scan 0 s"
proof
  assume "wire_text s"
  then obtain ls where ls: "s = join_lines ls" "\<forall>l \<in> set ls. clean l \<and> length l \<le> MAX_WIRE_LINE_LENGTH"
    by (auto simp: wire_text_def)
  from ls(2) have "wire_scan 0 (join_lines ls)"
    by (induction ls) (simp_all only: join_lines_simps wire_scan_line wire_scan.simps list.set ball_simps, simp)
  with ls(1) show "wire_scan 0 s" by simp
next
  assume "wire_scan 0 s"
  from wire_scan_split [OF this] show "wire_text s"
    using wire_text_line wire_text_Nil by (elim disjE exE conjE) simp_all
qed

lemma validate_wire_iff: "validate_wire bytes = Inr () \<longleftrightarrow> wire_text bytes"
  using validate_wire_loop_scan [of 0 0 bytes] by (simp add: validate_wire_def wire_text_cases)

section \<open>Line endings\<close>

fun crlf_only :: "string \<Rightarrow> bool" where
  "crlf_only [] = True"
| "crlf_only (b # bs) =
     (if b = CR then bs \<noteq> [] \<and> hd bs = LF \<and> crlf_only (tl bs) else b \<noteq> LF \<and> crlf_only bs)"

text \<open>The lines of a text whose lines end in CRLF, CR or LF.\<close>

fun text_lines :: "string \<Rightarrow> string list" where
  "text_lines [] = [[]]"
| "text_lines (b # bs) =
     (if b = CR then [] # text_lines (if bs \<noteq> [] \<and> hd bs = LF then tl bs else bs)
      else if b = LF then [] # text_lines bs
      else (case text_lines bs of [] \<Rightarrow> [[b]] | l # ls \<Rightarrow> (b # l) # ls))"

lemma normalize_crlf_only: "crlf_only (normalize_line_endings s)"
  by (induction s rule: normalize_line_endings.induct) auto

lemma normalize_fixed: "crlf_only s \<Longrightarrow> normalize_line_endings s = s"
proof (induction s rule: crlf_only.induct)
  case (2 b bs)
  then show ?case by (cases "b = CR"; cases bs) simp_all
qed simp

lemma normalize_fixed_iff: "normalize_line_endings s = s \<longleftrightarrow> crlf_only s"
  using normalize_fixed normalize_crlf_only by metis

lemma text_lines_normalize: "text_lines (normalize_line_endings s) = text_lines s"
  by (induction s rule: normalize_line_endings.induct) auto

lemma normalize_append_clean: "clean s \<Longrightarrow> normalize_line_endings (s @ t) = s @ normalize_line_endings t"
  by (induction s) auto

lemma no_ascii_clean: "\<not> list_ex is_ascii_byte s \<Longrightarrow> clean s"
  by (induction s) (auto simp: is_ascii_byte_def)

lemma normalize_valid_utf8: "valid_utf8 s \<Longrightarrow> valid_utf8 (normalize_line_endings s)"
proof (induction "length s" arbitrary: s rule: less_induct)
  case less
  from less.prems show ?case
  proof (cases rule: valid_utf8_cases)
    case (2 c r)
    have tl: "valid_utf8 (if r \<noteq> [] \<and> hd r = LF then tl r else r)"
      using 2(3) by (cases r) (auto simp: is_ascii_byte_def)
    have "length (if r \<noteq> [] \<and> hd r = LF then tl r else r) < length s" using 2(1) by auto
    from less.hyps [OF this tl] less.hyps [of r] 2 show ?thesis
      by (auto simp: is_ascii_byte_def)
  next
    case (3 sl r)
    then have "length r < length s" by (cases sl) auto
    with less.hyps [of r] 3 show ?thesis
      by (auto simp: normalize_append_clean [OF no_ascii_clean] intro: valid_slice_utf8)
  qed simp
qed

lemma crlf_only_append_clean: "clean s \<Longrightarrow> crlf_only (s @ t) = crlf_only t"
  by (induction s) auto

lemma crlf_only_append: "crlf_only s \<Longrightarrow> crlf_only t \<Longrightarrow> crlf_only (s @ t)"
proof (induction s rule: crlf_only.induct)
  case (2 b bs)
  show ?case
  proof (cases "b = CR")
    case True
    with "2.prems" obtain r where "bs = LF # r" "crlf_only r" by (cases bs) auto
    with "2.IH"(1) [OF True] "2.prems" True show ?thesis by simp
  qed (use 2 in simp)
qed simp

lemma ensure_crlf_terminated_ends: "ends_with (ensure_crlf_terminated s) CRLF"
  by (simp add: ensure_crlf_terminated_def ends_with_iff)

section \<open>Greedy packing\<close>

text \<open>
  Both \<open>utf8\_chunks\<close> and the segments of a MIME parameter pack indivisible atoms greedily
  into pieces of at most \<open>m\<close> bytes.
\<close>

fun greedy :: "nat \<Rightarrow> string \<Rightarrow> string list \<Rightarrow> string list" where
  "greedy m current [] = [current]"
| "greedy m current (atom # atoms) =
     (if current \<noteq> [] \<and> length current + length atom > m then current # greedy m atom atoms
      else greedy m (current @ atom) atoms)"

lemma concat_greedy: "concat (greedy m current atoms) = current @ concat atoms"
  by (induction m current atoms rule: greedy.induct) auto

lemma greedy_bound:
  "length current \<le> m \<Longrightarrow> \<forall>a \<in> set atoms. length a \<le> m \<Longrightarrow> \<forall>p \<in> set (greedy m current atoms). length p \<le> m"
  by (induction m current atoms rule: greedy.induct) auto

lemma greedy_closed:
  assumes "\<And>x y. P x \<Longrightarrow> P y \<Longrightarrow> P (x @ y)"
  shows "P current \<Longrightarrow> \<forall>a \<in> set atoms. P a \<Longrightarrow> \<forall>p \<in> set (greedy m current atoms). P p"
  by (induction m current atoms rule: greedy.induct) (auto intro: assms)

lemma greedy_nonempty:
  "current \<noteq> [] \<or> atoms \<noteq> [] \<Longrightarrow> list_all (\<lambda>a. a \<noteq> []) atoms \<Longrightarrow>
     list_all (\<lambda>p. p \<noteq> []) (greedy m current atoms)"
proof (induction m current atoms rule: greedy.induct)
  case (2 m current atom atoms)
  then have ne: "atom \<noteq> []" "list_all (\<lambda>a. a \<noteq> []) atoms" by simp_all
  show ?case
  proof (cases "current \<noteq> [] \<and> length current + length atom > m")
    case True
    with "2.IH"(1) [OF True] ne show ?thesis by simp
  next
    case False
    with "2.IH"(2) [OF False] ne show ?thesis by auto
  qed
qed simp

lemma greedy_not_Nil [simp]: "greedy m current atoms \<noteq> []"
  by (induction m current atoms rule: greedy.induct) simp_all

lemma parameter_segments_greedy: "parameter_segments current atoms = greedy MIME_PARAMETER_SEGMENT_LENGTH current atoms"
  by (induction current atoms rule: parameter_segments.induct) auto

lemma utf8_chunks_loop_greedy:
  "utf8_chunks_loop (pre @ current @ concat cs) m (length pre) (length current)
     (char_indices (length pre + length current) cs) = greedy m current cs"
proof (induction cs arbitrary: pre current)
  case (Cons c cs)
  from Cons.IH [of "pre @ current" c] Cons.IH [of pre "current @ c"] show ?case
    by (auto simp: Let_def slice_def add.assoc)
qed simp

lemma utf8_chunks_greedy: "utf8_chunks value m = greedy m [] (char_slices value)"
  using utf8_chunks_loop_greedy [of "[]" "[]" "char_slices value" m] by (simp add: utf8_chunks_def)

lemma valid_utf8_slices: "valid_utf8 s \<Longrightarrow> sl \<in> set (char_slices s) \<Longrightarrow> valid_slice sl"
  by (simp add: valid_utf8_def list_all_iff)

lemma utf8_chunks_properties:
  assumes "valid_utf8 value" "4 \<le> m"
  shows "concat (utf8_chunks value m) = value"
    and "\<forall>c \<in> set (utf8_chunks value m). valid_utf8 c \<and> length c \<le> m \<and> (value \<noteq> [] \<longrightarrow> c \<noteq> [])"
proof -
  show "concat (utf8_chunks value m) = value" by (simp add: utf8_chunks_greedy concat_greedy)
  have "\<forall>c \<in> set (greedy m [] (char_slices value)). valid_utf8 c"
    by (rule greedy_closed) (use assms in \<open>auto intro: valid_slice_utf8 dest: valid_utf8_slices\<close>)
  moreover have "\<forall>c \<in> set (greedy m [] (char_slices value)). length c \<le> m"
    using assms valid_slice_len by (intro greedy_bound) (auto dest!: valid_utf8_slices intro: order_trans)
  moreover have "value \<noteq> [] \<longrightarrow> (\<forall>c \<in> set (greedy m [] (char_slices value)). c \<noteq> [])"
    using greedy_nonempty [of "[]" "char_slices value" m] char_slices_nonempty
    by (simp add: list_all_iff)
  ultimately show "\<forall>c \<in> set (utf8_chunks value m). valid_utf8 c \<and> length c \<le> m \<and> (value \<noteq> [] \<longrightarrow> c \<noteq> [])"
    by (simp add: utf8_chunks_greedy)
qed

section \<open>Encoded words\<close>

definition base64_alphabet :: "char set" where
  "base64_alphabet = {c. is_ascii_alphanumeric c} \<union> set ''+/=''"

text \<open>What the standard base64 engine documents of \<open>encode\<close>.\<close>

definition base64_laws :: "(string \<Rightarrow> string) \<Rightarrow> bool" where
  "base64_laws b64 \<longleftrightarrow>
     (\<forall>s. length (b64 s) = 4 * ((length s + 2) div 3) \<and> set (b64 s) \<subseteq> base64_alphabet)"

lemma base64_alphabet_graphic: "c \<in> base64_alphabet \<Longrightarrow> is_ascii_graphic c"
  by (auto simp: base64_alphabet_def byte_class_defs)

lemma graphic_clean: "list_all is_ascii_graphic s \<Longrightarrow> clean s"
  by (induction s) (auto simp: is_ascii_graphic_def)

lemma graphic_ascii: "list_all is_ascii_graphic s \<Longrightarrow> is_ascii_str s"
  by (induction s) (auto simp: is_ascii_str_def byte_class_defs)

lemma encoded_word_graphic:
  assumes "base64_laws (wl_base64 lib)"
  shows "list_all is_ascii_graphic (''=?UTF-8?B?'' @ wl_base64 lib chunk @ ''?='')"
proof -
  have "list_all is_ascii_graphic (wl_base64 lib chunk)"
    using assms base64_alphabet_graphic by (auto simp: base64_laws_def list_all_iff)
  then show ?thesis by (simp add: is_ascii_graphic_def)
qed

lemma encode_words_graphic:
  "base64_laws (wl_base64 lib) \<Longrightarrow> t \<in> set (encode_words lib value) \<Longrightarrow> list_all is_ascii_graphic t"
  unfolding encode_words_def using encoded_word_graphic [of lib]
  by (force split: if_splits simp del: append_Cons append.simps)

lemma encode_words_nonempty: "encode_words lib value \<noteq> []"
  by (simp add: encode_words_def utf8_chunks_greedy)

lemma encoded_word_length:
  assumes "base64_laws (wl_base64 lib)" "length chunk \<le> ENCODED_WORD_INPUT_BYTES"
  shows "length (''=?UTF-8?B?'' @ wl_base64 lib chunk @ ''?='') \<le> 64"
proof -
  have "(length chunk + 2) div 3 \<le> (39 + 2) div (3 :: nat)"
    using assms(2) by (intro div_le_mono) (simp add: wire_limits)
  moreover have "length (wl_base64 lib chunk) = 4 * ((length chunk + 2) div 3)"
    using assms(1) by (simp add: base64_laws_def)
  ultimately show ?thesis by simp
qed

section \<open>Header fields\<close>

text \<open>
  A header field on the wire: the name, a colon and a value, folded into lines that begin with
  a space.  \<open>header_section\<close> is a sequence of such fields.
\<close>

definition field_name_ok :: "string \<Rightarrow> bool" where
  "field_name_ok name \<longleftrightarrow>
     name \<noteq> [] \<and> list_all is_ascii_graphic name \<and> CHR '':'' \<notin> set name \<and> length name \<le> 76"

definition header_block :: "string \<Rightarrow> string \<Rightarrow> bool" where
  "header_block name s \<longleftrightarrow>
     (\<exists>first rest. s = join_lines ((name @ '':'' @ first) # map (\<lambda>l. SP # l) rest) \<and>
        clean (name @ first) \<and> length (name @ '':'' @ first) \<le> MAX_WIRE_LINE_LENGTH \<and>
        (\<forall>l \<in> set rest. clean l \<and> length (SP # l) \<le> MAX_WIRE_LINE_LENGTH))"

definition header_section :: "string list \<Rightarrow> string \<Rightarrow> bool" where
  "header_section names s \<longleftrightarrow> (\<exists>blocks. s = concat blocks \<and> list_all2 header_block names blocks)"

text \<open>
  Reading the header of a message back: its lines up to the first empty one, whatever line
  ending they have, and of these the ones that are not folded continuations, up to the colon.
\<close>

definition header_names :: "string \<Rightarrow> string list" where
  "header_names s =
     map (takeWhile (\<lambda>c. c \<noteq> CHR '':''))
       (filter (\<lambda>l. hd l \<noteq> SP \<and> hd l \<noteq> HT) (takeWhile (\<lambda>l. l \<noteq> []) (text_lines s)))"

lemma header_section_Nil [simp]: "header_section [] []"
  by (simp add: header_section_def)

lemma header_section_single: "header_block name s \<Longrightarrow> header_section [name] s"
  unfolding header_section_def by (rule exI [of _ "[s]"]) simp

lemma header_section_append:
  "header_section ns s \<Longrightarrow> header_section ms t \<Longrightarrow> header_section (ns @ ms) (s @ t)"
  unfolding header_section_def by (metis concat_append list_all2_appendI)

text \<open>The contract every header writer keeps: it appends exactly the fields it is named for.\<close>

locale header_writer =
  fixes emit :: "string \<Rightarrow> 'a \<Rightarrow> wire_error + string"
    and names :: "'a \<Rightarrow> string list"
    and accepts :: "'a \<Rightarrow> bool"
  assumes appends: "accepts a \<Longrightarrow> emit out a = Inr out' \<Longrightarrow>
     \<exists>s. out' = out @ s \<and> header_section (names a) s"
begin

lemma extends:
  assumes "header_section ns out" "accepts a" "emit out a = Inr out'"
  shows "header_section (ns @ names a) out'"
  using appends [OF assms(2,3)] header_section_append [OF assms(1)] by auto

end

text \<open>What is clean because the text check passed, for the strings Rust can build.\<close>

lemma validate_header_text_clean:
  assumes "validate_header_text field value = Inr ()" "valid_utf8 value"
  shows "clean value"
proof -
  from assms(1) have none: "List.find (\<lambda>c. c \<noteq> 9 \<and> is_control c) (chars value) = None"
    by (simp add: validate_header_text_def split: option.splits)
  have "c \<notin> set value" if c: "c = CR \<or> c = LF" for c
  proof
    assume "c \<in> set value"
    from ascii_byte_is_char [OF assms(2) this] c have "bval c \<in> set (chars value)"
      by (auto simp: is_ascii_byte_def)
    with none c show False by (auto simp: find_None_iff is_control_def)
  qed
  then show ?thesis by (auto simp: clean_def)
qed

lemma check_header_text_clean:
  "check_header_text field value = Inr () \<Longrightarrow> valid_utf8 value \<Longrightarrow> clean value"
  using validate_header_text_clean by (auto simp: check_header_text_def result_simps)

lemma write_tokens_block:
  assumes "write_tokens out name n tokens = Inr out'" "\<forall>t \<in> set tokens. valid_utf8 t"
    and "n \<le> length line" "length line \<le> n" "clean line"
    and "length line \<le> RECOMMENDED_HEADER_LINE_LENGTH \<or> length line \<le> MAX_WIRE_LINE_LENGTH"
  shows "\<exists>v rest. out' = out @ v @ CRLF @ join_lines (map (\<lambda>l. SP # l) rest) \<and> clean v \<and>
     length (line @ v) \<le> MAX_WIRE_LINE_LENGTH \<and>
     (\<forall>l \<in> set rest. clean l \<and> length (SP # l) \<le> MAX_WIRE_LINE_LENGTH)"
  using assms
proof (induction tokens arbitrary: out n line)
  case Nil
  then show ?case by (intro exI [of _ "[]"]) (auto simp: wire_limits)
next
  case (Cons t ts)
  from Cons.prems(1) have ok: "check_header_text name t = Inr ()" "length t < MAX_WIRE_LINE_LENGTH"
    by (auto simp: result_simps)
  with Cons.prems(2) have c: "clean t" using check_header_text_clean by simp
  show ?case
  proof (cases "n + 1 + length t \<le> RECOMMENDED_HEADER_LINE_LENGTH")
    case True
    with Cons.prems(1) ok have r: "write_tokens (out @ [SP] @ t) name (n + 1 + length t) ts = Inr out'"
      by (auto simp: result_simps)
    have "\<exists>v rest. out' = (out @ [SP] @ t) @ v @ CRLF @ join_lines (map (\<lambda>l. SP # l) rest) \<and> clean v \<and>
        length ((line @ [SP] @ t) @ v) \<le> MAX_WIRE_LINE_LENGTH \<and>
        (\<forall>l \<in> set rest. clean l \<and> length (SP # l) \<le> MAX_WIRE_LINE_LENGTH)"
      by (rule Cons.IH [OF r]) (use Cons.prems c True in auto)
    then obtain v rest where "out' = (out @ [SP] @ t) @ v @ CRLF @ join_lines (map (\<lambda>l. SP # l) rest)"
        "clean v" "length ((line @ [SP] @ t) @ v) \<le> MAX_WIRE_LINE_LENGTH"
        "\<forall>l \<in> set rest. clean l \<and> length (SP # l) \<le> MAX_WIRE_LINE_LENGTH" by blast
    with c show ?thesis by (intro exI [of _ "[SP] @ t @ v"] exI [of _ rest]) simp
  next
    case False
    with Cons.prems(1) ok have r: "write_tokens (out @ CRLF @ [SP] @ t) name (1 + length t) ts = Inr out'"
      by (auto simp: result_simps)
    have "\<exists>v rest. out' = (out @ CRLF @ [SP] @ t) @ v @ CRLF @ join_lines (map (\<lambda>l. SP # l) rest) \<and>
        clean v \<and> length ((SP # t) @ v) \<le> MAX_WIRE_LINE_LENGTH \<and>
        (\<forall>l \<in> set rest. clean l \<and> length (SP # l) \<le> MAX_WIRE_LINE_LENGTH)"
      by (rule Cons.IH [OF r]) (use Cons.prems c ok in auto)
    then obtain v rest where "out' = (out @ CRLF @ [SP] @ t) @ v @ CRLF @ join_lines (map (\<lambda>l. SP # l) rest)"
        "clean v" "length ((SP # t) @ v) \<le> MAX_WIRE_LINE_LENGTH"
        "\<forall>l \<in> set rest. clean l \<and> length (SP # l) \<le> MAX_WIRE_LINE_LENGTH" by blast
    with c Cons.prems(6) show ?thesis
      by (intro exI [of _ "[]"] exI [of _ "(t @ v) # rest"]) (auto simp: wire_limits)
  qed
qed

lemma write_token_header_block:
  assumes "write_token_header out name tokens = Inr out'" "field_name_ok name"
    and "\<forall>t \<in> set tokens. valid_utf8 t"
  shows "\<exists>s. out' = out @ s \<and> header_block name s"
proof (cases "tokens = []")
  case True
  with assms show ?thesis
    by (intro exI [of _ "name @ '':'' @ CRLF"] conjI)
       (auto simp: write_token_header_def header_block_def field_name_ok_def wire_limits graphic_clean
          intro!: exI [of _ "[]"])
next
  case False
  have n: "clean name" "length name \<le> 76" using assms(2) by (auto simp: field_name_ok_def graphic_clean)
  from False assms(1) have "write_tokens (out @ name @ '':'') name (length name + 1) tokens = Inr out'"
    by (simp add: write_token_header_def Let_def)
  from write_tokens_block [OF this assms(3), of "name @ '':''"] n obtain v rest where
    "out' = (out @ name @ '':'') @ v @ CRLF @ join_lines (map (\<lambda>l. SP # l) rest)" "clean v"
    "length ((name @ '':'') @ v) \<le> MAX_WIRE_LINE_LENGTH"
    "\<forall>l \<in> set rest. clean l \<and> length (SP # l) \<le> MAX_WIRE_LINE_LENGTH"
    by (auto simp: wire_limits)
  with n show ?thesis
    by (intro exI [of _ "name @ '':'' @ v @ CRLF @ join_lines (map (\<lambda>l. SP # l) rest)"])
       (auto simp: header_block_def intro!: exI [of _ v] exI [of _ rest])
qed

lemma write_literal_header_block:
  assumes "write_literal_header out name value = Inr out'" "field_name_ok name" "valid_utf8 value"
  shows "\<exists>s. out' = out @ s \<and> header_block name s"
proof -
  from assms(1) have ok: "check_header_text name value = Inr ()"
      "length name + 2 + length value \<le> MAX_WIRE_LINE_LENGTH" "out' = out @ name @ '': '' @ value @ CRLF"
    by (auto simp: write_literal_header_def result_simps)
  have c: "clean name" using assms(2) by (simp add: field_name_ok_def graphic_clean)
  with ok check_header_text_clean [OF ok(1) assms(3)] show ?thesis
    by (intro exI [of _ "name @ '': '' @ value @ CRLF"])
       (auto simp: header_block_def intro!: exI [of _ "SP # value"] exI [of _ "[] :: string list"])
qed

lemma header_block_extend:
  assumes "header_block name s" "\<forall>l \<in> set ls. clean l \<and> length (SP # l) \<le> MAX_WIRE_LINE_LENGTH"
  shows "header_block name (s @ join_lines (map (\<lambda>l. SP # l) ls))"
proof -
  from assms(1) obtain first rest where
    "s = join_lines ((name @ '':'' @ first) # map (\<lambda>l. SP # l) rest)" "clean (name @ first)"
    "length (name @ '':'' @ first) \<le> MAX_WIRE_LINE_LENGTH"
    "\<forall>l \<in> set rest. clean l \<and> length (SP # l) \<le> MAX_WIRE_LINE_LENGTH"
    by (auto simp: header_block_def)
  with assms(2) show ?thesis
    unfolding header_block_def by (intro exI [of _ first] exI [of _ "rest @ ls"]) auto
qed

interpretation token_header: header_writer
  "\<lambda>out (name, tokens). write_token_header out name tokens" "\<lambda>(name, tokens). [name]"
  "\<lambda>(name, tokens). field_name_ok name \<and> (\<forall>t \<in> set tokens. valid_utf8 t)"
  by unfold_locales (fastforce dest: write_token_header_block intro: header_section_single)

interpretation literal_header: header_writer
  "\<lambda>out (name, v). write_literal_header out name v" "\<lambda>(name, v). [name]"
  "\<lambda>(name, v). field_name_ok name \<and> valid_utf8 v"
  by unfold_locales (fastforce dest: write_literal_header_block intro: header_section_single)

lemma mime_field_names [simp]:
  "field_name_ok ''Content-Type''" "field_name_ok ''Content-Transfer-Encoding''"
  "field_name_ok ''Content-Disposition''" "field_name_ok ''MIME-Version''"
  by (simp_all add: field_name_ok_def is_ascii_graphic_def)

lemma valid_utf8_lit [simp]: "valid_utf8 ''; charset=utf-8''" "valid_utf8 '';''"
    "valid_utf8 ''quoted-printable''"
  by (intro valid_utf8_is_ascii; simp add: is_ascii_str_def is_ascii_byte_def)+

interpretation text_part_headers: header_writer write_text_part_headers
  "\<lambda>_. [''Content-Type'', ''Content-Transfer-Encoding'']" valid_utf8
proof
  fix content_type out out'
  assume v: "valid_utf8 content_type" and w: "write_text_part_headers out content_type = Inr out'"
  then obtain mid where m: "write_literal_header out ''Content-Type'' (content_type @ ''; charset=utf-8'') = Inr mid"
      "write_literal_header mid ''Content-Transfer-Encoding'' ''quoted-printable'' = Inr out'"
    by (auto simp: write_text_part_headers_def result_simps)
  from v have "valid_utf8 (content_type @ ''; charset=utf-8'')" using valid_utf8_lit(1) by blast
  from write_literal_header_block [OF m(1) mime_field_names(1) this] obtain s where
    s: "mid = out @ s" "header_block ''Content-Type'' s" by blast
  from write_literal_header_block [OF m(2) mime_field_names(2) valid_utf8_lit(3)] obtain t where
    t: "out' = mid @ t" "header_block ''Content-Transfer-Encoding'' t" by blast
  from s t show "\<exists>s. out' = out @ s \<and> header_section [''Content-Type'', ''Content-Transfer-Encoding''] s"
    by (intro exI [of _ "s @ t"]) (auto simp: header_section_def intro!: exI [of _ "[s, t]"])
qed

interpretation multipart_header: header_writer
  "\<lambda>out (content_type, boundary). write_multipart_header out content_type boundary"
  "\<lambda>_. [''Content-Type'']"
  "\<lambda>(content_type, boundary). valid_utf8 content_type \<and> clean boundary \<and> length boundary \<le> 70"
proof
  fix a out out'
  assume v: "case a of (content_type, boundary) \<Rightarrow> valid_utf8 content_type \<and> clean boundary \<and> length boundary \<le> 70"
    and w: "(case a of (content_type, boundary) \<Rightarrow> write_multipart_header out content_type boundary) = Inr out'"
  obtain ct b where a: "a = (ct, b)" by (cases a)
  let ?l = "''boundary='' @ [DQ] @ b @ [DQ]"
  from w a obtain mid where m: "write_literal_header out ''Content-Type'' (ct @ '';'') = Inr mid"
      "out' = mid @ join_lines (map (\<lambda>l. SP # l) [?l])"
    by (auto simp: write_multipart_header_def result_simps)
  from v a have "valid_utf8 (ct @ '';'')" using valid_utf8_lit(2) by blast
  from write_literal_header_block [OF m(1) mime_field_names(1) this] obtain s where
    s: "mid = out @ s" "header_block ''Content-Type'' s" by blast
  from v a have "\<forall>l \<in> set [?l]. clean l \<and> length (SP # l) \<le> MAX_WIRE_LINE_LENGTH"
    by (auto simp: wire_limits)
  from header_block_extend [OF s(2) this] m(2) s(1) header_section_single
  show "\<exists>s. out' = out @ s \<and> header_section [''Content-Type''] s"
    by (intro exI [of _ "s @ join_lines (map (\<lambda>l. SP # l) [?l])"]) simp
qed

section \<open>Reading the header back\<close>

lemma text_lines_line: "clean l \<Longrightarrow> text_lines (l @ CRLF @ s) = l # text_lines s"
  by (induction l) auto

lemma text_lines_join: "\<forall>l \<in> set ls. clean l \<Longrightarrow> text_lines (join_lines ls @ s) = ls @ text_lines s"
proof (induction ls)
  case (Cons l ls)
  have "text_lines (join_lines (l # ls) @ s) = text_lines (l @ CRLF @ (join_lines ls @ s))" by simp
  also have "\<dots> = l # text_lines (join_lines ls @ s)" by (rule text_lines_line) (use Cons.prems in simp)
  finally show ?case using Cons by simp
qed simp

definition block_lines :: "string \<Rightarrow> string list \<Rightarrow> bool" where
  "block_lines name ls \<longleftrightarrow>
     (\<exists>first rest. ls = (name @ '':'' @ first) # map (\<lambda>l. SP # l) rest) \<and> (\<forall>l \<in> set ls. clean l)"

lemma header_block_lines:
  "header_block name s \<Longrightarrow> \<exists>ls. s = join_lines ls \<and> block_lines name ls"
  unfolding header_block_def block_lines_def by (elim exE conjE) (intro exI conjI, assumption, auto)

lemma block_lines_names:
  assumes "block_lines name ls" "field_name_ok name"
  shows "map (takeWhile (\<lambda>c. c \<noteq> CHR '':'')) (filter (\<lambda>l. hd l \<noteq> SP \<and> hd l \<noteq> HT) ls) = [name]"
    and "[] \<notin> set ls"
proof -
  from assms(1) obtain first rest where ls: "ls = (name @ '':'' @ first) # map (\<lambda>l. SP # l) rest"
    by (auto simp: block_lines_def)
  from assms(2) obtain c cs where n': "name = c # cs" "is_ascii_graphic c" "CHR '':'' \<notin> set name"
    by (cases name) (auto simp: field_name_ok_def)
  from n'(2) have "c \<noteq> SP" "c \<noteq> HT" by (auto simp: is_ascii_graphic_def)
  note n = n'(1) this n'(3)
  have "takeWhile (\<lambda>c. c \<noteq> CHR '':'') (name @ '':'' @ first) = name"
    using n(4) by (subst takeWhile_append2) auto
  with n ls show "map (takeWhile (\<lambda>c. c \<noteq> CHR '':'')) (filter (\<lambda>l. hd l \<noteq> SP \<and> hd l \<noteq> HT) ls) = [name]"
    by (simp add: filter_map o_def)
  from n ls show "[] \<notin> set ls" by auto
qed

lemma header_names_section:
  assumes "header_section names s" "\<forall>n \<in> set names. field_name_ok n"
  shows "header_names (s @ CRLF @ body) = names"
proof -
  from assms(1) obtain blocks where b: "s = concat blocks" "list_all2 header_block names blocks"
    by (auto simp: header_section_def)
  from b(2) have "\<exists>lss. blocks = map join_lines lss \<and> list_all2 block_lines names lss"
  proof (induction rule: list_all2_induct)
    case (Cons n ns s ss)
    then show ?case using header_block_lines [of n s]
      by (metis list.simps(9) list_all2_Cons)
  qed simp
  then obtain lss where lss: "blocks = map join_lines lss" "list_all2 block_lines names lss" by blast
  have s: "s = join_lines (concat lss)"
    unfolding b(1) lss(1) by (induction lss) simp_all
  from lss(2) assms(2) have
    "map (takeWhile (\<lambda>c. c \<noteq> CHR '':'')) (filter (\<lambda>l. hd l \<noteq> SP \<and> hd l \<noteq> HT) (concat lss)) = names \<and>
     [] \<notin> set (concat lss) \<and> (\<forall>l \<in> set (concat lss). clean l)"
  proof (induction rule: list_all2_induct)
    case (Cons n ns ls lss)
    then show ?case using block_lines_names [OF Cons.hyps(1)] by (auto simp: block_lines_def)
  qed simp
  moreover from this have "text_lines (s @ CRLF @ body) = concat lss @ [] # text_lines body"
    unfolding s using text_lines_join [of "concat lss" "CRLF @ body"] by auto
  ultimately show ?thesis
    by (simp add: header_names_def takeWhile_append)
qed

section \<open>MIME parameters\<close>

lemma hex_table: "n < 16 \<Longrightarrow> ''0123456789ABCDEF'' ! n = hex_digit n"
proof -
  have "list_all (\<lambda>n. ''0123456789ABCDEF'' ! n = hex_digit n) [0..<16]" by code_simp
  then show "n < 16 \<Longrightarrow> ''0123456789ABCDEF'' ! n = hex_digit n" by (simp add: list_all_iff)
qed

lemma byte_nibbles: "bval c div 16 < (16 :: nat)" "bval c mod 16 < (16 :: nat)"
proof -
  have "(bval c :: nat) < 256" by simp
  then show "bval c div 16 < (16 :: nat)" by linarith
qed simp

lemma percent_encode_Cons:
  "percent_encode_mime_parameter (c # cs) =
     (if is_ascii_alphanumeric c \<or> c \<in> set ''-._~'' then [c]
      else [CHR ''%'', hex_digit (bval c div 16), hex_digit (bval c mod 16)]) @ percent_encode_mime_parameter cs"
  unfolding percent_encode_mime_parameter_def by (simp only: list.map concat.simps hex_table byte_nibbles)

lemma percent_encode_append:
  "percent_encode_mime_parameter (s @ t) = percent_encode_mime_parameter s @ percent_encode_mime_parameter t"
  by (simp add: percent_encode_mime_parameter_def)

lemma percent_loop_encoded:
  "percent_loop f (percent_encode_mime_parameter v @ cs) = map_ok (\<lambda>ds. v @ ds) (percent_loop f cs)"
proof (induction v)
  case Nil
  show ?case by (cases "percent_loop f cs") (simp_all add: percent_encode_mime_parameter_def)
next
  case (Cons c v)
  show ?case
  proof (cases "is_ascii_alphanumeric c \<or> c \<in> set ''-._~''")
    case True
    then have "c \<noteq> CHR ''%''" by (auto simp: byte_class_defs)
    with True Cons show ?thesis
      by (cases "percent_loop f cs") (simp_all add: percent_encode_Cons percent_loop_plain del: percent_loop.simps)
  next
    case False
    have "percent_loop f (percent_encode_mime_parameter (c # v) @ cs) =
        map_ok (\<lambda>ds. c # ds) (percent_loop f (percent_encode_mime_parameter v @ cs))"
      unfolding percent_encode_Cons if_not_P [OF False] append_assoc by (rule percent_loop_escaped)
    with Cons show ?thesis by (cases "percent_loop f cs") simp_all
  qed
qed

lemma hex_digit_graphic: "n < 16 \<Longrightarrow> is_ascii_graphic (hex_digit n)"
  by (auto simp: hex_digit_def is_ascii_graphic_def)

lemma percent_encode_graphic: "list_all is_ascii_graphic (percent_encode_mime_parameter v)"
proof (induction v)
  case (Cons c v)
  have "is_ascii_graphic c" if "is_ascii_alphanumeric c \<or> c \<in> set ''-._~''"
    using that by (auto simp: byte_class_defs)
  with Cons show ?case
    by (simp add: percent_encode_Cons hex_digit_graphic byte_nibbles) (simp add: is_ascii_graphic_def)
qed (simp add: percent_encode_mime_parameter_def)

lemma percent_encode_length:
  "length v \<le> length (percent_encode_mime_parameter v) \<and> length (percent_encode_mime_parameter v) \<le> 3 * length v"
  by (induction v) (auto simp: percent_encode_Cons percent_encode_mime_parameter_def [of "[]"])

lemma concat_atoms: "concat (percent_encoded_character_atoms v) = percent_encode_mime_parameter v"
proof -
  have "concat (map percent_encode_mime_parameter ss) = percent_encode_mime_parameter (concat ss)" for ss
    by (induction ss) (simp_all add: percent_encode_append percent_encode_mime_parameter_def [of "[]"])
  then show ?thesis by (simp add: percent_encoded_character_atoms_def)
qed

text \<open>
  A reader of RFC 2045 parameters with RFC 2231 continuations, written from those standards and not
  from the writer. An attribute is a token; a value is a token or a quoted string of printable ASCII
  characters, in which a backslash quotes the next character; a semicolon separates parameters.
\<close>

definition is_folding_space :: "char \<Rightarrow> bool" where
  "is_folding_space c \<longleftrightarrow> c \<in> {SP, HT, CR, LF}"

definition is_token_char :: "char \<Rightarrow> bool" where
  "is_token_char c \<longleftrightarrow> is_ascii_graphic c \<and> c \<notin> set ''()<>@,;:/[]?='' \<and> c \<noteq> BSL \<and> c \<noteq> DQ"

fun read_quoted_string :: "string \<Rightarrow> (string \<times> string) option" where
  "read_quoted_string [] = None"
| "read_quoted_string (c # cs) =
     (if c = DQ then Some ([], cs)
      else if \<not> is_ascii_graphic c \<and> c \<noteq> SP then None
      else if c = BSL then
        (case cs of [] \<Rightarrow> None
         | d # ds \<Rightarrow> map_option (\<lambda>(v, rest). (d # v, rest)) (read_quoted_string ds))
      else map_option (\<lambda>(v, rest). (c # v, rest)) (read_quoted_string cs))"

definition read_parameter :: "string \<Rightarrow> ((string \<times> string) \<times> string) option" where
  "read_parameter s =
     (let attribute = takeWhile is_token_char s; r = dropWhile is_token_char s in
      if attribute = [] \<or> r = [] \<or> hd r \<noteq> CHR ''='' then None
      else if tl r \<noteq> [] \<and> hd (tl r) = DQ
      then map_option (\<lambda>(v, rest). ((attribute, v), rest)) (read_quoted_string (tl (tl r)))
      else if takeWhile is_token_char (tl r) = [] then None
      else Some ((attribute, takeWhile is_token_char (tl r)), dropWhile is_token_char (tl r)))"

lemma read_quoted_string_shorter: "read_quoted_string s = Some (v, rest) \<Longrightarrow> length rest < length s"
  by (induction s arbitrary: v rest rule: read_quoted_string.induct) (fastforce split: if_splits list.splits)+

lemma read_parameter_shorter:
  assumes "read_parameter s = Some (p, rest)"
  shows "length rest < length s"
proof -
  let ?r = "dropWhile is_token_char s"
  from assms have r: "?r \<noteq> []" by (auto simp: read_parameter_def Let_def split: if_splits)
  have l: "length (tl ?r) < length s"
    using r length_dropWhile_le [of is_token_char s] by (cases ?r) auto
  show ?thesis
  proof (cases "tl ?r \<noteq> [] \<and> hd (tl ?r) = DQ")
    case True
    with assms r obtain v where "read_quoted_string (tl (tl ?r)) = Some (v, rest)"
      by (auto simp: read_parameter_def Let_def split: if_splits)
    from read_quoted_string_shorter [OF this] l show ?thesis by simp
  next
    case False
    with assms r have "rest = dropWhile is_token_char (tl ?r)"
      by (auto simp: read_parameter_def Let_def split: if_splits)
    with length_dropWhile_le [of is_token_char "tl ?r"] l show ?thesis by simp
  qed
qed

function read_parameters :: "string \<Rightarrow> (string \<times> string) list option" where
  "read_parameters s =
     (case read_parameter (dropWhile is_folding_space s) of
        None \<Rightarrow> None
      | Some (p, rest) \<Rightarrow>
          (case dropWhile is_folding_space rest of
             [] \<Rightarrow> Some [p]
           | c # cs \<Rightarrow> if c = CHR '';'' then map_option (\<lambda>ps. p # ps) (read_parameters cs) else None))"
  by pat_completeness auto
termination
proof (relation "measure length", goal_cases)
  case (2 s x p rest c cs)
  then have "length rest < length (dropWhile is_folding_space s)"
    by (intro read_parameter_shorter [where p = p]) simp
  with 2(3) length_dropWhile_le [of is_folding_space rest] length_dropWhile_le [of is_folding_space s]
  show ?case by simp
qed simp

declare read_parameters.simps [simp del]

text \<open>The number of a section \<open>name*N*\<close> of a continued, encoded parameter.\<close>

definition read_decimal :: "string \<Rightarrow> nat option" where
  "read_decimal s =
     (if s \<noteq> [] \<and> list_all is_ascii_digit s \<and> (hd s = CHR ''0'' \<longrightarrow> length s = 1)
      then Some (foldl (\<lambda>n c. 10 * n + (bval c - 48)) 0 s) else None)"

definition section_number :: "string \<Rightarrow> string \<Rightarrow> nat option" where
  "section_number name attribute =
     (let numbered = drop (length name + 1) attribute in
      if take (length name + 1) attribute = name @ ''*'' \<and> numbered \<noteq> [] \<and> last numbered = CHR ''*''
      then read_decimal (butlast numbered) else None)"

definition sections :: "string \<Rightarrow> (string \<times> string) list \<Rightarrow> (nat \<times> string) list" where
  "sections name ps =
     List.map_filter (\<lambda>(a, v). map_option (\<lambda>n. (n, v)) (section_number name a)) ps"

text \<open>Sections are joined in the order of their numbers, which start at 0 and have no gap.\<close>

definition join_sections :: "(nat \<times> string) list \<Rightarrow> string option" where
  "join_sections ss =
     (if ss \<noteq> [] \<and> list_all (\<lambda>i. map_of ss i \<noteq> None) [0..<length ss]
      then Some (concat (map (\<lambda>i. the (map_of ss i)) [0..<length ss])) else None)"

text \<open>An encoded value is the charset, the language and the escaped text, parted by apostrophes.\<close>

definition read_encoded_value :: "string \<Rightarrow> string option" where
  "read_encoded_value s =
     (case split_once (CHR 0x27) s of
        None \<Rightarrow> None
      | Some (charset, rest) \<Rightarrow>
          if \<not> eq_ignore_ascii_case charset ''utf-8'' then None
          else (case split_once (CHR 0x27) rest of
                  None \<Rightarrow> None
                | Some (_, escaped) \<Rightarrow>
                    (case percent_decode escaped [] of Inl _ \<Rightarrow> None | Inr v \<Rightarrow> Some v)))"

definition read_mime_parameter :: "string \<Rightarrow> string \<Rightarrow> string option" where
  "read_mime_parameter name s =
     (case read_parameters s of
        None \<Rightarrow> None
      | Some ps \<Rightarrow>
          (case map_of ps name of
             Some v \<Rightarrow> Some v
           | None \<Rightarrow> Option.bind (join_sections (sections name ps)) read_encoded_value))"

lemma read_decimal_show: "read_decimal (show_nat n) = Some n"
proof -
  have "show_nat n \<noteq> [] \<and> list_all is_ascii_digit (show_nat n) \<and>
      (hd (show_nat n) = CHR ''0'' \<longrightarrow> length (show_nat n) = 1) \<and>
      (hd (show_nat n) = CHR ''0'' \<longrightarrow> n = 0) \<and>
      foldl (\<lambda>n c. 10 * n + (bval c - 48)) 0 (show_nat n) = n"
  proof (induction n rule: show_nat.induct)
    case (1 n)
    show ?case
    proof (cases "n < 10")
      case True
      have "n = 0" if "char_of (48 + n) = CHR ''0''"
      proof -
        from that have "bval (char_of (48 + n)) = bval (CHR ''0'')" by simp
        with True show ?thesis by simp
      qed
      with True show ?thesis by (subst (1 2 3 4 5 6) show_nat.simps) (simp add: is_ascii_digit_def)
    next
      case False
      note IH = "1.IH" [OF False]
      have s: "show_nat n = show_nat (n div 10) @ [char_of (48 + n mod 10)]"
        using False by (subst show_nat.simps) simp
      have "48 + n mod 10 < 256" by simp
      then have "bval (char_of (48 + n mod 10)) = 48 + n mod 10" by simp
      moreover have "n div 10 \<noteq> 0" using False by simp
      ultimately show ?thesis using IH by (auto simp: s is_ascii_digit_def)
    qed
  qed
  then show ?thesis by (simp add: read_decimal_def)
qed

lemma takeWhile_token:
  assumes "list_all is_token_char a" "\<not> is_token_char c"
  shows "takeWhile is_token_char (a @ c # t) = a \<and> dropWhile is_token_char (a @ c # t) = c # t"
  using assms by (induction a) auto

lemma read_plain_quoted:
  assumes "list_all (\<lambda>c. (is_ascii_graphic c \<or> c = SP) \<and> c \<noteq> DQ \<and> c \<noteq> BSL) v"
  shows "read_quoted_string (v @ DQ # t) = Some (v, t)"
  using assms by (induction v) auto

text \<open>The characters of an attribute and of a written section.\<close>

lemma token_char_simps [simp]:
  "\<not> is_token_char (CHR ''='')" "\<not> is_token_char (CHR '';'')" "\<not> is_token_char DQ" "\<not> is_token_char CR"
  "is_token_char (CHR ''*'')"
  by (simp_all add: is_token_char_def is_ascii_graphic_def)

lemma is_folding_space_simps [simp]:
  "is_folding_space SP" "is_folding_space CR" "is_folding_space LF" "\<not> is_folding_space (CHR '';'')"
  by (simp_all add: is_folding_space_def)

lemma read_quoted_parameter:
  assumes "list_all is_token_char a" "a \<noteq> []"
      and "list_all (\<lambda>c. (is_ascii_graphic c \<or> c = SP) \<and> c \<noteq> DQ \<and> c \<noteq> BSL) v"
  shows "read_parameter ((a @ ''='' @ [DQ] @ v @ [DQ]) @ t) = Some ((a, v), t)"
  using takeWhile_token [OF assms(1), of "CHR ''=''" "DQ # v @ DQ # t"] assms
  by (simp add: read_parameter_def read_plain_quoted)

lemma read_token_parameter:
  assumes "list_all is_token_char a" "a \<noteq> []" "list_all is_token_char v" "v \<noteq> []" "\<not> is_token_char c"
  shows "read_parameter ((a @ ''='' @ v) @ c # t) = Some ((a, v), c # t)"
proof -
  have "v = hd v # tl v" using assms(4) by simp
  moreover have "hd v \<noteq> DQ" using assms(3,4) by (cases v) auto
  ultimately show ?thesis
    using takeWhile_token [OF assms(1), of "CHR ''=''" "v @ c # t"] takeWhile_token [OF assms(3,5)] assms
    by (simp add: read_parameter_def)
qed

text \<open>The text \<open>write\_parameters\<close> appends, read parameter by parameter.\<close>

fun parameter_text :: "string list \<Rightarrow> string" where
  "parameter_text [] = []"
| "parameter_text (p # ps) = [SP] @ p @ (if ps \<noteq> [] then '';'' else []) @ CRLF @ parameter_text ps"

lemma write_parameters_text: "write_parameters out name ps = Inr out' \<Longrightarrow> out' = out @ parameter_text ps"
  by (induction out name ps rule: write_parameters.induct) (auto simp: result_simps ensure_def split: if_splits)

definition reads_as :: "string \<Rightarrow> string \<times> string \<Rightarrow> bool" where
  "reads_as p b \<longleftrightarrow> p \<noteq> [] \<and> \<not> is_folding_space (hd p) \<and>
     (\<forall>c t. c \<in> {CHR '';'', CR} \<longrightarrow> read_parameter (p @ c # t) = Some (b, c # t))"

lemma read_parameter_text:
  assumes "list_all2 reads_as ps bs" "ps \<noteq> []"
  shows "read_parameters (CRLF @ parameter_text ps) = Some bs \<and> read_parameters (parameter_text ps) = Some bs"
  using assms
proof (induction ps bs rule: list_all2_induct)
  case (Cons p ps b bs)
  have skip: "dropWhile is_folding_space (p @ t) = p @ t" for t
    using Cons(1) by (cases p) (auto simp: reads_as_def)
  have r: "read_parameter (p @ c # t) = Some (b, c # t)" if "c \<in> {CHR '';'', CR}" for c t
    using Cons(1) that by (auto simp: reads_as_def)
  show ?case
  proof (cases "ps = []")
    case True
    with Cons(2) have "bs = []" by simp
    with True r [of CR "[LF]"] skip show ?thesis
      by (subst (1 2) read_parameters.simps) simp
  next
    case False
    note Cons.IH [OF False]
    with False r [of "CHR '';''"] skip show ?thesis
      by (subst (1 2) read_parameters.simps) simp
  qed
qed simp

text \<open>The numbered sections read back.\<close>

definition section_attribute :: "string \<Rightarrow> nat \<Rightarrow> string" where
  "section_attribute name i = name @ ''*'' @ show_nat i @ ''*''"

definition section_value :: "nat \<Rightarrow> string \<Rightarrow> string" where
  "section_value i s = (if i = 0 then ''utf-8'' @ replicate 2 (CHR 0x27) else []) @ s"

fun labelled :: "string \<Rightarrow> nat \<Rightarrow> string list \<Rightarrow> (string \<times> string) list" where
  "labelled name i [] = []"
| "labelled name i (s # ss) = (section_attribute name i, section_value i s) # labelled name (i + 1) ss"

lemma alphanumeric_token: "is_ascii_alphanumeric c \<Longrightarrow> is_token_char c"
  by (auto simp: is_token_char_def byte_class_defs)

lemma show_nat_token: "list_all is_token_char (show_nat n)"
  using show_nat_digits [of _ n] by (auto simp: list_all_iff is_ascii_alphanumeric_def intro: alphanumeric_token)

lemma utf8_label_token: "list_all is_token_char (''utf-8'' @ replicate 2 (CHR 0x27))"
  by code_simp

lemma token_start:
  assumes "list_all is_token_char name" "name \<noteq> []"
  shows "\<not> is_folding_space (hd name)" "CHR '';'' \<notin> set name"
proof -
  have "is_token_char (hd name)" using assms by (cases name) simp_all
  then show "\<not> is_folding_space (hd name)" by (auto simp: is_folding_space_def is_token_char_def is_ascii_graphic_def)
  have "\<not> is_token_char (CHR '';'')" by simp
  then show "CHR '';'' \<notin> set name" using assms(1) unfolding list_all_iff by blast
qed

lemma label_segments_read:
  assumes "list_all is_token_char name" "name \<noteq> []" "list_all (\<lambda>s. list_all is_token_char s \<and> s \<noteq> []) ss"
  shows "list_all2 reads_as (label_segments name i ss) (labelled name i ss)"
  using assms(3)
proof (induction ss arbitrary: i)
  case (Cons s ss)
  have "list_all is_token_char (section_value i s)" "section_value i s \<noteq> []"
    using Cons.prems utf8_label_token by (auto simp: section_value_def)
  moreover have "list_all is_token_char (section_attribute name i)" "section_attribute name i \<noteq> []"
    using assms by (auto simp: section_attribute_def show_nat_token)
  moreover have "segment_prefix name i @ s = section_attribute name i @ ''='' @ section_value i s"
    by (simp add: segment_prefix_def section_attribute_def section_value_def)
  ultimately have "read_parameter ((segment_prefix name i @ s) @ c # t) =
      Some ((section_attribute name i, section_value i s), c # t)" if "c \<in> {CHR '';'', CR}" for c t
    using read_token_parameter [of "section_attribute name i" "section_value i s" c t] that by auto
  then have "reads_as (segment_prefix name i @ s) (section_attribute name i, section_value i s)"
    using token_start [OF assms(1,2)] assms(2) by (simp add: reads_as_def segment_prefix_def)
  with Cons show ?case by simp
qed simp

lemma section_number_attribute: "section_number name (section_attribute name i) = Some i"
  by (simp add: section_number_def section_attribute_def read_decimal_show butlast_append)

lemma sections_labelled: "sections name (labelled name i ss) = zip [i..<i + length ss] (map (\<lambda>(j, s). section_value j s) (zip [i..<i + length ss] ss))"
proof (induction ss arbitrary: i)
  case (Cons s ss)
  have "[i..<i + length (s # ss)] = i # [Suc i..<Suc i + length ss]" by (simp add: upt_rec)
  with Cons [of "Suc i"] show ?case
    by (simp add: sections_def map_filter_simps section_number_attribute del: upt_Suc)
qed (simp add: sections_def map_filter_simps)

lemma concat_section_values:
  "ss \<noteq> [] \<Longrightarrow> concat (map (\<lambda>(j, s). section_value j s) (zip [0..<length ss] ss)) =
     ''utf-8'' @ replicate 2 (CHR 0x27) @ concat ss"
proof (cases ss)
  case (Cons s rest)
  have "map (\<lambda>(j, s). section_value j s) (zip [Suc 0..<Suc (length rest)] rest) = rest"
    by (rule nth_equalityI) (auto simp: section_value_def nth_upt simp del: upt_Suc)
  moreover have "[0..<length ss] = 0 # [Suc 0..<Suc (length rest)]" by (simp add: Cons upt_rec)
  ultimately show ?thesis by (simp add: Cons section_value_def del: upt_Suc)
qed simp

lemma join_labelled:
  assumes "ss \<noteq> []"
  shows "join_sections (sections name (labelled name 0 ss)) = Some (''utf-8'' @ replicate 2 (CHR 0x27) @ concat ss)"
proof -
  let ?vs = "map (\<lambda>(j, s). section_value j s) (zip [0..<length ss] ss)"
  let ?zs = "zip [0..<length ss] ?vs"
  have s: "sections name (labelled name 0 ss) = ?zs" using sections_labelled [of name 0 ss] by simp
  have m: "map_of ?zs i = Some (?vs ! i)" if "i < length ss" for i
    using map_of_zip_nth [of "[0..<length ss]" ?vs i] that by simp
  have "concat (map (\<lambda>i. the (map_of ?zs i)) [0..<length ss]) = concat ?vs"
    by (rule arg_cong [where f = concat], rule nth_equalityI) (auto simp: m)
  then show ?thesis using assms m concat_section_values [OF assms]
    by (simp add: s join_sections_def list_all_iff)
qed

lemma read_encoded_utf8:
  "percent_decode escaped [] = Inr v \<Longrightarrow>
     read_encoded_value (''utf-8'' @ replicate 2 (CHR 0x27) @ escaped) = Some v"
  by (simp add: read_encoded_value_def numeral_2_eq_2)

lemma no_plain_attribute: "map_of (labelled name i ss) name = None"
  by (induction name i ss rule: labelled.induct) (auto simp: section_attribute_def)

lemma percent_encode_token: "list_all is_token_char (percent_encode_mime_parameter v)"
proof (induction v)
  case (Cons c v)
  have "is_token_char c" if "is_ascii_alphanumeric c \<or> c \<in> set ''-._~''"
    using that by (auto simp: is_token_char_def byte_class_defs)
  moreover have "is_token_char (hex_digit n)" if "n < 16" for n
    using that by (intro alphanumeric_token) (auto simp: hex_digit_def byte_class_defs)
  ultimately show ?case using Cons
    by (simp add: percent_encode_Cons byte_nibbles) (simp add: is_token_char_def is_ascii_graphic_def)
qed (simp add: percent_encode_mime_parameter_def)

lemma percent_encode_nonempty: "s \<noteq> [] \<Longrightarrow> percent_encode_mime_parameter s \<noteq> []"
  using percent_encode_length [of s] by auto

lemma rendered_segments:
  assumes "value \<noteq> []"
  shows "list_all (\<lambda>s. list_all is_token_char s \<and> s \<noteq> [])
    (parameter_segments [] (percent_encoded_character_atoms value))"
proof -
  let ?atoms = "percent_encoded_character_atoms value"
  have "\<forall>s \<in> set (greedy 42 [] ?atoms). list_all is_token_char s"
    by (rule greedy_closed) (auto simp: percent_encoded_character_atoms_def percent_encode_token)
  moreover have "list_all (\<lambda>a. a \<noteq> []) ?atoms" using char_slices_nonempty [of _ "value"]
    by (auto simp: percent_encoded_character_atoms_def list_all_iff percent_encode_nonempty)
  moreover have "?atoms \<noteq> []" using assms by (auto simp: percent_encoded_character_atoms_def)
  ultimately show ?thesis using greedy_nonempty [of "[]" ?atoms 42]
    by (auto simp: parameter_segments_greedy wire_limits list_all_iff)
qed


lemma percent_decode_atoms:
  "valid_utf8 v \<Longrightarrow> percent_decode (concat (parameter_segments [] (percent_encoded_character_atoms v))) f = Inr v"
  using percent_loop_encoded [of f v "[]"]
  by (simp add: percent_decode_def parameter_segments_greedy concat_greedy concat_atoms)

lemma plain_quotable:
  "plain_parameter v \<Longrightarrow> list_all (\<lambda>c. (is_ascii_graphic c \<or> c = SP) \<and> c \<noteq> DQ \<and> c \<noteq> BSL) v"
proof -
  have "is_ascii_graphic c \<or> c = SP" if "is_ascii_byte c" "\<not> is_ascii_control c" for c
  proof (cases "bval c = 32")
    case True
    then have "bval c = bval SP" by simp
    then have "c = SP" by (simp only: of_char_eq_iff)
    then show ?thesis by simp
  qed (use that in \<open>auto simp: byte_class_defs\<close>)
  then show "plain_parameter v \<Longrightarrow> ?thesis" 
    by (auto simp: plain_parameter_def is_ascii_str_def list_all_iff list_ex_iff)
qed

section \<open>Bounds of MIME parameters\<close>

lemma show_nat_length: "n < 10 ^ k \<Longrightarrow> 0 < k \<Longrightarrow> length (show_nat n) \<le> k"
proof (induction n arbitrary: k rule: show_nat.induct)
  case (1 n)
  show ?case
  proof (cases "n < 10")
    case True
    then show ?thesis using "1.prems" by (subst show_nat.simps) simp
  next
    case False
    from "1.prems"(2) obtain j where k: "k = Suc j" by (cases k) auto
    have "0 < j"
    proof (rule ccontr)
      assume "\<not> 0 < j"
      with "1.prems"(1) k False show False by simp
    qed
    note j = k this
    with "1.prems" have "n div 10 < 10 ^ j" by simp
    from "1.IH" [OF False this j(2)] show ?thesis using False j by (subst show_nat.simps) simp
  qed
qed

lemma length_greedy: "length (greedy m current atoms) \<le> length atoms + 1"
  by (induction m current atoms rule: greedy.induct) auto

lemma length_le_concat: "list_all (\<lambda>s. s \<noteq> []) ss \<Longrightarrow> length ss \<le> length (concat ss)"
proof (induction ss)
  case (Cons s ss)
  then show ?case by (cases s) auto
qed simp

lemma label_segments_mem:
  "p \<in> set (label_segments name index ss) \<Longrightarrow>
     \<exists>i s. s \<in> set ss \<and> index \<le> i \<and> i < index + length ss \<and> p = segment_prefix name i @ s"
proof (induction name index ss rule: label_segments.induct)
  case (2 name index s ss)
  from "2.prems" consider "p = segment_prefix name index @ s" | "p \<in> set (label_segments name (index + 1) ss)"
    by auto
  then show ?case
  proof cases
    case 1
    then show ?thesis by (intro exI [of _ index] exI [of _ s]) simp
  next
    case 2
    from "2.IH" [OF 2] obtain i t where "t \<in> set ss" "index + 1 \<le> i" "i < index + 1 + length ss"
      "p = segment_prefix name i @ t" by blast
    then show ?thesis by (intro exI [of _ i] exI [of _ t]) simp
  qed
qed simp

lemma render_parameter_mem:
  assumes "valid_utf8 value" "p \<in> set (render_mime_parameter name value)"
  shows "(p = name @ ''='' @ [DQ] @ value @ [DQ] \<and> plain_parameter value) \<or>
    (\<exists>i s. p = segment_prefix name i @ s \<and> i \<le> length value \<and> length s \<le> 42 \<and> list_all is_ascii_graphic s)"
proof (cases "plain_parameter value")
  case False
  let ?atoms = "percent_encoded_character_atoms value"
  from False assms(2) obtain i s where s: "s \<in> set (greedy 42 [] ?atoms)" "i < length (greedy 42 [] ?atoms)"
      "p = segment_prefix name i @ s"
    by (auto simp: render_mime_parameter_def parameter_segments_greedy wire_limits dest: label_segments_mem)
  have "length ?atoms \<le> length value"
    using length_le_concat [of "char_slices value"] char_slices_nonempty [of _ "value"]
    by (auto simp: percent_encoded_character_atoms_def list_all_iff)
  with s(2) length_greedy [of 42 "[]" ?atoms] have "i \<le> length value" by linarith
  moreover have "\<forall>a \<in> set ?atoms. length a \<le> 42"
  proof
    fix a assume "a \<in> set ?atoms"
    then obtain sl where "sl \<in> set (char_slices value)" "a = percent_encode_mime_parameter sl"
      by (auto simp: percent_encoded_character_atoms_def)
    with valid_utf8_slices [OF assms(1)] percent_encode_length [of sl] valid_slice_len [of sl]
    show "length a \<le> 42" by fastforce
  qed
  then have "length s \<le> 42" using greedy_bound [of "[]" 42 ?atoms] s(1) by simp
  moreover have "\<forall>p \<in> set (greedy 42 [] ?atoms). list_all is_ascii_graphic p"
    by (rule greedy_closed) (auto simp: percent_encoded_character_atoms_def percent_encode_graphic)
  ultimately show ?thesis using s by blast
qed (use assms(2) in \<open>simp add: render_mime_parameter_def\<close>)

lemma plain_parameter_clean: "plain_parameter v \<Longrightarrow> clean v"
proof -
  assume "plain_parameter v"
  then have "\<forall>b \<in> set v. \<not> is_ascii_control b" by (auto simp: plain_parameter_def list_ex_iff)
  moreover have "is_ascii_control CR" "is_ascii_control LF" by (simp_all add: is_ascii_control_def)
  ultimately show "clean v" unfolding clean_def by blast
qed

lemma segment_prefix_clean: "clean name \<Longrightarrow> clean (segment_prefix name i)"
proof -
  have "clean (show_nat i)"
    using show_nat_digits [of CR i] show_nat_digits [of LF i] by (auto simp: clean_def is_ascii_digit_def)
  then show "clean name \<Longrightarrow> clean (segment_prefix name i)"
    by (simp add: segment_prefix_def numeral_2_eq_2)
qed

lemma render_parameter_clean:
  assumes "valid_utf8 value" "clean name" "p \<in> set (render_mime_parameter name value)"
  shows "clean p"
  using render_parameter_mem [OF assms(1,3)] assms(2) plain_parameter_clean [of "value"]
    segment_prefix_clean [OF assms(2)] graphic_clean
  by auto

lemma write_parameters_ok:
  assumes "write_parameters out name ps = Inr out'" "\<forall>p \<in> set ps. clean p"
  shows "\<exists>ls. out' = out @ join_lines (map (\<lambda>l. SP # l) ls) \<and>
     (\<forall>l \<in> set ls. clean l \<and> length (SP # l) \<le> RECOMMENDED_HEADER_LINE_LENGTH)"
  using assms
proof (induction out name ps rule: write_parameters.induct)
  case (2 out name p ps)
  let ?l = "p @ (if ps \<noteq> [] then '';'' else [])"
  from "2.prems"(1) have l: "length (SP # ?l) \<le> RECOMMENDED_HEADER_LINE_LENGTH"
    "write_parameters (out @ [SP] @ p @ (if ps \<noteq> [] then '';'' else []) @ CRLF) name ps = Inr out'"
    by (auto simp: result_simps)
  from "2.prems"(2) have "\<forall>p \<in> set ps. clean p" by simp
  from "2.IH" [OF l(2) this] obtain ls where
    "out' = (out @ (SP # ?l) @ CRLF) @ join_lines (map (\<lambda>l. SP # l) ls)"
    "\<forall>l \<in> set ls. clean l \<and> length (SP # l) \<le> RECOMMENDED_HEADER_LINE_LENGTH" by auto
  with l(1) "2.prems"(2) show ?case by (intro exI [of _ "?l # ls"]) auto
qed (auto intro: exI [of _ "[]"])

lemma write_parameters_fit:
  "\<forall>p \<in> set ps. length p \<le> 76 \<Longrightarrow> \<exists>out'. write_parameters out name ps = Inr out'"
  by (induction out name ps rule: write_parameters.induct) (auto simp: result_simps wire_limits ensure_def)

lemma render_parameter_length:
  assumes "valid_utf8 value" "length value < 10 ^ 20" "length name \<le> 8" "p \<in> set (render_mime_parameter name value)"
  shows "length p \<le> 76"
  using render_parameter_mem [OF assms(1,4)]
proof (elim disjE exE conjE)
  assume "p = name @ ''='' @ [DQ] @ value @ [DQ]" "plain_parameter value"
  then show ?thesis using assms(3) by (simp add: plain_parameter_def wire_limits)
next
  fix i s assume p: "p = segment_prefix name i @ s" "i \<le> length value" "length s \<le> 42"
  then have "length (show_nat i) \<le> 20" using assms(2) by (intro show_nat_length) auto
  moreover have "length (show_nat 0) = 1" by (subst show_nat.simps) simp
  ultimately show ?thesis using p(1,3) assms(3) by (cases "i = 0") (auto simp: segment_prefix_def)
qed

interpretation parameterized_header: header_writer
  "\<lambda>out (name, v, parameter_name, w). write_parameterized_header out name v parameter_name w"
  "\<lambda>(name, v, parameter_name, w). [name]"
  "\<lambda>(name, v, parameter_name, w). field_name_ok name \<and> valid_utf8 v \<and> clean parameter_name \<and> valid_utf8 w"
proof
  fix a out out'
  assume acc: "case a of (name, v, parameter_name, w) \<Rightarrow>
      field_name_ok name \<and> valid_utf8 v \<and> clean parameter_name \<and> valid_utf8 w"
    and w: "(case a of (name, v, parameter_name, w) \<Rightarrow>
      write_parameterized_header out name v parameter_name w) = Inr out'"
  obtain n v pn pv where a: "a = (n, v, pn, pv)" by (cases a)
  from w a obtain mid where m: "write_literal_header out n (v @ '';'') = Inr mid"
      "write_parameters mid n (render_mime_parameter pn pv) = Inr out'"
    by (auto simp: write_parameterized_header_def result_simps)
  from acc a have "valid_utf8 (v @ '';'')" using valid_utf8_lit(2) by blast
  with write_literal_header_block [OF m(1)] acc a obtain s where
    s: "mid = out @ s" "header_block n s" by auto
  from acc a have "\<forall>p \<in> set (render_mime_parameter pn pv). clean p"
    using render_parameter_clean [of pv pn] by simp
  from write_parameters_ok [OF m(2) this] obtain ls where
    ls: "out' = mid @ join_lines (map (\<lambda>l. SP # l) ls)"
      "\<forall>l \<in> set ls. clean l \<and> length (SP # l) \<le> RECOMMENDED_HEADER_LINE_LENGTH" by blast
  then have "\<forall>l \<in> set ls. clean l \<and> length (SP # l) \<le> MAX_WIRE_LINE_LENGTH" by (auto simp: wire_limits)
  from header_block_extend [OF s(2) this] ls(1) s(1) a header_section_single
  show "\<exists>s. out' = out @ s \<and>
      header_section (case a of (name, v, parameter_name, w) \<Rightarrow> [name]) s"
    by (intro exI [of _ "s @ join_lines (map (\<lambda>l. SP # l) ls)"]) simp
qed

section \<open>A concrete encoder\<close>

text \<open>Base64 with padding, an instance of the external encoder for the witnesses.\<close>

definition b64_char :: "nat \<Rightarrow> char" where
  "b64_char n =
     (if n < 26 then char_of (65 + n) else if n < 52 then char_of (71 + n)
      else if n < 62 then char_of (n - 4) else if n = 62 then CHR ''+'' else CHR ''/'')"

fun base64_ref :: "string \<Rightarrow> string" where
  "base64_ref [] = []"
| "base64_ref [a] = [b64_char (bval a div 4), b64_char (bval a mod 4 * 16), CHR ''='', CHR ''='']"
| "base64_ref [a, b] =
     [b64_char (bval a div 4), b64_char (bval a mod 4 * 16 + bval b div 16),
      b64_char (bval b mod 16 * 4), CHR ''='']"
| "base64_ref (a # b # c # r) =
     [b64_char (bval a div 4), b64_char (bval a mod 4 * 16 + bval b div 16),
      b64_char (bval b mod 16 * 4 + bval c div 64), b64_char (bval c mod 64)] @ base64_ref r"

lemma b64_char_alphabet: "b64_char n \<in> base64_alphabet"
  by (auto simp: b64_char_def base64_alphabet_def byte_class_defs)

lemma base64_ref_laws: "base64_laws base64_ref"
proof -
  have "length (base64_ref s) = 4 * ((length s + 2) div 3) \<and> set (base64_ref s) \<subseteq> base64_alphabet" for s
  proof (induction s rule: base64_ref.induct)
    case (4 a b c r)
    have "(n + 5) div 3 = (n + 2) div 3 + 1" for n :: nat by presburger
    from this [of "length r"] 4 show ?case using b64_char_alphabet by (simp add: add.commute)
  qed (use b64_char_alphabet in \<open>simp_all add: base64_alphabet_def\<close>)
  then show ?thesis by (simp add: base64_laws_def)
qed

definition ref_lib :: wire_lib where
  "ref_lib = \<lparr>wl_address = bare_lib, wl_base64 = base64_ref, wl_quoted_printable = (\<lambda>s. s)\<rparr>"

section \<open>Properties\<close>

text \<open>
  C21. The final check of a rendered message accepts exactly the byte sequences that are CRLF
  terminated lines of at most 998 bytes without any other carriage return or line feed.
\<close>

theorem validate_wire_exact: "validate_wire bytes = Inr () \<longleftrightarrow> wire_text bytes"
  by (rule validate_wire_iff)

text \<open>
  Normalizing line endings leaves only CRLF line ends, keeps the lines of the text, and
  changes nothing in a text that is already normalized; in particular it is idempotent.
\<close>

theorem normalize_line_endings_canonical:
  "crlf_only (normalize_line_endings s) \<and> text_lines (normalize_line_endings s) = text_lines s \<and>
   (normalize_line_endings s = s \<longleftrightarrow> crlf_only s)"
  using normalize_crlf_only text_lines_normalize normalize_fixed_iff by blast

text \<open>
  An encoded header text is cut at character boundaries only: the encoded words carry, in
  order, chunks of at most 39 bytes that are valid UTF-8 on their own and together are the
  text, and each word is printable ASCII of at most 64 bytes.
\<close>

theorem encode_words_chunks:
  assumes "base64_laws (wl_base64 lib)" "valid_utf8 text" "text \<noteq> []"
  shows "\<exists>chunks. encode_words lib text = map (\<lambda>c. ''=?UTF-8?B?'' @ wl_base64 lib c @ ''?='') chunks \<and>
     concat chunks = text \<and> list_all (\<lambda>c. valid_utf8 c \<and> c \<noteq> [] \<and> length c \<le> 39) chunks \<and>
     list_all (\<lambda>w. list_all is_ascii_graphic w \<and> length w \<le> 64) (encode_words lib text)"
proof (intro exI conjI)
  let ?cs = "utf8_chunks text ENCODED_WORD_INPUT_BYTES"
  have m: "4 \<le> ENCODED_WORD_INPUT_BYTES" by (simp add: wire_limits)
  note cs = utf8_chunks_properties [OF assms(2) m]
  show e: "encode_words lib text = map (\<lambda>c. ''=?UTF-8?B?'' @ wl_base64 lib c @ ''?='') ?cs"
    using assms(3) by (simp add: encode_words_def)
  show "concat ?cs = text" by (rule cs(1))
  show "list_all (\<lambda>c. valid_utf8 c \<and> c \<noteq> [] \<and> length c \<le> 39) ?cs"
    using cs(2) assms(3) by (auto simp: list_all_iff wire_limits)
  show "list_all (\<lambda>w. list_all is_ascii_graphic w \<and> length w \<le> 64) (encode_words lib text)"
    unfolding e list_all_iff set_map ball_simps
    using encoded_word_graphic [OF assms(1)] encoded_word_length [OF assms(1)] cs(2)
    by (auto simp: list_all_iff simp del: append_Cons append.simps)
qed

lemma encode_words_chunks_witness:
  "encode_words ref_lib ''Subject'' = [''=?UTF-8?B?U3ViamVjdA==?='']  \<and>
   list_all (\<lambda>w. length w \<le> 64) (encode_words ref_lib ''Subject'')"
proof -
  have e: "encode_words ref_lib ''Subject'' = [''=?UTF-8?B?U3ViamVjdA==?='']" by code_simp
  have "base64_laws (wl_base64 ref_lib)" by (simp add: ref_lib_def base64_ref_laws)
  moreover have "valid_utf8 ''Subject''" by code_simp
  ultimately show ?thesis using encode_words_chunks [of ref_lib "''Subject''"] e
    by (auto simp: list_all_iff)
qed

text \<open>
  C17. A file name survives its encoding as a MIME parameter. Whatever characters it has, a reader of
  RFC 2045 parameters and RFC 2231 continuations recovers it from the lines that are written, and
  every semicolon in them separates parameters, even for a reader that does not know quoted strings.
\<close>

theorem mime_parameter_roundtrip:
  assumes "valid_utf8 text" "list_all is_token_char name" "name \<noteq> []"
      and "write_parameters out field (render_mime_parameter name text) = Inr out'"
  shows "\<exists>written. out' = out @ written \<and> read_mime_parameter name written = Some text \<and>
    (\<forall>p \<in> set (render_mime_parameter name text). CHR '';'' \<notin> set p)"
proof (cases "plain_parameter text")
  case True
  then have r: "render_mime_parameter name text = [name @ ''='' @ [DQ] @ text @ [DQ]]"
    by (simp add: render_mime_parameter_def)
  note start = token_start [OF assms(2,3)]
  with assms(3) read_quoted_parameter [OF assms(2,3) plain_quotable [OF True]]
  have "reads_as (name @ ''='' @ [DQ] @ text @ [DQ]) (name, text)" by (simp add: reads_as_def)
  with r read_parameter_text [of "render_mime_parameter name text" "[(name, text)]"]
  have "read_mime_parameter name (parameter_text (render_mime_parameter name text)) = Some text"
    by (simp add: read_mime_parameter_def)
  moreover have "CHR '';'' \<notin> set text"
    using True by (auto simp: plain_parameter_def list_ex_iff)
  ultimately show ?thesis using write_parameters_text [OF assms(4)] r start(2) by auto
next
  case False
  let ?ss = "parameter_segments [] (percent_encoded_character_atoms text)"
  have r: "render_mime_parameter name text = label_segments name 0 ?ss"
    using False by (simp add: render_mime_parameter_def)
  have "text \<noteq> []" using False by (auto simp: plain_parameter_def is_ascii_str_def)
  note seg = rendered_segments [OF this]
  have ne: "?ss \<noteq> []" by (simp add: parameter_segments_greedy)
  then have "label_segments name 0 ?ss \<noteq> []" by (cases ?ss) simp_all
  with read_parameter_text [OF label_segments_read [OF assms(2,3) seg, of 0]]
  have "read_parameters (parameter_text (render_mime_parameter name text)) = Some (labelled name 0 ?ss)"
    by (simp add: r)
  then have "read_mime_parameter name (parameter_text (render_mime_parameter name text)) = Some text"
    using read_encoded_utf8 [OF percent_decode_atoms [OF assms(1)]]
    by (simp add: read_mime_parameter_def no_plain_attribute join_labelled [OF ne])
  moreover have "CHR '';'' \<notin> set p" if "p \<in> set (label_segments name 0 ?ss)" for p
  proof -
    from label_segments_mem [OF that] obtain i s where "s \<in> set ?ss" "p = segment_prefix name i @ s" by blast
    moreover have "s \<in> set ?ss \<Longrightarrow> CHR '';'' \<notin> set s" using seg token_start(2) by (auto simp: list_all_iff)
    moreover have "CHR '';'' \<notin> set (show_nat i)"
      using show_nat_digits [of "CHR '';''" i] by (auto simp: is_ascii_digit_def)
    ultimately show ?thesis using token_start(2) [OF assms(2,3)] by (auto simp: segment_prefix_def)
  qed
  ultimately show ?thesis using write_parameters_text [OF assms(4)] r by auto
qed

lemma mime_parameter_roundtrip_witness:
  "\<exists>written. [CHR ''x'', SP] @ ''filename*0*=utf-8'' @ replicate 2 (CHR 0x27) @ ''a%22%3B%C3%A9'' @ CRLF =
       [CHR ''x''] @ written \<and>
     read_mime_parameter ''filename'' written = Some [CHR ''a'', DQ, CHR '';'', CHR 0xC3, CHR 0xA9]"
proof -
  let ?text = "[CHR ''a'', DQ, CHR '';'', CHR 0xC3, CHR 0xA9]"
  have "valid_utf8 ?text" "list_all is_token_char ''filename''"
    "write_parameters [CHR ''x''] ''Content-Disposition'' (render_mime_parameter ''filename'' ?text) =
       Inr ([CHR ''x'', SP] @ ''filename*0*=utf-8'' @ replicate 2 (CHR 0x27) @ ''a%22%3B%C3%A9'' @ CRLF)"
    by code_simp+
  from mime_parameter_roundtrip [OF this(1,2) _ this(3)] show ?thesis by blast
qed

text \<open>
  No file name that fits in memory makes the parameter writer fail: with a parameter name
  of at most eight characters every segment line stays within 78 bytes.
\<close>

theorem mime_parameter_always_fits:
  assumes "valid_utf8 text" "length text < 2 ^ 64" "length parameter_name \<le> 8"
  shows "\<exists>out'. write_parameters out name (render_mime_parameter parameter_name text) = Inr out'"
proof -
  have "length text < 10 ^ 20" using assms(2) by simp
  with render_parameter_length [OF assms(1) _ assms(3)] show ?thesis
    by (intro write_parameters_fit ballI)
qed

lemma mime_parameter_always_fits_witness:
  "\<exists>out'. write_parameters [] ''Content-Type'' (render_mime_parameter ''name'' (replicate 99 CHR ''%'')) = Inr out'"
  by (rule mime_parameter_always_fits)
     (simp_all add: valid_utf8_is_ascii is_ascii_str_def is_ascii_byte_def list_all_iff)

end
