(* ===== verification/Mime_Scan.thy ===== *)
theory Mime_Scan
  imports Rust_Str
begin

text \<open>
  The byte-level half of \<open>notm-mail/src/mime.rs\<close>: resource limits, the structural preflight
  that walks the multipart boundaries before the MIME parser runs, exact decoded lengths of the
  transfer encodings, the quoted-printable check and the unfolding of structured headers.
  \<open>mailparse\<close> is third-party code: \<open>parse\_headers\<close> and \<open>parse\_content\_type\<close> are fields of
  \<open>header_lib\<close>, an argument of the preflight.
\<close>

section \<open>Limits and errors\<close>

definition MESSAGE_BYTES_LIMIT :: nat where "MESSAGE_BYTES_LIMIT = 64 * 1024 * 1024"
definition MIME_DEPTH_LIMIT :: nat where "MIME_DEPTH_LIMIT = 32"
definition MIME_PARTS_LIMIT :: nat where "MIME_PARTS_LIMIT = 2048"
definition MIME_DECODED_PART_BYTES_LIMIT :: nat where "MIME_DECODED_PART_BYTES_LIMIT = 32 * 1024 * 1024"
definition MIME_TOTAL_DECODED_BYTES_LIMIT :: nat where "MIME_TOTAL_DECODED_BYTES_LIMIT = 64 * 1024 * 1024"

record mime_limits =
  max_message_bytes :: nat
  max_depth :: nat
  max_parts :: nat
  max_decoded_part_bytes :: nat
  max_total_decoded_bytes :: nat

definition default_limits :: mime_limits where
  "default_limits = \<lparr>
     max_message_bytes = MESSAGE_BYTES_LIMIT,
     max_depth = MIME_DEPTH_LIMIT,
     max_parts = MIME_PARTS_LIMIT,
     max_decoded_part_bytes = MIME_DECODED_PART_BYTES_LIMIT,
     max_total_decoded_bytes = MIME_TOTAL_DECODED_BYTES_LIMIT\<rparr>"

datatype mime_error =
    LimitDepth nat nat
  | LimitParts nat
  | LimitDecodedPart string nat
  | LimitTotalDecoded nat
  | MessageTooLarge nat
  | MailparseError string
  | BareCrInHeader string
  | NonFoldingBreak string
  | InvalidHeaderControl string
  | UnsupportedEncoding string
  | QpBodyNotRecognized
  | QpInvalidByte char nat
  | QpIncompleteEscape nat
  | QpInvalidEscape nat
  | ExternalDecodeError string
  | AttachmentFailure mime_error

record content_type =
  ct_mimetype :: string
  ct_param :: "string \<Rightarrow> string option"

record header_lib =
  hl_parse_headers :: "string \<Rightarrow> string + (string \<Rightarrow> string option) \<times> nat"
  hl_parse_content_type :: "string \<Rightarrow> content_type"

text \<open>\<open>usize::checked\_add\<close> on a 64-bit machine.\<close>

definition fits_usize :: "nat \<Rightarrow> bool" where
  "fits_usize n \<longleftrightarrow> int n < 2 ^ 64"

definition checked_add :: "nat \<Rightarrow> nat \<Rightarrow> nat option" where
  "checked_add a b = (if fits_usize (a + b) then Some (a + b) else None)"

lemma fits_usize_nat: "fits_usize n \<longleftrightarrow> n < 2 ^ 64"
  by (simp add: fits_usize_def)

lemma checked_add_nat: "checked_add a b = (if a + b < 2 ^ 64 then Some (a + b) else None)"
  by (simp add: checked_add_def fits_usize_nat)

section \<open>Searching\<close>

text \<open>\<open>slice.windows(needle.len()).position(|w| w == needle)\<close>.\<close>

fun windows_position :: "string \<Rightarrow> string \<Rightarrow> nat option" where
  "windows_position needle [] = None"
| "windows_position needle (x # xs) =
     (if starts_with (x # xs) needle then Some 0
      else map_option Suc (windows_position needle xs))"

definition find_subslice :: "string \<Rightarrow> nat \<Rightarrow> string \<Rightarrow> nat option" where
  "find_subslice haystack start needle =
     (if needle = [] \<or> start > length haystack \<or> length needle > length haystack then None
      else map_option (\<lambda>index. start + index) (windows_position needle (drop start haystack)))"

function skip_blank :: "string \<Rightarrow> nat \<Rightarrow> nat" where
  "skip_blank haystack index =
     (if get_at haystack index = Some SP \<or> get_at haystack index = Some HT
      then skip_blank haystack (index + 1) else index)"
  by pat_completeness auto
termination by (relation "measure (\<lambda>(h, i). length h - i)") (auto simp: get_at_Some)

declare skip_blank.simps [simp del]

definition valid_boundary_line_suffix :: "string \<Rightarrow> nat \<Rightarrow> bool" where
  "valid_boundary_line_suffix haystack index =
     (let index = (if index + 2 \<le> length haystack \<and> slice index (index + 2) haystack = ''--''
                   then index + 2 else index);
          index = skip_blank haystack index
      in index = length haystack \<or> get_at haystack index = Some LF \<or>
         get_at haystack index = Some CR \<and> get_at haystack (index + 1) = Some LF)"

lemma windows_position_Some:
  "windows_position needle xs = Some i \<Longrightarrow> i < length xs \<and> starts_with (drop i xs) needle"
  by (induction xs arbitrary: i) (auto split: if_splits)

lemma find_subslice_Some:
  "find_subslice h start needle = Some i \<Longrightarrow>
     start \<le> i \<and> i < length h \<and> i + length needle \<le> length h \<and> starts_with (drop i h) needle"
proof -
  assume "find_subslice h start needle = Some i"
  then obtain k where k: "windows_position needle (drop start h) = Some k" "i = start + k" "start \<le> length h"
    by (auto simp: find_subslice_def split: if_splits)
  from windows_position_Some [OF k(1)] k(2,3) have w: "start \<le> i" "i < length h" "starts_with (drop i h) needle"
    by (auto simp: add.commute)
  from w(3) have "length needle \<le> length (drop i h)" by (metis le_add1 length_append starts_with_iff)
  with w show ?thesis by auto
qed

function find_line_prefix_from :: "string \<Rightarrow> nat \<Rightarrow> string \<Rightarrow> nat \<Rightarrow> nat option" where
  "find_line_prefix_from haystack start needle search_from =
     (case find_subslice haystack search_from needle of
        None \<Rightarrow> None
      | Some index \<Rightarrow>
          if (index = start \<or> haystack ! (index - 1) = LF) \<and>
             valid_boundary_line_suffix haystack (index + length needle)
          then Some index
          else find_line_prefix_from haystack start needle (index + 1))"
  by pat_completeness auto
termination
  by (relation "measure (\<lambda>(h, s, n, f). length h - f)") (auto dest!: find_subslice_Some)

declare find_line_prefix_from.simps [simp del]

definition find_line_prefix :: "string \<Rightarrow> nat \<Rightarrow> string \<Rightarrow> nat option" where
  "find_line_prefix haystack start needle = find_line_prefix_from haystack start needle start"

lemma find_line_prefix_from_Some:
  "find_line_prefix_from h start needle f = Some i \<Longrightarrow> start \<le> f \<Longrightarrow>
     f \<le> i \<and> i + length needle \<le> length h \<and> starts_with (drop i h) needle \<and>
     (i = start \<or> h ! (i - 1) = LF) \<and> valid_boundary_line_suffix h (i + length needle)"
proof (induction h start needle f rule: find_line_prefix_from.induct)
  case (1 h start needle f)
  from "1.prems"(1) obtain k where k: "find_subslice h f needle = Some k"
    by (subst (asm) find_line_prefix_from.simps) (auto split: option.splits)
  note b = find_subslice_Some [OF k]
  show ?case
  proof (cases "(k = start \<or> h ! (k - 1) = LF) \<and> valid_boundary_line_suffix h (k + length needle)")
    case True
    with "1.prems"(1) k have "i = k" by (subst (asm) find_line_prefix_from.simps) simp
    with True b show ?thesis by simp
  next
    case False
    with "1.prems"(1) k have "find_line_prefix_from h start needle (k + 1) = Some i"
      by (subst (asm) find_line_prefix_from.simps) (simp split: if_splits)
    with "1.IH" [OF k False] "1.prems"(2) b show ?thesis by auto
  qed
qed

lemma find_line_prefix_Some:
  "find_line_prefix h start needle = Some i \<Longrightarrow>
     start \<le> i \<and> i + length needle \<le> length h \<and> starts_with (drop i h) needle \<and>
     (i = start \<or> h ! (i - 1) = LF) \<and> valid_boundary_line_suffix h (i + length needle)"
  using find_line_prefix_from_Some [of h start needle start i] by (simp add: find_line_prefix_def)

definition strip_trailing_line_ending :: "string \<Rightarrow> nat \<Rightarrow> nat \<Rightarrow> nat" where
  "strip_trailing_line_ending raw start stop =
     (if stop > start \<and> raw ! (stop - 1) = LF
      then (let stop = stop - 1 in
            if stop > start \<and> raw ! (stop - 1) = CR then stop - 1 else stop)
      else stop)"

lemma strip_trailing_bounds:
  "start \<le> stop \<Longrightarrow> start \<le> strip_trailing_line_ending raw start stop \<and>
     strip_trailing_line_ending raw start stop \<le> stop"
  by (auto simp: strip_trailing_line_ending_def Let_def)

section \<open>Preflight of the MIME structure\<close>

text \<open>
  \<open>preflight\_part\<close> with its boundary loop as a second function.  The counter \<open>parts\<close> is
  returned; the recursion ends because the nested part is a proper slice of its container.
\<close>

function (sequential) preflight_part ::
    "header_lib \<Rightarrow> mime_limits \<Rightarrow> string \<Rightarrow> nat \<Rightarrow> nat \<Rightarrow> mime_error + nat"
  and preflight_loop ::
    "header_lib \<Rightarrow> mime_limits \<Rightarrow> string \<Rightarrow> nat \<Rightarrow> string \<Rightarrow> nat \<Rightarrow> nat \<Rightarrow> mime_error + nat" where
  "preflight_part lib limits raw depth parts =
     (if depth > max_depth limits then Inl (LimitDepth depth (max_depth limits))
      else (let parts = parts + 1 in
        if parts > max_parts limits then Inl (LimitParts (max_parts limits))
        else (case hl_parse_headers lib raw of
          Inl e \<Rightarrow> Inl (MailparseError e)
        | Inr (headers, body_start) \<Rightarrow>
            (case headers ''Content-Type'' of
               None \<Rightarrow> Inr parts
             | Some value \<Rightarrow>
                 (let content_type = hl_parse_content_type lib value;
                      mimetype = to_ascii_lowercase (ct_mimetype content_type) in
                  if \<not> starts_with mimetype ''multipart/'' \<or> length raw \<le> body_start then Inr parts
                  else (case ct_param content_type ''boundary'' of
                    None \<Rightarrow> Inr parts
                  | Some boundary \<Rightarrow>
                      (let delimiter = ''--'' @ boundary in
                       case find_line_prefix raw body_start delimiter of
                         None \<Rightarrow> Inr parts
                       | Some first_boundary \<Rightarrow>
                           preflight_loop lib limits raw depth delimiter
                             (first_boundary + length delimiter) parts)))))))"
| "preflight_loop lib limits raw depth delimiter boundary_end parts =
     (case find_subslice raw boundary_end [LF] of
        None \<Rightarrow> Inr parts
      | Some index \<Rightarrow>
          (let part_start = index + 1;
               next_boundary = find_line_prefix raw part_start delimiter;
               part_end = (case next_boundary of
                             Some next \<Rightarrow> strip_trailing_line_ending raw part_start next
                           | None \<Rightarrow> length raw) in
           (case preflight_part lib limits (slice part_start part_end raw) (depth + 1) parts of
              Inl e \<Rightarrow> Inl e
            | Inr parts \<Rightarrow>
                (let boundary_end = (case next_boundary of
                                       Some next \<Rightarrow> next + length delimiter
                                     | None \<Rightarrow> length raw) in
                 if boundary_end + 2 > length raw \<or>
                    raw ! boundary_end = CHR ''-'' \<and> raw ! (boundary_end + 1) = CHR ''-''
                 then Inr parts
                 else preflight_loop lib limits raw depth delimiter boundary_end parts))))"
  by pat_completeness auto
termination
proof (relation "inv_image (less_than <*lex*> less_than <*lex*> less_than)
    (\<lambda>x. case x of Inl (lib, limits, raw, depth, parts) \<Rightarrow> (length raw, 1, 0)
               | Inr (lib, limits, raw, depth, delimiter, boundary_end, parts) \<Rightarrow>
                   (length raw, 0, length raw - boundary_end))", goal_cases)
  case (3 lib limits raw depth delimiter boundary_end parts index part_start next_boundary part_end)
  then have "index < length raw" using find_subslice_Some by blast
  then have "length (slice (Suc index) k raw) < length raw" for k by (auto simp: slice_def)
  with 3 show ?case by simp
next
  case (4 lib limits raw depth delimiter boundary_end parts index part_start next_boundary part_end parts' be)
  from find_subslice_Some [OF 4(1)] have i: "boundary_end \<le> index" "index < length raw" by auto
  from 4(7) 4(6) have "boundary_end < be" "be \<le> length raw"
    using i 4(2,3) find_line_prefix_Some [of raw part_start delimiter]
    by (auto split: option.splits)
  then show ?case by auto
qed auto

declare preflight_part.simps [simp del] preflight_loop.simps [simp del]

definition preflight_mime_structure :: "header_lib \<Rightarrow> string \<Rightarrow> mime_limits \<Rightarrow> mime_error + unit" where
  "preflight_mime_structure lib bytes limits =
     map_ok (\<lambda>_. ()) (preflight_part lib limits bytes 0 0)"

section \<open>Decoded lengths\<close>

definition is_ascii_hexdigit :: "char \<Rightarrow> bool" where
  "is_ascii_hexdigit c \<longleftrightarrow>
     is_ascii_digit c \<or> 65 \<le> bval c \<and> bval c \<le> 70 \<or> 97 \<le> bval c \<and> bval c \<le> 102"

definition qp_line_byte :: "char \<Rightarrow> bool" where
  "qp_line_byte b \<longleftrightarrow> b = HT \<or> b = CR \<or> 32 \<le> bval b \<and> bval b \<le> 126"

text \<open>The inner loop of \<open>quoted\_printable\_decoded\_len\<close>.\<close>

function qp_line_len :: "string \<Rightarrow> nat \<Rightarrow> nat \<Rightarrow> nat \<Rightarrow> nat option" where
  "qp_line_len line content_end index decoded_len =
     (if index < content_end then
        (case get_at line index of
           None \<Rightarrow> None
         | Some byte \<Rightarrow>
             if \<not> qp_line_byte byte then None
             else if byte = CHR ''='' then
               (case (get_at line (index + 1), get_at line (index + 2)) of
                  (Some upper, Some lower) \<Rightarrow>
                    if \<not> is_ascii_hexdigit upper \<or> \<not> is_ascii_hexdigit lower then None
                    else Option.bind (checked_add decoded_len 1) (qp_line_len line content_end (index + 3))
                | _ \<Rightarrow> None)
             else Option.bind (checked_add decoded_len 1) (qp_line_len line content_end (index + 1)))
      else Some decoded_len)"
  by pat_completeness auto
termination by (relation "measure (\<lambda>(l, c, i, d). c - i)") auto

declare qp_line_len.simps [simp del]

definition trim_line_end :: "string \<Rightarrow> string" where
  "trim_line_end line = rev (dropWhile (\<lambda>b. b = SP \<or> b = HT \<or> b = CR) (rev line))"

definition soft_break :: "string \<Rightarrow> bool" where
  "soft_break line \<longleftrightarrow> line \<noteq> [] \<and> last line = CHR ''=''"

function qp_len_loop :: "string \<Rightarrow> nat \<Rightarrow> nat \<Rightarrow> bool \<Rightarrow> nat option" where
  "qp_len_loop raw line_start decoded_len previous_line_was_hard =
     (let newline = position_from LF raw line_start;
          line_end = (case newline of Some k \<Rightarrow> k | None \<Rightarrow> length raw);
          line = trim_line_end (slice line_start line_end raw) in
      Option.bind (if previous_line_was_hard then checked_add decoded_len 2 else Some decoded_len) (\<lambda>decoded_len.
      (let soft = soft_break line;
           content_end = length line - (if soft then 1 else 0) in
       Option.bind (qp_line_len line content_end 0 decoded_len) (\<lambda>decoded_len.
       (let previous_line_was_hard = (\<not> soft) in
        case newline of
          None \<Rightarrow> Some decoded_len
        | Some k \<Rightarrow>
            if k + 1 = length raw
            then (if previous_line_was_hard then checked_add decoded_len 2 else Some decoded_len)
            else qp_len_loop raw (k + 1) decoded_len previous_line_was_hard)))))"
  by pat_completeness auto
termination
proof (relation "measure (\<lambda>(r, s, d, p). length r - s)", goal_cases)
  case (2 raw line_start decoded_len hard newline line_end line d soft content_end d' hard' k)
  then have "line_start \<le> k \<and> k < length raw" using position_from_Some by blast
  then show ?case by auto
qed simp

declare qp_len_loop.simps [simp del]

definition quoted_printable_decoded_len :: "string \<Rightarrow> nat option" where
  "quoted_printable_decoded_len raw = qp_len_loop raw 0 0 False"

text \<open>The loop of \<open>base64\_decoded\_len\<close> over the bytes that are not white space.\<close>

fun base64_len_loop :: "nat \<Rightarrow> nat \<Rightarrow> bool \<Rightarrow> string \<Rightarrow> (nat \<times> nat) option" where
  "base64_len_loop encoded_len padding saw_padding [] = Some (encoded_len, padding)"
| "base64_len_loop encoded_len padding saw_padding (byte # bytes) =
     Option.bind (checked_add encoded_len 1) (\<lambda>encoded_len.
       if (is_ascii_alphanumeric byte \<or> byte = CHR ''+'' \<or> byte = CHR ''/'') \<and> \<not> saw_padding
       then base64_len_loop encoded_len padding saw_padding bytes
       else if byte = CHR ''=''
       then Option.bind (checked_add padding 1) (\<lambda>padding. base64_len_loop encoded_len padding True bytes)
       else None)"

definition base64_decoded_len :: "string \<Rightarrow> nat option" where
  "base64_decoded_len raw =
     Option.bind (base64_len_loop 0 0 False (filter (\<lambda>b. \<not> is_ascii_whitespace b) raw))
       (\<lambda>(encoded_len, padding).
         if encoded_len mod 4 \<noteq> 0 \<or> padding > 2 then None
         else if padding > encoded_len then None
         else (let data_len = encoded_len - padding in
           if padding = 1 \<and> data_len mod 4 \<noteq> 3 \<or> padding = 2 \<and> data_len mod 4 \<noteq> 2 then None
           else (let decoded = encoded_len div 4 * 3 in
                 if fits_usize decoded \<and> padding \<le> decoded then Some (decoded - padding) else None)))"

section \<open>Quoted-printable validation\<close>

definition qp_body_byte :: "char \<Rightarrow> bool" where
  "qp_body_byte b \<longleftrightarrow> b = HT \<or> b = CR \<or> b = LF \<or> 32 \<le> bval b \<and> bval b \<le> 126"

definition non_crlf_line_endings :: "string \<Rightarrow> bool" where
  "non_crlf_line_endings raw \<longleftrightarrow>
     list_ex (\<lambda>index.
       if raw ! index = LF then index = 0 \<or> raw ! (index - 1) \<noteq> CR
       else if raw ! index = CR then get_at raw (index + 1) \<noteq> Some LF
       else False) [0..<length raw]"

function overlong_loop :: "string \<Rightarrow> nat \<Rightarrow> nat \<Rightarrow> bool" where
  "overlong_loop raw line_length index =
     (if index < length raw then
        (if raw ! index = CR then
           line_length > 76 \<or> overlong_loop raw 0 (if get_at raw (index + 1) = Some LF then index + 2 else index + 1)
         else if raw ! index = LF then line_length > 76 \<or> overlong_loop raw 0 (index + 1)
         else overlong_loop raw (line_length + 1) (index + 1))
      else line_length > 76)"
  by pat_completeness auto
termination by (relation "measure (\<lambda>(r, n, i). length r - i)") auto

declare overlong_loop.simps [simp del]

definition is_lower_hex :: "char \<Rightarrow> bool" where
  "is_lower_hex c \<longleftrightarrow> 97 \<le> bval c \<and> bval c \<le> 102"

text \<open>The escape loop; the result tells whether some escape uses lower-case digits.\<close>

function escape_loop :: "string \<Rightarrow> bool \<Rightarrow> nat \<Rightarrow> mime_error + bool" where
  "escape_loop raw lowercase_hex index =
     (case get_at raw index of
        None \<Rightarrow> Inr lowercase_hex
      | Some byte \<Rightarrow>
          if byte \<noteq> CHR ''='' then escape_loop raw lowercase_hex (index + 1)
          else (case get_at raw (index + 1) of
                  None \<Rightarrow> Inl (QpIncompleteEscape index)
                | Some upper \<Rightarrow>
                    if upper = CR \<and> get_at raw (index + 2) = Some LF then escape_loop raw lowercase_hex (index + 3)
                    else if upper = LF then escape_loop raw lowercase_hex (index + 2)
                    else (case get_at raw (index + 2) of
                            None \<Rightarrow> Inl (QpIncompleteEscape index)
                          | Some lower \<Rightarrow>
                              if is_ascii_hexdigit upper \<and> is_ascii_hexdigit lower
                              then escape_loop raw (lowercase_hex \<or> is_lower_hex upper \<or> is_lower_hex lower)
                                     (index + 3)
                              else Inl (QpInvalidEscape index))))"
  by pat_completeness auto
termination by (relation "measure (\<lambda>(r, l, i). length r - i)") (auto simp: get_at_Some)

declare escape_loop.simps [simp del]

definition validate_quoted_printable :: "string \<Rightarrow> mime_error + string list" where
  "validate_quoted_printable raw =
     (case List.find (\<lambda>(offset, byte). \<not> qp_body_byte byte) (enumerate 0 raw) of
        Some (offset, byte) \<Rightarrow> Inl (QpInvalidByte byte offset)
      | None \<Rightarrow>
          map_ok (\<lambda>lowercase_hex.
              (if lowercase_hex then [''quoted-printable hex escape uses lowercase digits''] else []) @
              (if non_crlf_line_endings raw then [''quoted-printable body uses non-CRLF line endings''] else []) @
              (if overlong_loop raw 0 0 then [''quoted-printable line exceeds 76 bytes''] else []))
            (escape_loop raw False 0))"

section \<open>Structured headers\<close>

text \<open>The loop of \<open>unfold\_raw\_structured\_header\<close>.\<close>

function unfold_loop :: "string \<Rightarrow> string \<Rightarrow> nat \<Rightarrow> mime_error + string" where
  "unfold_loop field raw index =
     (if index < length raw then
        (let byte = raw ! index in
         if byte = CR \<or> byte = LF then
           (if byte = CR \<and> get_at raw (index + 1) \<noteq> Some LF then Inl (BareCrInHeader field)
            else (let index = (if byte = CR then index + 2 else index + 1) in
                  if get_at raw index = Some SP \<or> get_at raw index = Some HT
                  then unfold_loop field raw index else Inl (NonFoldingBreak field)))
         else if \<not> (byte = HT \<or> 32 \<le> bval byte \<and> bval byte \<noteq> 127) then Inl (InvalidHeaderControl field)
         else map_ok (\<lambda>rest. byte # rest) (unfold_loop field raw (index + 1)))
      else Inr [])"
  by pat_completeness auto
termination by (relation "measure (\<lambda>(f, r, i). length r - i)") auto

declare unfold_loop.simps [simp del]

text \<open>\<open>char::from(u8)\<close>: the code point of the byte, in UTF-8.\<close>

definition latin1_char :: "char \<Rightarrow> string" where
  "latin1_char b =
     (if bval b < 128 then [b] else [char_of (192 + bval b div 64), char_of (128 + bval b mod 64)])"

definition unfold_raw_structured_header :: "string \<Rightarrow> string \<Rightarrow> mime_error + string" where
  "unfold_raw_structured_header field raw =
     map_ok (\<lambda>unfolded. if valid_utf8 unfolded then unfolded else concat (map latin1_char unfolded))
       (unfold_loop field raw 0)"

section \<open>The nested parts of a message\<close>

text \<open>
  The specification of the preflight: the slices between the boundaries of a multipart body,
  the number of parts of the tree they form and its height, without any limit.
\<close>

function child_slices :: "string \<Rightarrow> string \<Rightarrow> nat \<Rightarrow> string list" where
  "child_slices raw delimiter boundary_end =
     (case find_subslice raw boundary_end [LF] of
        None \<Rightarrow> []
      | Some index \<Rightarrow>
          (case find_line_prefix raw (index + 1) delimiter of
             None \<Rightarrow> [slice (index + 1) (length raw) raw]
           | Some next \<Rightarrow>
               slice (index + 1) (strip_trailing_line_ending raw (index + 1) next) raw #
               (let boundary_end = next + length delimiter in
                if boundary_end + 2 > length raw \<or>
                   raw ! boundary_end = CHR ''-'' \<and> raw ! (boundary_end + 1) = CHR ''-''
                then [] else child_slices raw delimiter boundary_end)))"
  by pat_completeness auto
termination
  by (relation "measure (\<lambda>(r, d, b). length r - b)") (fastforce dest: find_subslice_Some find_line_prefix_Some)+

declare child_slices.simps [simp del]

definition children :: "header_lib \<Rightarrow> string \<Rightarrow> string list" where
  "children lib raw =
     (case hl_parse_headers lib raw of
        Inl _ \<Rightarrow> []
      | Inr (headers, body_start) \<Rightarrow>
          (case headers ''Content-Type'' of
             None \<Rightarrow> []
           | Some v \<Rightarrow>
               (let ct = hl_parse_content_type lib v in
                if \<not> starts_with (to_ascii_lowercase (ct_mimetype ct)) ''multipart/'' \<or> length raw \<le> body_start
                then []
                else (case ct_param ct ''boundary'' of
                        None \<Rightarrow> []
                      | Some boundary \<Rightarrow>
                          (case find_line_prefix raw body_start (''--'' @ boundary) of
                             None \<Rightarrow> []
                           | Some first \<Rightarrow>
                               child_slices raw (''--'' @ boundary) (first + length (''--'' @ boundary)))))))"

lemma child_slices_shorter: "c \<in> set (child_slices raw delimiter b) \<Longrightarrow> length c < length raw"
proof (induction raw delimiter b rule: child_slices.induct)
  case (1 raw delimiter b)
  have "find_subslice raw b [LF] \<noteq> None"
  proof
    assume "find_subslice raw b [LF] = None"
    with "1.prems" show False by (subst (asm) child_slices.simps) simp
  qed
  then obtain i where i: "find_subslice raw b [LF] = Some i" by blast
  then have "i < length raw" using find_subslice_Some by blast
  then have sl: "length (slice (i + 1) k raw) < length raw" for k by (auto simp: slice_def)
  show ?case
  proof (cases "find_line_prefix raw (i + 1) delimiter")
    case None
    with "1.prems" i sl show ?thesis by (subst (asm) child_slices.simps) auto
  next
    case (Some n)
    with "1.prems" i consider "c = slice (i + 1) (strip_trailing_line_ending raw (i + 1) n) raw"
      | "\<not> (n + length delimiter + 2 > length raw \<or>
           raw ! (n + length delimiter) = CHR ''-'' \<and> raw ! (n + length delimiter + 1) = CHR ''-'')"
        "c \<in> set (child_slices raw delimiter (n + length delimiter))"
      by (subst (asm) child_slices.simps) (auto simp: Let_def split: if_splits)
    then show ?thesis using sl "1.IH" [OF i Some refl] by cases auto
  qed
qed

lemma children_shorter: "c \<in> set (children lib raw) \<Longrightarrow> length c < length raw"
  by (auto simp: children_def Let_def dest: child_slices_shorter split: sum.splits option.splits if_splits)

function part_count :: "header_lib \<Rightarrow> string \<Rightarrow> nat" where
  "part_count lib raw = 1 + sum_list (map (part_count lib) (children lib raw))"
  by pat_completeness auto
termination by (relation "measure (\<lambda>(l, r). length r)") (auto dest: children_shorter)

declare part_count.simps [simp del]

text \<open>All parts with their depth below the given one.\<close>

function nested_parts :: "header_lib \<Rightarrow> nat \<Rightarrow> string \<Rightarrow> (nat \<times> string) list" where
  "nested_parts lib depth raw =
     (depth, raw) # concat (map (nested_parts lib (depth + 1)) (children lib raw))"
  by pat_completeness auto
termination by (relation "measure (\<lambda>(l, d, r). length r)") (auto dest: children_shorter)

declare nested_parts.simps [simp del]

lemma length_nested_parts: "length (nested_parts lib depth raw) = part_count lib raw"
proof (induction lib depth raw rule: nested_parts.induct)
  case (1 lib depth raw)
  then show ?case
    by (simp add: nested_parts.simps [of lib depth raw] part_count.simps [of lib raw] length_concat o_def
        cong: map_cong)
qed

definition headers_parse :: "header_lib \<Rightarrow> string \<Rightarrow> bool" where
  "headers_parse lib raw \<longleftrightarrow> (\<exists>r. hl_parse_headers lib raw = Inr r)"

fun preflight_children ::
  "header_lib \<Rightarrow> mime_limits \<Rightarrow> nat \<Rightarrow> string list \<Rightarrow> nat \<Rightarrow> mime_error + nat" where
  "preflight_children lib limits depth [] parts = Inr parts"
| "preflight_children lib limits depth (c # cs) parts =
     and_then (preflight_part lib limits c (depth + 1) parts) (preflight_children lib limits depth cs)"

lemma preflight_loop_children:
  "preflight_loop lib limits raw depth delimiter b parts =
     preflight_children lib limits depth (child_slices raw delimiter b) parts"
proof (induction raw delimiter b arbitrary: parts rule: child_slices.induct)
  case (1 raw delimiter b)
  show ?case
  proof (cases "find_subslice raw b [LF]")
    case None
    then show ?thesis by (subst preflight_loop.simps, subst child_slices.simps) simp
  next
    case (Some i)
    show ?thesis
    proof (cases "find_line_prefix raw (i + 1) delimiter")
      case None
      with Some show ?thesis
        by (subst preflight_loop.simps, subst child_slices.simps)
           (simp add: Let_def split: sum.splits)
    next
      case n: (Some n)
      with Some show ?thesis
        using "1.IH" [OF Some n refl]
        by (subst preflight_loop.simps, subst child_slices.simps)
           (simp add: Let_def split: sum.splits)
    qed
  qed
qed

lemma preflight_part_children:
  "preflight_part lib limits raw depth parts =
     (if depth > max_depth limits then Inl (LimitDepth depth (max_depth limits))
      else if parts + 1 > max_parts limits then Inl (LimitParts (max_parts limits))
      else (case hl_parse_headers lib raw of
              Inl e \<Rightarrow> Inl (MailparseError e)
            | Inr _ \<Rightarrow> preflight_children lib limits depth (children lib raw) (parts + 1)))"
  by (subst preflight_part.simps)
     (simp add: children_def Let_def preflight_loop_children split: sum.splits option.splits)

definition parts_fit :: "header_lib \<Rightarrow> mime_limits \<Rightarrow> (nat \<times> string) list \<Rightarrow> bool" where
  "parts_fit lib limits ps \<longleftrightarrow> (\<forall>(d, raw) \<in> set ps. d \<le> max_depth limits \<and> headers_parse lib raw)"

lemma parts_fit_append [simp]:
  "parts_fit lib limits (xs @ ys) \<longleftrightarrow> parts_fit lib limits xs \<and> parts_fit lib limits ys"
  by (auto simp: parts_fit_def)

lemma part_count_pos: "0 < part_count lib raw"
  by (subst part_count.simps) simp

lemma preflight_part_iff:
  "preflight_part lib limits raw depth parts = Inr parts' \<longleftrightarrow>
     parts_fit lib limits (nested_parts lib depth raw) \<and> parts' = parts + part_count lib raw \<and>
     parts' \<le> max_parts limits"
proof (induction "length raw" arbitrary: raw depth parts parts' rule: less_induct)
  case less
  have IH: "preflight_part lib limits c (depth + 1) p = Inr p' \<longleftrightarrow>
      parts_fit lib limits (nested_parts lib (depth + 1) c) \<and> p' = p + part_count lib c \<and> p' \<le> max_parts limits"
    if "c \<in> set (children lib raw)" for c p p'
    by (rule less.hyps) (rule children_shorter [OF that])
  have sub: "set cs \<subseteq> set (children lib raw) \<Longrightarrow> p \<le> max_parts limits \<Longrightarrow>
      preflight_children lib limits depth cs p = Inr p' \<longleftrightarrow>
      parts_fit lib limits (concat (map (nested_parts lib (depth + 1)) cs)) \<and>
      p' = p + sum_list (map (part_count lib) cs) \<and> p' \<le> max_parts limits" for cs p p'
  proof (induction cs arbitrary: p)
    case Nil
    then show ?case by (auto simp: parts_fit_def)
  next
    case (Cons c cs)
    then have c: "c \<in> set (children lib raw)" "set cs \<subseteq> set (children lib raw)" by auto
    show ?case
    proof (cases "parts_fit lib limits (nested_parts lib (depth + 1) c) \<and> p + part_count lib c \<le> max_parts limits")
      case True
      then have "preflight_part lib limits c (depth + 1) p = Inr (p + part_count lib c)"
        using IH [OF c(1)] by blast
      with Cons.IH [OF c(2), of "p + part_count lib c"] True show ?thesis by (auto simp: add.assoc)
    next
      case False
      then have "preflight_part lib limits c (depth + 1) p \<noteq> Inr q" for q using IH [OF c(1)] by auto
      with False show ?thesis by (auto simp: result_simps)
    qed
  qed
  show ?case
  proof (cases "depth \<le> max_depth limits \<and> parts + 1 \<le> max_parts limits \<and> headers_parse lib raw")
    case True
    then obtain r where r: "hl_parse_headers lib raw = Inr r" by (auto simp: headers_parse_def)
    with True have "preflight_part lib limits raw depth parts =
        preflight_children lib limits depth (children lib raw) (parts + 1)"
      by (simp add: preflight_part_children)
    then show ?thesis using sub [of "children lib raw" "parts + 1" parts'] True
      by (subst nested_parts.simps, subst part_count.simps) (auto simp: parts_fit_def)
  next
    case False
    then have "preflight_part lib limits raw depth parts \<noteq> Inr parts'"
      by (auto simp: preflight_part_children headers_parse_def split: sum.splits)
    moreover have "\<not> (parts_fit lib limits (nested_parts lib depth raw) \<and> parts' = parts + part_count lib raw \<and>
       parts' \<le> max_parts limits)"
      using False part_count_pos [of lib raw] by (subst nested_parts.simps) (auto simp: parts_fit_def)
    ultimately show ?thesis by blast
  qed
qed

section \<open>A reference quoted-printable decoder\<close>

definition nibble :: "char \<Rightarrow> nat" where
  "nibble c = (if is_ascii_digit c then bval c - 48 else if bval c \<le> 70 then bval c - 55 else bval c - 87)"

fun qp_content :: "string \<Rightarrow> string option" where
  "qp_content [] = Some []"
| "qp_content (b # bs) =
     (if \<not> qp_line_byte b then None
      else if b = CHR ''='' then
        (case bs of
           u # l # r \<Rightarrow>
             if is_ascii_hexdigit u \<and> is_ascii_hexdigit l
             then map_option (\<lambda>d. char_of (16 * nibble u + nibble l) # d) (qp_content r) else None
         | _ \<Rightarrow> None)
      else map_option (\<lambda>d. b # d) (qp_content bs))"

definition line_content :: "string \<Rightarrow> string" where
  "line_content line = (if soft_break line then butlast line else line)"

text \<open>The decoded bytes of the lines of a body: soft breaks join, hard breaks become CRLF.\<close>

fun decode_lines :: "string list \<Rightarrow> string option" where
  "decode_lines [] = Some []"
| "decode_lines [l] = qp_content (line_content (trim_line_end l))"
| "decode_lines (l # ls) =
     (case qp_content (line_content (trim_line_end l)) of
        None \<Rightarrow> None
      | Some d \<Rightarrow>
          map_option (\<lambda>ds. d @ (if soft_break (trim_line_end l) then [] else CRLF) @ ds) (decode_lines ls))"

definition qp_decode_ref :: "string \<Rightarrow> string option" where
  "qp_decode_ref raw = decode_lines (split_char LF raw)"

lemma qp_content_length: "qp_content s = Some d \<Longrightarrow> length d \<le> length s"
proof (induction s arbitrary: d rule: qp_content.induct)
  case (2 b bs)
  show ?case
  proof (cases "b = CHR ''=''")
    case True
    with "2.prems" obtain u l r d' where r: "bs = u # l # r" "is_ascii_hexdigit u \<and> is_ascii_hexdigit l"
        "qp_content r = Some d'" "length d = Suc (length d')" "qp_line_byte b"
      by (auto split: if_splits list.splits)
    with "2.IH"(1) [of u "l # r" l r d'] True show ?thesis by auto
  next
    case False
    with "2.prems" obtain d' where "qp_content bs = Some d'" "d = b # d'" "qp_line_byte b"
      by (auto split: if_splits)
    with "2.IH"(2) [of d'] False show ?thesis by auto
  qed
qed simp

lemma qp_content_short: "length t < 2 \<Longrightarrow> qp_content (CHR ''='' # t) = None"
  by (cases t; cases "tl t") auto

lemma drop_take_Cons: "i < ce \<Longrightarrow> ce \<le> length xs \<Longrightarrow> drop i (take ce xs) = xs ! i # drop (i + 1) (take ce xs)"
  by (metis Cons_nth_drop_Suc Suc_eq_plus1 length_take min.absorb2 nth_take)

text \<open>The index loop over a line is the structural decoder of its content.\<close>

lemma qp_line_len_content:
  assumes "ce \<le> length line" "ce < length line \<Longrightarrow> line ! ce = CHR ''='' \<and> ce + 1 = length line"
    and "d + (ce - i) < 2 ^ 64" "i \<le> ce"
  shows "qp_line_len line ce i d = map_option (\<lambda>bs. d + length bs) (qp_content (drop i (take ce line)))"
  using assms(3,4)
proof (induction "ce - i" arbitrary: i d rule: less_induct)
  case less
  show ?case
  proof (cases "i < ce")
    case False
    with less.prems show ?thesis by (subst qp_line_len.simps) simp
  next
    case True
    let ?b = "line ! i"
    have dr: "drop i (take ce line) = ?b # drop (i + 1) (take ce line)"
      using True assms(1) by (rule drop_take_Cons)
    have g: "get_at line i = Some ?b" using True assms(1) by (simp add: get_at_def)
    have ck: "checked_add d 1 = Some (d + 1)" using less.prems True by (simp add: checked_add_nat)
    show ?thesis
    proof (cases "?b = CHR ''=''")
      case False
      have "qp_line_len line ce (i + 1) (d + 1) =
          map_option (\<lambda>bs. d + 1 + length bs) (qp_content (drop (i + 1) (take ce line)))"
        by (rule less.hyps) (use True less.prems in auto)
      with False True g ck dr show ?thesis
        by (subst qp_line_len.simps) (simp add: option.map_comp o_def)
    next
      case eq: True
      then have lb: "qp_line_byte ?b" by (simp add: qp_line_byte_def)
      show ?thesis
      proof (cases "i + 2 < ce")
        case lt: True
        let ?u = "line ! (i + 1)" and ?l = "line ! (i + 2)"
        have "drop (i + 1) (take ce line) = ?u # ?l # drop (i + 3) (take ce line)"
          using lt assms(1) drop_take_Cons [of "i + 1" ce line] drop_take_Cons [of "i + 2" ce line]
          by (simp add: numeral_3_eq_3)
        moreover have "get_at line (i + 1) = Some ?u" "get_at line (i + 2) = Some ?l"
          using lt assms(1) by (simp_all add: get_at_def)
        moreover have "qp_line_len line ce (i + 3) (d + 1) =
            map_option (\<lambda>bs. d + 1 + length bs) (qp_content (drop (i + 3) (take ce line)))"
          by (rule less.hyps) (use lt less.prems in auto)
        ultimately show ?thesis using True eq lb g ck dr
          by (subst qp_line_len.simps) (simp add: option.map_comp o_def)
      next
        case False
        then have short: "length (drop (i + 1) (take ce line)) < 2" using assms(1) by simp
        then have n: "qp_content (drop i (take ce line)) = None"
          unfolding dr using eq qp_content_short by simp
        have "\<not> is_ascii_hexdigit CHR ''=''" by (simp add: is_ascii_hexdigit_def is_ascii_digit_def)
        moreover have "get_at line (i + 1) = Some CHR ''='' \<or> get_at line (i + 2) = Some CHR ''='' \<or>
            get_at line (i + 1) = None \<or> get_at line (i + 2) = None"
        proof (cases "ce < length line")
          case c: True
          from assms(2) [OF c] False True have "i + 1 = ce \<or> i + 2 = ce" by auto
          with assms(2) [OF c] show ?thesis by (auto simp: get_at_def)
        next
          case False
          with \<open>\<not> i + 2 < ce\<close> assms(1) show ?thesis by (auto simp: get_at_def)
        qed
        ultimately have "qp_line_len line ce i d = None" using True eq lb g
          by (subst qp_line_len.simps) (auto split: option.splits)
        with n show ?thesis by simp
      qed
    qed
  qed
qed

lemma qp_line_len_line:
  assumes "d + length line < 2 ^ 64"
  shows "qp_line_len line (length line - (if soft_break line then 1 else 0)) 0 d =
     map_option (\<lambda>bs. d + length bs) (qp_content (line_content line))"
proof (cases "soft_break line")
  case True
  then have l: "line \<noteq> []" "last line = CHR ''=''" by (auto simp: soft_break_def)
  have "qp_line_len line (length line - 1) 0 d =
      map_option (\<lambda>bs. d + length bs) (qp_content (drop 0 (take (length line - 1) line)))"
    by (rule qp_line_len_content) (use l assms in \<open>auto simp: last_conv_nth\<close>)
  with True show ?thesis by (simp add: line_content_def butlast_conv_take)
next
  case False
  have "qp_line_len line (length line) 0 d =
      map_option (\<lambda>bs. d + length bs) (qp_content (drop 0 (take (length line) line)))"
    by (rule qp_line_len_content) (use assms in auto)
  with False show ?thesis by (simp add: line_content_def)
qed

lemma trim_line_end_length: "length (trim_line_end l) \<le> length l"
  unfolding trim_line_end_def using length_dropWhile_le [of _ "rev l"] by simp

lemma split_char_takeWhile:
  "split_char c t =
     (let w = takeWhile (\<lambda>x. x \<noteq> c) t in
      if length w < length t then w # split_char c (drop (length w + 1) t) else [t])"
  by (induction t) (auto simp: Let_def fits_usize_nat)

lemma split_char_absent: "c \<notin> set s \<Longrightarrow> split_char c s = [s]"
  by (induction s) auto

lemma split_char_None: "position_from c s i = None \<Longrightarrow> i \<le> length s \<Longrightarrow> split_char c (drop i s) = [drop i s]"
  by (subst split_char_takeWhile) (auto simp: position_from_def Let_def split: if_splits)

lemma split_char_Some:
  assumes "position_from c s i = Some k"
  shows "split_char c (drop i s) = slice i k s # split_char c (drop (k + 1) s)"
proof -
  let ?w = "takeWhile (\<lambda>x. x \<noteq> c) (drop i s)"
  from assms have k: "k = i + length ?w" "k < length s"
    by (auto simp: position_from_def Let_def split: if_splits)
  have "split_char c (drop i s) = ?w # split_char c (drop (length ?w + 1) (drop i s))"
    using k by (subst split_char_takeWhile) (simp add: Let_def)
  moreover have "?w = slice i k s" using k(1) takeWhile_eq_take [of "\<lambda>x. x \<noteq> c" "drop i s"] by (simp add: slice_def)
  moreover have "drop (length ?w + 1) (drop i s) = drop (k + 1) s" using k(1) by (simp add: add.commute)
  ultimately show ?thesis by metis
qed

lemma split_char_not_Nil [simp]: "split_char c s \<noteq> []"
  by (induction s) (auto split: list.splits)

lemma decode_lines_Cons:
  "ls \<noteq> [] \<Longrightarrow> decode_lines (l # ls) =
     (case qp_content (line_content (trim_line_end l)) of
        None \<Rightarrow> None
      | Some d \<Rightarrow>
          map_option (\<lambda>ds. d @ (if soft_break (trim_line_end l) then [] else CRLF) @ ds) (decode_lines ls))"
  by (cases ls) auto

lemma line_content_Nil [simp]: "line_content [] = []" "trim_line_end [] = []" "soft_break [] = False"
  by (simp_all add: line_content_def soft_break_def trim_line_end_def)

lemma line_content_length: "length (line_content (trim_line_end l)) \<le> length l"
  using trim_line_end_length [of l] by (auto simp: line_content_def)

lemma qp_len_loop_decode:
  "i \<le> length raw \<Longrightarrow> d + 2 + 2 * (length raw - i) < 2 ^ 64 \<Longrightarrow>
     qp_len_loop raw i d hard =
       map_option (\<lambda>bs. d + (if hard then 2 else 0) + length bs) (decode_lines (split_char LF (drop i raw)))"
proof (induction "length raw - i" arbitrary: i d hard rule: less_induct)
  case less
  let ?d1 = "d + (if hard then 2 else 0)"
  have c1: "(if hard then checked_add d 2 else Some d) = Some ?d1"
    using less.prems by (auto simp: checked_add_nat)
  show ?case
  proof (cases "position_from LF raw i")
    case None
    let ?l = "trim_line_end (slice i (length raw) raw)"
    have sl: "slice i (length raw) raw = drop i raw" by (simp add: slice_def)
    have "length ?l \<le> length raw - i" using trim_line_end_length [of "drop i raw"] by (simp add: sl)
    then have "?d1 + length ?l < 2 ^ 64" using less.prems(2) by auto
    from qp_line_len_line [OF this] None c1 show ?thesis
      by (subst qp_len_loop.simps)
         (simp add: Let_def split_char_None [OF None less.prems(1)] sl cong: option.case_cong)
  next
    case (Some k)
    let ?l = "trim_line_end (slice i k raw)"
    let ?h = "\<not> soft_break ?l"
    from position_from_Some [OF Some] have k: "i \<le> k" "k < length raw" by auto
    have ll: "length ?l \<le> k - i" using trim_line_end_length [of "slice i k raw"] k by (simp add: length_slice)
    then have "?d1 + length ?l < 2 ^ 64" using less.prems(2) k by auto
    note q = qp_line_len_line [OF this]
    note sp = split_char_Some [OF Some]
    show ?thesis
    proof (cases "qp_content (line_content ?l)")
      case None
      with Some q c1 show ?thesis
        by (subst qp_len_loop.simps) (simp add: Let_def sp decode_lines_Cons)
    next
      case c: (Some bs)
      have lb: "length bs \<le> k - i"
        using qp_content_length [OF c] ll by (auto simp: line_content_def split: if_splits)
      let ?d2 = "?d1 + length bs"
      show ?thesis
      proof (cases "k + 1 = length raw")
        case True
        have "(if ?h then checked_add ?d2 2 else Some ?d2) = Some (?d2 + (if ?h then 2 else 0))"
          using less.prems(2) lb k by (auto simp: checked_add_nat)
        with True Some q c1 c show ?thesis
          by (subst qp_len_loop.simps) (simp add: Let_def sp decode_lines_Cons)
      next
        case False
        have IH: "qp_len_loop raw (k + 1) ?d2 ?h =
            map_option (\<lambda>bs. ?d2 + (if ?h then 2 else 0) + length bs) (decode_lines (split_char LF (drop (k + 1) raw)))"
          by (rule less.hyps) (use k lb less.prems(2) in auto)
        with False Some q c1 c show ?thesis
          by (subst qp_len_loop.simps)
             (simp add: Let_def sp decode_lines_Cons option.map_comp o_def add.assoc)
      qed
    qed
  qed
qed

lemma qp_decoded_len_exact:
  assumes "length raw < 2 ^ 62"
  shows "quoted_printable_decoded_len raw = map_option length (qp_decode_ref raw)"
  using qp_len_loop_decode [of 0 raw 0 False] assms
  by (simp add: quoted_printable_decoded_len_def qp_decode_ref_def)

section \<open>What the validation accepts\<close>

fun escapes_ok :: "string \<Rightarrow> bool" where
  "escapes_ok [] = True"
| "escapes_ok (b # bs) =
     (if b \<noteq> CHR ''='' then escapes_ok bs
      else (case bs of
              [] \<Rightarrow> False
            | u # r \<Rightarrow>
                if u = CR \<and> r \<noteq> [] \<and> hd r = LF then escapes_ok (tl r)
                else if u = LF then escapes_ok r
                else r \<noteq> [] \<and> is_ascii_hexdigit u \<and> is_ascii_hexdigit (hd r) \<and> escapes_ok (tl r)))"

lemma get_at_drop: "get_at xs (i + j) = get_at (drop i xs) j"
  by (auto simp: get_at_def)

lemma escape_loop_ok:
  "(\<exists>b. escape_loop raw lower i = Inr b) \<longleftrightarrow> escapes_ok (drop i raw)"
proof (induction "length raw - i" arbitrary: i lower rule: less_induct)
  case less
  show ?case
  proof (cases "drop i raw")
    case Nil
    then show ?thesis by (subst escape_loop.simps) (simp add: get_at_def)
  next
    case (Cons b bs)
    then have i: "i < length raw" by (metis drop_eq_Nil2 linorder_not_le list.distinct(1))
    have b: "get_at raw i = Some b" "drop (i + 1) raw = bs"
      using Cons i by (auto simp: get_at_def Cons_nth_drop_Suc [symmetric])
    have g1: "get_at raw (i + 1) = get_at bs 0" "get_at raw (i + 2) = get_at bs 1"
      using b(2) get_at_drop [of raw "i + 1" 0] get_at_drop [of raw "i + 1" 1] by simp_all
    have dr: "drop (i + 2) raw = tl bs" "drop (i + 3) raw = tl (tl bs)"
      using b(2) by (metis add_Suc_right drop_Suc drop_tl Suc_1 One_nat_def add.right_neutral numeral_3_eq_3 tl_drop)+
    note IH = less.hyps [of "i + 1"] less.hyps [of "i + 2"] less.hyps [of "i + 3"]
    have m: "length raw - (i + 1) < length raw - i" "length raw - (i + 2) < length raw - i"
      "length raw - (i + 3) < length raw - i" using i by auto
    show ?thesis
    proof (cases "b = CHR ''=''")
      case False
      with Cons b IH(1) [OF m(1)] show ?thesis by (subst escape_loop.simps) simp
    next
      case True
      show ?thesis
      proof (cases bs)
        case Nil
        with Cons b g1 True show ?thesis by (subst escape_loop.simps) (simp add: get_at_def)
      next
        case u: (Cons u r)
        show ?thesis
        proof (cases r)
          case Nil
          with Cons b g1 True u IH(2) [OF m(2)] dr show ?thesis
            by (subst escape_loop.simps) (simp add: get_at_def)
        next
          case (Cons l r')
          with \<open>drop i raw = b # bs\<close> b g1 True u IH(2) [OF m(2)] IH(3) [OF m(3)] dr show ?thesis
            by (subst escape_loop.simps) (auto simp: get_at_def)
        qed
      qed
    qed
  qed
qed

text \<open>A line whose escapes are complete decodes after its trailing white space is cut.\<close>

lemma trim_line_end_Cons:
  "trim_line_end (b # l) =
     (if trim_line_end l = [] \<and> (b = SP \<or> b = HT \<or> b = CR) then [] else b # trim_line_end l)"
  by (auto simp: trim_line_end_def dropWhile_append dropWhile_eq_Nil_conv)

lemma hexdigit_plain:
  "is_ascii_hexdigit u \<Longrightarrow> u \<noteq> SP \<and> u \<noteq> HT \<and> u \<noteq> CR \<and> u \<noteq> LF \<and> u \<noteq> CHR ''=''"
  by (auto simp: is_ascii_hexdigit_def is_ascii_digit_def)

lemma soft_break_Cons: "soft_break (b # l) \<longleftrightarrow> (if l = [] then b = CHR ''='' else soft_break l)"
  by (auto simp: soft_break_def)

lemma line_content_Cons:
  "line_content (b # l) = (if l = [] \<and> b = CHR ''='' then [] else b # line_content l)"
  by (auto simp: line_content_def soft_break_def)

lemma escapes_ok_line:
  assumes "escapes_ok (l @ rest)" "rest = [] \<or> (\<exists>r. rest = LF # r)" "LF \<notin> set l"
    and "\<forall>b \<in> set l. qp_line_byte b"
  shows "qp_content (line_content (trim_line_end l)) \<noteq> None \<and> escapes_ok (drop 1 rest)"
  using assms
proof (induction "length l" arbitrary: l rule: less_induct)
  case less
  have dropok: "escapes_ok rest \<Longrightarrow> escapes_ok (drop 1 rest)" using less.prems(2) by auto
  show ?case
  proof (cases l)
    case Nil
    with less.prems(1) dropok show ?thesis by simp
  next
    case (Cons b l1)
    show ?thesis
    proof (cases "b = CHR ''=''")
      case False
      with less.prems Cons have ok: "escapes_ok (l1 @ rest)" by simp
      have "qp_content (line_content (trim_line_end l1)) \<noteq> None \<and> escapes_ok (drop 1 rest)"
        by (rule less.hyps) (use Cons less.prems ok in auto)
      with False Cons less.prems(4) show ?thesis by (auto simp: trim_line_end_Cons line_content_Cons)
    next
      case True
      show ?thesis
      proof (cases l1)
        case Nil
        with less.prems(1) Cons True have ok: "escapes_ok (CHR ''='' # rest)" by simp
        then have "rest \<noteq> []" by auto
        with less.prems(2) obtain r where r: "rest = LF # r" by blast
        from ok r have "escapes_ok r"
          by (auto simp: is_ascii_hexdigit_def is_ascii_digit_def split: if_splits)
        moreover have "line_content (trim_line_end l) = []"
          using Cons True Nil by (simp add: trim_line_end_Cons line_content_Cons)
        ultimately show ?thesis using r by simp
      next
        case u: (Cons u l2)
        with less.prems(3) Cons have "u \<noteq> LF" by auto
        show ?thesis
        proof (cases l2)
          case Nil
          with less.prems(1) Cons True u have ok: "escapes_ok (CHR ''='' # u # rest)" by simp
          with \<open>u \<noteq> LF\<close> have "rest \<noteq> []" by (auto split: if_splits)
          with less.prems(2) obtain r where r: "rest = LF # r" by blast
          have "\<not> is_ascii_hexdigit LF" by (simp add: is_ascii_hexdigit_def is_ascii_digit_def)
          with ok r \<open>u \<noteq> LF\<close> have "u = CR" "escapes_ok r" by (simp_all split: if_splits)
          moreover from this(1) have "line_content (trim_line_end l) = []"
            using Cons True u Nil by (simp add: trim_line_end_Cons line_content_Cons)
          ultimately show ?thesis using r by simp
        next
          case l: (Cons v l3)
          with less.prems(3) Cons u have "v \<noteq> LF" by auto
          with less.prems(1) Cons True u l \<open>u \<noteq> LF\<close>
          have hx: "is_ascii_hexdigit u" "is_ascii_hexdigit v" "escapes_ok (l3 @ rest)"
            by (auto split: if_splits)
          have "qp_content (line_content (trim_line_end l3)) \<noteq> None \<and> escapes_ok (drop 1 rest)"
            by (rule less.hyps) (use Cons u l less.prems hx in auto)
          moreover have "line_content (trim_line_end l) = CHR ''='' # u # v # line_content (trim_line_end l3)"
            using hexdigit_plain [OF hx(1)] hexdigit_plain [OF hx(2)] Cons u l True
            by (simp add: trim_line_end_Cons line_content_Cons)
          ultimately show ?thesis using hx by (simp add: qp_line_byte_def)
        qed
      qed
    qed
  qed
qed

lemma escapes_ok_decode:
  "escapes_ok raw \<Longrightarrow> \<forall>b \<in> set raw. qp_body_byte b \<Longrightarrow> qp_decode_ref raw \<noteq> None"
proof (induction "length raw" arbitrary: raw rule: less_induct)
  case less
  let ?l = "takeWhile (\<lambda>x. x \<noteq> LF) raw"
  have lf: "LF \<notin> set ?l" using set_takeWhileD by fastforce
  have "b \<in> set ?l \<Longrightarrow> qp_line_byte b" for b
    using less.prems(2) set_takeWhileD [of b "\<lambda>x. x \<noteq> LF" raw] by (auto simp: qp_body_byte_def qp_line_byte_def)
  then have lb: "\<forall>b \<in> set ?l. qp_line_byte b" by blast
  show ?case
  proof (cases "length ?l < length raw")
    case False
    then have "?l = raw" using takeWhile_eq_all_conv
      by (metis length_takeWhile_le linorder_not_le nat_less_le takeWhile_eq_take take_all)
    with lf lb have l: "LF \<notin> set raw" "\<forall>b \<in> set raw. qp_line_byte b" by simp_all
    from escapes_ok_line [of raw "[]"] less.prems(1) l
    show ?thesis by (simp add: qp_decode_ref_def split_char_absent)
  next
    case True
    let ?r = "drop (length ?l + 1) raw"
    have raw: "raw = ?l @ LF # ?r"
      using True nth_length_takeWhile [OF True]
      by (metis Cons_nth_drop_Suc Suc_eq_plus1 append_take_drop_id takeWhile_eq_take)
    from less.prems(1) raw have "escapes_ok (?l @ LF # ?r)" by simp
    from escapes_ok_line [OF this _ lf lb]
    have ok: "qp_content (line_content (trim_line_end ?l)) \<noteq> None" "escapes_ok ?r" by auto
    have "qp_decode_ref ?r \<noteq> None"
    proof (rule less.hyps)
      show "length ?r < length raw" using True by simp
      show "\<forall>b \<in> set ?r. qp_body_byte b" using less.prems(2) by (meson in_set_dropD)
    qed (rule ok(2))
    with ok(1) True show ?thesis
      unfolding qp_decode_ref_def by (subst split_char_takeWhile) (auto simp: Let_def decode_lines_Cons)
  qed
qed

lemma validate_qp_Inr:
  assumes "validate_quoted_printable raw = Inr ws"
  shows "escapes_ok raw \<and> (\<forall>b \<in> set raw. qp_body_byte b)"
proof -
  from assms have f: "List.find (\<lambda>(offset, byte). \<not> qp_body_byte byte) (enumerate 0 raw) = None"
    by (auto simp: validate_quoted_printable_def split: option.splits prod.splits)
  from assms f obtain b where "escape_loop raw False 0 = Inr b"
    by (auto simp: validate_quoted_printable_def result_simps)
  then have "escapes_ok raw" using escape_loop_ok [of raw False 0] by auto
  moreover have "qp_body_byte (raw ! i)" if "i < length raw" for i
  proof -
    have "(i, raw ! i) \<in> set (enumerate 0 raw)" using that by (simp add: in_set_enumerate_eq)
    with f show ?thesis by (auto simp: find_None_iff)
  qed
  ultimately show ?thesis by (auto simp: in_set_conv_nth)
qed

section \<open>Base64 lengths\<close>

definition base64_data_byte :: "char \<Rightarrow> bool" where
  "base64_data_byte b \<longleftrightarrow> is_ascii_alphanumeric b \<or> b = CHR ''+'' \<or> b = CHR ''/''"

lemma base64_data_not_pad: "base64_data_byte b \<Longrightarrow> b \<noteq> CHR ''=''"
  by (auto simp: base64_data_byte_def byte_class_defs)

lemma Cons_eq_replicate:
  assumes "b = c"
  shows "b # s = replicate p c \<longleftrightarrow> p = 1 + length s \<and> (\<forall>x \<in> set s. x = c)"
proof
  assume r: "b # s = replicate p c"
  then have "length (b # s) = p" by (metis length_replicate)
  moreover have "x = c" if "x \<in> set (b # s)" for x using that unfolding r by simp
  ultimately show "p = 1 + length s \<and> (\<forall>x \<in> set s. x = c)" by simp
next
  assume "p = 1 + length s \<and> (\<forall>x \<in> set s. x = c)"
  then show "b # s = replicate p c" using assms replicate_length_same [of s c] by simp
qed

lemma base64_len_loop_pads:
  "n + length s < 2 ^ 64 \<Longrightarrow> p + length s < 2 ^ 64 \<Longrightarrow>
     base64_len_loop n p True s =
       (if \<forall>b \<in> set s. b = CHR ''='' then Some (n + length s, p + length s) else None)"
proof (induction s arbitrary: n p)
  case (Cons b s)
  from Cons.prems Cons.IH [of "n + 1" "p + 1"] show ?case by (simp add: checked_add_nat)
qed simp

lemma base64_len_loop_data:
  assumes "n + length s < 2 ^ 64"
  shows "base64_len_loop n 0 False s = Some (m, p) \<longleftrightarrow>
     (\<exists>data. s = data @ replicate p (CHR ''='') \<and> (\<forall>b \<in> set data. base64_data_byte b) \<and> m = n + length s)"
  using assms
proof (induction s arbitrary: n)
  case (Cons b s)
  have c: "checked_add n 1 = Some (n + 1)" using Cons.prems by (simp add: checked_add_nat)
  show ?case
  proof (cases "base64_data_byte b")
    case True
    then have "base64_len_loop n 0 False (b # s) = base64_len_loop (n + 1) 0 False s"
      using c by (simp add: base64_data_byte_def)
    moreover have "(\<exists>data. b # s = data @ replicate p (CHR ''='') \<and> (\<forall>x \<in> set data. base64_data_byte x)) \<longleftrightarrow>
        (\<exists>data. s = data @ replicate p (CHR ''='') \<and> (\<forall>x \<in> set data. base64_data_byte x))"
      using True base64_data_not_pad [OF True]
      by (cases p) (auto simp: Cons_eq_append_conv)
    ultimately show ?thesis using Cons.IH [of "n + 1"] Cons.prems by auto
  next
    case False
    have none: "(\<exists>data. b # s = data @ replicate p (CHR ''='') \<and> (\<forall>x \<in> set data. base64_data_byte x)) \<longleftrightarrow>
        b # s = replicate p (CHR ''='')"
      using False by (auto simp: Cons_eq_append_conv)
    show ?thesis
    proof (cases "b = CHR ''=''")
      case True
      then have "base64_len_loop n 0 False (b # s) = base64_len_loop (n + 1) 1 True s"
        using c False by (simp add: base64_data_byte_def checked_add_nat)
      then have "base64_len_loop n 0 False (b # s) =
          (if \<forall>x \<in> set s. x = CHR ''='' then Some (n + 1 + length s, 1 + length s) else None)"
        using base64_len_loop_pads [of "n + 1" s 1] Cons.prems by simp
      moreover have "b # s = replicate p (CHR ''='') \<longleftrightarrow> p = 1 + length s \<and> (\<forall>x \<in> set s. x = CHR ''='')"
        using True by (rule Cons_eq_replicate)
      ultimately show ?thesis using none by auto
    next
      case eq: False
      then have "base64_len_loop n 0 False (b # s) = None" using c False by (simp add: base64_data_byte_def)
      moreover have "b # s \<noteq> replicate p (CHR ''='')" using eq by (cases p) auto
      ultimately show ?thesis using none by auto
    qed
  qed
qed auto

definition base64_body :: "string \<Rightarrow> nat \<Rightarrow> bool" where
  "base64_body raw n \<longleftrightarrow>
     (\<exists>data p. filter (\<lambda>b. \<not> is_ascii_whitespace b) raw = data @ replicate p (CHR ''='') \<and>
        (\<forall>b \<in> set data. base64_data_byte b) \<and> p \<le> 2 \<and> (length data + p) mod 4 = 0 \<and>
        n = (length data + p) div 4 * 3 - p)"

lemma base64_body_split:
  "(\<exists>m p. (\<exists>data. s = data @ replicate p c \<and> P data \<and> m = 0 + length s) \<and>
       m mod 4 = 0 \<and> p \<le> 2 \<and> n = m div 4 * 3 - p) \<longleftrightarrow>
   (\<exists>data p. s = data @ replicate p c \<and> P data \<and> p \<le> 2 \<and> (length data + p) mod 4 = (0 :: nat) \<and>
       n = (length data + p) div 4 * 3 - p)" (is "?L \<longleftrightarrow> ?R")
proof
  assume ?L
  then show ?R
  proof (elim exE conjE)
    fix m p data
    assume f: "s = data @ replicate p c" "P data" "m = 0 + length s" "m mod 4 = 0" "p \<le> 2"
      "n = m div 4 * 3 - p"
    have m: "m = length data + p" unfolding f(3) f(1) by simp
    show ?R by (rule exI [of _ data], rule exI [of _ p]) (intro conjI f(1,2,5) f(4,6) [unfolded m])
  qed
next
  assume ?R
  then show ?L
  proof (elim exE conjE)
    fix data p
    assume f: "s = data @ replicate p c" "P data" "p \<le> 2" "(length data + p) mod 4 = 0"
      "n = (length data + p) div 4 * 3 - p"
    have m: "length data + p = 0 + length s" unfolding f(1) by simp
    show ?L
      by (rule exI [of _ "0 + length s"], rule exI [of _ p], intro conjI exI [of _ data] f(1,2,3) refl f(4,5) [unfolded m])
  qed
qed

lemma base64_decoded_len_iff:
  assumes "length raw < 2 ^ 63"
  shows "base64_decoded_len raw = Some n \<longleftrightarrow> base64_body raw n"
proof -
  let ?s = "filter (\<lambda>b. \<not> is_ascii_whitespace b) raw"
  have l: "length ?s < 2 ^ 63" using assms length_filter_le [of "\<lambda>b. \<not> is_ascii_whitespace b" raw] by linarith
  then have b: "0 + length ?s < 2 ^ 64" by simp
  have "base64_decoded_len raw = Some n \<longleftrightarrow>
     (\<exists>m p. base64_len_loop 0 0 False ?s = Some (m, p) \<and> m mod 4 = 0 \<and> p \<le> 2 \<and> n = m div 4 * 3 - p)"
  proof -
    have "(if m mod 4 \<noteq> 0 \<or> p > 2 then None
         else if p > m then None
         else (let data_len = m - p in
           if p = 1 \<and> data_len mod 4 \<noteq> 3 \<or> p = 2 \<and> data_len mod 4 \<noteq> 2 then None
           else (let decoded = m div 4 * 3 in
                 if fits_usize decoded \<and> p \<le> decoded then Some (decoded - p) else None))) = Some n \<longleftrightarrow>
       m mod 4 = 0 \<and> p \<le> 2 \<and> n = m div 4 * 3 - p" if "base64_len_loop 0 0 False ?s = Some (m, p)" for m p
    proof -
      from that base64_len_loop_data [OF b] have m: "p \<le> m" "m < 2 ^ 63"
        using l by auto
      show ?thesis
      proof (cases "m mod 4 = 0 \<and> p \<le> 2")
        case True
        then obtain q where q: "m = 4 * q" by (metis mod_0_imp_dvd dvd_def)
        consider "p = 0" | "p = 1" | "p = 2" using True by linarith
        then show ?thesis
        proof cases
          case 2
          with q m have "0 < q" by auto
          then obtain r where "q = Suc r" by (cases q) auto
          with q 2 have "(m - p) mod 4 = 3" by (simp, presburger?)
          with q m 2 show ?thesis by (auto simp: Let_def fits_usize_nat)
        next
          case 3
          with q m have "0 < q" by auto
          then obtain r where "q = Suc r" by (cases q) auto
          with q 3 have "(m - p) mod 4 = 2" by (simp, presburger?)
          with q m 3 show ?thesis by (auto simp: Let_def fits_usize_nat)
        qed (use q m in \<open>auto simp: Let_def fits_usize_nat\<close>)
      qed auto
    qed
    note step = this
    show ?thesis
    proof (cases "base64_len_loop 0 0 False ?s")
      case None
      then show ?thesis by (simp add: base64_decoded_len_def)
    next
      case (Some mp)
      obtain m p where mp: "mp = (m, p)" by (cases mp)
      with Some have some: "base64_len_loop 0 0 False ?s = Some (m, p)" by simp
      have "base64_decoded_len raw = Some n \<longleftrightarrow> m mod 4 = 0 \<and> p \<le> 2 \<and> n = m div 4 * 3 - p"
        unfolding base64_decoded_len_def some bind.bind_lunit prod.case by (rule step [OF some])
      with some show ?thesis by auto
    qed
  qed
  also have "\<dots> \<longleftrightarrow> base64_body raw n"
    unfolding base64_body_def base64_len_loop_data [OF b] by (rule base64_body_split)
  finally show ?thesis .
qed

section \<open>Unfolding\<close>

lemma unfold_loop_bytes:
  "unfold_loop f raw i = Inr s \<Longrightarrow> \<forall>b \<in> set s. b = HT \<or> 32 \<le> bval b \<and> bval b \<noteq> (127 :: nat)"
proof (induction f raw i arbitrary: s rule: unfold_loop.induct)
  case (1 f raw i)
  show ?case
  proof (cases "i < length raw")
    case False
    with "1.prems" show ?thesis by (subst (asm) unfold_loop.simps) simp
  next
    case True
    let ?b = "raw ! i"
    show ?thesis
    proof (cases "?b = CR \<or> ?b = LF")
      case br: True
      with "1.prems" True have n: "\<not> (?b = CR \<and> get_at raw (i + 1) \<noteq> Some LF)"
        "get_at raw (if ?b = CR then i + 2 else i + 1) = Some SP \<or>
         get_at raw (if ?b = CR then i + 2 else i + 1) = Some HT"
        "unfold_loop f raw (if ?b = CR then i + 2 else i + 1) = Inr s"
        by (subst (asm) unfold_loop.simps, simp add: Let_def split: if_splits)+
      from "1.IH"(1) [OF True refl br n(1) refl n(2,3)] show ?thesis .
    next
      case False
      with "1.prems" True obtain s' where s: "?b = HT \<or> 32 \<le> bval ?b \<and> bval ?b \<noteq> (127 :: nat)"
          "unfold_loop f raw (i + 1) = Inr s'" "s = ?b # s'"
        by (subst (asm) unfold_loop.simps) (auto simp: Let_def result_simps split: if_splits)
      with "1.IH"(2) [OF True refl False] show ?thesis by auto
    qed
  qed
qed

text \<open>Folded lines are joined, each continuation keeping its leading space.\<close>

definition header_text_byte :: "char \<Rightarrow> bool" where
  "header_text_byte b \<longleftrightarrow> b = HT \<or> 32 \<le> bval b \<and> bval b \<noteq> 127"

lemma unfold_loop_text:
  "\<forall>b \<in> set t. header_text_byte b \<Longrightarrow>
     unfold_loop f (pre @ t @ rest) (length pre) = map_ok (\<lambda>s. t @ s) (unfold_loop f (pre @ t @ rest) (length pre + length t))"
proof (induction t arbitrary: pre)
  case Nil
  show ?case by (cases "unfold_loop f (pre @ rest) (length pre)") simp_all
next
  case (Cons b t)
  from Cons.prems have ht: "header_text_byte b" by simp
  have "\<not> header_text_byte CR" "\<not> header_text_byte LF" by (simp_all add: header_text_byte_def)
  with ht have ne: "b \<noteq> CR" "b \<noteq> LF" by blast+
  from ht have "b = HT \<or> 32 \<le> bval b \<and> bval b \<noteq> (127 :: nat)" unfolding header_text_byte_def .
  note b = ne this
  have "unfold_loop f (pre @ (b # t) @ rest) (length pre) =
      map_ok (\<lambda>s. b # s) (unfold_loop f (pre @ (b # t) @ rest) (length pre + 1))"
    using b by (subst unfold_loop.simps) (simp add: Let_def nth_append)
  moreover have "unfold_loop f ((pre @ [b]) @ t @ rest) (length (pre @ [b])) =
      map_ok (\<lambda>s. t @ s) (unfold_loop f ((pre @ [b]) @ t @ rest) (length (pre @ [b]) + length t))"
    by (rule Cons.IH) (use Cons.prems in simp)
  ultimately show ?case
    by (cases "unfold_loop f (pre @ (b # t) @ rest) (length pre + length (b # t))") simp_all
qed

lemma unfold_loop_fold:
  "unfold_loop f (pre @ CR # LF # SP # rest) (length pre) = unfold_loop f (pre @ CR # LF # SP # rest) (length pre + 2)"
  by (subst unfold_loop.simps) (simp add: Let_def nth_append get_at_def)

lemma unfold_loop_lines:
  "\<forall>t \<in> set ts. \<forall>b \<in> set t. header_text_byte b \<Longrightarrow>
     unfold_loop f (pre @ concat (map (\<lambda>t. CRLF @ SP # t) ts)) (length pre) = Inr (concat (map (\<lambda>t. SP # t) ts))"
proof (induction ts arbitrary: pre)
  case Nil
  show ?case by (subst unfold_loop.simps) simp
next
  case (Cons t ts)
  let ?rest = "concat (map (\<lambda>t. CRLF @ SP # t) ts)"
  let ?raw = "pre @ CR # LF # SP # t @ ?rest"
  have sp: "\<forall>b \<in> set (SP # t). header_text_byte b" using Cons.prems by (simp add: header_text_byte_def)
  have "unfold_loop f ?raw (length pre) = unfold_loop f ?raw (length pre + 2)" by (rule unfold_loop_fold)
  also have "\<dots> = map_ok (\<lambda>s. (SP # t) @ s) (unfold_loop f ?raw (length pre + 2 + length (SP # t)))"
    using unfold_loop_text [OF sp, of f "pre @ CRLF" ?rest] by simp
  also have "unfold_loop f ?raw (length pre + 2 + length (SP # t)) = Inr (concat (map (\<lambda>t. SP # t) ts))"
    using Cons.IH [of "pre @ CRLF @ SP # t"] Cons.prems by simp
  finally show ?case by simp
qed

section \<open>Properties\<close>

text \<open>
  C4. The preflight admits a message exactly when the tree of slices between its boundaries
  has at most the allowed number of parts, no part nested deeper than allowed, and a readable
  header in every part; otherwise it is an error, so that the recursive MIME parser only ever
  sees trees within the limits.  The preflight itself always terminates.
\<close>

theorem preflight_exact:
  "preflight_mime_structure lib bytes limits = Inr () \<longleftrightarrow>
     length (nested_parts lib 0 bytes) \<le> max_parts limits \<and>
     (\<forall>(depth, raw) \<in> set (nested_parts lib 0 bytes).
        depth \<le> max_depth limits \<and> headers_parse lib raw)"
proof -
  have "preflight_mime_structure lib bytes limits = Inr () \<longleftrightarrow>
      (\<exists>n. preflight_part lib limits bytes 0 0 = Inr n)"
    by (auto simp: preflight_mime_structure_def result_simps)
  then show ?thesis by (auto simp: preflight_part_iff length_nested_parts parts_fit_def)
qed

text \<open>A header reader for the witnesses: no header at all, or one multipart header.\<close>

definition boundary_lib :: header_lib where
  "boundary_lib = \<lparr>
     hl_parse_headers = (\<lambda>raw.
       if starts_with raw ''M'' then Inr ((\<lambda>n. if n = ''Content-Type'' then Some ''m'' else None), 1)
       else Inr ((\<lambda>n. None), 0)),
     hl_parse_content_type = (\<lambda>v. \<lparr>ct_mimetype = ''multipart/mixed'', ct_param = (\<lambda>p. Some ''b'')\<rparr>)\<rparr>"

definition tiny_limits :: mime_limits where
  "tiny_limits = \<lparr>max_message_bytes = 64, max_depth = 1, max_parts = 2, max_decoded_part_bytes = 64,
     max_total_decoded_bytes = 64\<rparr>"

lemma preflight_exact_witness:
  "preflight_mime_structure boundary_lib (''M--b'' @ [LF] @ ''x'' @ [LF] @ ''--b--'' @ [LF]) tiny_limits = Inr () \<and>
   length (nested_parts boundary_lib 0 (''M--b'' @ [LF] @ ''x'' @ [LF] @ ''--b--'' @ [LF])) \<le> 2"
proof -
  have "preflight_mime_structure boundary_lib (''M--b'' @ [LF] @ ''x'' @ [LF] @ ''--b--'' @ [LF]) tiny_limits = Inr ()"
    by code_simp
  moreover from this have "length (nested_parts boundary_lib 0 (''M--b'' @ [LF] @ ''x'' @ [LF] @ ''--b--'' @ [LF]))
      \<le> max_parts tiny_limits"
    using preflight_exact by blast
  ultimately show ?thesis by (simp add: tiny_limits_def)
qed

text \<open>
  C22. Whatever quoted-printable body the validation accepts, with or without warnings, has an
  exact decoded length: the size guard computes the number of bytes that decoding yields, it
  never falls back to the raw length.
\<close>

theorem validated_qp_length_exact:
  assumes "validate_quoted_printable raw = Inr warnings" "length raw < 2 ^ 62"
  shows "\<exists>decoded. qp_decode_ref raw = Some decoded \<and>
           quoted_printable_decoded_len raw = Some (length decoded)"
  using escapes_ok_decode [of raw] validate_qp_Inr [OF assms(1)] qp_decoded_len_exact [OF assms(2)]
  by auto

lemma validated_qp_length_exact_witness:
  "validate_quoted_printable (''a=3db='' @ [LF] @ ''c '' @ CRLF) =
     Inr [''quoted-printable hex escape uses lowercase digits'',
          ''quoted-printable body uses non-CRLF line endings''] \<and>
   quoted_printable_decoded_len (''a=3db='' @ [LF] @ ''c '' @ CRLF) = Some 6"
proof -
  let ?r = "''a=3db='' @ [LF] @ ''c '' @ CRLF"
  have v: "validate_quoted_printable ?r =
     Inr [''quoted-printable hex escape uses lowercase digits'',
          ''quoted-printable body uses non-CRLF line endings'']" by code_simp
  have d: "qp_decode_ref ?r = Some (''a=bc'' @ CRLF)" by code_simp
  from validated_qp_length_exact [OF v] d have "quoted_printable_decoded_len ?r = Some 6" by simp
  with v show ?thesis ..
qed

text \<open>
  The base64 length guard accepts exactly the padded base64 grammar (alphabet bytes, then
  at most two equals signs, a multiple of four in all, white space anywhere) and returns three
  bytes for each group of four less the padding.
\<close>

theorem base64_length_exact:
  assumes "length raw < 2 ^ 63"
  shows "base64_decoded_len raw = Some n \<longleftrightarrow> base64_body raw n"
  using assms by (rule base64_decoded_len_iff)

lemma base64_length_exact_witness:
  "base64_body (''SGk='' @ CRLF) 2"
proof -
  have "base64_decoded_len (''SGk='' @ CRLF) = Some 2"
    by code_simp
  then show ?thesis by (subst (asm) base64_length_exact) simp_all
qed

text \<open>
  A folded structured header is read as its lines joined, each continuation line keeping
  its leading space, when its text is printable; whatever the raw value is, no line break or
  other control character but a tab comes through in the accepted bytes.
\<close>

theorem unfold_structured_header:
  assumes "\<forall>t \<in> set (first # rest). \<forall>b \<in> set t. header_text_byte b"
  shows "unfold_loop field (first @ concat (map (\<lambda>t. CRLF @ SP # t) rest)) 0 =
           Inr (first @ concat (map (\<lambda>t. SP # t) rest)) \<and>
         (\<forall>raw s. unfold_loop field raw 0 = Inr s \<longrightarrow> (\<forall>b \<in> set s. header_text_byte b))"
proof -
  have "unfold_loop field ([] @ first @ concat (map (\<lambda>t. CRLF @ SP # t) rest)) (length ([] :: string)) =
      map_ok (\<lambda>s. first @ s) (unfold_loop field ([] @ first @ concat (map (\<lambda>t. CRLF @ SP # t) rest))
        (length ([] :: string) + length first))"
    by (rule unfold_loop_text) (use assms in simp)
  moreover have "unfold_loop field (first @ concat (map (\<lambda>t. CRLF @ SP # t) rest)) (length first) =
      Inr (concat (map (\<lambda>t. SP # t) rest))"
    by (rule unfold_loop_lines) (use assms in simp)
  ultimately show ?thesis using unfold_loop_bytes [of field _ 0] by (auto simp: header_text_byte_def)
qed

lemma unfold_structured_header_witness:
  "unfold_loop ''References'' (''<a@b>'' @ CRLF @ '' <c@d>'') 0 = Inr ''<a@b> <c@d>''"
proof -
  have "\<forall>t \<in> set [''<a@b>'', ''<c@d>'']. \<forall>b \<in> set t. header_text_byte b" by code_simp
  from unfold_structured_header [OF this, THEN conjunct1] show ?thesis by simp
qed

end
