(* ===== verification/Mime_Walk.thy ===== *)
theory Mime_Walk
  imports Mime_Scan "HOL-Library.AList_Mapping"
begin

text \<open>
  The tree-level half of \<open>notm-mail/src/mime.rs\<close>: the walk over the parsed MIME tree that
  selects the displayed bodies, numbers the attachments, classifies parts and accounts for the
  decoded bytes, and the extraction of attachment data.  The tree itself comes from
  \<open>mailparse\<close>; what the code asks of a part through that crate is the record \<open>mime_part\<close>,
  and the remaining external functions are the fields of \<open>mime_lib\<close>.
\<close>

section \<open>What the MIME parser hands over\<close>

record mime_part =
  mp_headers :: "(string \<times> string) list"
  mp_first_value :: "string \<Rightarrow> string option"
  mp_first_raw :: "string \<Rightarrow> string option"
  mp_mimetype :: string
  mp_param :: "string \<Rightarrow> string option"
  mp_is_attachment :: bool
  mp_disposition_param :: "string \<Rightarrow> string option"
  mp_body_is_qp :: bool
  mp_raw :: string
  mp_body :: "string + string"
  mp_body_raw :: "string + string"

datatype parsed_mail = ParsedMail (pm_part: mime_part) (pm_subparts: "parsed_mail list")

record mime_lib =
  mml_headers :: header_lib
  mml_parse_mail :: "string \<Rightarrow> string + parsed_mail"
  mml_qp_decode :: "string \<Rightarrow> string + string"
  mml_to_lowercase :: "string \<Rightarrow> string"
  mml_debug :: "string \<Rightarrow> string"
  mml_show_error :: "mime_error \<Rightarrow> string"
  mml_html_to_safe_text :: "string \<Rightarrow> string"

section \<open>Data\<close>

datatype crypto_part_kind =
    EncryptedContainer | SignedContainer | OpenPgpEncrypted | OpenPgpSignature | OpenPgpKey
  | SmimeEncrypted | SmimeSigned | SmimeSignature | SmimeOther

definition crypto_is_encrypted :: "crypto_part_kind \<Rightarrow> bool" where
  "crypto_is_encrypted k \<longleftrightarrow> k \<in> {EncryptedContainer, OpenPgpEncrypted, SmimeEncrypted}"

definition crypto_is_signed :: "crypto_part_kind \<Rightarrow> bool" where
  "crypto_is_signed k \<longleftrightarrow> k \<in> {SignedContainer, OpenPgpSignature, SmimeSigned, SmimeSignature}"

record crypto_part =
  cp_path :: "nat list"
  cp_kind :: crypto_part_kind
  cp_content_type :: string
  cp_protocol :: "string option"
  cp_smime_type :: "string option"

record calendar_part =
  cal_path :: "nat list"
  cal_content_type :: string
  cal_method :: "string option"
  cal_filename :: "string option"

definition invitation_method :: "string option \<Rightarrow> bool" where
  "invitation_method m \<longleftrightarrow> m \<in> {Some ''PUBLISH'', Some ''REQUEST'', Some ''ADD''}"

definition is_invitation :: "calendar_part \<Rightarrow> bool" where
  "is_invitation p \<longleftrightarrow> invitation_method (cal_method p)"

record mime_classification =
  mc_calendar_parts :: "calendar_part list"
  mc_crypto_parts :: "crypto_part list"

definition has_calendar :: "mime_classification \<Rightarrow> bool" where
  "has_calendar c \<longleftrightarrow> mc_calendar_parts c \<noteq> []"

definition has_invitation :: "mime_classification \<Rightarrow> bool" where
  "has_invitation c \<longleftrightarrow> list_ex is_invitation (mc_calendar_parts c)"

definition has_encrypted :: "mime_classification \<Rightarrow> bool" where
  "has_encrypted c \<longleftrightarrow> list_ex (\<lambda>p. crypto_is_encrypted (cp_kind p)) (mc_crypto_parts c)"

definition has_signed :: "mime_classification \<Rightarrow> bool" where
  "has_signed c \<longleftrightarrow> list_ex (\<lambda>p. crypto_is_signed (cp_kind p)) (mc_crypto_parts c)"

record attachment =
  at_part_index :: nat
  at_filename :: "string option"
  at_content_type :: string
  at_size :: nat
  at_content_id :: "string option"
  at_decode_warnings :: "string list"
  at_decode_error :: "string option"

record extracted_attachment =
  ea_part_index :: nat
  ea_filename :: string
  ea_content_type :: string
  ea_content_id :: "string option"
  ea_bytes :: string
  ea_decode_warnings :: "string list"

record decode_failure =
  df_part_index :: nat
  df_filename :: string
  df_content_type :: string
  df_error :: mime_error

record extraction_report =
  er_attachments :: "extracted_attachment list"
  er_failures :: "decode_failure list"

definition empty_report :: extraction_report where
  "empty_report = \<lparr>er_attachments = [], er_failures = []\<rparr>"

record cid_scope =
  cs_start :: nat
  cs_end :: nat
  cs_part_indexes :: "nat list option"

record parsed_message =
  pg_headers :: "(string, string) mapping"
  pg_subject :: string
  pg_from :: string
  pg_to :: string
  pg_cc :: string
  pg_reply_to :: string
  pg_message_id :: string
  pg_references :: string
  pg_in_reply_to :: string
  pg_text_body :: string
  pg_html_body :: "string option"
  pg_html_cid_part_scopes :: "cid_scope list"
  pg_safe_body :: string
  pg_decode_warnings :: "string list"
  pg_attachments :: "attachment list"
  pg_mime_tree :: "string list"
  pg_classification :: mime_classification

section \<open>Body selection\<close>

record body_selection =
  bs_text :: "string option"
  bs_html :: "string option"
  bs_html_cid_part_scopes :: "cid_scope list"
  bs_text_fallback :: "string option"

definition empty_selection :: body_selection where
  "empty_selection = \<lparr>bs_text = None, bs_html = None, bs_html_cid_part_scopes = [], bs_text_fallback = None\<rparr>"

definition blank :: "string \<Rightarrow> bool" where
  "blank s \<longleftrightarrow> trim s = []"

definition nonblank :: "string option \<Rightarrow> string option" where
  "nonblank m = (case m of Some s \<Rightarrow> if blank s then None else Some s | None \<Rightarrow> None)"

definition or_else :: "'a option \<Rightarrow> 'a option \<Rightarrow> 'a option" where
  "or_else a b = (case a of Some x \<Rightarrow> Some x | None \<Rightarrow> b)"

definition append_body :: "string option \<Rightarrow> string option \<Rightarrow> string option" where
  "append_body destination source =
     (case nonblank source of
        None \<Rightarrow> destination
      | Some source \<Rightarrow>
          (case destination of
             Some d \<Rightarrow> if \<not> blank d then Some (d @ [LF, LF] @ source) else Some source
           | None \<Rightarrow> Some source))"

definition shift_scope :: "nat \<Rightarrow> cid_scope \<Rightarrow> cid_scope" where
  "shift_scope offset s = s\<lparr>cs_start := cs_start s + offset, cs_end := cs_end s + offset\<rparr>"

definition whole_scope :: "nat \<Rightarrow> cid_scope" where
  "whole_scope len = \<lparr>cs_start = 0, cs_end = len, cs_part_indexes = None\<rparr>"

definition extend_last :: "nat \<Rightarrow> cid_scope list \<Rightarrow> cid_scope list" where
  "extend_last stop scopes =
     (if scopes = [] then [whole_scope stop]
      else butlast scopes @ [(last scopes)\<lparr>cs_end := stop\<rparr>])"

definition append_html_body ::
  "string option \<Rightarrow> cid_scope list \<Rightarrow> string option \<Rightarrow> cid_scope list \<Rightarrow> string option \<times> cid_scope list" where
  "append_html_body destination destination_scopes source source_scopes =
     (case nonblank source of
        None \<Rightarrow> (destination, destination_scopes)
      | Some source \<Rightarrow>
          (let source_scopes = (if source_scopes = [] then [whole_scope (length source)] else source_scopes) in
           case destination of
             Some d \<Rightarrow>
               if \<not> blank d then
                 (let d = d @ [LF, LF];
                      destination_scopes = extend_last (length d) destination_scopes;
                      offset = length d in
                  (Some (d @ source), destination_scopes @ map (shift_scope offset) source_scopes))
               else (Some source, source_scopes)
           | None \<Rightarrow> (Some source, source_scopes)))"

definition selection_append :: "body_selection \<Rightarrow> body_selection \<Rightarrow> body_selection" where
  "selection_append self other =
     (let (html, scopes) = append_html_body (bs_html self) (bs_html_cid_part_scopes self)
                             (bs_html other) (bs_html_cid_part_scopes other) in
      self\<lparr>bs_text := append_body (bs_text self) (or_else (bs_text other) (bs_text_fallback other)),
           bs_html := html, bs_html_cid_part_scopes := scopes\<rparr>)"

definition replace_supported :: "body_selection \<Rightarrow> body_selection \<Rightarrow> body_selection" where
  "replace_supported self other =
     (let s1 = (if bs_text other \<noteq> None then self\<lparr>bs_text := bs_text other\<rparr> else self);
          s2 = (if bs_html other \<noteq> None
                then s1\<lparr>bs_html := bs_html other, bs_html_cid_part_scopes := bs_html_cid_part_scopes other\<rparr>
                else s1) in
      if bs_text_fallback other \<noteq> None then s2\<lparr>bs_text_fallback := bs_text_fallback other\<rparr> else s2)"

section \<open>Questions about a part\<close>

definition part_filename :: "mime_part \<Rightarrow> string option" where
  "part_filename p = or_else (mp_disposition_param p ''filename'') (mp_param p ''name'')"

definition part_is_explicit_attachment :: "mime_part \<Rightarrow> string option \<Rightarrow> bool \<Rightarrow> bool" where
  "part_is_explicit_attachment p filename named_body_allowed \<longleftrightarrow>
     mp_is_attachment p \<or> filename \<noteq> None \<and> \<not> named_body_allowed"

definition part_is_attachment_like :: "string \<Rightarrow> bool \<Rightarrow> bool \<Rightarrow> bool" where
  "part_is_attachment_like mimetype explicitly_attached crypto_related \<longleftrightarrow>
     explicitly_attached \<or> mimetype = ''text/calendar'' \<or>
     \<not> crypto_related \<and> \<not> starts_with mimetype ''text/''"

definition trim_start_char :: "char \<Rightarrow> string \<Rightarrow> string" where
  "trim_start_char c s = dropWhile (\<lambda>x. x = c) s"

definition trim_end_char :: "char \<Rightarrow> string \<Rightarrow> string" where
  "trim_end_char c s = rev (dropWhile (\<lambda>x. x = c) (rev s))"

definition normalize_content_id :: "string \<Rightarrow> string" where
  "normalize_content_id value = trim_end_char CHR ''>'' (trim_start_char CHR ''<'' (trim value))"

fun position :: "('a \<Rightarrow> bool) \<Rightarrow> 'a list \<Rightarrow> nat option" where
  "position P [] = None"
| "position P (x # xs) = (if P x then Some 0 else map_option Suc (position P xs))"

definition related_root_index :: "mime_part \<Rightarrow> parsed_mail list \<Rightarrow> nat" where
  "related_root_index p subparts =
     (case mp_param p ''start'' of
        None \<Rightarrow> 0
      | Some start \<Rightarrow>
          (case position (\<lambda>sub. case mp_first_value (pm_part sub) ''Content-ID'' of
                                None \<Rightarrow> False
                              | Some cid \<Rightarrow> normalize_content_id cid = normalize_content_id start) subparts of
             None \<Rightarrow> 0
           | Some i \<Rightarrow> i))"

definition named_body_allowed_for_child ::
  "mime_part \<Rightarrow> parsed_mail list \<Rightarrow> string \<Rightarrow> bool \<Rightarrow> nat \<Rightarrow> bool" where
  "named_body_allowed_for_child p subparts mimetype named_body_allowed child_index =
     (if mimetype = ''multipart/alternative'' then True
      else if \<not> named_body_allowed \<or> mimetype = ''multipart/encrypted'' then False
      else child_index = (if mimetype = ''multipart/related'' then related_root_index p subparts else 0))"

definition to_ascii_upper :: "char \<Rightarrow> char" where
  "to_ascii_upper c = (if is_ascii_lower c then char_of (bval c - 32) else c)"

definition calendar_method :: "mime_part \<Rightarrow> string option" where
  "calendar_method p =
     (case mp_param p ''method'' of
        None \<Rightarrow> None
      | Some m \<Rightarrow> (let m = map to_ascii_upper (trim m) in if m = [] then None else Some m))"

definition fallback_attachment_filename :: "mime_part \<Rightarrow> string" where
  "fallback_attachment_filename p =
     (let m = to_ascii_lowercase (mp_mimetype p) in
      if m = ''text/calendar'' then
        (if invitation_method (calendar_method p) then ''invitation.ics'' else ''calendar.ics'')
      else if m = ''message/rfc822'' then ''attached-message.eml''
      else ''attachment.bin'')"

definition crypto_part_kind_of :: "mime_part \<Rightarrow> crypto_part_kind option" where
  "crypto_part_kind_of p =
     (let m = to_ascii_lowercase (mp_mimetype p) in
      if m = ''multipart/encrypted'' then Some EncryptedContainer
      else if m = ''multipart/signed'' then Some SignedContainer
      else if m = ''application/pgp-encrypted'' then Some OpenPgpEncrypted
      else if m = ''application/pgp-signature'' then Some OpenPgpSignature
      else if m = ''application/pgp-keys'' then Some OpenPgpKey
      else if m = ''application/pkcs7-signature'' \<or> m = ''application/x-pkcs7-signature'' then Some SmimeSignature
      else if m = ''application/pkcs7-mime'' \<or> m = ''application/x-pkcs7-mime'' then
        (case map_option (\<lambda>v. to_ascii_lowercase (trim v)) (mp_param p ''smime-type'') of
           Some t \<Rightarrow>
             if t = ''enveloped-data'' \<or> t = ''authenveloped-data'' then Some SmimeEncrypted
             else if t = ''signed-data'' then Some SmimeSigned else Some SmimeOther
         | None \<Rightarrow> Some SmimeOther)
      else None)"

definition classify_part ::
  "mime_lib \<Rightarrow> mime_part \<Rightarrow> nat list \<Rightarrow> string option \<Rightarrow> mime_classification \<Rightarrow> mime_classification" where
  "classify_part lib p path filename c =
     (let content_type = mml_to_lowercase lib (mp_mimetype p);
          c1 = (if content_type = ''text/calendar''
                then c\<lparr>mc_calendar_parts := mc_calendar_parts c @
                       [\<lparr>cal_path = path, cal_content_type = content_type, cal_method = calendar_method p,
                         cal_filename = filename\<rparr>]\<rparr>
                else c) in
      case crypto_part_kind_of p of
        None \<Rightarrow> c1
      | Some kind \<Rightarrow>
          c1\<lparr>mc_crypto_parts := mc_crypto_parts c1 @
             [\<lparr>cp_path = path, cp_kind = kind, cp_content_type = content_type,
               cp_protocol = mp_param p ''protocol'', cp_smime_type = mp_param p ''smime-type''\<rparr>]\<rparr>)"

definition part_description :: "mime_lib \<Rightarrow> string \<Rightarrow> string option \<Rightarrow> bool \<Rightarrow> string" where
  "part_description lib mimetype filename is_attachment =
     (case filename of
        Some f \<Rightarrow> ''attachment '' @ mml_debug lib f @ '' ('' @ mimetype @ '')''
      | None \<Rightarrow> if is_attachment then ''attachment ('' @ mimetype @ '')'' else mimetype @ '' MIME part'')"

section \<open>Transfer encodings\<close>

datatype transfer_encoding = Identity | Base64 | QuotedPrintable

definition transfer_encoding_of :: "mime_part \<Rightarrow> mime_error + transfer_encoding" where
  "transfer_encoding_of p =
     (case mp_first_value p ''Content-Transfer-Encoding'' of
        None \<Rightarrow> Inr Identity
      | Some raw \<Rightarrow>
          (let e = to_ascii_lowercase (trim raw) in
           if e = ''7bit'' \<or> e = ''8bit'' \<or> e = ''binary'' then Inr Identity
           else if e = ''base64'' then Inr Base64
           else if e = ''quoted-printable'' then Inr QuotedPrintable
           else Inl (UnsupportedEncoding raw)))"

definition validate_text_transfer_encoding :: "mime_part \<Rightarrow> mime_error + string list" where
  "validate_text_transfer_encoding p =
     and_then (transfer_encoding_of p) (\<lambda>e.
       if e = QuotedPrintable then
         and_then (ensure (mp_body_is_qp p) QpBodyNotRecognized) (\<lambda>_. validate_quoted_printable (mp_raw p))
       else Inr [])"

record decoded_part =
  dp_bytes :: string
  dp_warnings :: "string list"

definition decode_part_bytes :: "mime_lib \<Rightarrow> mime_part \<Rightarrow> mime_error + decoded_part" where
  "decode_part_bytes lib p =
     and_then (transfer_encoding_of p) (\<lambda>e.
       if e = QuotedPrintable then
         and_then (ensure (mp_body_is_qp p) QpBodyNotRecognized) (\<lambda>_.
         and_then (validate_quoted_printable (mp_raw p)) (\<lambda>warnings.
         and_then (map_err ExternalDecodeError (mml_qp_decode lib (mp_raw p))) (\<lambda>bytes.
           Inr \<lparr>dp_bytes = bytes, dp_warnings = warnings\<rparr>)))
       else map_ok (\<lambda>bytes. \<lparr>dp_bytes = bytes, dp_warnings = []\<rparr>)
              (map_err ExternalDecodeError (mp_body_raw p)))"

definition ensure_decode_may_fit :: "mime_part \<Rightarrow> string \<Rightarrow> nat \<Rightarrow> mime_error + unit" where
  "ensure_decode_may_fit p description limit =
     (let raw = mp_raw p in
      case transfer_encoding_of p of
        Inl _ \<Rightarrow> Inr ()
      | Inr encoding \<Rightarrow>
          (let upper_bound =
             (case encoding of
                Identity \<Rightarrow> length raw
              | QuotedPrintable \<Rightarrow>
                  (case quoted_printable_decoded_len raw of Some n \<Rightarrow> n | None \<Rightarrow> length raw)
              | Base64 \<Rightarrow>
                  (case base64_decoded_len raw of
                     Some n \<Rightarrow> n
                   | None \<Rightarrow> (length (filter (\<lambda>b. \<not> is_ascii_whitespace b) raw) + 3) div 4 * 3))
           in ensure (upper_bound \<le> limit) (LimitDecodedPart description limit)))"

section \<open>The walk\<close>

record parse_state =
  ps_limits :: mime_limits
  ps_total_decoded_bytes :: nat
  ps_next_attachment_index :: nat
  ps_attachments :: "attachment list"
  ps_tree :: "string list"
  ps_decode_warnings :: "string list"
  ps_classification :: mime_classification

definition parse_state_new :: "mime_limits \<Rightarrow> parse_state" where
  "parse_state_new limits = \<lparr>
     ps_limits = limits, ps_total_decoded_bytes = 0, ps_next_attachment_index = 0, ps_attachments = [],
     ps_tree = [], ps_decode_warnings = [],
     ps_classification = \<lparr>mc_calendar_parts = [], mc_crypto_parts = []\<rparr>\<rparr>"

text \<open>The check of \<open>reserve\_decoded\<close>, also inlined by the extraction: the new total.\<close>

definition reserve_total :: "mime_limits \<Rightarrow> string \<Rightarrow> nat \<Rightarrow> nat \<Rightarrow> mime_error + nat" where
  "reserve_total limits part decoded_sum bytes =
     and_then (ensure (bytes \<le> max_decoded_part_bytes limits)
                 (LimitDecodedPart part (max_decoded_part_bytes limits))) (\<lambda>_.
     and_then (ok_or (checked_add decoded_sum bytes) (LimitTotalDecoded (max_total_decoded_bytes limits))) (\<lambda>decoded_sum.
     and_then (ensure (decoded_sum \<le> max_total_decoded_bytes limits)
                 (LimitTotalDecoded (max_total_decoded_bytes limits))) (\<lambda>_. Inr decoded_sum)))"

definition reserve_decoded :: "parse_state \<Rightarrow> string \<Rightarrow> nat \<Rightarrow> mime_error + parse_state" where
  "reserve_decoded st part bytes =
     map_ok (\<lambda>decoded_sum. st\<lparr>ps_total_decoded_bytes := decoded_sum\<rparr>)
       (reserve_total (ps_limits st) part (ps_total_decoded_bytes st) bytes)"

definition add_warnings :: "string list \<Rightarrow> parse_state \<Rightarrow> parse_state" where
  "add_warnings ws st = st\<lparr>ps_decode_warnings := ps_decode_warnings st @ ws\<rparr>"

definition nonconformant :: "string \<Rightarrow> string \<Rightarrow> string" where
  "nonconformant description warning = ''Decoded non-conformant '' @ description @ '': '' @ warning"

definition could_not_decode :: "mime_lib \<Rightarrow> string \<Rightarrow> mime_error \<Rightarrow> string" where
  "could_not_decode lib description err =
     ''Could not decode '' @ description @ '': '' @ mml_show_error lib err"

text \<open>The leaf branch of \<open>walk\_part\<close> for an attachment-like part.\<close>

definition walk_attachment ::
  "mime_lib \<Rightarrow> mime_part \<Rightarrow> string \<Rightarrow> string option \<Rightarrow> parse_state \<Rightarrow> mime_error + parse_state \<times> body_selection" where
  "walk_attachment lib p mimetype filename st =
     (let content_id = mp_first_value p ''Content-ID'';
          filename = (case filename of None \<Rightarrow> Some (fallback_attachment_filename p) | Some f \<Rightarrow> Some f);
          description = part_description lib mimetype filename True in
      and_then (ensure_decode_may_fit p description (max_decoded_part_bytes (ps_limits st))) (\<lambda>_.
        (let part_index = ps_next_attachment_index st;
             st = st\<lparr>ps_next_attachment_index := part_index + 1\<rparr> in
         case decode_part_bytes lib p of
           Inr decoded \<Rightarrow>
             and_then (reserve_decoded st description (length (dp_bytes decoded))) (\<lambda>st.
               (let st = add_warnings (map (nonconformant description) (dp_warnings decoded)) st in
                Inr (st\<lparr>ps_attachments := ps_attachments st @
                          [\<lparr>at_part_index = part_index, at_filename = filename, at_content_type = mimetype,
                            at_size = length (dp_bytes decoded), at_content_id = content_id,
                            at_decode_warnings = dp_warnings decoded, at_decode_error = None\<rparr>]\<rparr>,
                     empty_selection)))
         | Inl err \<Rightarrow>
             (let st = add_warnings [could_not_decode lib description err] st in
              Inr (st\<lparr>ps_attachments := ps_attachments st @
                        [\<lparr>at_part_index = part_index, at_filename = filename, at_content_type = mimetype,
                          at_size = 0, at_content_id = content_id, at_decode_warnings = [],
                          at_decode_error = Some (mml_show_error lib err)\<rparr>]\<rparr>,
                   empty_selection)))))"

text \<open>The leaf branch for a part displayed as a body.\<close>

definition select_body :: "string \<Rightarrow> string \<Rightarrow> body_selection" where
  "select_body mimetype body =
     (if mimetype = ''text/plain'' then empty_selection\<lparr>bs_text := Some body\<rparr>
      else if mimetype = ''text/html'' then
        empty_selection\<lparr>bs_html := Some body, bs_html_cid_part_scopes := [whole_scope (length body)]\<rparr>
      else if starts_with mimetype ''text/'' then empty_selection\<lparr>bs_text_fallback := Some body\<rparr>
      else empty_selection)"

definition walk_body ::
  "mime_lib \<Rightarrow> mime_part \<Rightarrow> string \<Rightarrow> string option \<Rightarrow> parse_state \<Rightarrow> mime_error + parse_state \<times> body_selection" where
  "walk_body lib p mimetype filename st =
     (let description = part_description lib mimetype filename False in
      case validate_text_transfer_encoding p of
        Inl err \<Rightarrow> Inr (add_warnings [could_not_decode lib description err] st, empty_selection)
      | Inr warnings \<Rightarrow>
          (let st = add_warnings (map (nonconformant description) warnings) st in
           and_then (ensure_decode_may_fit p description (max_decoded_part_bytes (ps_limits st))) (\<lambda>_.
             (case mp_body p of
                Inr body \<Rightarrow>
                  and_then (reserve_decoded st description (length body)) (\<lambda>st.
                    Inr (st, select_body mimetype body))
              | Inl err \<Rightarrow>
                  Inr (add_warnings [''Could not decode '' @ description @ '': '' @ err] st, empty_selection)))))"

definition insert_new :: "nat list \<Rightarrow> nat list \<Rightarrow> nat list" where
  "insert_new indexes new = fold (\<lambda>i acc. if i \<in> set acc then acc else acc @ [i]) new indexes"

text \<open>The indexes of the siblings of the root, in order; a range is its bounds.\<close>

definition sibling_indexes :: "nat \<Rightarrow> (nat \<times> nat) list \<Rightarrow> nat list" where
  "sibling_indexes root_index ranges =
     concat (map (\<lambda>(i, a, b). if i = root_index then [] else [a..<b]) (enumerate 0 ranges))"

definition related_scope :: "nat \<Rightarrow> (nat \<times> nat) list \<Rightarrow> cid_scope \<Rightarrow> cid_scope" where
  "related_scope root_index ranges s =
     s\<lparr>cs_part_indexes := Some (insert_new (case cs_part_indexes s of None \<Rightarrow> [] | Some is \<Rightarrow> is)
                                     (sibling_indexes root_index ranges))\<rparr>"

definition select_multipart_body ::
  "mime_part \<Rightarrow> parsed_mail list \<Rightarrow> string \<Rightarrow> body_selection list \<Rightarrow> (nat \<times> nat) list \<Rightarrow> body_selection" where
  "select_multipart_body p subparts mimetype selections ranges =
     (if mimetype = ''multipart/alternative'' then fold (\<lambda>s acc. replace_supported acc s) selections empty_selection
      else if mimetype = ''multipart/related'' then
        (let root_index = related_root_index p subparts;
             selected = (case get_at selections root_index of Some s \<Rightarrow> s | None \<Rightarrow> empty_selection) in
         case bs_html selected of
           None \<Rightarrow> selected
         | Some html \<Rightarrow>
             (let scopes = (if bs_html_cid_part_scopes selected = [] then [whole_scope (length html)]
                            else bs_html_cid_part_scopes selected) in
              selected\<lparr>bs_html_cid_part_scopes := map (related_scope root_index ranges) scopes\<rparr>))
      else if mimetype = ''multipart/signed'' then (case selections of s # _ \<Rightarrow> s | [] \<Rightarrow> empty_selection)
      else if mimetype = ''multipart/encrypted'' then empty_selection
      else fold (\<lambda>s acc. selection_append acc s) selections empty_selection)"

definition enter_part :: "mime_lib \<Rightarrow> nat \<Rightarrow> nat list \<Rightarrow> mime_part \<Rightarrow> parse_state \<Rightarrow> parse_state" where
  "enter_part lib depth path p st =
     (let mimetype = mml_to_lowercase lib (mp_mimetype p) in
      st\<lparr>ps_tree := ps_tree st @ [concat (replicate depth ''  '') @ mimetype],
         ps_classification := classify_part lib p path (part_filename p) (ps_classification st)\<rparr>)"

definition walk_leaf ::
  "mime_lib \<Rightarrow> mime_part \<Rightarrow> bool \<Rightarrow> parse_state \<Rightarrow> mime_error + parse_state \<times> body_selection" where
  "walk_leaf lib p named_body_allowed st =
     (let mimetype = mml_to_lowercase lib (mp_mimetype p);
          filename = part_filename p;
          explicitly_attached = part_is_explicit_attachment p filename named_body_allowed;
          crypto_kind = crypto_part_kind_of p in
      if part_is_attachment_like mimetype explicitly_attached (crypto_kind \<noteq> None)
      then walk_attachment lib p mimetype filename st
      else if crypto_kind \<noteq> None then Inr (st, empty_selection)
      else walk_body lib p mimetype filename st)"

text \<open>
  \<open>walk\_part\<close> and its loop over the subparts; \<open>path\<close> is passed extended where the code
  pushes and pops, and the loop returns the selections and the attachment ranges.
\<close>

fun walk_part ::
    "mime_lib \<Rightarrow> nat \<Rightarrow> nat list \<Rightarrow> bool \<Rightarrow> parsed_mail \<Rightarrow> parse_state \<Rightarrow> mime_error + parse_state \<times> body_selection"
  and walk_subparts ::
    "mime_lib \<Rightarrow> mime_part \<Rightarrow> parsed_mail list \<Rightarrow> nat \<Rightarrow> nat list \<Rightarrow> bool \<Rightarrow> nat \<Rightarrow> parsed_mail list \<Rightarrow> parse_state \<Rightarrow>
       mime_error + parse_state \<times> (body_selection \<times> nat \<times> nat) list" where
  "walk_part lib depth path named_body_allowed (ParsedMail p subparts) st =
     (let st = enter_part lib depth path p st in
      if subparts \<noteq> [] then
        and_then (walk_subparts lib p subparts depth path named_body_allowed 0 subparts st) (\<lambda>(st, results).
          if part_is_explicit_attachment p (part_filename p) named_body_allowed
          then Inr (st, empty_selection)
          else Inr (st, select_multipart_body p subparts (mml_to_lowercase lib (mp_mimetype p))
                          (map fst results) (map snd results)))
      else walk_leaf lib p named_body_allowed st)"
| "walk_subparts lib p all_subparts depth path named_body_allowed index [] st = Inr (st, [])"
| "walk_subparts lib p all_subparts depth path named_body_allowed index (sub # subs) st =
     (let child = named_body_allowed_for_child p all_subparts (mml_to_lowercase lib (mp_mimetype p))
                    named_body_allowed index;
          attachment_start = ps_next_attachment_index st in
      and_then (walk_part lib (depth + 1) (path @ [index]) child sub st) (\<lambda>(st, selection).
        map_ok (\<lambda>(st', rest). (st', (selection, attachment_start, ps_next_attachment_index st) # rest))
          (walk_subparts lib p all_subparts depth path named_body_allowed (index + 1) subs st)))"

section \<open>Parsing a message\<close>

definition unwrap_or_default :: "string option \<Rightarrow> string" where
  "unwrap_or_default m = (case m of Some s \<Rightarrow> s | None \<Rightarrow> [])"

definition first_raw_structured_header :: "mime_part \<Rightarrow> string \<Rightarrow> mime_error + string" where
  "first_raw_structured_header p field =
     (case mp_first_raw p field of
        None \<Rightarrow> Inr []
      | Some raw \<Rightarrow> unfold_raw_structured_header field raw)"

definition choose_safe_body :: "mime_lib \<Rightarrow> string \<Rightarrow> string option \<Rightarrow> string" where
  "choose_safe_body lib text_body html_body =
     (if \<not> blank text_body then text_body
      else (case html_body of Some html \<Rightarrow> mml_html_to_safe_text lib html | None \<Rightarrow> []))"

definition parse_rfc5322_with_limits :: "mime_lib \<Rightarrow> string \<Rightarrow> mime_limits \<Rightarrow> mime_error + parsed_message" where
  "parse_rfc5322_with_limits lib bytes limits =
     and_then (ensure (length bytes \<le> max_message_bytes limits) (MessageTooLarge (max_message_bytes limits))) (\<lambda>_.
     and_then (preflight_mime_structure (mml_headers lib) bytes limits) (\<lambda>_.
     and_then (map_err MailparseError (mml_parse_mail lib bytes)) (\<lambda>parsed.
     (let root = pm_part parsed in
     and_then (walk_part lib 0 [] False parsed (parse_state_new limits)) (\<lambda>(state, selection).
     (let text_body = unwrap_or_default (or_else (bs_text selection) (bs_text_fallback selection));
          html_body = bs_html selection in
     and_then (first_raw_structured_header root ''Message-ID'') (\<lambda>message_id.
     and_then (first_raw_structured_header root ''References'') (\<lambda>references.
     and_then (first_raw_structured_header root ''In-Reply-To'') (\<lambda>in_reply_to.
       Inr \<lparr>pg_headers = fold (\<lambda>(field, v). Mapping.update field v) (mp_headers root) Mapping.empty,
            pg_subject = unwrap_or_default (mp_first_value root ''Subject''),
            pg_from = unwrap_or_default (mp_first_value root ''From''),
            pg_to = unwrap_or_default (mp_first_value root ''To''),
            pg_cc = unwrap_or_default (mp_first_value root ''Cc''),
            pg_reply_to = unwrap_or_default (mp_first_value root ''Reply-To''),
            pg_message_id = message_id, pg_references = references, pg_in_reply_to = in_reply_to,
            pg_text_body = text_body, pg_html_body = html_body,
            pg_html_cid_part_scopes = bs_html_cid_part_scopes selection,
            pg_safe_body = choose_safe_body lib text_body html_body,
            pg_decode_warnings = ps_decode_warnings state,
            pg_attachments = ps_attachments state,
            pg_mime_tree = ps_tree state,
            pg_classification = ps_classification state\<rparr>)))))))))"

definition parse_rfc5322 :: "mime_lib \<Rightarrow> string \<Rightarrow> mime_error + parsed_message" where
  "parse_rfc5322 lib bytes = parse_rfc5322_with_limits lib bytes default_limits"

section \<open>Extracting attachments\<close>

text \<open>The leaf branch of \<open>collect\_attachment\_data\<close>; the state is total, next index and report.\<close>

type_synonym collect_state = "nat \<times> nat \<times> extraction_report"

definition collect_leaf ::
  "mime_lib \<Rightarrow> mime_limits \<Rightarrow> bool \<Rightarrow> nat set option \<Rightarrow> mime_part \<Rightarrow> collect_state \<Rightarrow> mime_error + collect_state" where
  "collect_leaf lib limits named_body_allowed selected p st =
     (case st of (decoded_sum, next_part_index, report) \<Rightarrow>
     (let mimetype = to_ascii_lowercase (mp_mimetype p);
          filename = part_filename p;
          explicitly_attached = part_is_explicit_attachment p filename named_body_allowed in
      if \<not> part_is_attachment_like mimetype explicitly_attached (crypto_part_kind_of p \<noteq> None) then Inr st
      else
        (let part_index = next_part_index; next_part_index = next_part_index + 1 in
         if (case selected of Some s \<Rightarrow> part_index \<notin> s | None \<Rightarrow> False) then Inr (decoded_sum, next_part_index, report)
         else
           (let filename = (case filename of Some f \<Rightarrow> f | None \<Rightarrow> fallback_attachment_filename p);
                description = part_description lib mimetype (Some filename) True in
            and_then (ensure_decode_may_fit p description (max_decoded_part_bytes limits)) (\<lambda>_.
              (case decode_part_bytes lib p of
                 Inr decoded \<Rightarrow>
                   and_then (reserve_total limits description decoded_sum (length (dp_bytes decoded))) (\<lambda>decoded_sum.
                     Inr (decoded_sum, next_part_index,
                       report\<lparr>er_attachments := er_attachments report @
                         [\<lparr>ea_part_index = part_index, ea_filename = filename, ea_content_type = mimetype,
                           ea_content_id = mp_first_value p ''Content-ID'', ea_bytes = dp_bytes decoded,
                           ea_decode_warnings = dp_warnings decoded\<rparr>]\<rparr>))
               | Inl err \<Rightarrow>
                   Inr (decoded_sum, next_part_index,
                     report\<lparr>er_failures := er_failures report @
                       [\<lparr>df_part_index = part_index, df_filename = filename, df_content_type = mimetype,
                         df_error = err\<rparr>]\<rparr>)))))))"

fun collect_attachment_data ::
    "mime_lib \<Rightarrow> mime_limits \<Rightarrow> bool \<Rightarrow> nat set option \<Rightarrow> parsed_mail \<Rightarrow> collect_state \<Rightarrow> mime_error + collect_state"
  and collect_subparts ::
    "mime_lib \<Rightarrow> mime_limits \<Rightarrow> mime_part \<Rightarrow> parsed_mail list \<Rightarrow> bool \<Rightarrow> nat set option \<Rightarrow> nat \<Rightarrow> parsed_mail list \<Rightarrow>
       collect_state \<Rightarrow> mime_error + collect_state" where
  "collect_attachment_data lib limits named_body_allowed selected (ParsedMail p subparts) st =
     (if subparts \<noteq> [] then collect_subparts lib limits p subparts named_body_allowed selected 0 subparts st
      else collect_leaf lib limits named_body_allowed selected p st)"
| "collect_subparts lib limits p all_subparts named_body_allowed selected index [] st = Inr st"
| "collect_subparts lib limits p all_subparts named_body_allowed selected index (sub # subs) st =
     and_then (collect_attachment_data lib limits
         (named_body_allowed_for_child p all_subparts (to_ascii_lowercase (mp_mimetype p)) named_body_allowed index)
         selected sub st)
       (collect_subparts lib limits p all_subparts named_body_allowed selected (index + 1) subs)"

definition extract_selected_attachments_detailed_with_limits ::
  "mime_lib \<Rightarrow> string \<Rightarrow> nat set option \<Rightarrow> mime_limits \<Rightarrow> mime_error + extraction_report" where
  "extract_selected_attachments_detailed_with_limits lib bytes selected limits =
     and_then (ensure (length bytes \<le> max_message_bytes limits) (MessageTooLarge (max_message_bytes limits))) (\<lambda>_.
     and_then (preflight_mime_structure (mml_headers lib) bytes limits) (\<lambda>_.
     and_then (map_err MailparseError (mml_parse_mail lib bytes)) (\<lambda>parsed.
       map_ok (\<lambda>(decoded_sum, next_part_index, report). report)
         (collect_attachment_data lib limits False selected parsed (0, 0, empty_report)))))"

definition extract_attachments_detailed_with_limits ::
  "mime_lib \<Rightarrow> string \<Rightarrow> mime_limits \<Rightarrow> mime_error + extraction_report" where
  "extract_attachments_detailed_with_limits lib bytes limits =
     extract_selected_attachments_detailed_with_limits lib bytes None limits"

definition extract_attachments_detailed :: "mime_lib \<Rightarrow> string \<Rightarrow> mime_error + extraction_report" where
  "extract_attachments_detailed lib bytes = extract_attachments_detailed_with_limits lib bytes default_limits"

definition extract_attachment_parts_detailed_with_limits ::
  "mime_lib \<Rightarrow> string \<Rightarrow> nat list \<Rightarrow> mime_limits \<Rightarrow> mime_error + extraction_report" where
  "extract_attachment_parts_detailed_with_limits lib bytes part_indexes limits =
     extract_selected_attachments_detailed_with_limits lib bytes (Some (set part_indexes)) limits"

definition extract_attachment_parts_detailed ::
  "mime_lib \<Rightarrow> string \<Rightarrow> nat list \<Rightarrow> mime_error + extraction_report" where
  "extract_attachment_parts_detailed lib bytes part_indexes =
     extract_attachment_parts_detailed_with_limits lib bytes part_indexes default_limits"

text \<open>The strict contract: the first failure turns the whole extraction into an error.\<close>

definition strict_report :: "extraction_report \<Rightarrow> mime_error + extracted_attachment list" where
  "strict_report report =
     (case er_failures report of
        failure # _ \<Rightarrow> Inl (AttachmentFailure (df_error failure))
      | [] \<Rightarrow> Inr (er_attachments report))"

definition extract_attachments_with_limits ::
  "mime_lib \<Rightarrow> string \<Rightarrow> mime_limits \<Rightarrow> mime_error + extracted_attachment list" where
  "extract_attachments_with_limits lib bytes limits =
     and_then (extract_attachments_detailed_with_limits lib bytes limits) strict_report"

definition extract_attachments :: "mime_lib \<Rightarrow> string \<Rightarrow> mime_error + extracted_attachment list" where
  "extract_attachments lib bytes = extract_attachments_with_limits lib bytes default_limits"

section \<open>The enumeration of attachments\<close>

text \<open>
  The specification both traversals share: the attachment-like leaves of the tree in
  depth-first order, given how media types are lower-cased.
\<close>

fun attachment_leaves :: "(string \<Rightarrow> string) \<Rightarrow> bool \<Rightarrow> parsed_mail \<Rightarrow> mime_part list"
  and subpart_leaves :: "(string \<Rightarrow> string) \<Rightarrow> mime_part \<Rightarrow> parsed_mail list \<Rightarrow> bool \<Rightarrow> nat \<Rightarrow> parsed_mail list \<Rightarrow> mime_part list"
where
  "attachment_leaves lower named (ParsedMail p subparts) =
     (if subparts \<noteq> [] then subpart_leaves lower p subparts named 0 subparts
      else if part_is_attachment_like (lower (mp_mimetype p))
                (part_is_explicit_attachment p (part_filename p) named) (crypto_part_kind_of p \<noteq> None)
      then [p] else [])"
| "subpart_leaves lower p all_subparts named index [] = []"
| "subpart_leaves lower p all_subparts named index (sub # subs) =
     attachment_leaves lower
       (named_body_allowed_for_child p all_subparts (lower (mp_mimetype p)) named index) sub @
     subpart_leaves lower p all_subparts named (index + 1) subs"

fun mimetypes :: "parsed_mail \<Rightarrow> string list" where
  "mimetypes (ParsedMail p subparts) = mp_mimetype p # concat (map mimetypes subparts)"

definition leaf_filename :: "mime_part \<Rightarrow> string" where
  "leaf_filename p = (case part_filename p of Some f \<Rightarrow> f | None \<Rightarrow> fallback_attachment_filename p)"

definition walk_entry :: "mime_lib \<Rightarrow> nat \<times> mime_part \<Rightarrow> attachment" where
  "walk_entry lib ip = (case ip of (i, p) \<Rightarrow>
     (case decode_part_bytes lib p of
        Inr d \<Rightarrow> \<lparr>at_part_index = i, at_filename = Some (leaf_filename p),
                  at_content_type = mml_to_lowercase lib (mp_mimetype p), at_size = length (dp_bytes d),
                  at_content_id = mp_first_value p ''Content-ID'', at_decode_warnings = dp_warnings d,
                  at_decode_error = None\<rparr>
      | Inl e \<Rightarrow> \<lparr>at_part_index = i, at_filename = Some (leaf_filename p),
                  at_content_type = mml_to_lowercase lib (mp_mimetype p), at_size = 0,
                  at_content_id = mp_first_value p ''Content-ID'', at_decode_warnings = [],
                  at_decode_error = Some (mml_show_error lib e)\<rparr>))"

lemma enter_part_fields [simp]:
  "ps_limits (enter_part lib d path p st) = ps_limits st"
  "ps_total_decoded_bytes (enter_part lib d path p st) = ps_total_decoded_bytes st"
  "ps_next_attachment_index (enter_part lib d path p st) = ps_next_attachment_index st"
  "ps_attachments (enter_part lib d path p st) = ps_attachments st"
  by (simp_all add: enter_part_def Let_def)

lemma add_warnings_fields [simp]:
  "ps_limits (add_warnings ws st) = ps_limits st"
  "ps_total_decoded_bytes (add_warnings ws st) = ps_total_decoded_bytes st"
  "ps_next_attachment_index (add_warnings ws st) = ps_next_attachment_index st"
  "ps_attachments (add_warnings ws st) = ps_attachments st"
  by (simp_all add: add_warnings_def)

lemma reserve_total_Inr:
  "reserve_total limits part t n = Inr t' \<longleftrightarrow>
     t' = t + n \<and> n \<le> max_decoded_part_bytes limits \<and> t' \<le> max_total_decoded_bytes limits \<and> t' < 2 ^ 64"
  by (auto simp: reserve_total_def result_simps checked_add_nat)

lemma reserve_decoded_Inr:
  "reserve_decoded st part n = Inr st' \<longleftrightarrow>
     st' = st\<lparr>ps_total_decoded_bytes := ps_total_decoded_bytes st + n\<rparr> \<and>
     n \<le> max_decoded_part_bytes (ps_limits st) \<and>
     ps_total_decoded_bytes st + n \<le> max_total_decoded_bytes (ps_limits st) \<and>
     ps_total_decoded_bytes st + n < 2 ^ 64"
  by (auto simp: reserve_decoded_def result_simps reserve_total_Inr)

lemma walk_attachment_Inr:
  assumes "walk_attachment lib p (mml_to_lowercase lib (mp_mimetype p)) (part_filename p) st = Inr (st', sel)"
  shows "ps_attachments st' = ps_attachments st @ [walk_entry lib (ps_next_attachment_index st, p)] \<and>
     ps_next_attachment_index st' = ps_next_attachment_index st + 1 \<and> ps_limits st' = ps_limits st \<and>
     sel = empty_selection \<and>
     ps_total_decoded_bytes st' =
       ps_total_decoded_bytes st + at_size (walk_entry lib (ps_next_attachment_index st, p)) \<and>
     (ps_total_decoded_bytes st' = ps_total_decoded_bytes st \<or>
      ps_total_decoded_bytes st' \<le> max_total_decoded_bytes (ps_limits st)) \<and>
     at_size (walk_entry lib (ps_next_attachment_index st, p)) \<le> max_decoded_part_bytes (ps_limits st)"
proof -
  have f: "(case part_filename p of None \<Rightarrow> Some (fallback_attachment_filename p) | Some f \<Rightarrow> Some f) =
      Some (leaf_filename p)" by (simp add: leaf_filename_def split: option.splits)
  show ?thesis
  proof (cases "decode_part_bytes lib p")
    case (Inl e)
    with assms show ?thesis unfolding walk_attachment_def Let_def f
      by (auto simp: result_simps walk_entry_def)
  next
    case (Inr d)
    with assms show ?thesis unfolding walk_attachment_def Let_def f
      by (auto simp: result_simps walk_entry_def reserve_decoded_Inr)
  qed
qed

lemma walk_body_Inr:
  assumes "walk_body lib p m f st = Inr (st', sel)"
  shows "ps_attachments st' = ps_attachments st \<and> ps_next_attachment_index st' = ps_next_attachment_index st \<and>
     ps_limits st' = ps_limits st \<and> ps_total_decoded_bytes st \<le> ps_total_decoded_bytes st' \<and>
     (ps_total_decoded_bytes st' = ps_total_decoded_bytes st \<or>
      ps_total_decoded_bytes st' \<le> max_total_decoded_bytes (ps_limits st)) \<and>
     (sel = empty_selection \<or> (\<exists>body. sel = select_body m body))"
proof (cases "validate_text_transfer_encoding p")
  case (Inl e)
  with assms show ?thesis unfolding walk_body_def Let_def by auto
next
  case (Inr ws)
  with assms show ?thesis unfolding walk_body_def Let_def
    by (cases "mp_body p") (auto simp: result_simps reserve_decoded_Inr)
qed

lemma walk_leaf_Inr:
  assumes "walk_leaf lib p named st = Inr (st', sel)"
  shows "ps_attachments st' = ps_attachments st @
       map (walk_entry lib) (enumerate (ps_next_attachment_index st)
         (attachment_leaves (mml_to_lowercase lib) named (ParsedMail p []))) \<and>
     ps_next_attachment_index st' = ps_next_attachment_index st +
       length (attachment_leaves (mml_to_lowercase lib) named (ParsedMail p [])) \<and>
     ps_limits st' = ps_limits st"
  using assms unfolding walk_leaf_def Let_def
  by (auto dest!: walk_attachment_Inr walk_body_Inr split: if_splits)

lemma walk_part_leaves:
  "walk_part lib depth path named t st = Inr (st', sel) \<Longrightarrow>
     ps_attachments st' = ps_attachments st @
       map (walk_entry lib) (enumerate (ps_next_attachment_index st) (attachment_leaves (mml_to_lowercase lib) named t)) \<and>
     ps_next_attachment_index st' =
       ps_next_attachment_index st + length (attachment_leaves (mml_to_lowercase lib) named t) \<and>
     ps_limits st' = ps_limits st"
  and walk_subparts_leaves:
  "walk_subparts lib p alls depth path named index subs st = Inr (st', rs) \<Longrightarrow>
     ps_attachments st' = ps_attachments st @
       map (walk_entry lib) (enumerate (ps_next_attachment_index st)
         (subpart_leaves (mml_to_lowercase lib) p alls named index subs)) \<and>
     ps_next_attachment_index st' =
       ps_next_attachment_index st + length (subpart_leaves (mml_to_lowercase lib) p alls named index subs) \<and>
     ps_limits st' = ps_limits st"
proof (induction lib depth path named t st and lib p alls depth path named index subs st
    arbitrary: st' sel and st' rs rule: walk_part_walk_subparts.induct)
  case (1 lib depth path named p subs st)
  show ?case
  proof (cases "subs = []")
    case True
    with "1.prems" walk_leaf_Inr [of lib p named "enter_part lib depth path p st" st' sel]
    show ?thesis by (simp add: Let_def)
  next
    case False
    with "1.prems" obtain rs where
      "walk_subparts lib p subs depth path named 0 subs (enter_part lib depth path p st) = Inr (st', rs)"
      by (auto simp: Let_def result_simps split: if_splits)
    from "1.IH" [OF refl False this] False show ?thesis by simp
  qed
next
  case (3 lib p alls depth path named index sub subs st)
  from "3.prems" obtain st1 sel1 rs1 where
    w: "walk_part lib (depth + 1) (path @ [index])
       (named_body_allowed_for_child p alls (mml_to_lowercase lib (mp_mimetype p)) named index) sub st = Inr (st1, sel1)"
      "walk_subparts lib p alls depth path named (index + 1) subs st1 = Inr (st', rs1)"
    by (auto simp: Let_def result_simps)
  from "3.IH"(1) [OF refl refl w(1)] "3.IH"(2) [OF refl refl w(2)]
  show ?case by (simp add: enumerate_append_eq)
qed simp

section \<open>Invariants of the walk\<close>

text \<open>
  What entering a part and finishing a leaf keep, the whole walk keeps.
\<close>

locale walk_invariant =
  fixes lib :: mime_lib and inv :: "parse_state \<Rightarrow> bool"
  assumes enter: "inv st \<Longrightarrow> inv (enter_part lib depth path p st)"
    and leaf: "inv st \<Longrightarrow> walk_leaf lib p named st = Inr (st', sel) \<Longrightarrow> inv st'"
begin

lemma walk_keeps:
  "walk_part lib' depth path named t st = Inr (st', sel) \<Longrightarrow> lib' = lib \<Longrightarrow> inv st \<Longrightarrow> inv st'"
  and subparts_keep:
  "walk_subparts lib' p alls depth path named index subs st = Inr (st', rs) \<Longrightarrow> lib' = lib \<Longrightarrow> inv st \<Longrightarrow> inv st'"
proof (induction lib' depth path named t st and lib' p alls depth path named index subs st
    arbitrary: st' sel and st' rs rule: walk_part_walk_subparts.induct)
  case (1 lib' depth path named p subs st)
  show ?case
  proof (cases "subs = []")
    case True
    with "1.prems" leaf enter show ?thesis by (fastforce simp: Let_def)
  next
    case False
    with "1.prems" obtain rs where
      "walk_subparts lib' p subs depth path named 0 subs (enter_part lib' depth path p st) = Inr (st', rs)"
      by (auto simp: Let_def result_simps split: if_splits)
    from "1.IH" [OF refl False this] "1.prems"(2,3) enter show ?thesis by simp
  qed
next
  case (3 lib' p alls depth path named index sub subs st)
  from "3.prems"(1) obtain st1 sel1 rs1 where
    w: "walk_part lib' (depth + 1) (path @ [index])
       (named_body_allowed_for_child p alls (mml_to_lowercase lib' (mp_mimetype p)) named index) sub st = Inr (st1, sel1)"
      "walk_subparts lib' p alls depth path named (index + 1) subs st1 = Inr (st', rs1)"
    by (auto simp: Let_def result_simps)
  from "3.IH"(1) [OF refl refl w(1) "3.prems"(2,3)] "3.IH"(2) [OF refl refl w(2) "3.prems"(2)]
  show ?case by blast
qed simp

end

text \<open>The decoded bytes are accounted for: nothing listed exceeds the limits.\<close>

definition within_budget :: "mime_limits \<Rightarrow> parse_state \<Rightarrow> bool" where
  "within_budget limits st \<longleftrightarrow>
     ps_limits st = limits \<and>
     sum_list (map at_size (ps_attachments st)) \<le> ps_total_decoded_bytes st \<and>
     ps_total_decoded_bytes st \<le> max_total_decoded_bytes limits \<and>
     (\<forall>a \<in> set (ps_attachments st). at_size a \<le> max_decoded_part_bytes limits)"

lemma walk_leaf_budget:
  assumes "within_budget limits st" "walk_leaf lib p named st = Inr (st', sel)"
  shows "within_budget limits st'"
proof -
  let ?m = "mml_to_lowercase lib (mp_mimetype p)"
  let ?a = "part_is_attachment_like ?m (part_is_explicit_attachment p (part_filename p) named)
      (crypto_part_kind_of p \<noteq> None)"
  consider "?a" | "\<not> ?a" "crypto_part_kind_of p \<noteq> None" | "\<not> ?a" "crypto_part_kind_of p = None" by blast
  then show ?thesis
  proof cases
    case 1
    with assms(2) have "walk_attachment lib p ?m (part_filename p) st = Inr (st', sel)"
      by (simp add: walk_leaf_def Let_def)
    from walk_attachment_Inr [OF this] assms(1) show ?thesis by (auto simp: within_budget_def)
  next
    case 2
    with assms show ?thesis by (simp add: walk_leaf_def Let_def)
  next
    case 3
    with assms(2) have "walk_body lib p ?m (part_filename p) st = Inr (st', sel)"
      by (simp add: walk_leaf_def Let_def)
    from walk_body_Inr [OF this] assms(1) show ?thesis by (auto simp: within_budget_def)
  qed
qed

interpretation budget: walk_invariant lib "within_budget limits" for lib limits
proof
  fix st depth path p
  assume "within_budget limits st"
  then show "within_budget limits (enter_part lib depth path p st)" by (simp add: within_budget_def)
qed (rule walk_leaf_budget)

section \<open>Content-ID scopes of the selected HTML\<close>

text \<open>The scopes partition the byte range of the HTML body, in order.\<close>

fun contiguous :: "nat \<Rightarrow> nat \<Rightarrow> cid_scope list \<Rightarrow> bool" where
  "contiguous a b [] = (a = b)"
| "contiguous a b (s # ss) = (cs_start s = a \<and> a \<le> cs_end s \<and> contiguous (cs_end s) b ss)"

definition scope_indexes_below :: "nat \<Rightarrow> cid_scope \<Rightarrow> bool" where
  "scope_indexes_below n s \<longleftrightarrow>
     (case cs_part_indexes s of None \<Rightarrow> True | Some is \<Rightarrow> distinct is \<and> (\<forall>i \<in> set is. i < n))"

definition scopes_cover :: "string option \<Rightarrow> cid_scope list \<Rightarrow> bool" where
  "scopes_cover html scopes \<longleftrightarrow>
     (case html of None \<Rightarrow> scopes = [] | Some h \<Rightarrow> scopes \<noteq> [] \<and> contiguous 0 (length h) scopes)"

definition scopes_ok :: "nat \<Rightarrow> body_selection \<Rightarrow> bool" where
  "scopes_ok n sel \<longleftrightarrow>
     scopes_cover (bs_html sel) (bs_html_cid_part_scopes sel) \<and>
     (\<forall>s \<in> set (bs_html_cid_part_scopes sel). scope_indexes_below n s)"

lemma scopes_cover_simps [simp]:
  "scopes_cover None scopes \<longleftrightarrow> scopes = []"
  "scopes_cover (Some h) scopes \<longleftrightarrow> scopes \<noteq> [] \<and> contiguous 0 (length h) scopes"
  by (simp_all add: scopes_cover_def)

lemma scopes_ok_empty [simp]: "scopes_ok n empty_selection"
  by (simp add: scopes_ok_def empty_selection_def)

lemma scopes_ok_mono: "scopes_ok n sel \<Longrightarrow> n \<le> m \<Longrightarrow> scopes_ok m sel"
proof -
  have "scope_indexes_below n s \<Longrightarrow> n \<le> m \<Longrightarrow> scope_indexes_below m s" for s
    by (auto simp: scope_indexes_below_def split: option.splits)
  then show "scopes_ok n sel \<Longrightarrow> n \<le> m \<Longrightarrow> scopes_ok m sel" by (simp add: scopes_ok_def)
qed

lemma contiguous_append:
  "contiguous a b ss \<Longrightarrow> contiguous b c ts \<Longrightarrow> contiguous a c (ss @ ts)"
  by (induction ss arbitrary: a) auto

lemma contiguous_shift: "contiguous a b ss \<Longrightarrow> contiguous (a + k) (b + k) (map (shift_scope k) ss)"
  by (induction ss arbitrary: a) (auto simp: shift_scope_def)

lemma contiguous_le: "contiguous a b ss \<Longrightarrow> a \<le> b"
  by (induction ss arbitrary: a) (auto intro: order_trans)

lemma contiguous_extend_last:
  "ss \<noteq> [] \<Longrightarrow> contiguous a b ss \<Longrightarrow> b \<le> c \<Longrightarrow> contiguous a c (extend_last c ss)"
proof (induction ss arbitrary: a)
  case (Cons s ss)
  show ?case
  proof (cases "ss = []")
    case True
    with Cons.prems show ?thesis by (auto simp: extend_last_def)
  next
    case False
    with Cons.IH [of "cs_end s"] Cons.prems show ?thesis by (simp add: extend_last_def)
  qed
qed simp

lemma contiguous_end: "ss \<noteq> [] \<Longrightarrow> contiguous a b ss \<Longrightarrow> cs_end (last ss) = b"
  by (induction ss arbitrary: a) (auto split: if_splits)

lemma scope_below_fields [simp]:
  "scope_indexes_below n (shift_scope k s) = scope_indexes_below n s"
  "scope_indexes_below n (s\<lparr>cs_end := e\<rparr>) = scope_indexes_below n s"
  "scope_indexes_below n (whole_scope l)"
  by (simp_all add: scope_indexes_below_def shift_scope_def whole_scope_def)

lemma extend_last_below:
  "\<forall>s \<in> set ss. scope_indexes_below n s \<Longrightarrow> \<forall>s \<in> set (extend_last c ss). scope_indexes_below n s"
  by (auto simp: extend_last_def dest: in_set_butlastD)

lemma contiguous_whole [simp]: "contiguous 0 n [whole_scope n]"
  by (simp add: whole_scope_def)

text \<open>
  Appending keeps the partition; its proof also shows that the end of the last scope is the
  previous length, which the code asserts in debug builds.
\<close>

lemma append_html_body_scopes:
  assumes "append_html_body d ds s ss = (html, scopes)"
    and "scopes_cover d ds" and "scopes_cover s ss"
    and "\<forall>x \<in> set ds. scope_indexes_below n x" "\<forall>x \<in> set ss. scope_indexes_below n x"
  shows "scopes_cover html scopes \<and> (\<forall>x \<in> set scopes. scope_indexes_below n x)"
proof (cases "nonblank s")
  case None
  with assms(1) have "html = d" "scopes = ds" by (simp_all add: append_html_body_def)
  with assms(2,4) show ?thesis by simp
next
  case (Some src)
  then have s: "s = Some src" by (auto simp: nonblank_def split: option.splits if_splits)
  with assms(3) have ss: "ss \<noteq> []" "contiguous 0 (length src) ss" by auto
  show ?thesis
  proof (cases "\<exists>h. d = Some h \<and> \<not> blank h")
    case True
    then obtain h where h: "d = Some h" "\<not> blank h" by blast
    with assms(2) have ds: "ds \<noteq> []" "contiguous 0 (length h) ds" by auto
    let ?k = "length h + 2"
    from assms(1) Some h ss have r: "html = Some (h @ [LF, LF] @ src)"
        "scopes = extend_last ?k ds @ map (shift_scope ?k) ss"
      by (auto simp: append_html_body_def Let_def)
    have "contiguous 0 ?k (extend_last ?k ds)" by (rule contiguous_extend_last [OF ds]) simp
    moreover have "contiguous (0 + ?k) (length src + ?k) (map (shift_scope ?k) ss)"
      by (rule contiguous_shift [OF ss(2)])
    ultimately have "contiguous 0 (length src + ?k) scopes" unfolding r(2) by (simp add: contiguous_append)
    moreover have "\<forall>x \<in> set scopes. scope_indexes_below n x"
      using extend_last_below [OF assms(4), of ?k] assms(5) by (auto simp: r(2))
    ultimately show ?thesis using r ss by (simp add: add.commute)
  next
    case False
    with assms(1) Some ss have "html = Some src" "scopes = ss"
      by (auto simp: append_html_body_def Let_def split: option.splits)
    with ss assms(5) show ?thesis by simp
  qed
qed

lemma selection_append_scopes:
  "scopes_ok n a \<Longrightarrow> scopes_ok n b \<Longrightarrow> scopes_ok n (selection_append a b)"
proof -
  assume ok: "scopes_ok n a" "scopes_ok n b"
  obtain html scopes where r: "append_html_body (bs_html a) (bs_html_cid_part_scopes a)
      (bs_html b) (bs_html_cid_part_scopes b) = (html, scopes)" by fastforce
  have "scopes_cover html scopes \<and> (\<forall>x \<in> set scopes. scope_indexes_below n x)"
    by (rule append_html_body_scopes [OF r]) (use ok in \<open>simp_all add: scopes_ok_def\<close>)
  then show "scopes_ok n (selection_append a b)"
    by (simp add: selection_append_def r scopes_ok_def)
qed

lemma replace_supported_scopes:
  "scopes_ok n a \<Longrightarrow> scopes_ok n b \<Longrightarrow> scopes_ok n (replace_supported a b)"
  by (auto simp: replace_supported_def Let_def scopes_ok_def)

lemma fold_scopes:
  assumes "\<And>a b. scopes_ok n a \<Longrightarrow> scopes_ok n b \<Longrightarrow> scopes_ok n (f a b)"
  shows "\<forall>s \<in> set ss. scopes_ok n s \<Longrightarrow> scopes_ok n acc \<Longrightarrow> scopes_ok n (fold (\<lambda>s acc. f acc s) ss acc)"
  by (induction ss arbitrary: acc) (auto intro: assms)

lemma insert_new_props:
  "distinct xs \<Longrightarrow> distinct (insert_new xs ys) \<and> set (insert_new xs ys) = set xs \<union> set ys"
  unfolding insert_new_def by (induction ys arbitrary: xs) auto

lemma sibling_indexes_bound:
  assumes "\<forall>(a, b) \<in> set ranges. b \<le> n"
  shows "\<forall>i \<in> set (sibling_indexes r ranges). i < n"
proof -
  have "\<forall>x \<in> set (enumerate 0 ranges). snd (snd x) \<le> n"
  proof
    fix x assume "x \<in> set (enumerate 0 ranges)"
    then have "snd x \<in> set (map snd (enumerate 0 ranges))" unfolding set_map by (rule imageI)
    then have "snd x \<in> set ranges" by simp
    with assms show "snd (snd x) \<le> n" by (cases "snd x") auto
  qed
  then show ?thesis by (fastforce simp: sibling_indexes_def split: if_splits)
qed

lemma related_scope_props:
  assumes "scope_indexes_below n s" "\<forall>(a, b) \<in> set ranges. b \<le> n"
  shows "scope_indexes_below n (related_scope r ranges s)"
proof -
  let ?is = "case cs_part_indexes s of None \<Rightarrow> [] | Some is \<Rightarrow> is"
  have "distinct ?is" "\<forall>i \<in> set ?is. i < n"
    using assms(1) by (auto simp: scope_indexes_below_def split: option.splits)
  with insert_new_props [of ?is "sibling_indexes r ranges"] sibling_indexes_bound [OF assms(2), of r]
  show ?thesis by (auto simp: scope_indexes_below_def related_scope_def)
qed

lemma contiguous_related: "contiguous a b (map (related_scope r ranges) ss) = contiguous a b ss"
  by (induction ss arbitrary: a) (auto simp: related_scope_def)

lemma select_multipart_scopes:
  assumes sels: "\<forall>s \<in> set selections. scopes_ok n s" and ranges: "\<forall>(a, b) \<in> set ranges. b \<le> n"
  shows "scopes_ok n (select_multipart_body p subs mimetype selections ranges)"
proof -
  have alt: "scopes_ok n (fold (\<lambda>s acc. replace_supported acc s) selections empty_selection)"
    by (rule fold_scopes [OF replace_supported_scopes sels]) simp_all
  have mixed: "scopes_ok n (fold (\<lambda>s acc. selection_append acc s) selections empty_selection)"
    by (rule fold_scopes [OF selection_append_scopes sels]) simp_all
  let ?r = "related_root_index p subs"
  let ?sel = "case get_at selections ?r of Some s \<Rightarrow> s | None \<Rightarrow> empty_selection"
  have sel: "scopes_ok n ?sel" using sels by (auto simp: get_at_Some split: option.splits)
  have related: "scopes_ok n (case bs_html ?sel of None \<Rightarrow> ?sel
      | Some html \<Rightarrow> ?sel\<lparr>bs_html_cid_part_scopes := map (related_scope ?r ranges)
          (if bs_html_cid_part_scopes ?sel = [] then [whole_scope (length html)]
           else bs_html_cid_part_scopes ?sel)\<rparr>)"
  proof (cases "bs_html ?sel")
    case None
    with sel show ?thesis by simp
  next
    case (Some html)
    with sel have "bs_html_cid_part_scopes ?sel \<noteq> []" "contiguous 0 (length html) (bs_html_cid_part_scopes ?sel)"
        "\<forall>s \<in> set (bs_html_cid_part_scopes ?sel). scope_indexes_below n s"
      by (auto simp: scopes_ok_def)
    with Some related_scope_props [OF _ ranges] show ?thesis
      by (simp add: scopes_ok_def contiguous_related)
  qed
  have signed: "scopes_ok n (case selections of s # _ \<Rightarrow> s | [] \<Rightarrow> empty_selection)"
    using sels by (cases selections) auto
  show ?thesis
    unfolding select_multipart_body_def Let_def using alt mixed related signed by simp
qed

lemma select_body_scopes: "scopes_ok n (select_body m body)"
  by (simp add: select_body_def scopes_ok_def empty_selection_def whole_scope_def scope_indexes_below_def)

lemma walk_leaf_scopes: "walk_leaf lib p named st = Inr (st', sel) \<Longrightarrow> scopes_ok n sel"
  unfolding walk_leaf_def Let_def
  by (auto dest!: walk_attachment_Inr walk_body_Inr split: if_splits intro: select_body_scopes)

lemma walk_part_scopes:
  "walk_part lib depth path named t st = Inr (st', sel) \<Longrightarrow> scopes_ok (ps_next_attachment_index st') sel"
  and walk_subparts_scopes:
  "walk_subparts lib p alls depth path named index subs st = Inr (st', rs) \<Longrightarrow>
     (\<forall>(sel, a, b) \<in> set rs. scopes_ok (ps_next_attachment_index st') sel \<and> b \<le> ps_next_attachment_index st')"
proof (induction lib depth path named t st and lib p alls depth path named index subs st
    arbitrary: st' sel and st' rs rule: walk_part_walk_subparts.induct)
  case (1 lib depth path named p subs st)
  show ?case
  proof (cases "subs = []")
    case True
    with "1.prems" walk_leaf_scopes show ?thesis by (auto simp: Let_def)
  next
    case False
    with "1.prems" obtain rs where
      w: "walk_subparts lib p subs depth path named 0 subs (enter_part lib depth path p st) = Inr (st', rs)"
      and sel: "sel = empty_selection \<or> sel = select_multipart_body p subs (mml_to_lowercase lib (mp_mimetype p))
                          (map fst rs) (map snd rs)"
      by (auto simp: Let_def result_simps split: if_splits)
    from "1.IH" [OF refl False w] have
      "\<forall>s \<in> set (map fst rs). scopes_ok (ps_next_attachment_index st') s"
      "\<forall>(a, b) \<in> set (map snd rs). b \<le> ps_next_attachment_index st'" by fastforce+
    from select_multipart_scopes [OF this] sel show ?thesis by auto
  qed
next
  case (3 lib p alls depth path named index sub subs st)
  from "3.prems" obtain st1 sel1 rs1 where
    w: "walk_part lib (depth + 1) (path @ [index])
       (named_body_allowed_for_child p alls (mml_to_lowercase lib (mp_mimetype p)) named index) sub st = Inr (st1, sel1)"
      "walk_subparts lib p alls depth path named (index + 1) subs st1 = Inr (st', rs1)"
      "rs = (sel1, ps_next_attachment_index st, ps_next_attachment_index st1) # rs1"
    by (auto simp: Let_def result_simps)
  have le: "ps_next_attachment_index st1 \<le> ps_next_attachment_index st'"
    using walk_subparts_leaves [OF w(2)] by simp
  from "3.IH"(1) [OF refl refl w(1)] le have "scopes_ok (ps_next_attachment_index st') sel1"
    by (rule scopes_ok_mono)
  with "3.IH"(2) [OF refl refl w(2)] le w(3) show ?case by auto
qed simp

section \<open>The extraction follows the same enumeration\<close>

definition extract_entry :: "mime_lib \<Rightarrow> nat \<times> mime_part \<Rightarrow> extracted_attachment option" where
  "extract_entry lib ip = (case ip of (i, p) \<Rightarrow>
     (case decode_part_bytes lib p of
        Inr d \<Rightarrow> Some \<lparr>ea_part_index = i, ea_filename = leaf_filename p,
                  ea_content_type = to_ascii_lowercase (mp_mimetype p),
                  ea_content_id = mp_first_value p ''Content-ID'', ea_bytes = dp_bytes d,
                  ea_decode_warnings = dp_warnings d\<rparr>
      | Inl e \<Rightarrow> None))"

definition failure_entry :: "mime_lib \<Rightarrow> nat \<times> mime_part \<Rightarrow> decode_failure option" where
  "failure_entry lib ip = (case ip of (i, p) \<Rightarrow>
     (case decode_part_bytes lib p of
        Inr d \<Rightarrow> None
      | Inl e \<Rightarrow> Some \<lparr>df_part_index = i, df_filename = leaf_filename p,
                  df_content_type = to_ascii_lowercase (mp_mimetype p), df_error = e\<rparr>))"

definition wanted :: "nat set option \<Rightarrow> nat \<Rightarrow> bool" where
  "wanted selected i \<longleftrightarrow> (case selected of None \<Rightarrow> True | Some s \<Rightarrow> i \<in> s)"

definition extends_report ::
  "mime_lib \<Rightarrow> nat set option \<Rightarrow> (nat \<times> mime_part) list \<Rightarrow> extraction_report \<Rightarrow> extraction_report" where
  "extends_report lib selected ips r =
     (let ips = filter (\<lambda>ip. wanted selected (fst ip)) ips in
      \<lparr>er_attachments = er_attachments r @ List.map_filter (extract_entry lib) ips,
       er_failures = er_failures r @ List.map_filter (failure_entry lib) ips\<rparr>)"

lemma extends_report_append:
  "extends_report lib selected (xs @ ys) r = extends_report lib selected ys (extends_report lib selected xs r)"
  by (simp add: extends_report_def Let_def map_filter_def)

lemma extends_report_Nil [simp]: "extends_report lib selected [] r = r"
  by (simp add: extends_report_def map_filter_simps)

definition decoded_size :: "mime_lib \<Rightarrow> mime_part \<Rightarrow> nat" where
  "decoded_size lib p = (case decode_part_bytes lib p of Inr d \<Rightarrow> length (dp_bytes d) | Inl _ \<Rightarrow> 0)"

text \<open>One leaf: what it adds, and that it succeeds whenever the unselective one does.\<close>

lemma collect_leaf_Inr:
  assumes "collect_leaf lib limits named selected p (t, n, r) = Inr (t', n', r')"
  shows "n' = n + length (attachment_leaves to_ascii_lowercase named (ParsedMail p [])) \<and>
     r' = extends_report lib selected (enumerate n (attachment_leaves to_ascii_lowercase named (ParsedMail p []))) r"
proof (cases "part_is_attachment_like (to_ascii_lowercase (mp_mimetype p))
    (part_is_explicit_attachment p (part_filename p) named) (crypto_part_kind_of p \<noteq> None)")
  case False
  with assms show ?thesis by (auto simp: collect_leaf_def Let_def)
next
  case True
  have f: "(case part_filename p of Some f \<Rightarrow> f | None \<Rightarrow> fallback_attachment_filename p) = leaf_filename p"
    by (simp add: leaf_filename_def)
  show ?thesis
  proof (cases "wanted selected n")
    case False
    with True assms show ?thesis
      by (auto simp: collect_leaf_def Let_def wanted_def extends_report_def map_filter_simps split: option.splits)
  next
    case w: True
    then have w': "(case selected of None \<Rightarrow> False | Some s \<Rightarrow> n \<notin> s) = False"
      by (simp add: wanted_def split: option.splits)
    show ?thesis
    proof (cases "decode_part_bytes lib p")
      case (Inl e)
      with True w w' assms show ?thesis unfolding collect_leaf_def Let_def prod.case f
        by (auto simp: result_simps extends_report_def map_filter_simps extract_entry_def failure_entry_def)
    next
      case (Inr d)
      with True w w' assms show ?thesis unfolding collect_leaf_def Let_def prod.case f
        by (auto simp: result_simps extends_report_def map_filter_simps extract_entry_def failure_entry_def)
    qed
  qed
qed

lemma collect_Inr:
  "collect_attachment_data lib limits named selected tree st = Inr st' \<Longrightarrow>
     fst (snd st') = fst (snd st) + length (attachment_leaves to_ascii_lowercase named tree) \<and>
     snd (snd st') = extends_report lib selected
       (enumerate (fst (snd st)) (attachment_leaves to_ascii_lowercase named tree)) (snd (snd st))"
  and collect_subparts_Inr:
  "collect_subparts lib limits p alls named selected index subs st = Inr st' \<Longrightarrow>
     fst (snd st') = fst (snd st) + length (subpart_leaves to_ascii_lowercase p alls named index subs) \<and>
     snd (snd st') = extends_report lib selected
       (enumerate (fst (snd st)) (subpart_leaves to_ascii_lowercase p alls named index subs)) (snd (snd st))"
proof (induction lib limits named selected tree st and lib limits p alls named selected index subs st
    arbitrary: st' and st' rule: collect_attachment_data_collect_subparts.induct)
  case (1 lib limits named selected p subs st)
  show ?case
  proof (cases "subs = []")
    case True
    obtain t n r where st: "st = (t, n, r)" by (cases st)
    obtain t' n' r' where st': "st' = (t', n', r')" by (cases st')
    from "1.prems" True have "collect_leaf lib limits named selected p (t, n, r) = Inr (t', n', r')"
      by (simp add: st st')
    from collect_leaf_Inr [OF this] True show ?thesis by (simp add: st st')
  next
    case False
    with "1.prems" "1.IH" [OF False] show ?thesis by simp
  qed
next
  case (3 lib limits p alls named selected index sub subs st)
  from "3.prems" obtain st1 where
    "collect_attachment_data lib limits
       (named_body_allowed_for_child p alls (to_ascii_lowercase (mp_mimetype p)) named index) selected sub st = Inr st1"
    "collect_subparts lib limits p alls named selected (index + 1) subs st1 = Inr st'"
    by (auto simp: result_simps)
  from "3.IH"(1) [OF this(1)] "3.IH"(2) [OF this(2)] show ?case
    by (simp add: enumerate_append_eq extends_report_append)
qed simp

text \<open>Skipping parts can only save bytes: a selective extraction succeeds when the full one does.\<close>

definition no_later :: "collect_state \<Rightarrow> collect_state \<Rightarrow> bool" where
  "no_later a b \<longleftrightarrow> fst a \<le> fst b \<and> fst (snd a) = fst (snd b)"

lemma collect_leaf_selected:
  assumes "collect_leaf lib limits named None p st = Inr st'" "no_later st2 st"
  shows "\<exists>st2'. collect_leaf lib limits named (Some s) p st2 = Inr st2' \<and> no_later st2' st'"
proof -
  obtain t n r where st: "st = (t, n, r)" by (cases st)
  obtain t2 r2 where st2: "st2 = (t2, n, r2)" "t2 \<le> t"
    using assms(2) by (cases st2) (auto simp: no_later_def st)
  let ?like = "part_is_attachment_like (to_ascii_lowercase (mp_mimetype p))
    (part_is_explicit_attachment p (part_filename p) named) (crypto_part_kind_of p \<noteq> None)"
  show ?thesis
  proof (cases ?like)
    case False
    with assms(1) st st2 show ?thesis by (auto simp: collect_leaf_def Let_def no_later_def)
  next
    case like: True
    have t: "t \<le> fst st' \<and> fst (snd st') = n + 1"
      using assms(1) like st unfolding collect_leaf_def Let_def
      by (cases "decode_part_bytes lib p") (auto simp: result_simps reserve_total_Inr)
    show ?thesis
    proof (cases "n \<in> s")
      case False
      with like st2 t show ?thesis by (auto simp: collect_leaf_def Let_def no_later_def)
    next
      case True
      with assms(1) like st st2 show ?thesis
        unfolding collect_leaf_def Let_def
        by (cases "decode_part_bytes lib p") (auto simp: result_simps reserve_total_Inr no_later_def)
    qed
  qed
qed

lemma collect_selected:
  "collect_attachment_data lib limits named sel tree st = Inr st' \<Longrightarrow> sel = None \<Longrightarrow> no_later st2 st \<Longrightarrow>
     \<exists>st2'. collect_attachment_data lib limits named (Some s) tree st2 = Inr st2' \<and> no_later st2' st'"
  and collect_subparts_selected:
  "collect_subparts lib limits p alls named sel index subs st = Inr st' \<Longrightarrow> sel = None \<Longrightarrow> no_later st2 st \<Longrightarrow>
     \<exists>st2'. collect_subparts lib limits p alls named (Some s) index subs st2 = Inr st2' \<and> no_later st2' st'"
proof (induction lib limits named sel tree st and lib limits p alls named sel index subs st
    arbitrary: st' st2 and st' st2 rule: collect_attachment_data_collect_subparts.induct)
  case (1 lib limits named sel p subs st)
  show ?case
  proof (cases "subs = []")
    case True
    with "1.prems" collect_leaf_selected show ?thesis by auto
  next
    case False
    with "1.prems" "1.IH" [OF False] show ?thesis by auto
  qed
next
  case (3 lib limits p alls named sel index sub subs st)
  from "3.prems"(1) obtain st1 where w:
    "collect_attachment_data lib limits
       (named_body_allowed_for_child p alls (to_ascii_lowercase (mp_mimetype p)) named index) sel sub st = Inr st1"
    "collect_subparts lib limits p alls named sel (index + 1) subs st1 = Inr st'"
    by (auto simp: result_simps)
  from "3.IH"(1) [OF w(1) "3.prems"(2,3)] obtain st12 where
    a: "collect_attachment_data lib limits
       (named_body_allowed_for_child p alls (to_ascii_lowercase (mp_mimetype p)) named index) (Some s) sub st2 = Inr st12"
      "no_later st12 st1" by blast
  from "3.IH"(2) [OF w(2) "3.prems"(2) a(2)] a(1) show ?case by auto
qed auto

text \<open>Both traversals see the same leaves when the two lower-casings agree on the media types.\<close>

lemma leaves_cong:
  "\<forall>m \<in> set (mimetypes t). f m = g m \<Longrightarrow> attachment_leaves f named t = attachment_leaves g named t"
  and subpart_leaves_cong:
  "f (mp_mimetype p) = g (mp_mimetype p) \<Longrightarrow> \<forall>m \<in> set (concat (map mimetypes subs)). f m = g m \<Longrightarrow>
     subpart_leaves f p alls named index subs = subpart_leaves g p alls named index subs"
  by (induction f named t and f p alls named index subs rule: attachment_leaves_subpart_leaves.induct) auto

lemma leaves_mimetypes:
  "p \<in> set (attachment_leaves f named t) \<Longrightarrow> mp_mimetype p \<in> set (mimetypes t)"
  and subpart_leaves_mimetypes:
  "p \<in> set (subpart_leaves f q alls named index subs) \<Longrightarrow> mp_mimetype p \<in> set (concat (map mimetypes subs))"
  by (induction f named t and f q alls named index subs rule: attachment_leaves_subpart_leaves.induct)
     (auto split: if_splits)

lemma map_filter_entries:
  assumes "\<forall>ip \<in> set ips. mml_to_lowercase lib (mp_mimetype (snd ip)) = to_ascii_lowercase (mp_mimetype (snd ip))"
  shows "map (\<lambda>a. (at_part_index a, at_filename a, at_content_type a, at_size a, at_content_id a, at_decode_warnings a))
       (filter (\<lambda>a. at_decode_error a = None) (map (walk_entry lib) ips)) =
     map (\<lambda>e. (ea_part_index e, Some (ea_filename e), ea_content_type e, length (ea_bytes e), ea_content_id e,
              ea_decode_warnings e)) (List.map_filter (extract_entry lib) ips)"
    and "map (\<lambda>a. (at_part_index a, at_filename a, at_content_type a))
       (filter (\<lambda>a. at_decode_error a \<noteq> None) (map (walk_entry lib) ips)) =
     map (\<lambda>e. (df_part_index e, Some (df_filename e), df_content_type e)) (List.map_filter (failure_entry lib) ips)"
  using assms
  by (induction ips)
     (auto simp: map_filter_simps walk_entry_def extract_entry_def failure_entry_def split: sum.splits)

lemma parse_Inr:
  assumes "parse_rfc5322_with_limits lib bytes limits = Inr m"
  obtains tree st sel where "mml_parse_mail lib bytes = Inr tree"
    "walk_part lib 0 [] False tree (parse_state_new limits) = Inr (st, sel)"
    "pg_attachments m = ps_attachments st" "pg_html_body m = bs_html sel"
    "pg_html_cid_part_scopes m = bs_html_cid_part_scopes sel"
    "length bytes \<le> max_message_bytes limits" "preflight_mime_structure (mml_headers lib) bytes limits = Inr ()"
  using assms by (auto simp: parse_rfc5322_with_limits_def result_simps Let_def split: prod.splits)

lemma parse_state_new_fields [simp]:
  "ps_limits (parse_state_new l) = l" "ps_total_decoded_bytes (parse_state_new l) = 0"
  "ps_next_attachment_index (parse_state_new l) = 0" "ps_attachments (parse_state_new l) = []"
  by (simp_all add: parse_state_new_def)

lemma extract_selected_Inr:
  "extract_selected_attachments_detailed_with_limits lib bytes selected limits = Inr report \<longleftrightarrow>
     length bytes \<le> max_message_bytes limits \<and>
     preflight_mime_structure (mml_headers lib) bytes limits = Inr () \<and>
     (\<exists>tree t n. mml_parse_mail lib bytes = Inr tree \<and>
        collect_attachment_data lib limits False selected tree (0, 0, empty_report) = Inr (t, n, report))"
  by (auto simp: extract_selected_attachments_detailed_with_limits_def result_simps)

section \<open>Properties\<close>

text \<open>A concrete library: a text part with one attachment next to it.\<close>

definition plain_part :: "string \<Rightarrow> string \<Rightarrow> bool \<Rightarrow> mime_part" where
  "plain_part mimetype body att = \<lparr>
     mp_headers = [], mp_first_value = (\<lambda>_. None), mp_first_raw = (\<lambda>_. None), mp_mimetype = mimetype,
     mp_param = (\<lambda>_. None), mp_is_attachment = att, mp_disposition_param = (\<lambda>_. None), mp_body_is_qp = False,
     mp_raw = body, mp_body = Inr body, mp_body_raw = Inr body\<rparr>"

definition sample_tree :: parsed_mail where
  "sample_tree = ParsedMail (plain_part ''multipart/mixed'' [] False)
     [ParsedMail (plain_part ''text/html'' ''<p>hi'' False) [],
      ParsedMail (plain_part ''image/png'' ''abc'' True) []]"

definition sample_lib :: mime_lib where
  "sample_lib = \<lparr>
     mml_headers = \<lparr>hl_parse_headers = (\<lambda>_. Inr (\<lambda>_. None, 0)),
                    hl_parse_content_type = (\<lambda>v. \<lparr>ct_mimetype = v, ct_param = (\<lambda>_. None)\<rparr>)\<rparr>,
     mml_parse_mail = (\<lambda>_. Inr sample_tree), mml_qp_decode = Inr, mml_to_lowercase = map to_ascii_lower,
     mml_debug = (\<lambda>s. s), mml_show_error = (\<lambda>_. ''error''), mml_html_to_safe_text = (\<lambda>s. s)\<rparr>"

text \<open>
  C3. The attachments a parsed message lists are the attachments the extraction returns: both
  traversals number the same parts from zero in the same order, the listed parts without a
  decoding error are exactly the extracted ones, with the same name, type, size and warnings,
  and the ones with an error are exactly the reported failures.
\<close>

theorem listed_attachments_are_extracted:
  assumes "parse_rfc5322_with_limits lib bytes limits = Inr m"
    and "extract_attachments_detailed_with_limits lib bytes limits = Inr report"
    and "\<forall>tree. mml_parse_mail lib bytes = Inr tree \<longrightarrow>
           (\<forall>t \<in> set (mimetypes tree). mml_to_lowercase lib t = to_ascii_lowercase t)"
  shows "map at_part_index (pg_attachments m) = [0..<length (pg_attachments m)] \<and>
     map (\<lambda>a. (at_part_index a, at_filename a, at_content_type a, at_size a, at_content_id a, at_decode_warnings a))
       (filter (\<lambda>a. at_decode_error a = None) (pg_attachments m)) =
     map (\<lambda>e. (ea_part_index e, Some (ea_filename e), ea_content_type e, length (ea_bytes e), ea_content_id e,
              ea_decode_warnings e)) (er_attachments report) \<and>
     map (\<lambda>a. (at_part_index a, at_filename a, at_content_type a))
       (filter (\<lambda>a. at_decode_error a \<noteq> None) (pg_attachments m)) =
     map (\<lambda>e. (df_part_index e, Some (df_filename e), df_content_type e)) (er_failures report)"
proof -
  from assms(1) obtain tree st sel where w: "mml_parse_mail lib bytes = Inr tree"
    "walk_part lib 0 [] False tree (parse_state_new limits) = Inr (st, sel)" "pg_attachments m = ps_attachments st"
    by (rule parse_Inr)
  from assms(2) w(1) obtain t n where
    c: "collect_attachment_data lib limits False None tree (0, 0, empty_report) = Inr (t, n, report)"
    by (auto simp: extract_attachments_detailed_with_limits_def extract_selected_Inr)
  let ?ls = "attachment_leaves to_ascii_lowercase False tree"
  from assms(3) w(1) have low: "\<forall>m \<in> set (mimetypes tree). mml_to_lowercase lib m = to_ascii_lowercase m" by blast
  have eq: "attachment_leaves (mml_to_lowercase lib) False tree = ?ls" by (rule leaves_cong [OF low])
  have a: "pg_attachments m = map (walk_entry lib) (enumerate 0 ?ls)"
    using walk_part_leaves [OF w(2)] w(3) eq by simp
  have r: "report = extends_report lib None (enumerate 0 ?ls) empty_report" using collect_Inr [OF c] by simp
  have er: "er_attachments report = List.map_filter (extract_entry lib) (enumerate 0 ?ls)"
    "er_failures report = List.map_filter (failure_entry lib) (enumerate 0 ?ls)"
    by (simp_all add: r extends_report_def empty_report_def wanted_def Let_def)
  have "\<forall>ip \<in> set (enumerate 0 ?ls).
      mml_to_lowercase lib (mp_mimetype (snd ip)) = to_ascii_lowercase (mp_mimetype (snd ip))"
  proof
    fix ip assume "ip \<in> set (enumerate 0 ?ls)"
    then have "snd ip \<in> set (map snd (enumerate 0 ?ls))" unfolding set_map by (rule imageI)
    then show "mml_to_lowercase lib (mp_mimetype (snd ip)) = to_ascii_lowercase (mp_mimetype (snd ip))"
      using low leaves_mimetypes by auto
  qed
  note mf = map_filter_entries [OF this]
  have "at_part_index (walk_entry lib ip) = fst ip" for ip
    by (cases ip) (auto simp: walk_entry_def split: sum.splits)
  then have "map at_part_index (pg_attachments m) = map fst (enumerate 0 ?ls)"
    unfolding a list.map_comp by (intro map_cong) simp_all
  moreover have "length (pg_attachments m) = length ?ls" by (simp add: a)
  ultimately have "map at_part_index (pg_attachments m) = [0..<length (pg_attachments m)]" by simp
  then show ?thesis unfolding er using mf by (simp only: a conj_absorb simp_thms)
qed

lemma sample_parses:
  obtains m where "parse_rfc5322_with_limits sample_lib ''x'' tiny_limits = Inr m"
    "pg_attachments m = [\<lparr>at_part_index = 0, at_filename = Some ''attachment.bin'', at_content_type = ''image/png'',
       at_size = 3, at_content_id = None, at_decode_warnings = [], at_decode_error = None\<rparr>]"
    "pg_html_body m = Some ''<p>hi''"
proof -
  have "map_ok (\<lambda>m. (pg_attachments m, pg_html_body m)) (parse_rfc5322_with_limits sample_lib ''x'' tiny_limits) =
   Inr ([\<lparr>at_part_index = 0, at_filename = Some ''attachment.bin'', at_content_type = ''image/png'',
          at_size = 3, at_content_id = None, at_decode_warnings = [], at_decode_error = None\<rparr>],
        Some ''<p>hi'')"
    by code_simp
  then show thesis using that by (cases "parse_rfc5322_with_limits sample_lib ''x'' tiny_limits") auto
qed

lemma sample_extracts:
  "extract_attachments_detailed_with_limits sample_lib ''x'' tiny_limits =
     Inr \<lparr>er_attachments = [\<lparr>ea_part_index = 0, ea_filename = ''attachment.bin'',
             ea_content_type = ''image/png'', ea_content_id = None, ea_bytes = ''abc'', ea_decode_warnings = []\<rparr>],
          er_failures = []\<rparr>"
  by code_simp

lemma listed_attachments_are_extracted_witness:
  "\<exists>m. parse_rfc5322_with_limits sample_lib ''x'' tiny_limits = Inr m \<and>
     map at_part_index (pg_attachments m) = [0..<1]"
proof -
  obtain m where p: "parse_rfc5322_with_limits sample_lib ''x'' tiny_limits = Inr m"
      "pg_attachments m = [\<lparr>at_part_index = 0, at_filename = Some ''attachment.bin'', at_content_type = ''image/png'',
       at_size = 3, at_content_id = None, at_decode_warnings = [], at_decode_error = None\<rparr>]"
    by (rule sample_parses)
  then have m: "parse_rfc5322_with_limits sample_lib ''x'' tiny_limits = Inr m" "length (pg_attachments m) = 1"
    by simp_all
  have "\<forall>t. mml_to_lowercase sample_lib t = to_ascii_lowercase t" by (simp add: sample_lib_def)
  with listed_attachments_are_extracted [OF m(1) sample_extracts] m show ?thesis by auto
qed

text \<open>
  C11. In every parsed message with an HTML body the content-ID scopes partition the bytes of
  that body: they are ordered, do not overlap, leave no gap and end at its length; and the
  parts a scope refers to are distinct attachments of the message.
\<close>

theorem html_scopes_partition_body:
  assumes "parse_rfc5322_with_limits lib bytes limits = Inr m"
  shows "scopes_cover (pg_html_body m) (pg_html_cid_part_scopes m) \<and>
     (\<forall>s \<in> set (pg_html_cid_part_scopes m). scope_indexes_below (length (pg_attachments m)) s)"
proof -
  from assms obtain tree st sel where w:
    "walk_part lib 0 [] False tree (parse_state_new limits) = Inr (st, sel)" "pg_attachments m = ps_attachments st"
    "pg_html_body m = bs_html sel" "pg_html_cid_part_scopes m = bs_html_cid_part_scopes sel"
    by (rule parse_Inr)
  have "ps_next_attachment_index st = length (pg_attachments m)"
    using walk_part_leaves [OF w(1)] w(2) by simp
  with walk_part_scopes [OF w(1)] w(3,4) show ?thesis by (simp add: scopes_ok_def)
qed

lemma html_scopes_partition_body_witness:
  "\<exists>m. parse_rfc5322_with_limits sample_lib ''x'' tiny_limits = Inr m \<and>
     pg_html_body m = Some ''<p>hi'' \<and> contiguous 0 (length ''<p>hi'') (pg_html_cid_part_scopes m)"
proof -
  from sample_parses obtain m where m: "parse_rfc5322_with_limits sample_lib ''x'' tiny_limits = Inr m"
      "pg_html_body m = Some ''<p>hi''"
    by metis
  from html_scopes_partition_body [OF m(1)] m show ?thesis by auto
qed

text \<open>
  C16. A parsed message is within its resource limits: its size, and the decoded bytes of its
  attachments, each one and all together, are bounded by the limits given to the parser.
\<close>

theorem parsed_message_within_limits:
  assumes "parse_rfc5322_with_limits lib bytes limits = Inr m"
  shows "length bytes \<le> max_message_bytes limits \<and>
     length (nested_parts (mml_headers lib) 0 bytes) \<le> max_parts limits \<and>
     sum_list (map at_size (pg_attachments m)) \<le> max_total_decoded_bytes limits \<and>
     (\<forall>a \<in> set (pg_attachments m). at_size a \<le> max_decoded_part_bytes limits)"
proof -
  from assms obtain tree st sel where w:
    "walk_part lib 0 [] False tree (parse_state_new limits) = Inr (st, sel)" "pg_attachments m = ps_attachments st"
    "length bytes \<le> max_message_bytes limits" "preflight_mime_structure (mml_headers lib) bytes limits = Inr ()"
    by (rule parse_Inr)
  have "within_budget limits (parse_state_new limits)" by (simp add: within_budget_def)
  with budget.walk_keeps [OF w(1) refl] have "within_budget limits st" by blast
  moreover from w(4) obtain n where "preflight_part (mml_headers lib) limits bytes 0 0 = Inr n"
    by (auto simp: preflight_mime_structure_def result_simps)
  ultimately show ?thesis using w(2,3) by (auto simp: within_budget_def preflight_part_iff length_nested_parts)
qed

lemma parsed_message_within_limits_witness:
  "\<exists>m. parse_rfc5322_with_limits sample_lib ''x'' tiny_limits = Inr m \<and>
     sum_list (map at_size (pg_attachments m)) = 3 \<and> (3 :: nat) \<le> max_total_decoded_bytes tiny_limits"
proof -
  obtain m where p: "parse_rfc5322_with_limits sample_lib ''x'' tiny_limits = Inr m"
      "pg_attachments m = [\<lparr>at_part_index = 0, at_filename = Some ''attachment.bin'', at_content_type = ''image/png'',
       at_size = 3, at_content_id = None, at_decode_warnings = [], at_decode_error = None\<rparr>]"
    by (rule sample_parses)
  then have m: "parse_rfc5322_with_limits sample_lib ''x'' tiny_limits = Inr m"
    "sum_list (map at_size (pg_attachments m)) = 3" by simp_all
  from parsed_message_within_limits [OF m(1)] m show ?thesis by metis
qed

text \<open>
  Extracting only some parts agrees with extracting all of them: whenever the complete
  extraction succeeds, so does the selective one, and it returns exactly the attachments and
  failures of the complete report whose index was asked for, with their indexes unchanged.
\<close>

theorem selective_extraction_filters:
  assumes "extract_attachments_detailed_with_limits lib bytes limits = Inr report"
  shows "extract_attachment_parts_detailed_with_limits lib bytes wanted_parts limits =
     Inr \<lparr>er_attachments = filter (\<lambda>a. ea_part_index a \<in> set wanted_parts) (er_attachments report),
          er_failures = filter (\<lambda>f. df_part_index f \<in> set wanted_parts) (er_failures report)\<rparr>"
proof -
  from assms obtain tree t n where c: "length bytes \<le> max_message_bytes limits"
      "preflight_mime_structure (mml_headers lib) bytes limits = Inr ()" "mml_parse_mail lib bytes = Inr tree"
      "collect_attachment_data lib limits False None tree (0, 0, empty_report) = Inr (t, n, report)"
    by (auto simp: extract_attachments_detailed_with_limits_def extract_selected_Inr)
  let ?s = "set wanted_parts"
  have "no_later (0, 0, empty_report) (0, 0, empty_report)" by (simp add: no_later_def)
  from collect_selected [OF c(4) refl this] obtain t2 n2 r2 where
    r2: "collect_attachment_data lib limits False (Some ?s) tree (0, 0, empty_report) = Inr (t2, n2, r2)"
    by (metis surj_pair)
  let ?ips = "enumerate 0 (attachment_leaves to_ascii_lowercase False tree)"
  have f: "List.map_filter (extract_entry lib) (filter (\<lambda>ip. fst ip \<in> ?s) ips) =
        filter (\<lambda>a. ea_part_index a \<in> ?s) (List.map_filter (extract_entry lib) ips)"
      "List.map_filter (failure_entry lib) (filter (\<lambda>ip. fst ip \<in> ?s) ips) =
        filter (\<lambda>a. df_part_index a \<in> ?s) (List.map_filter (failure_entry lib) ips)" for ips
    by (induction ips) (auto simp: map_filter_simps extract_entry_def failure_entry_def split: sum.splits)
  have "r2 = \<lparr>er_attachments = filter (\<lambda>a. ea_part_index a \<in> ?s) (er_attachments report),
          er_failures = filter (\<lambda>f. df_part_index f \<in> ?s) (er_failures report)\<rparr>"
    using collect_Inr [OF r2] collect_Inr [OF c(4)]
    by (simp add: extends_report_def wanted_def empty_report_def f Let_def)
  with c r2 show ?thesis
    by (simp add: extract_attachment_parts_detailed_with_limits_def extract_selected_Inr)
qed

lemma selective_extraction_filters_witness:
  "extract_attachment_parts_detailed_with_limits sample_lib ''x'' [5] tiny_limits = Inr empty_report"
  unfolding selective_extraction_filters [OF sample_extracts] by (simp add: empty_report_def)

end
