(* ===== verification/Render.thy ===== *)
theory Render
  imports Wire Mime_Walk
begin

text \<open>
  Composing and rendering a message: \<open>notm-mail/src/compose.rs\<close> and the upper half of
  \<open>notm-mail/src/rfc5322.rs\<close>.  Dates, UUIDs and Unicode lower-casing are external: a date is
  its time stamp, a UUID its number, and \<open>render_lib\<close> says how they are printed.  What a new
  message draws from the environment (two fresh UUIDs and the time) is an argument.
\<close>

section \<open>Data\<close>

record identity =
  id_name :: "string option"
  id_email :: string

definition formatted :: "identity \<Rightarrow> string" where
  "formatted self = format_address (MailAddress (id_name self) (id_email self))"

record attachment_input =
  ai_filename :: string
  ai_content_type :: string
  ai_bytes :: string
  ai_source_path :: "string option"

record composed_message =
  cm_from :: string
  cm_to :: "string list"
  cm_cc :: "string list"
  cm_bcc :: "string list"
  cm_subject :: string
  cm_body :: string
  cm_html_body :: "string option"
  cm_text_reply_quote :: "string option"
  cm_html_reply_quote :: "string option"
  cm_attachments :: "attachment_input list"
  cm_in_reply_to :: "string option"
  cm_references :: "string list"
  cm_message_id :: string
  cm_render_date :: int
  cm_mime_boundary_id :: nat

record render_lib =
  rl_wire :: wire_lib
  rl_mime :: mime_lib
  rl_to_rfc2822 :: "int \<Rightarrow> string"
  rl_uuid_text :: "nat \<Rightarrow> string"
  rl_to_lowercase :: "string \<Rightarrow> string"

record fresh_values =
  fv_message_uuid :: nat
  fv_now :: int
  fv_boundary_uuid :: nat

section \<open>New messages\<close>

definition generate_message_id :: "render_lib \<Rightarrow> nat \<Rightarrow> string option \<Rightarrow> string" where
  "generate_message_id lib uuid domain =
     ''<'' @ rl_uuid_text lib uuid @ ''@'' @
     (case domain of Some d \<Rightarrow> d | None \<Rightarrow> ''notm.local'') @ ''>''"

definition message_id_domain :: "address_lib \<Rightarrow> string \<Rightarrow> string option" where
  "message_id_domain lib from_field =
     (case parse_one lib from_field of
        None \<Rightarrow> None
      | Some sender \<Rightarrow> map_option snd (rsplit_once CHR ''@'' (ma_email sender)))"

definition composed_message_new ::
  "render_lib \<Rightarrow> fresh_values \<Rightarrow> string \<Rightarrow> string list \<Rightarrow> string \<Rightarrow> string \<Rightarrow> composed_message" where
  "composed_message_new lib fresh from_field recipients subject body = \<lparr>
     cm_from = from_field, cm_to = recipients, cm_cc = [], cm_bcc = [], cm_subject = subject, cm_body = body,
     cm_html_body = None, cm_text_reply_quote = None, cm_html_reply_quote = None, cm_attachments = [],
     cm_in_reply_to = None, cm_references = [],
     cm_message_id = generate_message_id lib (fv_message_uuid fresh)
       (message_id_domain (wl_address (rl_wire lib)) from_field),
     cm_render_date = fv_now fresh, cm_mime_boundary_id = fv_boundary_uuid fresh\<rparr>"

definition normalize_subject_for_reply :: "(string \<Rightarrow> string) \<Rightarrow> string \<Rightarrow> string" where
  "normalize_subject_for_reply lower subject =
     (let trimmed = trim subject in
      if starts_with (lower trimmed) ''re:'' then trimmed else ''Re: '' @ trimmed)"

definition normalize_subject_for_forward :: "(string \<Rightarrow> string) \<Rightarrow> string \<Rightarrow> string" where
  "normalize_subject_for_forward lower subject =
     (let trimmed = trim subject in
      if starts_with (lower trimmed) ''fwd:'' then trimmed else ''Fwd: '' @ trimmed)"

section \<open>Bodies and boundaries\<close>

definition mixed_boundary :: "render_lib \<Rightarrow> composed_message \<Rightarrow> string" where
  "mixed_boundary lib m = ''notm-mixed-'' @ rl_uuid_text lib (cm_mime_boundary_id m)"

definition alternative_boundary :: "render_lib \<Rightarrow> composed_message \<Rightarrow> string" where
  "alternative_boundary lib m = ''notm-alt-'' @ rl_uuid_text lib (cm_mime_boundary_id m)"

definition rendered_text_body :: "composed_message \<Rightarrow> string" where
  "rendered_text_body m =
     (case cm_text_reply_quote m of Some quote \<Rightarrow> cm_body m @ quote | None \<Rightarrow> cm_body m)"

definition rendered_html_body :: "composed_message \<Rightarrow> string option" where
  "rendered_html_body m =
     (case cm_html_body m of
        Some html \<Rightarrow> Some html
      | None \<Rightarrow> map_option (\<lambda>quote. plain_text_to_html_fragment (cm_body m) @ quote) (cm_html_reply_quote m))"

definition render_alternative_parts ::
  "render_lib \<Rightarrow> string \<Rightarrow> string \<Rightarrow> string \<Rightarrow> string option \<Rightarrow> wire_error + string" where
  "render_alternative_parts lib out boundary text_body html_body =
     (let out = write_boundary out boundary False in
      and_then (write_text_part_headers out ''text/plain'') (\<lambda>out.
      (let out = write_quoted_printable_body (rl_wire lib) (out @ CRLF) text_body in
       and_then
         (case html_body of
            None \<Rightarrow> Inr out
          | Some html \<Rightarrow>
              (let out = write_boundary out boundary False in
               and_then (write_text_part_headers out ''text/html'') (\<lambda>out.
                 Inr (write_quoted_printable_body (rl_wire lib) (out @ CRLF) html))))
         (\<lambda>out. Inr (write_boundary out boundary True)))))"

section \<open>Attachments\<close>

definition has_separator :: "string \<Rightarrow> bool" where
  "has_separator s \<longleftrightarrow> has_infix (CRLF @ CRLF) s"

definition normalize_embedded_message ::
  "render_lib \<Rightarrow> string \<Rightarrow> string \<Rightarrow> wire_error + string" where
  "normalize_embedded_message lib bytes content_type =
     and_then (ensure (CHR 0x00 \<notin> set bytes) (EmbeddedNul content_type)) (\<lambda>_.
     (let normalized = ensure_crlf_terminated (normalize_line_endings bytes) in
      and_then
        (if eq_ignore_ascii_case content_type ''message/rfc822'' then
           and_then (ensure (has_separator normalized) EmbeddedNoSeparator) (\<lambda>_.
             (case parse_rfc5322_with_limits (rl_mime lib) normalized default_limits of
                Inl _ \<Rightarrow> Inl EmbeddedUnparsable
              | Inr parsed \<Rightarrow> ensure (\<not> Mapping.is_empty (pg_headers parsed)) EmbeddedNoHeaders))
         else Inr ())
        (\<lambda>_. and_then (map_err EmbeddedWire (validate_wire normalized)) (\<lambda>_. Inr normalized))))"

text \<open>\<open>slice.chunks(76)\<close>, each followed by CRLF.\<close>

function base64_lines :: "string \<Rightarrow> string" where
  "base64_lines s =
     (if s = [] then [] else take 76 s @ CRLF @ base64_lines (drop 76 s))"
  by pat_completeness auto
termination by (relation "measure length") auto

declare base64_lines.simps [simp del]

definition attachment_wire_type :: "string \<Rightarrow> string" where
  "attachment_wire_type content_type =
     (let content_type = safe_attachment_content_type content_type in
      if (case split_once CHR ''/'' content_type of
            Some (top_level, _) \<Rightarrow> eq_ignore_ascii_case top_level ''message''
          | None \<Rightarrow> False) \<and> \<not> eq_ignore_ascii_case content_type ''message/rfc822''
      then ''application/octet-stream'' else content_type)"

definition render_attachment :: "render_lib \<Rightarrow> string \<Rightarrow> attachment_input \<Rightarrow> wire_error + string" where
  "render_attachment lib out attachment =
     and_then (check_header_text ''attachment filename'' (ai_filename attachment)) (\<lambda>_.
     and_then (check_header_text ''attachment content type'' (ai_content_type attachment)) (\<lambda>_.
     (let content_type = attachment_wire_type (ai_content_type attachment) in
      and_then (ensure (length content_type \<le> 200) ContentTypeTooLong) (\<lambda>_.
      and_then (write_parameterized_header out ''Content-Type'' content_type ''name'' (ai_filename attachment)) (\<lambda>out.
      (let is_message = eq_ignore_ascii_case content_type ''message/rfc822'' in
       and_then (write_literal_header out ''Content-Transfer-Encoding''
                   (if is_message then ''8bit'' else ''base64'')) (\<lambda>out.
       and_then (write_parameterized_header out ''Content-Disposition'' ''attachment'' ''filename''
                   (ai_filename attachment)) (\<lambda>out.
       (let out = out @ CRLF in
        if is_message then
          map_ok (\<lambda>embedded. ensure_crlf_terminated (out @ embedded))
            (normalize_embedded_message lib (ai_bytes attachment) content_type)
        else
          (let encoded = wl_base64 (rl_wire lib) (ai_bytes attachment) in
           Inr (out @ base64_lines encoded @ (if encoded = [] then CRLF else []))))))))))))"

fun render_attachments :: "render_lib \<Rightarrow> string \<Rightarrow> string \<Rightarrow> attachment_input list \<Rightarrow> wire_error + string" where
  "render_attachments lib boundary out [] = Inr out"
| "render_attachments lib boundary out (a # as) =
     and_then (render_attachment lib (write_boundary out boundary False) a) (\<lambda>out.
       render_attachments lib boundary out as)"

section \<open>The message\<close>

definition write_optional_addresses ::
  "render_lib \<Rightarrow> string \<Rightarrow> string list \<Rightarrow> string \<Rightarrow> wire_error + string" where
  "write_optional_addresses lib field values out =
     (if values \<noteq> [] then write_address_header (rl_wire lib) out field values True else Inr out)"

definition threading_ids :: "string \<Rightarrow> string list \<Rightarrow> wire_error + string list" where
  "threading_ids field values = map_err HeaderInvalid (message_id_tokens field values)"

text \<open>\<open>render\_message\<close> up to the MIME-Version header, and its three body shapes.\<close>

definition render_fields :: "render_lib \<Rightarrow> composed_message \<Rightarrow> wire_error + string" where
  "render_fields lib m =
     and_then (write_token_header [] ''Date'' [rl_to_rfc2822 lib (cm_render_date m)]) (\<lambda>out.
     and_then (threading_ids ''Message-ID'' [cm_message_id m]) (\<lambda>message_ids.
     and_then (ensure (length message_ids = 1) MessageIdCount) (\<lambda>_.
     and_then (write_token_header out ''Message-ID'' message_ids) (\<lambda>out.
     and_then (write_address_header (rl_wire lib) out ''From'' [cm_from m] False) (\<lambda>out.
     and_then (write_optional_addresses lib ''To'' (cm_to m) out) (\<lambda>out.
     and_then (write_optional_addresses lib ''Cc'' (cm_cc m) out) (\<lambda>out.
     and_then (write_optional_addresses lib ''Bcc'' (cm_bcc m) out) (\<lambda>out.
     and_then (write_subject_header (rl_wire lib) out (cm_subject m)) (\<lambda>out.
     and_then (case cm_in_reply_to m of
                 None \<Rightarrow> Inr out
               | Some in_reply_to \<Rightarrow>
                   and_then (threading_ids ''In-Reply-To'' [in_reply_to]) (\<lambda>ids.
                   and_then (ensure (ids \<noteq> []) InReplyToEmpty) (\<lambda>_.
                     write_token_header out ''In-Reply-To'' ids))) (\<lambda>out.
     and_then (if cm_references m \<noteq> [] then
                 and_then (threading_ids ''References'' (cm_references m)) (\<lambda>ids.
                 and_then (ensure (ids \<noteq> []) ReferencesEmpty) (\<lambda>_.
                   write_token_header out ''References'' ids))
               else Inr out) (\<lambda>out.
       write_literal_header out ''MIME-Version'' ''1.0'')))))))))))"

definition render_body :: "render_lib \<Rightarrow> composed_message \<Rightarrow> string \<Rightarrow> wire_error + string" where
  "render_body lib m out =
     (let text_body = rendered_text_body m; html_body = rendered_html_body m in
      if cm_attachments m = [] \<and> html_body = None then
        and_then (write_text_part_headers out ''text/plain'') (\<lambda>out.
          Inr (write_quoted_printable_body (rl_wire lib) (out @ CRLF) text_body))
      else if cm_attachments m = [] then
        (let boundary = alternative_boundary lib m in
         and_then (write_multipart_header out ''multipart/alternative'' boundary) (\<lambda>out.
           render_alternative_parts lib (out @ CRLF) boundary text_body html_body))
      else
        (let boundary = mixed_boundary lib m in
         and_then (write_multipart_header out ''multipart/mixed'' boundary) (\<lambda>out.
         (let out = write_boundary (out @ CRLF) boundary False in
          and_then
            (if html_body \<noteq> None then
               (let alternative = alternative_boundary lib m in
                and_then (write_multipart_header out ''multipart/alternative'' alternative) (\<lambda>out.
                  render_alternative_parts lib (out @ CRLF) alternative text_body html_body))
             else
               and_then (write_text_part_headers out ''text/plain'') (\<lambda>out.
                 Inr (write_quoted_printable_body (rl_wire lib) (out @ CRLF) text_body))) (\<lambda>out.
          and_then (render_attachments lib boundary out (cm_attachments m)) (\<lambda>out.
            Inr (write_boundary out boundary True)))))))"

definition render_message :: "render_lib \<Rightarrow> composed_message \<Rightarrow> wire_error + string" where
  "render_message lib m =
     and_then (render_fields lib m) (\<lambda>out.
     and_then (render_body lib m out) (\<lambda>out.
     and_then (validate_wire out) (\<lambda>_. Inr out)))"

definition to_rfc5322 :: "render_lib \<Rightarrow> composed_message \<Rightarrow> wire_error + string" where
  "to_rfc5322 lib self = render_message lib self"

section \<open>What the environment promises\<close>

text \<open>
  Rust strings are valid UTF-8, those an address parser cuts out of its input included; dates
  and UUIDs print as ASCII without line breaks, UUIDs in 36 bytes.
\<close>

definition address_utf8 :: "address_lib \<Rightarrow> bool" where
  "address_utf8 lib \<longleftrightarrow> (\<forall>s addrs. valid_utf8 s \<longrightarrow> addrparse lib s = Inr addrs \<longrightarrow>
     (\<forall>a \<in> set addrs. \<forall>si \<in> set (mailboxes a).
        valid_utf8 (si_addr si) \<and> (\<forall>n. si_display_name si = Some n \<longrightarrow> valid_utf8 n)))"

definition render_laws :: "render_lib \<Rightarrow> bool" where
  "render_laws lib \<longleftrightarrow> base64_laws (wl_base64 (rl_wire lib)) \<and> address_utf8 (wl_address (rl_wire lib)) \<and>
     (\<forall>t. is_ascii_str (rl_to_rfc2822 lib t)) \<and>
     (\<forall>u. list_all is_ascii_graphic (rl_uuid_text lib u) \<and> length (rl_uuid_text lib u) = 36)"

definition rust_message :: "composed_message \<Rightarrow> bool" where
  "rust_message m \<longleftrightarrow> valid_utf8 (cm_from m) \<and> valid_utf8 (cm_subject m) \<and>
     (\<forall>s \<in> set (cm_to m @ cm_cc m @ cm_bcc m). valid_utf8 s)"

section \<open>Addresses and subjects on the wire\<close>

lemma mail_address_utf8:
  assumes "mail_address_from_single lib si = Some a" "valid_utf8 (si_addr si)"
    and "\<forall>n. si_display_name si = Some n \<longrightarrow> valid_utf8 n"
  shows "valid_utf8 (ma_email a) \<and> (\<forall>n. ma_name a = Some n \<longrightarrow> valid_utf8 n)"
proof (intro conjI allI impI)
  show "valid_utf8 (ma_email a)"
    using assms(1) valid_utf8_trim [OF assms(2)]
    by (simp add: mail_address_from_single_def Let_def split: if_splits) force
  fix n
  assume "ma_name a = Some n"
  with assms(1) obtain d where "si_display_name si = Some d" "n = trim d"
    by (auto simp: mail_address_from_single_def Let_def split: if_splits option.splits)
  with assms(3) valid_utf8_trim [of d] show "valid_utf8 n" by blast
qed

lemma list_all2_set2:
  "list_all2 P xs ys \<Longrightarrow> y \<in> set ys \<Longrightarrow> \<exists>x \<in> set xs. P x y"
  by (induction rule: list_all2_induct) auto

lemma parse_address_list_checked_utf8:
  assumes "parse_address_list_checked lib s = Inr as" "address_utf8 lib" "valid_utf8 s" "a \<in> set as"
  shows "valid_utf8 (ma_email a) \<and> (\<forall>n. ma_name a = Some n \<longrightarrow> valid_utf8 n)"
proof (cases "trim s = []")
  case True
  with assms(1,4) show ?thesis by (simp add: parse_address_list_checked_def)
next
  case False
  with assms(1) obtain addrs where p: "addrparse lib s = Inr addrs"
      "collect_results (\<lambda>s. ok_or (mail_address_from_single lib s) InvalidMailbox)
         (concat (map mailboxes addrs)) = Inr as"
    by (auto simp: parse_address_list_checked_def Let_def result_simps)
  from p(2) have "list_all2 (\<lambda>x y. mail_address_from_single lib x = Some y) (concat (map mailboxes addrs)) as"
    by (simp add: collect_results_Inr result_simps)
  from list_all2_set2 [OF this] assms(4) obtain si where si: "si \<in> set (concat (map mailboxes addrs))"
      "mail_address_from_single lib si = Some a" by blast
  from si(1) p(1) assms(2,3) have
    "valid_utf8 (si_addr si) \<and> (\<forall>n. si_display_name si = Some n \<longrightarrow> valid_utf8 n)"
    by (fastforce simp: address_utf8_def)
  with mail_address_utf8 [OF si(2)] show ?thesis by blast
qed

lemma valid_utf8_breaks_to_spaces:
  "valid_utf8 s \<Longrightarrow> valid_utf8 (map (\<lambda>c. if c = CR \<or> c = LF then SP else c) s)"
proof (induction s rule: valid_utf8_induct)
  case (Slice sl r)
  then have "map (\<lambda>c. if c = CR \<or> c = LF then SP else c) sl = sl"
    using no_ascii_clean by (intro map_idI) (auto simp: clean_def)
  with Slice show ?case by (auto intro: valid_slice_utf8)
qed (auto simp: is_ascii_byte_def)

lemma valid_utf8_quoted [simp]:
  "valid_utf8 [BSL, DQ]" "valid_utf8 [BSL, BSL]" "valid_utf8 [DQ]" "valid_utf8 ''<''" "valid_utf8 ''>''"
  "valid_utf8 '',''"
  by (simp_all add: valid_utf8_is_ascii is_ascii_str_def is_ascii_byte_def)

lemma valid_utf8_quote_name: "valid_utf8 s \<Longrightarrow> valid_utf8 (quote_name s)"
proof -
  assume "valid_utf8 s"
  from valid_utf8_breaks_to_spaces [OF this]
  have v: "valid_utf8 (map (\<lambda>c. if c = CR \<or> c = LF then SP else c) s)" (is "valid_utf8 ?m") .
  have "valid_utf8 ([DQ] @ replace_char DQ [BSL, DQ] (replace_char BSL [BSL, BSL] ?m) @ [DQ])"
    by (intro valid_utf8_append valid_utf8_replace_char v) (simp_all add: is_ascii_byte_def)
  with v show ?thesis by (simp add: quote_name_def Let_def)
qed

lemma render_mailbox_tokens_utf8:
  assumes "render_mailbox_tokens lib field input = Inr ts"
    and "base64_laws (wl_base64 lib)" "address_utf8 (wl_address lib)" "valid_utf8 input"
  shows "ts \<noteq> [] \<and> (\<forall>t \<in> set ts. valid_utf8 t)"
proof -
  from assms(1) obtain a where a: "parse_one_checked (wl_address lib) input = Inr a"
    by (auto simp: render_mailbox_tokens_def result_simps)
  then obtain as where as: "parse_address_list_checked (wl_address lib) input = Inr as" "a \<in> set as"
    by (auto simp: parse_one_checked_def result_simps length_Suc_conv)
  note v = parse_address_list_checked_utf8 [OF as(1) assms(3,4) as(2)]
  have b: "valid_utf8 (''<'' @ ma_email a @ ''>'')"
    using v valid_utf8_quoted by (intro valid_utf8_append) auto
  have e: "valid_utf8 t" if "t \<in> set (encode_words lib n)" for t n
    using encode_words_graphic [OF assms(2) that] by (intro valid_utf8_is_ascii graphic_ascii)
  from assms(1) a consider "ts = [ma_email a]"
    | n ws where "ma_name a = Some n" "ts = ws @ [''<'' @ ma_email a @ ''>'']"
        "ws = encode_words lib n \<or> ws = [quote_name n]"
    by (fastforce simp: render_mailbox_tokens_def result_simps split: option.splits if_splits)
  then show ?thesis
  proof cases
    case 1
    with v show ?thesis by simp
  next
    case (2 n ws)
    have "\<forall>t \<in> set ws. valid_utf8 t" using 2(1,3) v e valid_utf8_quote_name by auto
    with 2(2) b show ?thesis by auto
  qed
qed

lemma address_tokens_utf8:
  assumes "address_tokens lib field n i vs = Inr ts"
    and "base64_laws (wl_base64 lib)" "address_utf8 (wl_address lib)" "\<forall>v \<in> set vs. valid_utf8 v"
  shows "\<forall>t \<in> set ts. valid_utf8 t"
  using assms
proof (induction vs arbitrary: i ts)
  case (Cons v vs)
  from Cons.prems(1) obtain mb rest where s:
      "render_mailbox_tokens lib field v = Inr mb" "address_tokens lib field n (i + 1) vs = Inr rest"
      "ts = (if i + 1 \<noteq> n then push_last '','' mb else mb) @ rest"
    by (auto simp: result_simps Let_def)
  from render_mailbox_tokens_utf8 [OF s(1)] Cons.prems have mb: "mb \<noteq> []" "\<forall>t \<in> set mb. valid_utf8 t" by auto
  then have "valid_utf8 (last mb @ '','')" by (intro valid_utf8_append) auto
  with mb have "\<forall>t \<in> set (push_last '','' mb). valid_utf8 t"
    by (auto simp: push_last_def dest: in_set_butlastD)
  with mb Cons.IH [OF s(2)] Cons.prems s(3) show ?case by auto
qed simp

interpretation address_header: header_writer
  "\<lambda>out (lib, field, values, allow_empty). write_address_header (rl_wire lib) out field values allow_empty"
  "\<lambda>(lib, field, values, allow_empty). [field]"
  "\<lambda>(lib, field, values, allow_empty). render_laws lib \<and> field_name_ok field \<and> (\<forall>v \<in> set values. valid_utf8 v)"
proof
  fix a out out'
  assume acc: "case a of (lib, field, values, allow_empty) \<Rightarrow>
      render_laws lib \<and> field_name_ok field \<and> (\<forall>v \<in> set values. valid_utf8 v)"
    and w: "(case a of (lib, field, values, allow_empty) \<Rightarrow>
      write_address_header (rl_wire lib) out field values allow_empty) = Inr out'"
  obtain lib f vs e where a: "a = (lib, f, vs, e)" by (cases a)
  from w a obtain ts where ts: "address_tokens (rl_wire lib) f (length vs) 0 vs = Inr ts"
      "write_token_header out f ts = Inr out'"
    by (auto simp: write_address_header_def result_simps)
  from address_tokens_utf8 [OF ts(1)] acc a have "\<forall>t \<in> set ts. valid_utf8 t"
    by (auto simp: render_laws_def)
  with write_token_header_block [OF ts(2)] acc a
  show "\<exists>s. out' = out @ s \<and> header_section (case a of (lib, field, values, allow_empty) \<Rightarrow> [field]) s"
    by (auto intro: header_section_single)
qed

interpretation optional_addresses: header_writer
  "\<lambda>out (lib, field, values). write_optional_addresses lib field values out"
  "\<lambda>(lib, field, values). if values = [] then [] else [field]"
  "\<lambda>(lib, field, values). render_laws lib \<and> field_name_ok field \<and> (\<forall>v \<in> set values. valid_utf8 v)"
proof
  fix a out out'
  assume acc: "case a of (lib, field, values) \<Rightarrow>
      render_laws lib \<and> field_name_ok field \<and> (\<forall>v \<in> set values. valid_utf8 v)"
    and w: "(case a of (lib, field, values) \<Rightarrow> write_optional_addresses lib field values out) = Inr out'"
  obtain lib f vs where a: "a = (lib, f, vs)" by (cases a)
  from acc w a address_header.appends [of "(lib, f, vs, True)" out out']
  show "\<exists>s. out' = out @ s \<and>
      header_section (case a of (lib, field, values) \<Rightarrow> if values = [] then [] else [field]) s"
    by (auto simp: write_optional_addresses_def)
qed

interpretation subject_header: header_writer
  "\<lambda>out (lib, subject). write_subject_header (rl_wire lib) out subject"
  "\<lambda>_. [''Subject'']" "\<lambda>(lib, subject). render_laws lib \<and> valid_utf8 subject"
proof
  fix a out out'
  assume acc: "case a of (lib, subject) \<Rightarrow> render_laws lib \<and> valid_utf8 subject"
    and w: "(case a of (lib, subject) \<Rightarrow> write_subject_header (rl_wire lib) out subject) = Inr out'"
  obtain lib s where a: "a = (lib, s)" by (cases a)
  from w a obtain ts where ts: "write_token_header out ''Subject'' ts = Inr out'"
      "ts = encode_words (rl_wire lib) s \<or> ts = [s]"
    by (auto simp: write_subject_header_def result_simps Let_def split: if_splits)
  have "valid_utf8 t" if "t \<in> set (encode_words (rl_wire lib) s)" for t
    using encode_words_graphic [OF _ that] acc a
    by (intro valid_utf8_is_ascii graphic_ascii) (auto simp: render_laws_def)
  with ts(2) acc a have "\<forall>t \<in> set ts. valid_utf8 t" by auto
  moreover have "field_name_ok ''Subject''" by (simp add: field_name_ok_def is_ascii_graphic_def)
  ultimately show "\<exists>s. out' = out @ s \<and> header_section [''Subject''] s"
    using write_token_header_block [OF ts(1)] header_section_single by blast
qed


section \<open>The header of a rendered message\<close>

definition body_fields :: "composed_message \<Rightarrow> string list" where
  "body_fields m =
     (if cm_attachments m = [] \<and> rendered_html_body m = None
      then [''Content-Type'', ''Content-Transfer-Encoding''] else [''Content-Type''])"

definition optional_field :: "bool \<Rightarrow> string \<Rightarrow> string list" where
  "optional_field present field = (if present then [field] else [])"

definition message_fields :: "composed_message \<Rightarrow> string list" where
  "message_fields m =
     [''Date'', ''Message-ID'', ''From''] @ optional_field (cm_to m \<noteq> []) ''To'' @
     optional_field (cm_cc m \<noteq> []) ''Cc'' @ optional_field (cm_bcc m \<noteq> []) ''Bcc'' @ [''Subject''] @
     optional_field (cm_in_reply_to m \<noteq> None) ''In-Reply-To'' @
     optional_field (cm_references m \<noteq> []) ''References'' @ [''MIME-Version'']"

lemma message_field_names [simp]:
  "field_name_ok ''Date''" "field_name_ok ''Message-ID''" "field_name_ok ''From''" "field_name_ok ''To''"
  "field_name_ok ''Cc''" "field_name_ok ''Bcc''" "field_name_ok ''Subject''" "field_name_ok ''In-Reply-To''"
  "field_name_ok ''References''"
  by (simp_all add: field_name_ok_def is_ascii_graphic_def)

lemma threading_ids_utf8: "threading_ids field vs = Inr ids \<Longrightarrow> \<forall>t \<in> set ids. valid_utf8 t"
  using message_id_tokens_well_formed well_formed_id_ascii valid_utf8_is_ascii
  by (fastforce simp: threading_ids_def result_simps list_all_iff)

lemma token_step:
  assumes "header_section ns out" "write_token_header out field ts = Inr out'"
    and "field_name_ok field" "\<forall>t \<in> set ts. valid_utf8 t"
  shows "header_section (ns @ [field]) out'"
  using token_header.extends [OF assms(1), of "(field, ts)" out'] assms(2-4) by simp

lemma address_step:
  assumes "header_section ns out" "write_optional_addresses lib field vs out = Inr out'"
    and "render_laws lib" "field_name_ok field" "\<forall>v \<in> set vs. valid_utf8 v"
  shows "header_section (ns @ optional_field (vs \<noteq> []) field) out'"
  using optional_addresses.extends [OF assms(1), of "(lib, field, vs)" out'] assms(2-5)
  by (simp add: optional_field_def split: if_splits)

lemma render_fields_section:
  assumes "render_fields lib m = Inr out" "render_laws lib" "rust_message m"
  shows "header_section (message_fields m) out"
proof -
  let ?irt = "\<lambda>out. case cm_in_reply_to m of None \<Rightarrow> Inr out
     | Some in_reply_to \<Rightarrow> and_then (threading_ids ''In-Reply-To'' [in_reply_to]) (\<lambda>ids.
         and_then (ensure (ids \<noteq> []) InReplyToEmpty) (\<lambda>_. write_token_header out ''In-Reply-To'' ids))"
  let ?refs = "\<lambda>out. if cm_references m \<noteq> [] then
       and_then (threading_ids ''References'' (cm_references m)) (\<lambda>ids.
       and_then (ensure (ids \<noteq> []) ReferencesEmpty) (\<lambda>_. write_token_header out ''References'' ids))
     else Inr out"
  from assms(1) obtain a ids b c d e f g h i where s:
    "write_token_header [] ''Date'' [rl_to_rfc2822 lib (cm_render_date m)] = Inr a"
    "threading_ids ''Message-ID'' [cm_message_id m] = Inr ids"
    "write_token_header a ''Message-ID'' ids = Inr b"
    "write_address_header (rl_wire lib) b ''From'' [cm_from m] False = Inr c"
    "write_optional_addresses lib ''To'' (cm_to m) c = Inr d"
    "write_optional_addresses lib ''Cc'' (cm_cc m) d = Inr e"
    "write_optional_addresses lib ''Bcc'' (cm_bcc m) e = Inr f"
    "write_subject_header (rl_wire lib) f (cm_subject m) = Inr g"
    "?irt g = Inr h" "?refs h = Inr i" "write_literal_header i ''MIME-Version'' ''1.0'' = Inr out"
    unfolding render_fields_def and_then_Inr ensure_Inr by (elim exE conjE) blast
  have d: "valid_utf8 (rl_to_rfc2822 lib (cm_render_date m))"
    using assms(2) by (intro valid_utf8_is_ascii) (simp add: render_laws_def)
  have 1: "header_section [''Date''] a" using token_step [OF header_section_Nil s(1)] d by simp
  have 2: "header_section [''Date'', ''Message-ID''] b"
    using token_step [OF 1 s(3)] threading_ids_utf8 [OF s(2)] by simp
  have 3: "header_section [''Date'', ''Message-ID'', ''From''] c"
    using address_header.extends [OF 2, of "(lib, ''From'', [cm_from m], False)" c] s(4) assms(2,3)
    by (simp add: rust_message_def)
  note 4 = address_step [OF 3 s(5) assms(2)]
  have v: "\<forall>v \<in> set (cm_to m). valid_utf8 v" "\<forall>v \<in> set (cm_cc m). valid_utf8 v"
      "\<forall>v \<in> set (cm_bcc m). valid_utf8 v" using assms(3) by (auto simp: rust_message_def)
  note 4 = address_step [OF 3 s(5) assms(2) message_field_names(4) v(1)]
  note 5 = address_step [OF 4 s(6) assms(2) message_field_names(5) v(2)]
  note 6 = address_step [OF 5 s(7) assms(2) message_field_names(6) v(3)]
  note 7 = subject_header.extends [OF 6, of "(lib, cm_subject m)" g]
  have 7: "header_section ((((([''Date'', ''Message-ID'', ''From''] @ optional_field (cm_to m \<noteq> []) ''To'') @
      optional_field (cm_cc m \<noteq> []) ''Cc'') @ optional_field (cm_bcc m \<noteq> []) ''Bcc''))
      @ [''Subject'']) g" (is "header_section ?n7 g")
    using 7 s(8) assms(2,3) by (simp add: rust_message_def)
  have 8: "header_section (?n7 @ optional_field (cm_in_reply_to m \<noteq> None) ''In-Reply-To'') h"
      (is "header_section ?n8 h")
  proof (cases "cm_in_reply_to m")
    case None
    with s(9) 7 show ?thesis by (simp add: optional_field_def)
  next
    case (Some r)
    with s(9) obtain ids where ids: "threading_ids ''In-Reply-To'' [r] = Inr ids"
        "write_token_header g ''In-Reply-To'' ids = Inr h" by (auto simp: result_simps)
    from token_step [OF 7 ids(2) message_field_names(8) threading_ids_utf8 [OF ids(1)]] Some
    show ?thesis by (simp add: optional_field_def)
  qed
  have 9: "header_section (?n8 @ optional_field (cm_references m \<noteq> []) ''References'') i"
      (is "header_section ?n9 i")
  proof (cases "cm_references m = []")
    case True
    with s(10) 8 show ?thesis by (simp add: optional_field_def)
  next
    case False
    with s(10) obtain ids where ids: "threading_ids ''References'' (cm_references m) = Inr ids"
        "write_token_header h ''References'' ids = Inr i" by (auto simp: result_simps)
    from token_step [OF 8 ids(2) message_field_names(9) threading_ids_utf8 [OF ids(1)]] False
    show ?thesis by (simp add: optional_field_def)
  qed
  have "valid_utf8 ''1.0''" by (simp add: valid_utf8_is_ascii is_ascii_str_def is_ascii_byte_def)
  with literal_header.extends [OF 9, of "(''MIME-Version'', ''1.0'')" out] s(11)
  have "header_section (?n9 @ [''MIME-Version'']) out" by simp
  then show ?thesis by (simp add: message_fields_def)
qed

section \<open>The body\<close>

lemma boundary_clean:
  assumes "render_laws lib"
  shows "clean (mixed_boundary lib m)" "length (mixed_boundary lib m) \<le> 70"
    and "clean (alternative_boundary lib m)" "length (alternative_boundary lib m) \<le> 70"
  using assms graphic_clean by (auto simp: render_laws_def mixed_boundary_def alternative_boundary_def)

text \<open>What the quoted-printable encoder documents: lines of at most 76 characters, line ends kept.\<close>

definition qp_laws :: "(string \<Rightarrow> string) \<Rightarrow> bool" where
  "qp_laws qp \<longleftrightarrow> (\<forall>s. crlf_only s \<longrightarrow> wire_text (ensure_crlf_terminated (qp s)))"

lemma wire_text_append: "wire_text s \<Longrightarrow> wire_text t \<Longrightarrow> wire_text (s @ t)"
  unfolding wire_text_def by (elim exE conjE, rule exI, rule conjI, simp only: join_lines_simps(3) [symmetric]) auto

lemma wire_text_single: "clean l \<Longrightarrow> length l \<le> MAX_WIRE_LINE_LENGTH \<Longrightarrow> wire_text (l @ CRLF)"
  using wire_text_line [OF _ _ wire_text_Nil] by simp

lemma wire_text_CRLF [simp]: "wire_text CRLF"
  using wire_text_single [of "[]"] by simp

lemma wire_text_lines:
  "\<forall>l \<in> set ls. clean l \<and> length l \<le> MAX_WIRE_LINE_LENGTH \<Longrightarrow> wire_text (join_lines ls)"
  unfolding wire_text_def by blast

lemma header_block_wire:
  assumes "header_block name s"
  shows "wire_text s"
proof -
  from assms obtain first rest where s: "s = join_lines ((name @ '':'' @ first) # map (\<lambda>l. SP # l) rest)"
    and l: "clean (name @ first)" "length (name @ '':'' @ first) \<le> MAX_WIRE_LINE_LENGTH"
      "\<forall>l \<in> set rest. clean l \<and> length (SP # l) \<le> MAX_WIRE_LINE_LENGTH"
    unfolding header_block_def by blast
  show ?thesis unfolding s by (rule wire_text_lines) (use l in auto)
qed

lemma header_section_wire: "header_section names s \<Longrightarrow> wire_text s"
proof -
  assume "header_section names s"
  then obtain blocks where "s = concat blocks" "list_all2 header_block names blocks"
    by (auto simp: header_section_def)
  moreover from this(2) have "wire_text (concat blocks)"
    by (induction rule: list_all2_induct) (simp_all add: wire_text_append header_block_wire)
  ultimately show ?thesis by simp
qed

lemma ensure_crlf_terminated_wire:
  assumes "wire_text (ensure_crlf_terminated q)" "ends_with out CRLF"
  shows "\<exists>s. ensure_crlf_terminated (out @ q) = out @ s \<and> wire_text s"
proof (cases "q = []")
  case True
  with assms(2) show ?thesis by (simp add: ensure_crlf_terminated_def)
next
  case False
  have "ends_with (out @ q) CRLF = ends_with q CRLF"
  proof
    assume e: "ends_with (out @ q) CRLF"
    then obtain p where p: "out @ q = p @ CRLF" by (auto simp: ends_with_iff)
    show "ends_with q CRLF"
    proof (cases "length q = 1")
      case True
      with p False have "q = [LF]" by (cases q rule: rev_cases) auto
      with assms(1) have "wire_text (LF # CRLF)" by (simp add: ensure_crlf_terminated_def ends_with_iff)
      then show ?thesis by (simp add: wire_text_cases)
    next
      case l: False
      with False obtain r a b where "q = r @ [a, b]"
        by (cases q rule: rev_cases) (auto, metis append_Cons append_Nil append.assoc rev_exhaust)
      with p show ?thesis by (auto simp: ends_with_iff)
    qed
  qed (auto simp: ends_with_iff)
  with assms(1) show ?thesis by (auto simp: ensure_crlf_terminated_def split: if_splits)
qed

text \<open>Every step of the body appends well-formed lines; none rewrites what is already rendered.\<close>

definition appends_lines :: "string \<Rightarrow> wire_error + string \<Rightarrow> bool" where
  "appends_lines out r \<longleftrightarrow> (\<forall>out'. r = Inr out' \<longrightarrow> (\<exists>s. out' = out @ s \<and> wire_text s))"

lemma appends_lines_Inr: "wire_text s \<Longrightarrow> appends_lines out (Inr (out @ s))"
  by (simp add: appends_lines_def)

lemma appends_lines_refl [simp]: "appends_lines out (Inr out)" "appends_lines out (Inl e)"
  using wire_text_Nil by (simp_all add: appends_lines_def)

lemma appends_lines_trans:
  "appends_lines out r \<Longrightarrow> (\<And>x. r = Inr x \<Longrightarrow> appends_lines x (f x)) \<Longrightarrow> appends_lines out (and_then r f)"
  by (cases r) (fastforce simp: appends_lines_def intro: wire_text_append)+

lemma appends_lines_more:
  "appends_lines (out @ s) r \<Longrightarrow> wire_text s \<Longrightarrow> appends_lines out r"
  using wire_text_append by (fastforce simp: appends_lines_def)

lemma appends_lines_section:
  "(\<And>out'. r = Inr out' \<Longrightarrow> \<exists>s. out' = out @ s \<and> header_section ns s) \<Longrightarrow> appends_lines out r"
  unfolding appends_lines_def using header_section_wire by blast

lemma text_part_lines: "valid_utf8 ct \<Longrightarrow> appends_lines out (write_text_part_headers out ct)"
  by (rule appends_lines_section) (rule text_part_headers.appends)

lemma multipart_lines:
  "valid_utf8 ct \<Longrightarrow> clean b \<Longrightarrow> length b \<le> 70 \<Longrightarrow> appends_lines out (write_multipart_header out ct b)"
  using multipart_header.appends [of "(ct, b)" out] by (intro appends_lines_section) auto

lemma boundary_line:
  "clean b \<Longrightarrow> length b \<le> 70 \<Longrightarrow> \<exists>s. write_boundary out b closing = out @ s \<and> wire_text s"
  unfolding write_boundary_def
  using wire_text_single [of "''--'' @ b"] wire_text_single [of "''--'' @ b @ ''--''"]
  by (cases closing) (simp_all add: wire_limits)

lemma boundary_lines:
  "clean b \<Longrightarrow> length b \<le> 70 \<Longrightarrow> appends_lines out (Inr (write_boundary out b closing))"
  using boundary_line by (simp add: appends_lines_def)

lemma after_boundary:
  "clean b \<Longrightarrow> length b \<le> 70 \<Longrightarrow> appends_lines (write_boundary out b closing) r \<Longrightarrow> appends_lines out r"
  using boundary_line appends_lines_more by metis

lemma quoted_printable_lines:
  assumes "qp_laws (wl_quoted_printable lib)" "ends_with out CRLF"
  shows "appends_lines out (Inr (write_quoted_printable_body lib out body))"
  using ensure_crlf_terminated_wire [OF _ assms(2)] assms(1) normalize_crlf_only
  by (simp add: qp_laws_def write_quoted_printable_body_def appends_lines_def)

lemma ends_with_append_CRLF [simp]: "ends_with (s @ CRLF) CRLF"
  by (auto simp: ends_with_iff)

lemma after_CRLF: "appends_lines (out @ CRLF) r \<Longrightarrow> appends_lines out r"
  using appends_lines_more wire_text_CRLF by blast

lemma media_types_utf8 [simp]:
  "valid_utf8 ''text/plain''" "valid_utf8 ''text/html''" "valid_utf8 ''multipart/mixed''"
  "valid_utf8 ''multipart/alternative''" "valid_utf8 ''attachment''" "valid_utf8 ''8bit''" "valid_utf8 ''base64''"
  "valid_utf8 ''application/octet-stream''"
  by (simp_all add: valid_utf8_is_ascii is_ascii_str_def is_ascii_byte_def)

lemma text_part_body_lines:
  assumes "qp_laws (wl_quoted_printable lib)" "valid_utf8 ct"
  shows "appends_lines out (and_then (write_text_part_headers out ct) (\<lambda>out.
     Inr (write_quoted_printable_body lib (out @ CRLF) body)))"
  by (rule appends_lines_trans [OF text_part_lines [OF assms(2)]], rule after_CRLF)
     (rule quoted_printable_lines [OF assms(1)], simp)


lemma alternative_lines:
  assumes "qp_laws (wl_quoted_printable (rl_wire lib))" "clean b" "length b \<le> 70"
  shows "appends_lines out (render_alternative_parts lib out b text html)"
proof -
  note part = text_part_lines [OF media_types_utf8(1)] text_part_lines [OF media_types_utf8(2)]
  note qp = quoted_printable_lines [OF assms(1) ends_with_append_CRLF]
  have html: "appends_lines x (case html of None \<Rightarrow> Inr x
      | Some html \<Rightarrow> (let out = write_boundary x b False in
         and_then (write_text_part_headers out ''text/html'') (\<lambda>out.
           Inr (write_quoted_printable_body (rl_wire lib) (out @ CRLF) html))))" for x
  proof (cases html)
    case (Some h)
    show ?thesis unfolding Some option.case Let_def
      by (rule after_boundary [OF assms(2,3)], rule text_part_body_lines [OF assms(1) media_types_utf8(2)])
  qed simp
  show ?thesis
    unfolding render_alternative_parts_def Let_def
    apply (rule after_boundary [OF assms(2,3)], rule appends_lines_trans [OF part(1)])
    apply (rule after_CRLF)
    apply (rule appends_lines_trans [of _ "Inr _", simplified, OF qp])
    apply (rule appends_lines_trans [OF html [unfolded Let_def]])
    apply (rule boundary_lines [OF assms(2,3)])
    done
qed

section \<open>Attachments\<close>

lemma safe_type_cases:
  "safe_attachment_content_type ct = ''application/octet-stream'' \<or>
   safe_attachment_content_type ct = ct \<and> is_ascii_str ct"
proof (cases "split_once CHR ''/'' ct")
  case (Some p)
  obtain a b where p: "p = (a, b)" by (cases p)
  have "ct = a @ CHR ''/'' # b" using Some p by (simp add: split_once_Some)
  moreover have "is_mime_token s \<Longrightarrow> is_ascii_str s" for s
    by (rule graphic_ascii) (auto simp: is_mime_token_def list_all_iff)
  ultimately show ?thesis using Some p
    by (auto simp: safe_attachment_content_type_def is_ascii_str_def is_ascii_byte_def)
qed (simp add: safe_attachment_content_type_def)

lemma attachment_wire_type_utf8: "valid_utf8 (attachment_wire_type ct)"
proof -
  have "attachment_wire_type ct = ''application/octet-stream'' \<or> attachment_wire_type ct = ct \<and> is_ascii_str ct"
    using safe_type_cases [of ct] unfolding attachment_wire_type_def Let_def by presburger
  then show ?thesis using valid_utf8_is_ascii by auto
qed

lemma base64_lines_wire: "list_all is_ascii_graphic s \<Longrightarrow> wire_text (base64_lines s)"
proof (induction s rule: base64_lines.induct)
  case (1 s)
  show ?case
  proof (cases "s = []")
    case False
    have g: "list_all is_ascii_graphic (take 76 s)" "list_all is_ascii_graphic (drop 76 s)"
      using 1(2) by (auto simp: list_all_iff dest: in_set_takeD in_set_dropD)
    from False 1(1) g wire_text_line [OF graphic_clean [OF g(1)]] show ?thesis
      by (subst base64_lines.simps) (simp add: wire_limits)
  qed (simp add: base64_lines.simps)
qed

lemma normalize_embedded_message_wire:
  assumes "normalize_embedded_message lib bytes ct = Inr n"
  shows "wire_text (ensure_crlf_terminated n)"
proof -
  from assms have "n = ensure_crlf_terminated (normalize_line_endings bytes)" "validate_wire n = Inr ()"
    by (auto simp: normalize_embedded_message_def Let_def result_simps)
  then have "ends_with n CRLF" "wire_text n" by (auto simp: ensure_crlf_terminated_ends validate_wire_iff)
  then show ?thesis by (simp add: ensure_crlf_terminated_def)
qed

lemma attachment_lines:
  assumes "render_laws lib" "valid_utf8 (ai_filename a)"
  shows "appends_lines out (render_attachment lib out a)"
proof -
  have b64: "list_all is_ascii_graphic (wl_base64 (rl_wire lib) s)" for s
    using assms(1) base64_alphabet_graphic by (auto simp: render_laws_def base64_laws_def list_all_iff)
  let ?ct = "attachment_wire_type (ai_content_type a)"
  have param: "appends_lines out (write_parameterized_header out name v p (ai_filename a))"
    if "field_name_ok name" "valid_utf8 v" "clean p" for out name v p
    using parameterized_header.appends [of "(name, v, p, ai_filename a)" out] that assms(2)
    by (intro appends_lines_section) auto
  have lit: "appends_lines out (write_literal_header out ''Content-Transfer-Encoding'' v)" if "valid_utf8 v" for out v
    using literal_header.appends [of "(''Content-Transfer-Encoding'', v)" out] that
    by (intro appends_lines_section) auto
  have embedded: "appends_lines x (map_ok (\<lambda>e. ensure_crlf_terminated (x @ e))
      (normalize_embedded_message lib (ai_bytes a) ?ct))" if "ends_with x CRLF" for x
    using ensure_crlf_terminated_wire [OF normalize_embedded_message_wire that]
    by (auto simp: appends_lines_def result_simps)
  have encoded: "appends_lines x (Inr (x @ base64_lines e @ (if e = [] then CRLF else [])))"
    if "list_all is_ascii_graphic e" for x e
    using base64_lines_wire [OF that] wire_text_append by (intro appends_lines_Inr) simp
  have skip: "appends_lines x (and_then (check_header_text f v) (\<lambda>_. r))" if "appends_lines x r" for x f v r
    using that by (cases "check_header_text f v") simp_all
  have skip2: "appends_lines x (and_then (ensure b e) (\<lambda>_. r))" if "appends_lines x r" for x b e r
    using that by (cases b) simp_all
  have fields: "valid_utf8 (if c then ''8bit'' else ''base64'')" "clean ''name''" "clean ''filename''" for c by simp_all
  show ?thesis
    unfolding render_attachment_def Let_def
    by (rule skip, rule skip, rule skip2,
        rule appends_lines_trans [OF param [OF mime_field_names(1) attachment_wire_type_utf8 fields(2)]],
        rule appends_lines_trans [OF lit [OF fields(1)]],
        rule appends_lines_trans [OF param [OF mime_field_names(3) media_types_utf8(5) fields(3)]],
        rule after_CRLF, simp only: embedded [OF ends_with_append_CRLF] encoded [OF b64] if_split simp_thms)
qed

lemma attachments_lines:
  assumes "render_laws lib" "clean b" "length b \<le> 70" "\<forall>a \<in> set as. valid_utf8 (ai_filename a)"
  shows "appends_lines out (render_attachments lib b out as)"
  using assms(4)
proof (induction as arbitrary: out)
  case (Cons a as)
  show ?case unfolding render_attachments.simps
    by (rule after_boundary [OF assms(2,3)], rule appends_lines_trans [OF attachment_lines [OF assms(1)]])
       (use Cons in auto)
qed simp

section \<open>Whole messages\<close>

lemma header_body_split:
  assumes "\<And>o1. w = Inr o1 \<Longrightarrow> \<exists>s. o1 = out @ s \<and> header_section ns s"
    and "\<And>o1. appends_lines (o1 @ CRLF) (f (o1 @ CRLF))"
    and "and_then w (\<lambda>o1. f (o1 @ CRLF)) = Inr out'"
  shows "\<exists>s b. out' = out @ s @ CRLF @ b \<and> header_section ns s \<and> wire_text b"
proof -
  from assms(3) obtain o1 where o1: "w = Inr o1" "f (o1 @ CRLF) = Inr out'" by (auto simp: result_simps)
  from assms(1) [OF o1(1)] obtain s where "o1 = out @ s" "header_section ns s" by blast
  moreover from assms(2) [of o1] o1(2) obtain b where "out' = (o1 @ CRLF) @ b" "wire_text b"
    by (auto simp: appends_lines_def)
  ultimately show ?thesis by auto
qed

lemma render_body_split:
  assumes "render_body lib m out = Inr out'" "render_laws lib" "qp_laws (wl_quoted_printable (rl_wire lib))"
    and "\<forall>a \<in> set (cm_attachments m). valid_utf8 (ai_filename a)"
  shows "\<exists>s b. out' = out @ s @ CRLF @ b \<and> header_section (body_fields m) s \<and> wire_text b"
proof -
  note bd = boundary_clean [OF assms(2), of m]
  note qp = quoted_printable_lines [OF assms(3) ends_with_append_CRLF]
  note alt = alternative_lines [OF assms(3) bd(3,4)]
  consider "cm_attachments m = []" "rendered_html_body m = None"
    | "cm_attachments m = []" "rendered_html_body m \<noteq> None" | "cm_attachments m \<noteq> []" by blast
  then show ?thesis
  proof cases
    case 1
    then have f: "body_fields m = [''Content-Type'', ''Content-Transfer-Encoding'']" by (simp add: body_fields_def)
    have h: "and_then (write_text_part_headers out ''text/plain'')
        (\<lambda>o1. Inr (write_quoted_printable_body (rl_wire lib) (o1 @ CRLF) (rendered_text_body m))) = Inr out'"
      using 1 assms(1) by (simp add: render_body_def Let_def)
    show ?thesis unfolding f by (rule header_body_split [OF text_part_headers.appends [OF media_types_utf8(1)] qp h])
  next
    case 2
    then have f: "body_fields m = [''Content-Type'']" by (simp add: body_fields_def)
    let ?ct = "''multipart/alternative''"
    from 2 obtain html where html: "rendered_html_body m = Some html" by blast
    have h: "and_then (write_multipart_header out ?ct (alternative_boundary lib m))
        (\<lambda>o1. render_alternative_parts lib (o1 @ CRLF) (alternative_boundary lib m) (rendered_text_body m)
           (rendered_html_body m)) = Inr out'"
      using 2(1) html assms(1) by (simp add: render_body_def Let_def)
    show ?thesis unfolding f
      by (rule header_body_split [OF multipart_header.appends [of "(?ct, alternative_boundary lib m)", unfolded prod.case] alt h])
         (use bd in simp_all)
  next
    case 3
    then have f: "body_fields m = [''Content-Type'']" by (simp add: body_fields_def)
    let ?inner = "\<lambda>x. if rendered_html_body m \<noteq> None then
          and_then (write_multipart_header x ''multipart/alternative'' (alternative_boundary lib m)) (\<lambda>y.
            render_alternative_parts lib (y @ CRLF) (alternative_boundary lib m) (rendered_text_body m)
              (rendered_html_body m))
        else and_then (write_text_part_headers x ''text/plain'') (\<lambda>y.
          Inr (write_quoted_printable_body (rl_wire lib) (y @ CRLF) (rendered_text_body m)))"
    let ?tail = "\<lambda>o1. and_then (?inner (write_boundary o1 (mixed_boundary lib m) False)) (\<lambda>x.
         and_then (render_attachments lib (mixed_boundary lib m) x (cm_attachments m)) (\<lambda>x.
           Inr (write_boundary x (mixed_boundary lib m) True)))"
    have inner: "appends_lines x (?inner x)" for x
      using text_part_body_lines [OF assms(3) media_types_utf8(1)]
        appends_lines_trans [OF multipart_lines [OF media_types_utf8(4) bd(3,4)] after_CRLF [OF alt]]
      by auto
    have tail: "appends_lines o1 (?tail o1)" for o1
      by (rule after_boundary [OF bd(1,2)], rule appends_lines_trans [OF inner],
          rule appends_lines_trans [OF attachments_lines [OF assms(2) bd(1,2) assms(4)]],
          rule boundary_lines [OF bd(1,2)])
    let ?ct = "''multipart/mixed''"
    have h: "and_then (write_multipart_header out ?ct (mixed_boundary lib m)) (\<lambda>o1. ?tail (o1 @ CRLF)) = Inr out'"
      using 3 assms(1) unfolding render_body_def Let_def by simp
    show ?thesis unfolding f
      by (rule header_body_split [OF multipart_header.appends [of "(?ct, mixed_boundary lib m)", unfolded prod.case] tail h])
         (use bd in simp_all)
  qed
qed

lemma message_fields_ok: "\<forall>n \<in> set (message_fields m @ body_fields m). field_name_ok n"
  by (auto simp: message_fields_def body_fields_def optional_field_def)

definition rust_attachments :: "composed_message \<Rightarrow> bool" where
  "rust_attachments m \<longleftrightarrow> (\<forall>a \<in> set (cm_attachments m). valid_utf8 (ai_filename a))"

lemma unchecked_message_split:
  assumes "and_then (render_fields lib m) (render_body lib m) = Inr out" "render_laws lib"
    and "qp_laws (wl_quoted_printable (rl_wire lib))" "rust_message m" "rust_attachments m"
  shows "\<exists>s b. out = s @ CRLF @ b \<and> header_section (message_fields m @ body_fields m) s \<and> wire_text b"
proof -
  from assms(1) obtain o1 where o1: "render_fields lib m = Inr o1" "render_body lib m o1 = Inr out"
    by (auto simp: result_simps)
  from render_body_split [OF o1(2) assms(2,3)] assms(5) obtain s b where
    "out = o1 @ s @ CRLF @ b" "header_section (body_fields m) s" "wire_text b"
    by (auto simp: rust_attachments_def)
  with header_section_append [OF render_fields_section [OF o1(1) assms(2,4)]] show ?thesis
    by (intro exI [of _ "o1 @ s"] exI [of _ b]) auto
qed

lemma render_message_checked:
  "render_message lib m = and_then (and_then (render_fields lib m) (render_body lib m))
     (\<lambda>out. and_then (validate_wire out) (\<lambda>_. Inr out))"
  by (cases "render_fields lib m") (simp_all add: render_message_def)

lemma render_message_unchecked:
  assumes "render_laws lib" "qp_laws (wl_quoted_printable (rl_wire lib))" "rust_message m" "rust_attachments m"
  shows "render_message lib m = and_then (render_fields lib m) (render_body lib m)"
proof (cases "and_then (render_fields lib m) (render_body lib m)")
  case (Inr out)
  from unchecked_message_split [OF this assms] obtain s b where
    "out = s @ CRLF @ b" "header_section (message_fields m @ body_fields m) s" "wire_text b" by blast
  then have "validate_wire out = Inr ()"
    by (simp only: validate_wire_iff wire_text_append header_section_wire wire_text_CRLF)
  with Inr show ?thesis by (simp add: render_message_checked)
qed (simp add: render_message_checked)

text \<open>The fields that are checked before anything else can fail for another reason.\<close>

lemma check_header_text_break:
  "\<not> clean v \<Longrightarrow> valid_utf8 v \<Longrightarrow> \<exists>e. check_header_text field v = Inl e"
  using check_header_text_clean [of field v] by (cases "check_header_text field v") auto

lemma address_tokens_clean:
  "address_tokens lib field n i vs = Inr ts \<Longrightarrow> \<forall>v \<in> set vs. valid_utf8 v \<Longrightarrow> \<forall>v \<in> set vs. clean v"
  by (induction vs arbitrary: i ts)
     (auto simp: result_simps render_mailbox_tokens_def intro: check_header_text_clean)

lemma render_fields_clean:
  assumes "render_fields lib m = Inr out" "rust_message m"
  shows "\<forall>v \<in> set (cm_from m # cm_subject m # cm_to m @ cm_cc m @ cm_bcc m). clean v"
proof -
  have opt: "\<forall>v \<in> set vs. clean v"
    if "write_optional_addresses lib f vs o1 = Inr o2" "\<forall>v \<in> set vs. valid_utf8 v" for f vs o1 o2
  proof (cases "vs = []")
    case False
    with that(1) obtain ts where "address_tokens (rl_wire lib) f (length vs) 0 vs = Inr ts"
      by (auto simp: write_optional_addresses_def write_address_header_def result_simps)
    from address_tokens_clean [OF this that(2)] show ?thesis .
  qed simp
  from assms(1) obtain b c d e f g where s:
    "write_address_header (rl_wire lib) b ''From'' [cm_from m] False = Inr c"
    "write_optional_addresses lib ''To'' (cm_to m) c = Inr d"
    "write_optional_addresses lib ''Cc'' (cm_cc m) d = Inr e"
    "write_optional_addresses lib ''Bcc'' (cm_bcc m) e = Inr f"
    "write_subject_header (rl_wire lib) f (cm_subject m) = Inr g"
    unfolding render_fields_def and_then_Inr ensure_Inr by (elim exE conjE) blast
  from s(1) obtain ts where "address_tokens (rl_wire lib) ''From'' 1 0 [cm_from m] = Inr ts"
    by (auto simp: write_address_header_def result_simps)
  from address_tokens_clean [OF this] assms(2) have "clean (cm_from m)" by (simp add: rust_message_def)
  moreover from s(5) have "check_header_text ''Subject'' (cm_subject m) = Inr ()"
    by (auto simp: write_subject_header_def result_simps)
  then have "clean (cm_subject m)" using assms(2) by (auto simp: rust_message_def intro: check_header_text_clean)
  moreover have "\<forall>v \<in> set (cm_to m). clean v" "\<forall>v \<in> set (cm_cc m). clean v" "\<forall>v \<in> set (cm_bcc m). clean v"
    using opt [OF s(2)] opt [OF s(3)] opt [OF s(4)] assms(2) by (auto simp: rust_message_def)
  ultimately show ?thesis by auto
qed

section \<open>A concrete environment\<close>

text \<open>A quoted-printable encoder that escapes everything but letters and digits.\<close>

fun qp_ref :: "nat \<Rightarrow> string \<Rightarrow> string" where
  "qp_ref col [] = []"
| "qp_ref col (b # bs) =
     (if b = CR \<and> bs \<noteq> [] \<and> hd bs = LF then CRLF @ qp_ref 0 (tl bs)
      else (let e = (if is_ascii_alphanumeric b then [b]
                     else [CHR ''='', hex_digit (bval b div 16), hex_digit (bval b mod 16)]) in
            if 24 \<le> col then ''='' @ CRLF @ e @ qp_ref 1 bs else e @ qp_ref (col + 1) bs))"

definition qp_lines :: "nat \<Rightarrow> string \<Rightarrow> bool" where
  "qp_lines col s \<longleftrightarrow> (\<exists>ls l. s = join_lines ls @ l \<and>
     (\<forall>x \<in> set (ls @ [l]). clean x \<and> length x \<le> 76) \<and> length (hd (ls @ [l])) + 3 * col \<le> 76)"

lemma qp_lines_line: "qp_lines 0 s \<Longrightarrow> col \<le> 24 \<Longrightarrow> qp_lines col (CRLF @ s)"
  unfolding qp_lines_def by (elim exE conjE, rename_tac ls l, rule_tac x = "[] # ls" in exI, rule_tac x = l in exI) auto

lemma qp_lines_soft: "qp_lines 0 s \<Longrightarrow> col \<le> 25 \<Longrightarrow> qp_lines col (''='' @ CRLF @ s)"
  unfolding qp_lines_def by (elim exE conjE, rename_tac ls l, rule_tac x = "''='' # ls" in exI, rule_tac x = l in exI) auto

lemma qp_lines_char:
  assumes "qp_lines (col + 1) s" "clean e" "length e \<le> 3"
  shows "qp_lines col (e @ s)"
proof -
  from assms(1) obtain ls l where s: "s = join_lines ls @ l" "\<forall>x \<in> set (ls @ [l]). clean x \<and> length x \<le> 76"
      "length (hd (ls @ [l])) + 3 * (col + 1) \<le> 76" by (auto simp: qp_lines_def)
  show ?thesis
  proof (cases ls)
    case Nil
    with s assms(2,3) show ?thesis
      unfolding qp_lines_def by (intro exI [of _ "[] :: string list"] exI [of _ "e @ l"]) auto
  next
    case (Cons x xs)
    with s assms(2,3) show ?thesis
      unfolding qp_lines_def by (intro exI [of _ "(e @ x) # xs"] exI [of _ l]) auto
  qed
qed

lemma hex_digit_clean: "n < 16 \<Longrightarrow> clean [hex_digit n]"
  using hex_digit_graphic [of n] graphic_clean [of "[hex_digit n]"] by simp

lemma qp_ref_lines: "col \<le> 24 \<Longrightarrow> qp_lines col (qp_ref col s)"
proof (induction col s rule: qp_ref.induct)
  case (1 col)
  then show ?case unfolding qp_lines_def
    by (intro exI [of _ "[] :: string list"] exI [of _ "[] :: string"]) simp
next
  case (2 col b bs)
  let ?e = "if is_ascii_alphanumeric b then [b]
    else [CHR ''='', hex_digit (bval b div 16), hex_digit (bval b mod 16)]"
  have e: "clean ?e" "length ?e \<le> 3"
    using hex_digit_clean byte_nibbles [of b] by (auto simp: byte_class_defs)
  show ?case
  proof (cases "b = CR \<and> bs \<noteq> [] \<and> hd bs = LF")
    case True
    with 2 show ?thesis by (simp add: qp_lines_line [unfolded append.simps])
  next
    case False
    show ?thesis
    proof (cases "24 \<le> col")
      case True
      from "2.IH"(2) [OF False refl True] have "qp_lines 0 (?e @ qp_ref 1 bs)"
        by (intro qp_lines_char e) simp
      from qp_lines_soft [OF this, of col] "2.prems" show ?thesis
        unfolding qp_ref.simps if_not_P [OF False] Let_def if_P [OF True] by simp
    next
      case lt: False
      from "2.IH"(3) [OF False refl lt] lt have "qp_lines col (?e @ qp_ref (col + 1) bs)"
        by (intro qp_lines_char e) simp
      then show ?thesis unfolding qp_ref.simps if_not_P [OF False] Let_def if_not_P [OF lt] .
    qed
  qed
qed

lemma qp_ref_laws: "qp_laws (qp_ref 0)"
  unfolding qp_laws_def
proof (intro allI impI)
  fix s
  from qp_ref_lines [of 0 s] obtain ls l where s: "qp_ref 0 s = join_lines ls @ l"
      "\<forall>x \<in> set (ls @ [l]). clean x \<and> length x \<le> 76" by (auto simp: qp_lines_def)
  then have "wire_text (join_lines ls)" "wire_text (l @ CRLF)"
    by (auto intro!: wire_text_lines wire_text_single simp: wire_limits)
  moreover from this have "ends_with (join_lines ls @ l) CRLF \<Longrightarrow> l = []"
    using s(2) by (cases l rule: rev_cases) (auto simp: ends_with_iff)
  ultimately show "wire_text (ensure_crlf_terminated (qp_ref 0 s))"
    unfolding s(1) ensure_crlf_terminated_def using wire_text_append by auto
qed

definition sample_render_lib :: render_lib where
  "sample_render_lib = \<lparr>
     rl_wire = ref_lib\<lparr>wl_quoted_printable := qp_ref 0\<rparr>, rl_mime = sample_lib,
     rl_to_rfc2822 = (\<lambda>t. ''Tue, 1 Jul 2003 10:52:37 +0000''),
     rl_uuid_text = (\<lambda>u. replicate 36 CHR ''0''), rl_to_lowercase = map to_ascii_lower\<rparr>"

lemma sample_render_laws: "render_laws sample_render_lib" "qp_laws (wl_quoted_printable (rl_wire sample_render_lib))"
proof -
  have "address_utf8 bare_lib" by (auto simp: address_utf8_def bare_lib_def split: if_splits)
  then show "render_laws sample_render_lib"
    by (simp add: render_laws_def sample_render_lib_def ref_lib_def base64_ref_laws is_ascii_str_def
      is_ascii_byte_def list_all_iff is_ascii_graphic_def)
  show "qp_laws (wl_quoted_printable (rl_wire sample_render_lib))"
    by (simp add: sample_render_lib_def qp_ref_laws)
qed

definition sample_message :: composed_message where
  "sample_message = (composed_message_new sample_render_lib \<lparr>fv_message_uuid = 1, fv_now = 2, fv_boundary_uuid = 3\<rparr>
     ''me@x.org'' [''you@y.org''] ''Hi'' ''Hello'')
   \<lparr>cm_in_reply_to := Some ''<a@b>'', cm_attachments := [\<lparr>ai_filename = ''f'', ai_content_type = ''text/csv'',
      ai_bytes = ''1,2'', ai_source_path = None\<rparr>]\<rparr>"

lemma sample_message_rust: "rust_message sample_message" "rust_attachments sample_message"
  by code_simp+

lemma sample_unchecked:
  "map_ok header_names (and_then (render_fields sample_render_lib sample_message) (render_body sample_render_lib sample_message)) =
     Inr [''Date'', ''Message-ID'', ''From'', ''To'', ''Subject'', ''In-Reply-To'', ''MIME-Version'', ''Content-Type'']"
  by code_simp

lemma sample_refused: "cm_subject (sample_message\<lparr>cm_subject := [CHR ''a'', LF]\<rparr>) = [CHR ''a'', LF] \<and>
    rust_message (sample_message\<lparr>cm_subject := [CHR ''a'', LF]\<rparr>)"
  by code_simp

section \<open>Properties\<close>

text \<open>
  C1. No user-controlled value can add, drop or rename a header: the header of a rendered
  message, read back line by line from the wire, has exactly the fields the message calls for,
  in their fixed order, and the whole message is CRLF lines of at most 998 bytes.
\<close>

theorem rendered_header_exact:
  assumes "render_message lib m = Inr out" "render_laws lib" "qp_laws (wl_quoted_printable (rl_wire lib))"
    and "rust_message m" "rust_attachments m"
  shows "header_names out = message_fields m @ body_fields m \<and> wire_text out"
proof -
  from assms(1) have "and_then (render_fields lib m) (render_body lib m) = Inr out" "wire_text out"
    by (auto simp: render_message_checked result_simps validate_wire_iff)
  moreover from unchecked_message_split [OF this(1) assms(2-5)] header_names_section [OF _ message_fields_ok]
  have "header_names out = message_fields m @ body_fields m" by auto
  ultimately show ?thesis by simp
qed

lemma rendered_header_exact_witness:
  "\<exists>out. render_message sample_render_lib sample_message = Inr out \<and> wire_text out \<and> header_names out =
     [''Date'', ''Message-ID'', ''From'', ''To'', ''Subject'', ''In-Reply-To'', ''MIME-Version'', ''Content-Type'']"
proof -
  obtain out where out: "render_message sample_render_lib sample_message = Inr out"
    using sample_unchecked by (auto simp: render_message_unchecked [OF sample_render_laws sample_message_rust] result_simps)
  moreover have "message_fields sample_message @ body_fields sample_message =
     [''Date'', ''Message-ID'', ''From'', ''To'', ''Subject'', ''In-Reply-To'', ''MIME-Version'', ''Content-Type'']"
    by code_simp
  ultimately show ?thesis
    using rendered_header_exact [OF out sample_render_laws sample_message_rust] by simp
qed

text \<open>
  C13. Rendering is correct by construction: a message whose fields and parts can be written
  is never refused by the final wire check, so rendering succeeds exactly when they can.
\<close>

theorem final_wire_check_never_fires:
  assumes "render_laws lib" "qp_laws (wl_quoted_printable (rl_wire lib))" "rust_message m" "rust_attachments m"
  shows "render_message lib m = and_then (render_fields lib m) (render_body lib m)"
  using assms by (rule render_message_unchecked)

lemma final_wire_check_never_fires_witness:
  "map_ok header_names (render_message sample_render_lib sample_message) =
     Inr [''Date'', ''Message-ID'', ''From'', ''To'', ''Subject'', ''In-Reply-To'', ''MIME-Version'', ''Content-Type'']"
  unfolding final_wire_check_never_fires [OF sample_render_laws sample_message_rust] by (rule sample_unchecked)

text \<open>
  A carriage return or line feed in a sender, recipient or subject is an error, never a
  repaired or injected header.
\<close>

theorem line_break_in_header_refused:
  assumes "rust_message m"
    and "v \<in> set (cm_from m # cm_subject m # cm_to m @ cm_cc m @ cm_bcc m)" "CR \<in> set v \<or> LF \<in> set v"
  shows "\<exists>e. to_rfc5322 lib m = Inl e"
proof (cases "render_fields lib m")
  case (Inr out)
  from render_fields_clean [OF this assms(1)] assms(2,3) show ?thesis by (auto simp: clean_def)
qed (simp add: to_rfc5322_def render_message_def)


lemma line_break_in_header_refused_witness:
  "\<exists>e. to_rfc5322 sample_render_lib (sample_message\<lparr>cm_subject := [CHR ''a'', LF]\<rparr>) = Inl e"
  using line_break_in_header_refused [of "sample_message\<lparr>cm_subject := [CHR ''a'', LF]\<rparr>" "[CHR ''a'', LF]"]
    sample_refused by simp

end
