(* ===== verification/Machine.thy ===== *)
theory Machine
  imports Notm_Prelude
begin

text \<open>
  State machines of the user interface.  A component that reacts to events (timers, worker
  results, user actions) is a partial step function: \<open>step a s\<close> is the state after event
  \<open>a\<close>, \<open>None\<close> where the event cannot occur in \<open>s\<close>.  Reachability, runs and the proof
  rule for invariants are shared by all of them.
\<close>

section \<open>Runs and reachable states\<close>

fun run_steps :: "('a \<Rightarrow> 's \<Rightarrow> 's option) \<Rightarrow> 'a list \<Rightarrow> 's \<Rightarrow> 's option" where
  "run_steps step [] s = Some s"
| "run_steps step (a # as) s = Option.bind (step a s) (run_steps step as)"

inductive reachable :: "('a \<Rightarrow> 's \<Rightarrow> 's option) \<Rightarrow> ('s \<Rightarrow> bool) \<Rightarrow> 's \<Rightarrow> bool"
  for step initial where
  start: "initial s \<Longrightarrow> reachable step initial s"
| step: "reachable step initial s \<Longrightarrow> step a s = Some s' \<Longrightarrow> reachable step initial s'"

inductive_cases reachable_cases: "reachable step initial s"

lemma run_steps_append:
  "run_steps step (as @ bs) s = Option.bind (run_steps step as s) (run_steps step bs)"
  by (induction as arbitrary: s) (auto split: bind_split)

lemma run_steps_snoc:
  "run_steps step (as @ [a]) s = Some s' \<longleftrightarrow> (\<exists>t. run_steps step as s = Some t \<and> step a t = Some s')"
  by (auto simp: run_steps_append split: bind_splits)

lemma reachable_run:
  "reachable step initial s \<Longrightarrow> run_steps step as s = Some s' \<Longrightarrow> reachable step initial s'"
  by (induction as arbitrary: s) (auto split: bind_splits intro: reachable.step)

lemma reachable_iff_run:
  "reachable step initial s' \<longleftrightarrow> (\<exists>s as. initial s \<and> run_steps step as s = Some s')"
proof
  assume "reachable step initial s'"
  then show "\<exists>s as. initial s \<and> run_steps step as s = Some s'"
  proof induction
    case (start s)
    then show ?case by (intro exI [of _ s] exI [of _ "[]"]) simp
  next
    case (step s a s')
    then obtain s0 as where "initial s0" "run_steps step as s0 = Some s" by blast
    with step.hyps(2) show ?case by (intro exI [of _ s0] exI [of _ "as @ [a]"]) (simp add: run_steps_append)
  qed
qed (auto intro: reachable_run reachable.start)

section \<open>Invariants\<close>

locale machine_invariant =
  fixes step :: "'a \<Rightarrow> 's \<Rightarrow> 's option"
    and initial :: "'s \<Rightarrow> bool"
    and inv :: "'s \<Rightarrow> bool"
  assumes starts: "initial s \<Longrightarrow> inv s"
    and keeps: "inv s \<Longrightarrow> step a s = Some s' \<Longrightarrow> inv s'"
begin

lemma holds: "reachable step initial s \<Longrightarrow> inv s"
  by (induction rule: reachable.induct) (auto intro: starts keeps)

lemma holds_after: "inv s \<Longrightarrow> run_steps step as s = Some s' \<Longrightarrow> inv s'"
  by (induction as arbitrary: s) (auto split: bind_splits intro: keeps)

end

text \<open>Bounded counters of the code: \<open>u64::saturating\_add(1)\<close>.\<close>

definition u64_max :: nat where "u64_max = 2 ^ 64 - 1"

definition saturating_succ :: "nat \<Rightarrow> nat" where
  "saturating_succ n = (if n < u64_max then n + 1 else n)"

lemma saturating_succ_less: "n < u64_max \<Longrightarrow> saturating_succ n = n + 1"
  by (simp add: saturating_succ_def)

lemma saturating_succ_bounds: "n \<le> saturating_succ n" "saturating_succ n \<le> Suc n"
  by (simp_all add: saturating_succ_def)

lemma saturating_succ_below: "saturating_succ n < u64_max \<Longrightarrow> n < u64_max \<and> saturating_succ n = n + 1"
  by (auto simp: saturating_succ_def split: if_splits)

end
