(* ===== verification/Draft_Autosave.thy ===== *)
theory Draft_Autosave
  imports Machine
begin

text \<open>
  The recovery-draft writer of the composer, \<open>notm-ui/src/draft_autosave.rs\<close>: edits are
  debounced into one pending request, boundary operations flush an exact request through an
  urgent queue, one worker thread writes at a time.  The controller is the record
  \<open>autosave\<close>; its environment (worker threads, timers, the callbacks it has run) is the
  record \<open>autosave_system\<close> around it.  The compose fields are a type parameter, callbacks
  are named by values of another; a callback that calls the controller again is the list of
  operations it performs.  Time is abstract: a timer that is armed may fire at any moment.
\<close>

section \<open>Data\<close>

datatype 'f recovery_action = Persist 'f | Clear

record draft_autosave_event =
  ev_generation :: nat
  ev_result :: "string + unit"
  ev_is_latest :: bool

record draft_autosave_snapshot =
  sn_busy :: bool
  sn_pending_generation :: "nat option"
  sn_completed_generation :: "nat option"
  sn_write_count :: nat

record 'f draft_write_request =
  wr_request_id :: nat
  wr_generation :: nat
  wr_action :: "'f recovery_action"
  wr_delay :: nat

record ('f, 'w) autosave =
  as_connected :: bool
  as_pending :: "'f draft_write_request option"
  as_pending_ready :: bool
  as_urgent :: "'f draft_write_request list"
  as_active :: "'f draft_write_request option"
  as_debounce_source :: "nat option"
  as_next_request_id :: nat
  as_latest_request_id :: nat
  as_last_completed :: "(nat \<times> nat \<times> (string + unit)) option"
  as_waiters :: "(nat \<times> 'w) list"
  as_test_delay :: nat
  as_fail_next_for_test :: bool
  as_write_count :: nat

section \<open>Operations\<close>

definition with_writer :: "('f, 'w) autosave" where
  "with_writer = \<lparr>
     as_connected = False, as_pending = None, as_pending_ready = False, as_urgent = [], as_active = None,
     as_debounce_source = None, as_next_request_id = 1, as_latest_request_id = 0,
     as_last_completed = None, as_waiters = [], as_test_delay = 0, as_fail_next_for_test = False,
     as_write_count = 0\<rparr>"

definition connect_events :: "('f, 'w) autosave \<Rightarrow> ('f, 'w) autosave" where
  "connect_events st = st\<lparr>as_connected := True\<rparr>"

definition set_test_delay :: "nat \<Rightarrow> ('f, 'w) autosave \<Rightarrow> ('f, 'w) autosave" where
  "set_test_delay delay st = st\<lparr>as_test_delay := delay\<rparr>"

definition fail_next_for_test :: "('f, 'w) autosave \<Rightarrow> ('f, 'w) autosave" where
  "fail_next_for_test st = st\<lparr>as_fail_next_for_test := True\<rparr>"

definition snapshot :: "('f, 'w) autosave \<Rightarrow> draft_autosave_snapshot" where
  "snapshot st = \<lparr>
     sn_busy = (as_active st \<noteq> None \<or> as_pending st \<noteq> None \<or> as_urgent st \<noteq> []),
     sn_pending_generation =
       (case as_urgent st of
          request # _ \<Rightarrow> Some (wr_generation request)
        | [] \<Rightarrow> (case as_pending st of
                   Some request \<Rightarrow> Some (wr_generation request)
                 | None \<Rightarrow> map_option wr_generation (as_active st))),
     sn_completed_generation = map_option (\<lambda>(_, generation, _). generation) (as_last_completed st),
     sn_write_count = as_write_count st\<rparr>"

definition next_request_id :: "('f, 'w) autosave \<Rightarrow> nat \<times> ('f, 'w) autosave" where
  "next_request_id st =
     (let request_id = as_next_request_id st in
      (request_id, st\<lparr>as_next_request_id := saturating_succ (as_next_request_id st),
                      as_latest_request_id := request_id\<rparr>))"

definition cancel_debounce :: "('f, 'w) autosave \<Rightarrow> ('f, 'w) autosave" where
  "cancel_debounce st = st\<lparr>as_debounce_source := None\<rparr>"

definition queue_debounced :: "nat \<Rightarrow> 'f recovery_action \<Rightarrow> ('f, 'w) autosave \<Rightarrow> ('f, 'w) autosave" where
  "queue_debounced generation action st =
     (let (request_id, st) = next_request_id st in
      st\<lparr>as_pending := Some \<lparr>wr_request_id = request_id, wr_generation = generation,
                             wr_action = action, wr_delay = as_test_delay st\<rparr>,
         as_pending_ready := False\<rparr>)"

text \<open>\<open>schedule\<close>, with the source the timer registration returns.\<close>

definition schedule :: "nat \<Rightarrow> nat \<Rightarrow> 'f recovery_action \<Rightarrow> ('f, 'w) autosave \<Rightarrow> ('f, 'w) autosave" where
  "schedule source generation action st =
     (queue_debounced generation action (cancel_debounce st))\<lparr>as_debounce_source := Some source\<rparr>"

text \<open>The second half of \<open>queue\_flush\<close>: a new urgent request.\<close>

definition push_urgent :: "nat \<Rightarrow> 'f recovery_action \<Rightarrow> ('f, 'w) autosave \<Rightarrow> nat \<times> ('f, 'w) autosave" where
  "push_urgent generation action st =
     (let (request_id, st) = next_request_id st in
      (request_id,
       st\<lparr>as_urgent := as_urgent st @ [\<lparr>wr_request_id = request_id, wr_generation = generation,
                                       wr_action = action, wr_delay = as_test_delay st\<rparr>]\<rparr>))"

definition same_request :: "nat \<Rightarrow> 'f recovery_action \<Rightarrow> 'f draft_write_request \<Rightarrow> bool" where
  "same_request generation action request \<longleftrightarrow>
     wr_generation request = generation \<and> wr_action request = action"

definition active_requests :: "('f, 'w) autosave \<Rightarrow> 'f draft_write_request list" where
  "active_requests st = (case as_active st of None \<Rightarrow> [] | Some request \<Rightarrow> [request])"

definition queue_flush ::
  "nat \<Rightarrow> 'f recovery_action \<Rightarrow> ('f, 'w) autosave \<Rightarrow> nat \<times> ('f, 'w) autosave" where
  "queue_flush generation action st =
     (case List.find (same_request generation action) (active_requests st @ as_urgent st) of
        Some request \<Rightarrow> (wr_request_id request, st)
      | None \<Rightarrow>
          (case as_pending st of
             None \<Rightarrow> push_urgent generation action st
           | Some pending \<Rightarrow>
               (let st = st\<lparr>as_pending := None, as_pending_ready := False\<rparr> in
                if same_request generation action pending
                then (wr_request_id pending, st\<lparr>as_urgent := as_urgent st @ [pending]\<rparr>)
                else if wr_generation pending > generation
                then push_urgent generation action
                       (st\<lparr>as_pending := Some pending, as_pending_ready := True\<rparr>)
                else push_urgent generation action st)))"

text \<open>\<open>flush\<close> up to its last call, \<open>start\_pending\_write\<close>.\<close>

definition flush_request ::
  "nat \<Rightarrow> 'f recovery_action \<Rightarrow> 'w \<Rightarrow> ('f, 'w) autosave \<Rightarrow> ('f, 'w) autosave" where
  "flush_request generation action callback st =
     (let (request_id, st) = queue_flush generation action (cancel_debounce st) in
      st\<lparr>as_waiters := as_waiters st @ [(request_id, callback)]\<rparr>)"

text \<open>The timer callback of \<open>schedule\<close>, up to \<open>start\_pending\_write\<close>.\<close>

definition debounce_fired :: "('f, 'w) autosave \<Rightarrow> ('f, 'w) autosave" where
  "debounce_fired st = st\<lparr>as_debounce_source := None, as_pending_ready := True\<rparr>"

text \<open>
  \<open>start\_pending\_write\<close> chooses a request and hands it to a worker thread; the flag says
  that the worker has to fail.
\<close>

definition activate :: "'f draft_write_request \<Rightarrow> ('f, 'w) autosave \<Rightarrow>
    ('f, 'w) autosave \<times> ('f draft_write_request \<times> bool) option" where
  "activate request st =
     (st\<lparr>as_active := Some request, as_write_count := saturating_succ (as_write_count st),
         as_fail_next_for_test := False\<rparr>,
      Some (request, as_fail_next_for_test st))"

definition start_pending_write :: "('f, 'w) autosave \<Rightarrow>
    ('f, 'w) autosave \<times> ('f draft_write_request \<times> bool) option" where
  "start_pending_write st =
     (if as_active st \<noteq> None then (st, None)
      else case as_urgent st of
        request # rest \<Rightarrow> activate request (st\<lparr>as_urgent := rest\<rparr>)
      | [] \<Rightarrow>
          if \<not> as_pending_ready st then (st, None)
          else case as_pending st of
            None \<Rightarrow> (st\<lparr>as_pending_ready := False\<rparr>, None)
          | Some request \<Rightarrow> activate request (st\<lparr>as_pending := None, as_pending_ready := False\<rparr>))"

text \<open>\<open>finish\_write\<close> before it runs the callbacks: the event and the waiters that are due.\<close>

definition take_finished :: "nat \<Rightarrow> string + unit \<Rightarrow> ('f, 'w) autosave \<Rightarrow>
    ('f, 'w) autosave \<times> (draft_autosave_event \<times> 'w list) option" where
  "take_finished request_id result st =
     (case as_active st of
        None \<Rightarrow> (st, None)
      | Some active \<Rightarrow>
          if wr_request_id active \<noteq> request_id then (st, None)
          else (st\<lparr>as_active := None,
                   as_last_completed := Some (request_id, wr_generation active, result),
                   as_waiters := filter (\<lambda>(waits_for, _). waits_for \<noteq> request_id) (as_waiters st)\<rparr>,
                Some (\<lparr>ev_generation = wr_generation active, ev_result = result,
                       ev_is_latest = (request_id \<ge> as_latest_request_id st)\<rparr>,
                      map snd (filter (\<lambda>(waits_for, _). waits_for = request_id) (as_waiters st)))))"

section \<open>The controller and its environment\<close>

text \<open>
  What has happened: a write that ended, an event handed to the connected handler, a flush
  callback that was run.
\<close>

datatype ('f, 'w) autosave_log =
    WriteFinished "'f draft_write_request" "string + unit"
  | EventSent draft_autosave_event
  | CallbackRun 'w nat "string + unit"

record ('f, 'w) autosave_system =
  sy_controller :: "('f, 'w) autosave"
  sy_workers :: "('f draft_write_request \<times> bool) list"
  sy_flushed :: "('w \<times> nat \<times> 'f recovery_action) list"
  sy_log :: "('f, 'w) autosave_log list"

definition system_start :: "('f, 'w) autosave_system" where
  "system_start = \<lparr>sy_controller = with_writer, sy_workers = [], sy_flushed = [], sy_log = []\<rparr>"

datatype ('f, 'w) autosave_op =
    Connect
  | SetTestDelay nat
  | FailNext
  | Schedule nat nat "'f recovery_action"
  | Flush nat "'f recovery_action" 'w
  | DebounceFires nat
  | WorkerEnds nat "string + unit" "('f, 'w) autosave_op list"

definition update_controller ::
  "(('f, 'w) autosave \<Rightarrow> ('f, 'w) autosave) \<Rightarrow> ('f, 'w) autosave_system \<Rightarrow> ('f, 'w) autosave_system" where
  "update_controller f sy = sy\<lparr>sy_controller := f (sy_controller sy)\<rparr>"

definition run_start :: "('f, 'w) autosave_system \<Rightarrow> ('f, 'w) autosave_system" where
  "run_start sy =
     (case start_pending_write (sy_controller sy) of
        (st, None) \<Rightarrow> sy\<lparr>sy_controller := st\<rparr>
      | (st, Some worker) \<Rightarrow> sy\<lparr>sy_controller := st, sy_workers := sy_workers sy @ [worker]\<rparr>)"

text \<open>
  A worker reports once, with an error when it was told to fail; the callbacks of the waiters
  run their operations before the next write starts.  A worker that could not be spawned
  reports an error at once.
\<close>

definition worker_may_end :: "nat \<Rightarrow> string + unit \<Rightarrow> ('f, 'w) autosave_system \<Rightarrow> bool" where
  "worker_may_end request_id result sy \<longleftrightarrow>
     list_ex (\<lambda>(request, fails). wr_request_id request = request_id \<and>
                (fails \<longrightarrow> (case result of Inl _ \<Rightarrow> True | Inr _ \<Rightarrow> False))) (sy_workers sy)"

definition note_finished ::
  "nat \<Rightarrow> string + unit \<Rightarrow> draft_autosave_event \<times> 'w list \<Rightarrow> ('f, 'w) autosave_system \<Rightarrow>
   ('f, 'w) autosave_log list" where
  "note_finished request_id result = (\<lambda>(event, callbacks) sy.
     map (\<lambda>request. WriteFinished request result) (active_requests (sy_controller sy)) @
     (if as_connected (sy_controller sy) then [EventSent event] else []) @
     map (\<lambda>callback. CallbackRun callback request_id result) callbacks)"

definition end_worker :: "nat \<Rightarrow> string + unit \<Rightarrow> ('f, 'w) autosave_system \<Rightarrow> ('f, 'w) autosave_system \<times> bool" where
  "end_worker request_id result sy =
     (let sy = sy\<lparr>sy_workers := filter (\<lambda>(request, _). wr_request_id request \<noteq> request_id) (sy_workers sy)\<rparr> in
      case take_finished request_id result (sy_controller sy) of
        (st, None) \<Rightarrow> (sy\<lparr>sy_controller := st\<rparr>, False)
      | (st, Some notes) \<Rightarrow>
          (sy\<lparr>sy_controller := st, sy_log := sy_log sy @ note_finished request_id result notes sy\<rparr>, True))"

fun perform :: "('f, 'w) autosave_op \<Rightarrow> ('f, 'w) autosave_system \<Rightarrow> ('f, 'w) autosave_system option"
  and perform_all :: "('f, 'w) autosave_op list \<Rightarrow> ('f, 'w) autosave_system \<Rightarrow> ('f, 'w) autosave_system option"
where
  "perform Connect sy = Some (update_controller connect_events sy)"
| "perform (SetTestDelay delay) sy = Some (update_controller (set_test_delay delay) sy)"
| "perform FailNext sy = Some (update_controller fail_next_for_test sy)"
| "perform (Schedule source generation action) sy =
     Some (update_controller (schedule source generation action) sy)"
| "perform (Flush generation action callback) sy =
     Some (run_start ((update_controller (flush_request generation action callback) sy)
       \<lparr>sy_flushed := sy_flushed sy @ [(callback, generation, action)]\<rparr>))"
| "perform (DebounceFires source) sy =
     (if as_debounce_source (sy_controller sy) = Some source
      then Some (run_start (update_controller debounce_fired sy)) else None)"
| "perform (WorkerEnds request_id result callback_ops) sy =
     (if worker_may_end request_id result sy
      then (case end_worker request_id result sy of
              (sy, False) \<Rightarrow> Some sy
            | (sy, True) \<Rightarrow> map_option run_start (perform_all callback_ops sy))
      else None)"
| "perform_all [] sy = Some sy"
| "perform_all (op # ops) sy = Option.bind (perform op sy) (perform_all ops)"

section \<open>Bookkeeping of requests\<close>

definition queued_requests :: "('f, 'w) autosave \<Rightarrow> 'f draft_write_request list" where
  "queued_requests st = active_requests st @ as_urgent st"

definition pending_requests :: "('f, 'w) autosave \<Rightarrow> 'f draft_write_request list" where
  "pending_requests st = (case as_pending st of None \<Rightarrow> [] | Some request \<Rightarrow> [request])"

definition all_requests :: "('f, 'w) autosave \<Rightarrow> 'f draft_write_request list" where
  "all_requests st = queued_requests st @ pending_requests st"

text \<open>
  Every request has its own identifier, and every waiter waits for a request that is being
  written or next in line, with the generation and the action its flush asked for.
\<close>

definition promised :: "('w \<times> nat \<times> 'f recovery_action) list \<Rightarrow> 'f draft_write_request \<Rightarrow> 'w \<Rightarrow> bool" where
  "promised flushed request callback \<longleftrightarrow> (callback, wr_generation request, wr_action request) \<in> set flushed"

definition queue_inv :: "('w \<times> nat \<times> 'f recovery_action) list \<Rightarrow> ('f, 'w) autosave \<Rightarrow> bool" where
  "queue_inv flushed st \<longleftrightarrow>
     distinct (map wr_request_id (all_requests st)) \<and>
     (\<forall>request \<in> set (all_requests st). wr_request_id request < as_next_request_id st) \<and>
     (\<forall>(waits_for, callback) \<in> set (as_waiters st). \<exists>request \<in> set (queued_requests st).
        wr_request_id request = waits_for \<and> promised flushed request callback)"

lemmas request_lists = queued_requests_def all_requests_def active_requests_def pending_requests_def

lemma queue_inv_start: "queue_inv [] with_writer"
  by (simp add: queue_inv_def request_lists with_writer_def)

lemma queue_inv_flushed: "queue_inv flushed st \<Longrightarrow> queue_inv (flushed @ later) st"
  unfolding queue_inv_def promised_def by fastforce

lemma queue_inv_cong:
  assumes "as_pending st' = as_pending st" "as_urgent st' = as_urgent st" "as_active st' = as_active st"
    "as_next_request_id st' = as_next_request_id st" "as_waiters st' = as_waiters st"
  shows "queue_inv flushed st' = queue_inv flushed st"
  using assms by (simp add: queue_inv_def request_lists)

text \<open>A fresh identifier is one no request has; the counter stays below its maximum.\<close>

lemma queue_inv_settings [simp]:
  "queue_inv flushed (connect_events st) = queue_inv flushed st"
  "queue_inv flushed (set_test_delay delay st) = queue_inv flushed st"
  "queue_inv flushed (fail_next_for_test st) = queue_inv flushed st"
  "queue_inv flushed (cancel_debounce st) = queue_inv flushed st"
  "queue_inv flushed (debounce_fired st) = queue_inv flushed st"
  by (rule queue_inv_cong;
      simp add: connect_events_def set_test_delay_def fail_next_for_test_def cancel_debounce_def debounce_fired_def)+

lemma queue_inv_schedule:
  assumes "queue_inv flushed st" "as_next_request_id (schedule source generation action st) < u64_max"
  shows "queue_inv flushed (schedule source generation action st)"
  using assms
  by (auto simp: queue_inv_def schedule_def queue_debounced_def next_request_id_def cancel_debounce_def
      request_lists Let_def dest!: saturating_succ_below split: option.splits)

lemma queue_inv_drop_pending:
  "queue_inv flushed st \<Longrightarrow> queue_inv flushed (st\<lparr>as_pending := None, as_pending_ready := False\<rparr>)"
  by (auto simp: queue_inv_def request_lists)

lemma queue_inv_push_urgent:
  assumes "queue_inv flushed st" "push_urgent generation action st = (i, st')" "as_next_request_id st' < u64_max"
    and "(callback, generation, action) \<in> set flushed"
  shows "queue_inv flushed (st'\<lparr>as_waiters := as_waiters st' @ [(i, callback)]\<rparr>)"
proof -
  from assms(2) have st': "i = as_next_request_id st"
    "st' = st\<lparr>as_next_request_id := saturating_succ (as_next_request_id st),
       as_latest_request_id := as_next_request_id st,
       as_urgent := as_urgent st @ [\<lparr>wr_request_id = as_next_request_id st, wr_generation = generation,
         wr_action = action, wr_delay = as_test_delay st\<rparr>]\<rparr>"
    by (auto simp: push_urgent_def next_request_id_def Let_def)
  with assms(3) have "saturating_succ (as_next_request_id st) < u64_max" by simp
  then have n: "saturating_succ (as_next_request_id st) = as_next_request_id st + 1"
    by (rule saturating_succ_below [THEN conjunct2])
  let ?new = "\<lparr>wr_request_id = as_next_request_id st, wr_generation = generation, wr_action = action,
    wr_delay = as_test_delay st\<rparr>"
  let ?st = "st'\<lparr>as_waiters := as_waiters st' @ [(i, callback)]\<rparr>"
  have lists: "queued_requests ?st = queued_requests st @ [?new]" "pending_requests ?st = pending_requests st"
    unfolding st' by (simp_all add: queued_requests_def active_requests_def pending_requests_def)
  have rest: "as_next_request_id ?st = as_next_request_id st + 1"
      "as_waiters ?st = as_waiters st @ [(as_next_request_id st, callback)]"
    unfolding st' n by simp_all
  have p: "promised flushed ?new callback" using assms(4) by (simp add: promised_def)
  from assms(1) have d: "distinct (map wr_request_id (queued_requests st @ pending_requests st))"
    and less: "\<And>r. r \<in> set (queued_requests st @ pending_requests st) \<Longrightarrow> wr_request_id r < as_next_request_id st"
    and w: "\<And>i cb. (i, cb) \<in> set (as_waiters st) \<Longrightarrow>
      \<exists>r \<in> set (queued_requests st). wr_request_id r = i \<and> promised flushed r cb"
    by (auto simp: queue_inv_def all_requests_def)
  show ?thesis
    unfolding queue_inv_def all_requests_def lists rest
  proof (intro conjI ballI)
    show "distinct (map wr_request_id ((queued_requests st @ [?new]) @ pending_requests st))"
      using d less by fastforce
    show "wr_request_id r < as_next_request_id st + 1"
      if "r \<in> set ((queued_requests st @ [?new]) @ pending_requests st)" for r
      using that less [of r] by auto
    fix x assume "x \<in> set (as_waiters st @ [(as_next_request_id st, callback)])"
    then have "x = (as_next_request_id st, callback) \<or> x \<in> set (as_waiters st)" by auto
    then consider "x = (as_next_request_id st, callback)" | i cb where "x = (i, cb)" "(i, cb) \<in> set (as_waiters st)"
      by (cases x) blast+
    then show "case x of (waits_for, callback) \<Rightarrow> \<exists>r \<in> set (queued_requests st @ [?new]).
        wr_request_id r = waits_for \<and> promised flushed r callback"
      using p w by cases (simp, fastforce)
  qed
qed

lemma queue_inv_add_waiter:
  assumes "queue_inv flushed st" "request \<in> set (queued_requests st)" "promised flushed request callback"
  shows "queue_inv flushed (st\<lparr>as_waiters := as_waiters st @ [(wr_request_id request, callback)]\<rparr>)"
  using assms by (auto simp: queue_inv_def request_lists)

lemma queue_inv_flush:
  assumes "queue_inv flushed st" "(callback, generation, action) \<in> set flushed"
    and "as_next_request_id (flush_request generation action callback st) < u64_max"
  shows "queue_inv flushed (flush_request generation action callback st)"
proof -
  obtain i st' where q: "queue_flush generation action (cancel_debounce st) = (i, st')" by fastforce
  then have f: "flush_request generation action callback st = st'\<lparr>as_waiters := as_waiters st' @ [(i, callback)]\<rparr>"
    by (simp add: flush_request_def)
  with assms(3) have n: "as_next_request_id st' < u64_max" by simp
  let ?st = "cancel_debounce st"
  have inv: "queue_inv flushed ?st" using assms(1) by simp
  show ?thesis
  proof (cases "List.find (same_request generation action) (active_requests ?st @ as_urgent ?st)")
    case (Some r)
    then have r: "same_request generation action r" "r \<in> set (queued_requests ?st)"
      by (auto simp: find_Some_iff queued_requests_def simp del: set_append dest: nth_mem)
    from Some q have "i = wr_request_id r" "st' = ?st" by (simp_all add: queue_flush_def)
    with queue_inv_add_waiter [OF inv r(2)] r(1) assms(2) show ?thesis
      unfolding f by (simp add: promised_def same_request_def)
  next
    case None
    show ?thesis
    proof (cases "as_pending ?st")
      case pn: None
      with None q have "push_urgent generation action ?st = (i, st')" by (simp add: queue_flush_def)
      from queue_inv_push_urgent [OF inv this n assms(2)] show ?thesis unfolding f .
    next
      case (Some p)
      let ?dropped = "?st\<lparr>as_pending := None, as_pending_ready := False\<rparr>"
      let ?kept = "?dropped\<lparr>as_pending := Some p, as_pending_ready := True\<rparr>"
      from Some None q consider "same_request generation action p" "i = wr_request_id p"
          "st' = ?dropped\<lparr>as_urgent := as_urgent ?dropped @ [p]\<rparr>"
        | "push_urgent generation action ?kept = (i, st')" | "push_urgent generation action ?dropped = (i, st')"
        by (auto simp: queue_flush_def Let_def split: if_splits)
      then show ?thesis
      proof cases
        case 1
        from inv Some have "queue_inv flushed st'"
          unfolding 1(3) by (auto simp: queue_inv_def request_lists)
        from queue_inv_add_waiter [OF this, of p callback] 1 assms(2) show ?thesis
          unfolding f by (simp add: promised_def same_request_def queued_requests_def)
      next
        case 2
        have "queue_inv flushed ?kept = queue_inv flushed ?st" by (rule queue_inv_cong) (simp_all add: Some)
        with inv have "queue_inv flushed ?kept" by blast
        from queue_inv_push_urgent [OF this 2 n assms(2)] show ?thesis unfolding f .
      next
        case 3
        from queue_inv_push_urgent [OF queue_inv_drop_pending [OF inv] 3 n assms(2)] show ?thesis unfolding f .
      qed
    qed
  qed
qed

text \<open>What starting and finishing a write do to the queue.\<close>

lemma start_pending_write_cases:
  assumes "start_pending_write st = (st', worker)"
  obtains (none) "worker = None" "st' = st \<or> st' = st\<lparr>as_pending_ready := False\<rparr>"
      "as_active st' \<noteq> None \<or> as_urgent st' = [] \<and> (as_pending st' = None \<or> \<not> as_pending_ready st')"
    | (started) request fails rest where
      "worker = Some (request, fails)" "as_active st = None" "as_active st' = Some request"
      "all_requests st = request # rest" "all_requests st' = request # rest"
      "as_waiters st' = as_waiters st" "as_next_request_id st' = as_next_request_id st"
      "set (queued_requests st) \<subseteq> set (queued_requests st')"
proof -
  consider (busy) r where "as_active st = Some r"
    | (urgent) r rs where "as_active st = None" "as_urgent st = r # rs"
    | (waiting) "as_active st = None" "as_urgent st = []" "\<not> as_pending_ready st"
    | (empty) "as_active st = None" "as_urgent st = []" "as_pending_ready st" "as_pending st = None"
    | (ready) r where "as_active st = None" "as_urgent st = []" "as_pending_ready st" "as_pending st = Some r"
    by (cases "as_active st"; cases "as_urgent st"; cases "as_pending_ready st"; cases "as_pending st") auto
  then show thesis
  proof cases
    case busy
    with assms none show thesis by (auto simp: start_pending_write_def)
  next
    case waiting
    with assms none show thesis by (auto simp: start_pending_write_def)
  next
    case empty
    with assms none show thesis by (auto simp: start_pending_write_def)
  next
    case (urgent r rs)
    with assms started [of r "as_fail_next_for_test st" "rs @ pending_requests st"] show thesis
      by (auto simp: start_pending_write_def activate_def request_lists subset_insertI)
  next
    case (ready r)
    with assms started [of r "as_fail_next_for_test st" "[]"] show thesis
      by (auto simp: start_pending_write_def activate_def request_lists)
  qed
qed

lemma queue_inv_start_pending:
  assumes "start_pending_write st = (st', worker)" "queue_inv flushed st"
  shows "queue_inv flushed st'"
  using assms(1)
proof (cases rule: start_pending_write_cases)
  case none
  with assms(2) show ?thesis using queue_inv_cong [of "st\<lparr>as_pending_ready := False\<rparr>" st] by auto
next
  case (started request fails rest)
  show ?thesis
    using assms(2) started(8) unfolding queue_inv_def started(4-7) by blast
qed

lemma take_finished_cases:
  assumes "take_finished i result st = (st', notes)"
  obtains (none) "notes = None" "st' = st"
      "\<forall>request. as_active st = Some request \<longrightarrow> wr_request_id request \<noteq> i"
    | (finished) request event where "as_active st = Some request" "wr_request_id request = i"
      "notes = Some (event, map snd (filter (\<lambda>(j, _). j = i) (as_waiters st)))"
      "st' = st\<lparr>as_active := None, as_last_completed := Some (i, wr_generation request, result),
                as_waiters := filter (\<lambda>(j, _). j \<noteq> i) (as_waiters st)\<rparr>"
proof (cases "as_active st")
  case None
  with assms none show thesis by (simp add: take_finished_def)
next
  case (Some r)
  show thesis
  proof (cases "wr_request_id r = i")
    case True
    with Some assms show thesis
      by (intro finished [of r "\<lparr>ev_generation = wr_generation r, ev_result = result,
            ev_is_latest = (i \<ge> as_latest_request_id st)\<rparr>"]) (auto simp: take_finished_def)
  next
    case False
    with Some assms none show thesis by (simp add: take_finished_def)
  qed
qed

lemma queue_inv_finished:
  assumes "queue_inv flushed st" "as_active st = Some request"
    and "st' = st\<lparr>as_active := None, as_last_completed := c,
                  as_waiters := filter (\<lambda>(j, _). j \<noteq> wr_request_id request) (as_waiters st)\<rparr>"
  shows "queue_inv flushed st'"
    and "(wr_request_id request, callback) \<in> set (as_waiters st) \<Longrightarrow> promised flushed request callback"
proof -
  show "queue_inv flushed st'" using assms(1,2) unfolding assms(3)
    by (auto simp: queue_inv_def request_lists)
  assume "(wr_request_id request, callback) \<in> set (as_waiters st)"
  with assms(1) obtain r where r: "r \<in> set (queued_requests st)"
      "wr_request_id r = wr_request_id request" "promised flushed r callback"
    by (fastforce simp: queue_inv_def)
  from assms(2) have "request \<in> set (queued_requests st)" by (simp add: request_lists)
  with r(1,2) assms(1) have "r = request"
    by (auto simp: queue_inv_def all_requests_def distinct_map dest: inj_onD)
  with r(3) show "promised flushed request callback" by simp
qed

section \<open>The invariant of the system\<close>

fun callbacks_run :: "('f, 'w) autosave_log list \<Rightarrow> 'w list" where
  "callbacks_run [] = []"
| "callbacks_run (CallbackRun callback _ _ # log) = callback # callbacks_run log"
| "callbacks_run (_ # log) = callbacks_run log"

lemma callbacks_run_append [simp]: "callbacks_run (xs @ ys) = callbacks_run xs @ callbacks_run ys"
  by (induction xs rule: callbacks_run.induct) simp_all

lemma callbacks_run_notes [simp]:
  "callbacks_run (map (\<lambda>request. WriteFinished request result) rs) = []"
  "callbacks_run (map (\<lambda>callback. CallbackRun callback i result) cbs) = cbs"
  by (induction rs; simp) (induction cbs; simp)

definition log_ok :: "('w \<times> nat \<times> 'f recovery_action) list \<Rightarrow> ('f, 'w) autosave_log list \<Rightarrow> bool" where
  "log_ok flushed log \<longleftrightarrow> (\<forall>callback i result. CallbackRun callback i result \<in> set log \<longrightarrow>
     (\<exists>request. WriteFinished request result \<in> set log \<and> wr_request_id request = i \<and>
        promised flushed request callback))"

definition system_core :: "('f, 'w) autosave_system \<Rightarrow> bool" where
  "system_core sy \<longleftrightarrow>
     queue_inv (sy_flushed sy) (sy_controller sy) \<and>
     map fst (sy_workers sy) = active_requests (sy_controller sy) \<and>
     log_ok (sy_flushed sy) (sy_log sy) \<and>
     mset (map fst (sy_flushed sy)) =
       mset (callbacks_run (sy_log sy)) + mset (map snd (as_waiters (sy_controller sy)))"

abbreviation next_id :: "('f, 'w) autosave_system \<Rightarrow> nat" where
  "next_id sy \<equiv> as_next_request_id (sy_controller sy)"

text \<open>The bookkeeping holds as long as the identifiers have not run out.\<close>

definition system_inv :: "('f, 'w) autosave_system \<Rightarrow> bool" where
  "system_inv sy \<longleftrightarrow> (next_id sy < u64_max \<longrightarrow> system_core sy)"

text \<open>Between two events of the main loop nothing that could be written is left waiting.\<close>

definition settled :: "('f, 'w) autosave_system \<Rightarrow> bool" where
  "settled sy \<longleftrightarrow> (let st = sy_controller sy in
     as_active st = None \<longrightarrow> as_urgent st = [] \<and> (as_pending st = None \<or> \<not> as_pending_ready st))"

lemma log_ok_flushed: "log_ok flushed log \<Longrightarrow> log_ok (flushed @ later) log"
  by (fastforce simp: log_ok_def promised_def)

lemma flush_request_fields:
  "as_active (flush_request generation action callback st) = as_active st"
  "map snd (as_waiters (flush_request generation action callback st)) = map snd (as_waiters st) @ [callback]"
  "as_next_request_id st \<le> as_next_request_id (flush_request generation action callback st)"
  by (auto simp: flush_request_def queue_flush_def push_urgent_def next_request_id_def cancel_debounce_def
      saturating_succ_def Let_def split: option.splits)

lemma schedule_fields:
  "as_active (schedule source generation action st) = as_active st"
  "as_urgent (schedule source generation action st) = as_urgent st"
  "as_pending_ready (schedule source generation action st) = False"
  "as_waiters (schedule source generation action st) = as_waiters st"
  "as_next_request_id st \<le> as_next_request_id (schedule source generation action st)"
  by (auto simp: schedule_def queue_debounced_def next_request_id_def cancel_debounce_def
      saturating_succ_def Let_def)

lemma setting_fields [simp]:
  "as_active (connect_events st) = as_active st" "as_waiters (connect_events st) = as_waiters st"
  "as_next_request_id (connect_events st) = as_next_request_id st"
  "as_active (set_test_delay d st) = as_active st" "as_waiters (set_test_delay d st) = as_waiters st"
  "as_next_request_id (set_test_delay d st) = as_next_request_id st"
  "as_active (fail_next_for_test st) = as_active st" "as_waiters (fail_next_for_test st) = as_waiters st"
  "as_next_request_id (fail_next_for_test st) = as_next_request_id st"
  "as_active (debounce_fired st) = as_active st" "as_waiters (debounce_fired st) = as_waiters st"
  "as_next_request_id (debounce_fired st) = as_next_request_id st"
  by (simp_all add: connect_events_def set_test_delay_def fail_next_for_test_def debounce_fired_def)

lemma active_requests_cong: "as_active st' = as_active st \<Longrightarrow> active_requests st' = active_requests st"
  by (simp add: active_requests_def)

lemma run_start_fields:
  "next_id (run_start sy) = next_id sy"
  "sy_flushed (run_start sy) = sy_flushed sy" "sy_log (run_start sy) = sy_log sy"
  "as_waiters (sy_controller (run_start sy)) = as_waiters (sy_controller sy)"
proof -
  obtain st' w where s: "start_pending_write (sy_controller sy) = (st', w)" by fastforce
  then have "as_next_request_id st' = next_id sy \<and> as_waiters st' = as_waiters (sy_controller sy)"
    by (cases rule: start_pending_write_cases) auto
  with s show "next_id (run_start sy) = next_id sy" "sy_flushed (run_start sy) = sy_flushed sy"
      "sy_log (run_start sy) = sy_log sy"
      "as_waiters (sy_controller (run_start sy)) = as_waiters (sy_controller sy)"
    by (auto simp: run_start_def split: option.splits)
qed

lemma settled_run_start: "settled (run_start sy)"
proof -
  obtain st' w where s: "start_pending_write (sy_controller sy) = (st', w)" by fastforce
  then have "as_active st' = None \<longrightarrow> as_urgent st' = [] \<and> (as_pending st' = None \<or> \<not> as_pending_ready st')"
    by (cases rule: start_pending_write_cases) auto
  with s show ?thesis by (auto simp: run_start_def settled_def Let_def split: option.splits)
qed

lemma system_core_run_start: "system_core sy \<Longrightarrow> system_core (run_start sy)"
proof -
  assume core: "system_core sy"
  obtain st' w where s: "start_pending_write (sy_controller sy) = (st', w)" by fastforce
  from core have q: "queue_inv (sy_flushed sy) (sy_controller sy)" by (simp add: system_core_def)
  note q' = queue_inv_start_pending [OF s q]
  from s have "map fst (sy_workers (run_start sy)) = active_requests (sy_controller (run_start sy))"
  proof (cases rule: start_pending_write_cases)
    case none
    with s core show ?thesis by (auto simp: run_start_def system_core_def active_requests_def)
  next
    case (started r f rest)
    with s core show ?thesis by (simp add: run_start_def system_core_def active_requests_def)
  qed
  moreover have "queue_inv (sy_flushed sy) (sy_controller (run_start sy))"
    using s q' by (auto simp: run_start_def split: option.splits)
  ultimately show ?thesis using core by (simp add: system_core_def run_start_fields)
qed

lemma mset_map_partition:
  "mset (map snd xs) =
     mset (map snd (filter (\<lambda>(j, _). j = i) xs)) + mset (map snd (filter (\<lambda>(j, _). j \<noteq> i) xs))"
  by (induction xs) auto

lemma end_worker_core:
  assumes "end_worker i result sy = (sy', taken)" "system_core sy"
  shows "system_core sy'"
proof -
  let ?st = "sy_controller sy"
  obtain st' found where t: "take_finished i result ?st = (st', found)" by fastforce
  from assms(2) have core: "queue_inv (sy_flushed sy) ?st" "map fst (sy_workers sy) = active_requests ?st"
      "log_ok (sy_flushed sy) (sy_log sy)"
      "mset (map fst (sy_flushed sy)) = mset (callbacks_run (sy_log sy)) + mset (map snd (as_waiters ?st))"
    by (auto simp: system_core_def)
  have workers: "map fst (filter (\<lambda>(r, _). wr_request_id r \<noteq> i) (sy_workers sy)) =
      filter (\<lambda>r. wr_request_id r \<noteq> i) (active_requests ?st)"
    unfolding core(2) [symmetric] by (simp add: filter_map o_def case_prod_unfold)
  from t show ?thesis
  proof (cases rule: take_finished_cases)
    case none
    then have "filter (\<lambda>r. wr_request_id r \<noteq> i) (active_requests ?st) = active_requests ?st"
      by (simp add: active_requests_def split: option.splits)
    with none t assms(1) core workers show ?thesis by (auto simp: end_worker_def system_core_def)
  next
    case (finished r event)
    let ?due = "filter (\<lambda>(j, _). j = i) (as_waiters ?st)"
    let ?log = "note_finished i result (event, map snd ?due) sy"
    from finished(1) have act: "active_requests ?st = [r]" by (simp add: active_requests_def)
    have sy': "sy' = sy\<lparr>sy_workers := filter (\<lambda>(r, _). wr_request_id r \<noteq> i) (sy_workers sy),
        sy_controller := st', sy_log := sy_log sy @ ?log\<rparr>"
      using assms(1) t finished(3) by (simp add: end_worker_def note_finished_def)
    note q = queue_inv_finished [OF core(1) finished(1) finished(4) [folded finished(2)]]
    have cb: "callbacks_run ?log = map snd ?due" by (simp add: note_finished_def act del: map_map)
    have "log_ok (sy_flushed sy) (sy_log sy @ ?log)"
      unfolding log_ok_def
    proof (intro allI impI)
      fix callback j result'
      assume "CallbackRun callback j result' \<in> set (sy_log sy @ ?log)"
      then consider "CallbackRun callback j result' \<in> set (sy_log sy)"
        | "j = i" "result' = result" "(i, callback) \<in> set (as_waiters ?st)"
        by (auto simp: note_finished_def split: if_splits)
      then show "\<exists>request. WriteFinished request result' \<in> set (sy_log sy @ ?log) \<and>
          wr_request_id request = j \<and> promised (sy_flushed sy) request callback"
      proof cases
        case 1
        with core(3) show ?thesis by (fastforce simp: log_ok_def)
      next
        case 2
        with q(2) finished(2) show ?thesis by (intro exI [of _ r]) (simp add: note_finished_def act)
      qed
    qed
    moreover have "active_requests st' = []" using finished(4) by (simp add: active_requests_def)
    moreover have "as_waiters st' = filter (\<lambda>(j, _). j \<noteq> i) (as_waiters ?st)" using finished(4) by simp
    then have "mset (map snd (as_waiters ?st)) = mset (map snd ?due) + mset (map snd (as_waiters st'))"
      by (simp only: mset_map_partition)
    ultimately show ?thesis
      using q(1) core workers act finished(2) cb unfolding sy' by (simp add: system_core_def)
  qed
qed

lemma end_worker_next: "end_worker i result sy = (sy', taken) \<Longrightarrow> next_id sy' = next_id sy"
proof -
  assume e: "end_worker i result sy = (sy', taken)"
  obtain st' found where t: "take_finished i result (sy_controller sy) = (st', found)" by fastforce
  then have "as_next_request_id st' = next_id sy" by (cases rule: take_finished_cases) simp_all
  with e t show ?thesis by (auto simp: end_worker_def Let_def split: option.splits)
qed

lemma system_core_setting:
  assumes "system_core sy" "\<And>st flushed. queue_inv flushed (f st) = queue_inv flushed st"
    "\<And>st. as_active (f st) = as_active st" "\<And>st. as_waiters (f st) = as_waiters st"
  shows "system_core (update_controller f sy)"
  using assms active_requests_cong [of "f (sy_controller sy)" "sy_controller sy"]
  by (simp add: system_core_def update_controller_def)

lemma system_inv_setting:
  assumes "system_inv sy" "\<And>st flushed. queue_inv flushed (f st) = queue_inv flushed st"
    "\<And>st. as_active (f st) = as_active st" "\<And>st. as_waiters (f st) = as_waiters st"
    "\<And>st. as_next_request_id (f st) = as_next_request_id st"
  shows "system_inv (update_controller f sy)"
  using assms(1,5) system_core_setting [OF _ assms(2-4)] by (simp add: system_inv_def update_controller_def)

lemma system_inv_flush:
  assumes "system_inv sy"
  shows "system_inv ((update_controller (flush_request generation action callback) sy)
    \<lparr>sy_flushed := sy_flushed sy @ [(callback, generation, action)]\<rparr>)" (is "system_inv ?sy")
  unfolding system_inv_def
proof
  let ?st = "sy_controller sy" and ?flushed = "sy_flushed sy @ [(callback, generation, action)]"
  assume n: "next_id ?sy < u64_max"
  with flush_request_fields(3) [of ?st generation action callback] assms have core: "system_core sy"
    by (simp add: system_inv_def update_controller_def)
  then have "queue_inv ?flushed ?st" by (simp add: system_core_def queue_inv_flushed)
  from queue_inv_flush [OF this] n have "queue_inv ?flushed (flush_request generation action callback ?st)"
    by (simp add: update_controller_def)
  with core log_ok_flushed [of "sy_flushed sy" "sy_log sy"] show "system_core ?sy"
    by (simp add: system_core_def update_controller_def flush_request_fields(1,2)
        active_requests_cong [OF flush_request_fields(1)])
qed

lemma system_inv_schedule:
  assumes "system_inv sy"
  shows "system_inv (update_controller (schedule source generation action) sy)" (is "system_inv ?sy")
  unfolding system_inv_def
proof
  let ?st = "sy_controller sy"
  assume n: "next_id ?sy < u64_max"
  with schedule_fields(5) [of ?st source generation action] assms have core: "system_core sy"
    by (simp add: system_inv_def update_controller_def)
  with queue_inv_schedule [of "sy_flushed sy" ?st] n show "system_core ?sy"
    by (simp add: system_core_def update_controller_def schedule_fields(4)
        active_requests_cong [OF schedule_fields(1)])
qed

lemma system_inv_run_start: "system_inv sy \<Longrightarrow> system_inv (run_start sy)"
  by (simp add: system_inv_def run_start_fields system_core_run_start)

lemma perform_inv:
  "perform op sy = Some sy' \<Longrightarrow> system_inv sy \<Longrightarrow> system_inv sy'"
  "perform_all ops sy = Some sy' \<Longrightarrow> system_inv sy \<Longrightarrow> system_inv sy'"
proof (induction op sy and ops sy arbitrary: sy' and sy' rule: perform_perform_all.induct)
  case (7 i result ops sy)
  obtain sy1 taken where e: "end_worker i result sy = (sy1, taken)" by fastforce
  have inv1: "system_inv sy1"
    using 7(3) end_worker_core [OF e] end_worker_next [OF e] by (simp add: system_inv_def)
  show ?case
  proof (cases taken)
    case False
    with 7(2) e inv1 show ?thesis by (auto split: if_splits)
  next
    case True
    with 7(2) e obtain sy2 where sy2: "worker_may_end i result sy" "perform_all ops sy1 = Some sy2" "sy' = run_start sy2"
      by (auto split: if_splits)
    with 7(1) e True inv1 have "system_inv sy2" by auto
    then show ?thesis unfolding sy2(3) by (rule system_inv_run_start)
  qed
next
  case (5 generation action callback sy)
  from system_inv_run_start [OF system_inv_flush [OF 5(2), where generation = generation and action = action and callback = callback]] 5(1)
  show ?case by auto
next
  case (6 source sy)
  then show ?case
    by (auto split: if_splits intro!: system_inv_run_start system_inv_setting)
qed (auto split: bind_splits intro!: system_inv_setting system_inv_schedule)

lemma perform_settled: "perform op sy = Some sy' \<Longrightarrow> settled sy \<Longrightarrow> settled sy'"
proof (cases op)
  case (WorkerEnds i result ops)
  assume p: "perform op sy = Some sy'" "settled sy"
  obtain sy1 taken where e: "end_worker i result sy = (sy1, taken)" by fastforce
  show ?thesis
  proof (cases taken)
    case True
    with p e WorkerEnds show ?thesis by (auto split: if_splits simp: settled_run_start)
  next
    case False
    obtain st' found where t: "take_finished i result (sy_controller sy) = (st', found)" by fastforce
    from False e t have "found = None" by (auto simp: end_worker_def Let_def split: option.splits)
    from t this have "st' = sy_controller sy" by (cases rule: take_finished_cases) auto
    with \<open>found = None\<close> t e have "sy_controller sy1 = sy_controller sy" by (auto simp: end_worker_def)
    with False p e WorkerEnds show ?thesis by (auto split: if_splits simp: settled_def)
  qed
qed (auto split: if_splits simp: settled_run_start, auto simp: settled_def update_controller_def Let_def
      schedule_fields connect_events_def set_test_delay_def fail_next_for_test_def)

abbreviation starting :: "('f, 'w) autosave_system \<Rightarrow> bool" where
  "starting sy \<equiv> sy = system_start"

interpretation autosave_machine: machine_invariant perform starting "\<lambda>sy. system_inv sy \<and> settled sy"
proof
  fix sy :: "('f, 'w) autosave_system"
  assume sy: "sy = system_start"
  have "queue_inv (sy_flushed sy) (sy_controller sy)" by (simp add: sy system_start_def queue_inv_start)
  then show "system_inv sy \<and> settled sy"
    by (simp add: sy system_inv_def system_core_def settled_def active_requests_def log_ok_def)
       (simp add: system_start_def with_writer_def)
qed (auto intro: perform_inv(1) perform_settled)

section \<open>Draining the queue\<close>

text \<open>The workers end one after the other, with the outcome the storage gives them.\<close>

fun drain :: "('f draft_write_request \<Rightarrow> string + unit) \<Rightarrow> nat \<Rightarrow> ('f, 'w) autosave_system \<Rightarrow>
    ('f, 'w) autosave_system option" where
  "drain outcome 0 sy = Some sy"
| "drain outcome (Suc n) sy =
     (case sy_workers sy of
        [] \<Rightarrow> Some sy
      | (request, fails) # _ \<Rightarrow>
          Option.bind
            (perform (WorkerEnds (wr_request_id request)
               (if fails then Inl ''injected draft write failure'' else outcome request) []) sy)
            (drain outcome n))"

lemma start_pending_write_length:
  assumes "start_pending_write st = (st', w)"
  shows "length (all_requests st') = length (all_requests st)"
  using assms by (cases rule: start_pending_write_cases) (auto simp: request_lists)

lemma worker_end_step:
  assumes "system_core sy" "sy_workers sy = (r, fails) # ws" "fails \<longrightarrow> (\<exists>e. result = Inl e)"
  obtains sy' where "perform (WorkerEnds (wr_request_id r) result []) sy = Some sy'"
    "length (all_requests (sy_controller sy')) = length (all_requests (sy_controller sy)) - 1"
    "sy_flushed sy' = sy_flushed sy" "next_id sy' = next_id sy"
proof -
  let ?st = "sy_controller sy"
  from assms(1,2) have act: "as_active ?st = Some r"
    by (auto simp: system_core_def active_requests_def split: option.splits)
  obtain st' found where t: "take_finished (wr_request_id r) result ?st = (st', found)" by fastforce
  then obtain event where f: "found = Some event" "length (all_requests st') = length (all_requests ?st) - 1"
    using act by (cases rule: take_finished_cases) (auto simp: request_lists)
  obtain sy1 where e: "end_worker (wr_request_id r) result sy = (sy1, True)" "sy_controller sy1 = st'"
      "sy_flushed sy1 = sy_flushed sy"
    using t f(1) by (simp add: end_worker_def Let_def)
  have "worker_may_end (wr_request_id r) result sy"
    using assms(2,3) by (auto simp: worker_may_end_def)
  with e have p: "perform (WorkerEnds (wr_request_id r) result []) sy = Some (run_start sy1)" by simp
  obtain st2 w where s: "start_pending_write st' = (st2, w)" by fastforce
  then have "sy_controller (run_start sy1) = st2" using e(2) by (simp add: run_start_def split: option.splits)
  with start_pending_write_length [OF s] f(2) have
    "length (all_requests (sy_controller (run_start sy1))) = length (all_requests ?st) - 1" by simp
  with p show thesis
    by (rule that) (simp_all add: run_start_fields e(3) end_worker_next [OF e(1)])
qed

lemma drain_completes:
  assumes "system_core sy" "settled sy" "next_id sy < u64_max" "length (all_requests (sy_controller sy)) \<le> n"
  shows "\<exists>sy'. drain outcome n sy = Some sy' \<and> system_core sy' \<and> settled sy' \<and> sy_workers sy' = [] \<and>
    sy_flushed sy' = sy_flushed sy"
  using assms
proof (induction n arbitrary: sy)
  case 0
  then show ?case by (auto simp: system_core_def request_lists split: option.splits)
next
  case (Suc n)
  show ?case
  proof (cases "sy_workers sy")
    case Nil
    with Suc.prems show ?thesis by simp
  next
    case (Cons w ws)
    obtain r fails where w: "w = (r, fails)" by (cases w)
    let ?result = "if fails then Inl ''injected draft write failure'' else outcome r"
    have res: "fails \<longrightarrow> (\<exists>e. ?result = Inl e)" by simp
    from worker_end_step [OF Suc.prems(1) Cons [unfolded w] res] obtain sy1 where
      sy1: "perform (WorkerEnds (wr_request_id r) ?result []) sy = Some sy1"
        "length (all_requests (sy_controller sy1)) = length (all_requests (sy_controller sy)) - 1"
        "sy_flushed sy1 = sy_flushed sy" "next_id sy1 = next_id sy" .
    have "system_core sy1"
      using perform_inv(1) [OF sy1(1)] Suc.prems(1,3) sy1(4) by (simp add: system_inv_def)
    moreover have "settled sy1" by (rule perform_settled [OF sy1(1) Suc.prems(2)])
    ultimately obtain sy' where "drain outcome n sy1 = Some sy'" "system_core sy'" "settled sy'"
        "sy_workers sy' = []" "sy_flushed sy' = sy_flushed sy1"
      using Suc.IH [of sy1] Suc.prems(3,4) sy1(2,4) by fastforce
    with Cons w sy1(1,3) show ?thesis by auto
  qed
qed

lemma idle_no_waiters:
  assumes "system_core sy" "settled sy" "sy_workers sy = []"
  shows "as_waiters (sy_controller sy) = []"
proof -
  from assms have "as_active (sy_controller sy) = None"
    by (auto simp: system_core_def active_requests_def split: option.splits)
  with assms(2) have "queued_requests (sy_controller sy) = []"
    by (simp add: settled_def request_lists Let_def)
  with assms(1) show ?thesis
    by (cases "as_waiters (sy_controller sy)") (auto simp: system_core_def queue_inv_def)
qed

section \<open>Which event counts as the latest\<close>

text \<open>
  Identifiers follow the order of requests, not of edits: after an older boundary flush the
  newest edit is written last but its event is not marked as the latest, so the handler of
  the main window drops it, a failure included.
\<close>

definition boundary_ops :: "(string, nat) autosave_op list" where
  "boundary_ops = [Connect, Schedule 7 3 (Persist ''newer''), Flush 2 (Persist ''older'') 0,
     WorkerEnds 2 (Inr ()) [], WorkerEnds 1 (Inl ''disk full'') []]"

lemma newest_edit_failure_not_latest:
  "map_option (\<lambda>sy. (last (sy_log sy), map wr_generation (all_requests (sy_controller sy))))
     (run_steps perform boundary_ops system_start) =
   Some (EventSent \<lparr>ev_generation = 3, ev_result = Inl ''disk full'', ev_is_latest = False\<rparr>, [])"
  by code_simp

section \<open>Properties\<close>

text \<open>
  C8. A flush is answered by its own write: whenever a flush callback has been run with some
  result, a write of exactly the generation and the draft that flush asked for has ended with
  that result, whatever was scheduled, flushed or failed in between.
\<close>

theorem flush_reports_its_write:
  assumes "reachable perform starting sy" "next_id sy < u64_max"
    and "CallbackRun callback i result \<in> set (sy_log sy)"
  shows "\<exists>request. WriteFinished request result \<in> set (sy_log sy) \<and>
     (callback, wr_generation request, wr_action request) \<in> set (sy_flushed sy)"
  using autosave_machine.holds [OF assms(1)] assms(2,3)
  by (fastforce simp: system_inv_def system_core_def log_ok_def promised_def)

text \<open>
  C2. No flush is forgotten: from every reachable state, once the workers that are running and
  queued have ended, successfully or not, each flush callback has been run exactly once.
\<close>

theorem every_flush_completes:
  assumes "reachable perform starting sy" "next_id sy < u64_max"
  shows "\<exists>sy'. drain outcome (length (all_requests (sy_controller sy))) sy = Some sy' \<and>
     mset (callbacks_run (sy_log sy')) = mset (map fst (sy_flushed sy)) \<and>
     \<not> (as_active (sy_controller sy') \<noteq> None \<or> as_urgent (sy_controller sy') \<noteq> [])"
proof -
  from autosave_machine.holds [OF assms(1)] assms(2) have inv: "system_core sy" "settled sy"
    by (auto simp: system_inv_def)
  from drain_completes [OF inv assms(2) order_refl, of outcome] obtain sy' where
    d: "drain outcome (length (all_requests (sy_controller sy))) sy = Some sy'" "system_core sy'"
      "settled sy'" "sy_workers sy' = []" "sy_flushed sy' = sy_flushed sy" by blast
  note w = idle_no_waiters [OF d(2-4)]
  from d(2,4) have "as_active (sy_controller sy') = None"
    by (auto simp: system_core_def active_requests_def split: option.splits)
  with d w show ?thesis by (intro exI [of _ sy']) (auto simp: system_core_def settled_def Let_def)
qed

text \<open>
  C14. Writes never overlap and the main loop never idles with work it could do: in every
  reachable state at most one worker runs, it is the one writing the active request, and
  while no request is active the urgent queue is empty and no pending request is ready.
\<close>

theorem one_writer_at_a_time:
  assumes "reachable perform starting sy" "next_id sy < u64_max"
  shows "map fst (sy_workers sy) = active_requests (sy_controller sy) \<and> length (sy_workers sy) \<le> 1 \<and>
     settled sy \<and> distinct (map wr_request_id (all_requests (sy_controller sy)))"
proof -
  from autosave_machine.holds [OF assms(1)] assms(2) have
    "map fst (sy_workers sy) = active_requests (sy_controller sy)" "settled sy"
    "distinct (map wr_request_id (all_requests (sy_controller sy)))"
    by (auto simp: system_inv_def system_core_def queue_inv_def)
  moreover from this(1) have "length (sy_workers sy) = length (active_requests (sy_controller sy))"
    by (metis length_map)
  ultimately show ?thesis by (simp add: active_requests_def split: option.splits)
qed

text \<open>A run with two flushes of the same draft, the second one joining the first.\<close>

definition sample_ops :: "(string, nat) autosave_op list" where
  "sample_ops = [Connect, Schedule 7 1 (Persist ''a''), Flush 2 (Persist ''b'') 10, Schedule 8 3 (Persist ''c''),
     Flush 2 (Persist ''b'') 11, WorkerEnds 2 (Inr ()) [Schedule 9 4 (Persist ''d'')], FailNext, DebounceFires 9]"

definition sample_system :: "(string, nat) autosave_system" where
  "sample_system = (case run_steps perform sample_ops system_start of Some sy \<Rightarrow> sy | None \<Rightarrow> system_start)"

lemma sample_system_reachable: "reachable perform starting sample_system" "next_id sample_system < u64_max"
proof -
  have "run_steps perform sample_ops system_start = Some sample_system" by code_simp
  from reachable_run [OF reachable.start this] show "reachable perform starting sample_system" by simp
  show "next_id sample_system < u64_max" by code_simp
qed

lemma flush_reports_its_write_witness:
  "\<exists>request. WriteFinished request (Inr ()) \<in> set (sy_log sample_system) \<and>
     (11, wr_generation request, wr_action request) \<in> set (sy_flushed sample_system)"
proof (rule flush_reports_its_write [OF sample_system_reachable])
  show "CallbackRun 11 2 (Inr ()) \<in> set (sy_log sample_system)" by code_simp
qed

lemma every_flush_completes_witness:
  "\<exists>sy'. drain (\<lambda>_. Inr ()) (length (all_requests (sy_controller sample_system))) sample_system = Some sy' \<and>
     mset (callbacks_run (sy_log sy')) = {#10, 11#}"
proof -
  have "map fst (sy_flushed sample_system) = [10, 11]" by code_simp
  with every_flush_completes [OF sample_system_reachable, of "\<lambda>_. Inr ()"] show ?thesis by auto
qed

lemma one_writer_at_a_time_witness:
  "length (sy_workers sample_system) = 1 \<and> settled sample_system"
  using one_writer_at_a_time [OF sample_system_reachable] by (simp, code_simp)

text \<open>
  A flush that starts a write of its own does not lose the newer edit it found waiting: the
  edit stays pending and is marked ready, so it is written right after the urgent requests.
\<close>

theorem own_flush_keeps_newer_edit:
  assumes "List.find (same_request generation action) (queued_requests (sy_controller sy)) = None"
    and "as_pending (sy_controller sy) = Some edit" "generation < wr_generation edit"
  shows "\<exists>sy'. perform (Flush generation action callback) sy = Some sy' \<and>
     as_pending (sy_controller sy') = Some edit \<and> as_pending_ready (sy_controller sy')"
proof -
  let ?st = "cancel_debounce (sy_controller sy)"
  have c: "as_pending ?st = Some edit" "active_requests ?st @ as_urgent ?st = queued_requests (sy_controller sy)"
    using assms(2) by (simp_all add: cancel_debounce_def request_lists)
  from assms(3) have "\<not> same_request generation action edit" by (auto simp: same_request_def)
  with c assms(1,3) have q: "queue_flush generation action ?st =
      push_urgent generation action (?st\<lparr>as_pending := Some edit, as_pending_ready := True\<rparr>)"
    by (simp add: queue_flush_def Let_def)
  let ?fl = "flush_request generation action callback (sy_controller sy)"
  have f: "as_pending ?fl = Some edit" "as_pending_ready ?fl" "as_urgent ?fl \<noteq> []"
    by (simp_all add: flush_request_def q push_urgent_def next_request_id_def Let_def)
  obtain st' w where s: "start_pending_write ?fl = (st', w)" by fastforce
  with f have "as_pending st' = Some edit \<and> as_pending_ready st'"
    by (auto simp: start_pending_write_def activate_def neq_Nil_conv split: if_splits)
  with s show ?thesis
    by (auto simp: run_start_def update_controller_def split: option.splits)
qed

lemma own_flush_keeps_newer_edit_witness:
  "\<exists>sy'. perform (Flush 3 Clear 12) (update_controller (schedule 9 5 (Persist ''e'')) sample_system) = Some sy' \<and>
     as_pending (sy_controller sy') \<noteq> None"
proof -
  let ?sy = "update_controller (schedule 9 5 (Persist ''e'')) sample_system"
  have "List.find (same_request 3 Clear) (queued_requests (sy_controller ?sy)) = None \<and>
      map_option wr_generation (as_pending (sy_controller ?sy)) = Some 5" by code_simp
  with own_flush_keeps_newer_edit [of 3 Clear ?sy _ 12] show ?thesis by fastforce
qed

definition stranding_ops :: "(string, nat) autosave_op list" where
  "stranding_ops = [Flush 1 Clear 0, Schedule 7 2 (Persist ''newer''), Flush 1 Clear 1, WorkerEnds 1 (Inr ()) []]"

text \<open>
  C23. A flush that joins a write already under way, though, has cancelled the timer of a newer
  edit without making the edit ready: there is a reachable idle state in which that edit is
  pending and neither a timer nor a worker can ever get it written.
\<close>

theorem joined_flush_strands_newer_edit:
  "\<exists>sy :: (string, nat) autosave_system. reachable perform starting sy \<and>
     map_option wr_action (as_pending (sy_controller sy)) = Some (Persist ''newer'') \<and>
     (\<forall>source. perform (DebounceFires source) sy = None) \<and>
     (\<forall>i result ops. perform (WorkerEnds i result ops) sy = None)"
proof -
  have "map_option (\<lambda>sy. (map_option wr_action (as_pending (sy_controller sy)),
      as_debounce_source (sy_controller sy), map fst (sy_workers sy))) (run_steps perform stranding_ops system_start) =
      Some (Some (Persist ''newer''), None, [])" by code_simp
  then obtain sy where sy: "run_steps perform stranding_ops system_start = Some sy"
      "map_option wr_action (as_pending (sy_controller sy)) = Some (Persist ''newer'')"
      "as_debounce_source (sy_controller sy) = None" "sy_workers sy = []" by auto
  from reachable_run [OF reachable.start sy(1)] have "reachable perform starting sy" by simp
  with sy(2-4) show ?thesis by (intro exI [of _ sy]) (simp add: worker_may_end_def)
qed

end
