(* ===== verification/Html_Sanitize.thy ===== *)
theory Html_Sanitize
  imports Rust_Str
begin

text \<open>
  The HTML policy, \<open>notm-mail/src/html\_sanitize.rs\<close>.  The sanitizer engine (\<open>ammonia\<close>)
  and the text converter (\<open>html2text\<close>) are external: the record \<open>html_lib\<close> has them as
  functions of the policy the code builds.  The policy itself, with its attribute filter, is
  modelled.
\<close>

section \<open>Policies\<close>

record sanitize_policy =
  sp_rm_tags :: "string list"
  sp_url_schemes :: "string list"
  sp_add_tags :: "string list"
  sp_generic_attributes :: "string list"
  sp_tag_attributes :: "(string \<times> string list) list"
  sp_attribute_filter :: "string \<Rightarrow> string \<Rightarrow> string \<Rightarrow> string option"
  sp_style_properties :: "string list"

record html_lib =
  hm_clean :: "sanitize_policy \<Rightarrow> string \<Rightarrow> string"
  hm_html2text :: "string \<Rightarrow> nat \<Rightarrow> string + string"

definition safe_email_style_properties :: "string list" where
  "safe_email_style_properties = [
     ''background-color'', ''border'', ''border-bottom'', ''border-collapse'', ''border-color'',
     ''border-left'', ''border-radius'', ''border-right'', ''border-spacing'', ''border-style'',
     ''border-top'', ''border-width'', ''color'', ''display'', ''float'', ''font-family'', ''font-size'',
     ''font-style'', ''font-weight'', ''height'', ''letter-spacing'', ''line-height'', ''margin'',
     ''margin-bottom'', ''margin-left'', ''margin-right'', ''margin-top'', ''max-height'', ''max-width'',
     ''min-height'', ''min-width'', ''object-fit'', ''opacity'', ''outline'', ''overflow'', ''padding'',
     ''padding-bottom'', ''padding-left'', ''padding-right'', ''padding-top'', ''text-align'',
     ''text-decoration'', ''text-transform'', ''vertical-align'', ''white-space'', ''width'']"

definition style_value_looks_dangerous :: "string \<Rightarrow> bool" where
  "style_value_looks_dangerous value =
     (let value = map to_ascii_lower value in
      list_ex (\<lambda>needle. has_infix needle value)
        [''url('', ''expression('', ''@import'', ''behavior:'', ''-moz-binding'', ''javascript:''])"

definition one_to_seven :: "string \<Rightarrow> bool" where
  "one_to_seven s = (s \<in> {''1'', ''2'', ''3'', ''4'', ''5'', ''6'', ''7''})"

definition font_size_value_is_safe :: "string \<Rightarrow> bool" where
  "font_size_value_is_safe value =
     (let value = trim value in
      case value of
        c # rest \<Rightarrow> if c = CHR ''+'' \<or> c = CHR ''-'' then one_to_seven rest else one_to_seven value
      | [] \<Rightarrow> one_to_seven value)"

definition attribute_filter :: "bool \<Rightarrow> string \<Rightarrow> string \<Rightarrow> string \<Rightarrow> string option" where
  "attribute_filter allow_cid_images element attr value =
     (if starts_with (map to_ascii_lower (trim value)) ''cid:'' \<and>
           \<not> (allow_cid_images \<and> element = ''img'' \<and> attr = ''src'')
         \<or> attr = ''style'' \<and> style_value_looks_dangerous value
         \<or> element = ''font'' \<and> attr = ''size'' \<and> \<not> font_size_value_is_safe value
      then None else Some value)"

definition cell_attributes :: "string list" where
  "cell_attributes = [''width'', ''height'', ''bgcolor'', ''valign'']"

definition sanitize_policy_for :: "bool \<Rightarrow> sanitize_policy" where
  "sanitize_policy_for allow_cid_images = \<lparr>
     sp_rm_tags = [''script'', ''style'', ''iframe'', ''object'', ''embed'', ''link'', ''meta''],
     sp_url_schemes = [''http'', ''https'', ''mailto''] @ (if allow_cid_images then [''cid''] else []),
     sp_add_tags = [''font''],
     sp_generic_attributes = [''style''],
     sp_tag_attributes = [
       (''font'', [''size'']),
       (''table'', [''width'', ''height'', ''border'', ''cellpadding'', ''cellspacing'', ''bgcolor'']),
       (''tbody'', cell_attributes), (''thead'', cell_attributes), (''tfoot'', cell_attributes),
       (''tr'', cell_attributes), (''td'', cell_attributes), (''th'', cell_attributes)],
     sp_attribute_filter = attribute_filter allow_cid_images,
     sp_style_properties = safe_email_style_properties\<rparr>"

definition sanitize_html_with_policy :: "html_lib \<Rightarrow> string \<Rightarrow> bool \<Rightarrow> string" where
  "sanitize_html_with_policy lib html allow_cid_images =
     hm_clean lib (sanitize_policy_for allow_cid_images) html"

definition sanitize_html :: "html_lib \<Rightarrow> string \<Rightarrow> string" where
  "sanitize_html lib html = sanitize_html_with_policy lib html False"

definition sanitize_html_with_cid_images :: "html_lib \<Rightarrow> string \<Rightarrow> string" where
  "sanitize_html_with_cid_images lib html = sanitize_html_with_policy lib html True"

definition html_to_safe_text :: "html_lib \<Rightarrow> string \<Rightarrow> string" where
  "html_to_safe_text lib html =
     (let sanitized = sanitize_html lib html in
      case hm_html2text lib sanitized 100 of Inl _ \<Rightarrow> sanitized | Inr text_version \<Rightarrow> text_version)"

section \<open>What the filter lets through\<close>

text \<open>
  A construct occurs in a value in some spelling when a part of the value equals it up to the case
  of ASCII letters.
\<close>

definition occurs_in_any_case :: "string \<Rightarrow> string \<Rightarrow> bool" where
  "occurs_in_any_case construct s \<longleftrightarrow>
     (\<exists>before spelling after. s = before @ spelling @ after \<and> eq_ignore_ascii_case spelling construct)"

lemma infix_map_iff: "has_infix n (map f s) \<longleftrightarrow> (\<exists>p m q. s = p @ m @ q \<and> map f m = n)"
proof
  assume "has_infix n (map f s)"
  then obtain a b where ab: "map f s = a @ n @ b" by (auto simp: has_infix_iff)
  then obtain p r where r: "s = p @ r" "n @ b = map f r" by (auto simp: map_eq_append_conv)
  from r(2) obtain m q where "r = m @ q" "n = map f m" by (auto simp: append_eq_map_conv)
  with r(1) show "\<exists>p m q. s = p @ m @ q \<and> map f m = n" by blast
qed (fastforce simp: has_infix_iff)

lemma occurs_infix:
  "map to_ascii_lower n = n \<Longrightarrow> has_infix n (map to_ascii_lower s) \<longleftrightarrow> occurs_in_any_case n s"
  by (simp add: infix_map_iff occurs_in_any_case_def eq_ignore_ascii_case_def)

lemma style_value_dangerous_iff:
  "style_value_looks_dangerous v \<longleftrightarrow>
     (\<exists>construct \<in> {''url('', ''expression('', ''@import'', ''behavior:'', ''-moz-binding'', ''javascript:''}.
        occurs_in_any_case construct v)"
proof -
  let ?needles = "[''url('', ''expression('', ''@import'', ''behavior:'', ''-moz-binding'', ''javascript:'']"
  have "list_all (\<lambda>n. map to_ascii_lower n = n) ?needles" by code_simp
  then have n: "has_infix n (map to_ascii_lower v) \<longleftrightarrow> occurs_in_any_case n v" if "n \<in> set ?needles" for n
    using that by (intro occurs_infix) (simp only: list_all_iff)
  have "style_value_looks_dangerous v \<longleftrightarrow> (\<exists>n \<in> set ?needles. has_infix n (map to_ascii_lower v))"
    unfolding style_value_looks_dangerous_def Let_def list_ex_iff ..
  also have "\<dots> \<longleftrightarrow> (\<exists>n \<in> set ?needles. occurs_in_any_case n v)"
    by (rule bex_cong [OF refl n])
  finally show ?thesis unfolding list.set .
qed

lemma starts_with_map_iff:
  "starts_with (map f s) p \<longleftrightarrow> (\<exists>m q. s = m @ q \<and> map f m = p)"
proof
  assume "starts_with (map f s) p"
  then obtain b where "map f s = p @ b" by (auto simp: starts_with_iff)
  then show "\<exists>m q. s = m @ q \<and> map f m = p" by (auto simp: map_eq_append_conv)
qed (auto simp: starts_with_iff)

lemma one_to_seven_iff: "one_to_seven s \<longleftrightarrow> (\<exists>digit \<in> set ''1234567''. s = [digit])"
  by (simp add: one_to_seven_def)

lemma font_size_iff:
  "font_size_value_is_safe v \<longleftrightarrow>
     (\<exists>sign digit. trim v = sign @ [digit] \<and> sign \<in> {[], ''+'', ''-''} \<and> digit \<in> set ''1234567'')"
proof (cases "trim v")
  case Nil
  then show ?thesis by (simp add: font_size_value_is_safe_def one_to_seven_iff)
next
  case (Cons c rest)
  have digits: "CHR ''+'' \<notin> set ''1234567''" "CHR ''-'' \<notin> set ''1234567''" by simp_all
  have "(\<exists>sign digit. c # rest = sign @ [digit] \<and> sign \<in> {[], ''+'', ''-''} \<and> digit \<in> set ''1234567'') \<longleftrightarrow>
      (rest = [] \<and> c \<in> set ''1234567'') \<or>
      ((c = CHR ''+'' \<or> c = CHR ''-'') \<and> (\<exists>digit \<in> set ''1234567''. rest = [digit]))"
    (is "?l \<longleftrightarrow> ?r")
  proof
    assume ?l
    then obtain sign digit where d: "c # rest = sign @ [digit]" "digit \<in> set ''1234567''"
      and "sign = [] \<or> sign = ''+'' \<or> sign = ''-''" by blast
    from this(3) d show ?r by (elim disjE) (simp_all only: append.simps list.inject, blast+)
  next
    assume ?r
    then show ?l
    proof (elim disjE conjE bexE)
      assume "rest = []" "c \<in> set ''1234567''"
      then show ?l by (intro exI [of _ "[]"] exI [of _ c]) (simp only: append.simps, simp)
    next
      fix digit assume "c = CHR ''+''" "digit \<in> set ''1234567''" "rest = [digit]"
      then show ?l by (intro exI [of _ "''+''"] exI [of _ digit]) (simp only: append.simps, simp)
    next
      fix digit assume "c = CHR ''-''" "digit \<in> set ''1234567''" "rest = [digit]"
      then show ?l by (intro exI [of _ "''-''"] exI [of _ digit]) (simp only: append.simps, simp)
    qed
  qed
  moreover have "font_size_value_is_safe v \<longleftrightarrow> (if c = CHR ''+'' \<or> c = CHR ''-''
      then \<exists>digit \<in> set ''1234567''. rest = [digit] else rest = [] \<and> c \<in> set ''1234567'')"
    unfolding font_size_value_is_safe_def Let_def Cons one_to_seven_iff list.case by auto
  ultimately show ?thesis unfolding Cons using digits by metis
qed

lemma if_disj_nested: "(if a \<or> b \<or> c then x else y) = (if a then x else if b then x else if c then x else y)"
  by simp

section \<open>Properties\<close>

text \<open>
  The attribute filter of both policies removes exactly the harmful values and never alters
  one. A style value is removed when \<open>url(\<close>, \<open>expression(\<close>, \<open>@import\<close>,
  \<open>behavior:\<close>, \<open>-moz-binding\<close> or \<open>javascript:\<close> occurs in it, in
  whatever letter case and between whatever other text; a value that starts, after white space, with
  \<open>cid:\<close> in whatever letter case is removed except from the source of an image under the policy for
  embedded images; the size of a font is kept only when it is a digit from 1 to 7 with at most one
  sign; everything else is kept as it is.
\<close>

theorem attribute_filter_exact:
  "sp_attribute_filter (sanitize_policy_for allow_cid_images) element attr text =
     (if (\<exists>scheme rest. trim text = scheme @ rest \<and> eq_ignore_ascii_case scheme ''cid:'') \<and>
         \<not> (allow_cid_images \<and> element = ''img'' \<and> attr = ''src'') then None
      else if attr = ''style'' \<and>
         (\<exists>construct \<in> {''url('', ''expression('', ''@import'', ''behavior:'', ''-moz-binding'', ''javascript:''}.
            \<exists>before spelling after.
              text = before @ spelling @ after \<and> eq_ignore_ascii_case spelling construct) then None
      else if element = ''font'' \<and> attr = ''size'' \<and>
         (\<nexists>sign digit. trim text = sign @ [digit] \<and> sign \<in> {[], ''+'', ''-''} \<and> digit \<in> set ''1234567'')
      then None else Some text)"
proof -
  have "map to_ascii_lower ''cid:'' = ''cid:''" by code_simp
  then have cid: "starts_with (map to_ascii_lower (trim text)) ''cid:'' \<longleftrightarrow>
      (\<exists>scheme rest. trim text = scheme @ rest \<and> eq_ignore_ascii_case scheme ''cid:'')"
    by (simp add: starts_with_map_iff eq_ignore_ascii_case_def)
  have filter: "sp_attribute_filter (sanitize_policy_for allow_cid_images) = attribute_filter allow_cid_images"
    by (simp add: sanitize_policy_for_def)
  show ?thesis
    unfolding filter attribute_filter_def cid font_size_iff
      style_value_dangerous_iff [unfolded occurs_in_any_case_def]
    by (simp only: if_disj_nested)
qed

end
