(* ===== verification/Reply_Forward.thy ===== *)
theory Reply_Forward
  imports Render Html_Sanitize
begin

text \<open>
  Replies and forwards: \<open>notm-mail/src/reply.rs\<close> and \<open>notm-mail/src/forward.rs\<close>.  The
  fresh identifiers of the new message and the HTML sanitizer are arguments.
\<close>

section \<open>Replies\<close>

datatype reply_kind = Sender | All

record reply_lib =
  rp_render :: render_lib
  rp_html :: html_lib

definition quote_body :: "string \<Rightarrow> string" where
  "quote_body body = [LF, LF] @ concat (map (\<lambda>line. ''> '' @ line @ [LF]) (lines body))"

definition escape_attribution :: "string \<Rightarrow> string" where
  "escape_attribution value =
     replace_char CHR 0x27 ''&#39;''
       (replace_char DQ ''&quot;''
         (replace_char CHR ''>'' ''&gt;''
           (replace_char CHR ''<'' ''&lt;''
             (replace_char CHR ''&'' ''&amp;'' value))))"

definition html_attribution :: "string \<Rightarrow> string \<Rightarrow> string" where
  "html_attribution date from_field =
     (if trim date \<noteq> [] \<or> from_field \<noteq> []
      then ''<div class='' @ [DQ] @ ''notm-reply-attribution'' @ [DQ] @ ''>'' @ ''On '' @
           (if trim date \<noteq> [] then escape_attribution (trim date) else []) @
           (if from_field \<noteq> []
            then (if trim date \<noteq> [] then '', '' else []) @ escape_attribution from_field else []) @
           '' wrote:</div>''
      else [])"

definition html_quote_body :: "reply_lib \<Rightarrow> parsed_message \<Rightarrow> string \<Rightarrow> string" where
  "html_quote_body lib original html =
     (let date = (case Mapping.lookup (pg_headers original) ''Date'' of Some d \<Rightarrow> d | None \<Rightarrow> []);
          from_field = trim (pg_from original) in
      ''<br><br>'' @ html_attribution date from_field @ ''<blockquote type='' @ [DQ] @ ''cite'' @ [DQ] @
      '' style='' @ [DQ] @ ''margin:0 0 0 .8em; border-left:2px solid #729fcf; padding-left:.8em;'' @ [DQ] @
      ''>'' @ sanitize_html (rp_html lib) html @ ''</blockquote>'')"

definition reply_recipients ::
  "reply_lib \<Rightarrow> parsed_message \<Rightarrow> string list \<Rightarrow> reply_kind \<Rightarrow> mail_address list \<times> mail_address list" where
  "reply_recipients lib original my_emails kind =
     (let addresses = wl_address (rl_wire (rp_render lib));
          lower = rl_to_lowercase (rp_render lib);
          recipients = (if trim (pg_reply_to original) \<noteq> []
                        then parse_address_list addresses (pg_reply_to original)
                        else parse_address_list addresses (pg_from original)) in
      if kind = All
      then (let recipients = recipients @ parse_address_list addresses (pg_to original);
                cc = parse_address_list addresses (pg_cc original) in
            (exclude_identities lower (dedupe_addresses lower recipients) my_emails,
             exclude_identities lower (dedupe_addresses lower cc) my_emails))
      else (recipients, []))"

definition reply_threading :: "parsed_message \<Rightarrow> composed_message \<Rightarrow> composed_message" where
  "reply_threading original message =
     (if pg_message_id original \<noteq> []
      then message\<lparr>cm_in_reply_to := Some (pg_message_id original),
                   cm_references :=
                     (if trim (pg_references original) \<noteq> [] then [trim (pg_references original)] else []) @
                     [pg_message_id original]\<rparr>
      else message)"

definition build_reply ::
  "reply_lib \<Rightarrow> fresh_values \<Rightarrow> parsed_message \<Rightarrow> identity \<Rightarrow> string list \<Rightarrow> reply_kind \<Rightarrow> composed_message" where
  "build_reply lib fresh original self my_emails kind =
     (let (recipients, cc) = reply_recipients lib original my_emails kind;
          html_reply_quote = map_option (html_quote_body lib original) (pg_html_body original);
          visible_body = (if html_reply_quote \<noteq> None then [] else quote_body (pg_safe_body original));
          message = composed_message_new (rp_render lib) fresh (formatted self) (map format_address recipients)
            (normalize_subject_for_reply (rl_to_lowercase (rp_render lib)) (pg_subject original)) visible_body;
          message = (case html_reply_quote of
              None \<Rightarrow> message
            | Some html_quote \<Rightarrow>
                message\<lparr>cm_text_reply_quote := Some (quote_body (pg_safe_body original)),
                        cm_html_reply_quote := Some html_quote\<rparr>);
          message = message\<lparr>cm_cc := map format_address cc\<rparr> in
      reply_threading original message)"

section \<open>Forwards\<close>

definition build_inline_forward ::
  "render_lib \<Rightarrow> fresh_values \<Rightarrow> parsed_message \<Rightarrow> identity \<Rightarrow> composed_message" where
  "build_inline_forward lib fresh original self =
     (let body = [LF, LF] @ ''---------- Forwarded message ---------'' @ [LF] @ ''From: '' @ pg_from original @
                 [LF] @ ''To: '' @ pg_to original @ [LF] @ ''Subject: '' @ pg_subject original @ [LF, LF] @
                 pg_safe_body original in
      composed_message_new lib fresh (formatted self) []
        (normalize_subject_for_forward (rl_to_lowercase lib) (pg_subject original)) body)"

text \<open>\<open>while slug.contains("--")\<close>: each round is shorter.\<close>

function collapse_dashes :: "string \<Rightarrow> string" where
  "collapse_dashes slug =
     (if has_infix ''--'' slug then collapse_dashes (replace_str ''--'' ''-'' slug) else slug)"
  by pat_completeness auto

lemma length_replace_dashes: "length (replace_str ''--'' ''-'' s) \<le> length s"
  by (induction s rule: induct_list012) (auto simp: starts_with_def)

lemma length_replace_dashes_less:
  "has_infix ''--'' s \<Longrightarrow> length (replace_str ''--'' ''-'' s) < length s"
proof (induction s rule: induct_list012)
  case (3 x y zs)
  then show ?case using length_replace_dashes [of zs] by (auto simp: starts_with_def)
qed auto

termination collapse_dashes
  by (relation "measure length") (auto intro: length_replace_dashes_less)

declare collapse_dashes.simps [simp del]

definition trim_dashes :: "string \<Rightarrow> string" where
  "trim_dashes s = rev (dropWhile (\<lambda>c. c = CHR ''-'') (rev (dropWhile (\<lambda>c. c = CHR ''-'') s)))"

definition slug_char :: "string \<Rightarrow> string" where
  "slug_char sl = (case sl of [c] \<Rightarrow> if is_ascii_alphanumeric c then [to_ascii_lower c] else ''-'' | _ \<Rightarrow> ''-'')"

definition forwarded_message_filename :: "string \<Rightarrow> string" where
  "forwarded_message_filename subject =
     (let slug = trim_dashes (collapse_dashes (concat (map slug_char (char_slices subject)))) in
      if slug = [] then ''forwarded-message.eml''
      else ''forwarded-'' @ concat (take 48 (char_slices slug)) @ ''.eml'')"

definition build_attachment_forward ::
  "render_lib \<Rightarrow> fresh_values \<Rightarrow> parsed_message \<Rightarrow> identity \<Rightarrow> string \<Rightarrow> composed_message" where
  "build_attachment_forward lib fresh original self raw_message =
     (let message = composed_message_new lib fresh (formatted self) []
            (normalize_subject_for_forward (rl_to_lowercase lib) (pg_subject original))
            ([LF, LF] @ ''The original message is attached.'' @ [LF, LF] @ ''From: '' @ pg_from original @ [LF] @
             ''To: '' @ pg_to original @ [LF] @ ''Subject: '' @ pg_subject original @ [LF]) in
      message\<lparr>cm_attachments := cm_attachments message @
        [\<lparr>ai_filename = forwarded_message_filename (pg_subject original),
          ai_content_type = ''message/rfc822'', ai_bytes = raw_message, ai_source_path = None\<rparr>]\<rparr>)"

section \<open>Threading\<close>

lemma message_id_tokens_append:
  "message_id_tokens field (vs @ ws) =
     and_then (message_id_tokens field vs) (\<lambda>ids. map_ok (\<lambda>rest. ids @ rest) (message_id_tokens field ws))"
proof (induction vs)
  case Nil
  then show ?case by (cases "message_id_tokens field ws") simp_all
next
  case (Cons v vs)
  have assoc: "map_ok (\<lambda>rest. ids @ rest) (and_then r (\<lambda>is. map_ok (\<lambda>rest. is @ rest) t)) =
      and_then (map_ok (\<lambda>rest. ids @ rest) r) (\<lambda>is. map_ok (\<lambda>rest. is @ rest) t)"
    for ids :: "string list" and r t :: "header_error + string list"
    by (cases r; cases t) simp_all
  have bind: "and_then (and_then a f) g = and_then a (\<lambda>x. and_then (f x) g)"
    for a :: "header_error + 'x" and f :: "'x \<Rightarrow> header_error + string list" and g
    by (cases a) simp_all
  show ?case using Cons
    by (simp add: bind assoc Let_def) 
qed

section \<open>Recipients\<close>

lemma dedupe_addresses_keys:
  "distinct (map (lower \<circ> ma_email) (dedupe_addresses lower addrs))"
  "(lower \<circ> ma_email) ` set (dedupe_addresses lower addrs) = (lower \<circ> ma_email) ` set addrs"
proof -
  have "distinct (map (lower \<circ> ma_email) (dedupe_from lower seen addrs)) \<and>
      (lower \<circ> ma_email) ` set (dedupe_from lower seen addrs) = (lower \<circ> ma_email) ` set addrs - seen" for seen
    by (induction addrs arbitrary: seen) (auto simp: Let_def)
  from this [of "{}"] show "distinct (map (lower \<circ> ma_email) (dedupe_addresses lower addrs))"
      "(lower \<circ> ma_email) ` set (dedupe_addresses lower addrs) = (lower \<circ> ma_email) ` set addrs"
    by (simp_all add: dedupe_addresses_def)
qed

lemma exclude_dedupe_keys:
  "distinct (map (lower \<circ> ma_email) (exclude_identities lower (dedupe_addresses lower addrs) my))"
  "(lower \<circ> ma_email) ` set (exclude_identities lower (dedupe_addresses lower addrs) my) =
     (lower \<circ> ma_email) ` set addrs - lower ` set my"
proof -
  show "distinct (map (lower \<circ> ma_email) (exclude_identities lower (dedupe_addresses lower addrs) my))"
    using dedupe_addresses_keys(1) [of lower addrs] by (simp add: exclude_identities_def distinct_map_filter)
  have "(lower \<circ> ma_email) ` set (exclude_identities lower xs my) = (lower \<circ> ma_email) ` set xs - lower ` set my"
    for xs by (auto simp: exclude_identities_def Let_def)
  then show "(lower \<circ> ma_email) ` set (exclude_identities lower (dedupe_addresses lower addrs) my) =
     (lower \<circ> ma_email) ` set addrs - lower ` set my"
    by (simp only: dedupe_addresses_keys(2))
qed

lemma build_reply_fields:
  assumes "reply_recipients lib original my kind = (recipients, cc)"
  shows "cm_to (build_reply lib fresh original self my kind) = map format_address recipients"
    and "cm_cc (build_reply lib fresh original self my kind) = map format_address cc"
    and "pg_message_id original \<noteq> [] \<Longrightarrow> cm_references (build_reply lib fresh original self my kind) =
      (if trim (pg_references original) \<noteq> [] then [trim (pg_references original)] else []) @ [pg_message_id original]"
    and "pg_message_id original \<noteq> [] \<Longrightarrow>
      cm_in_reply_to (build_reply lib fresh original self my kind) = Some (pg_message_id original)"
  using assms
  by (simp_all add: build_reply_def reply_threading_def composed_message_new_def Let_def split: option.splits)

section \<open>File names of forwarded messages\<close>

definition slug_ok :: "char \<Rightarrow> bool" where
  "slug_ok c \<longleftrightarrow> is_ascii_lower c \<or> is_ascii_digit c \<or> c = CHR ''-''"

lemma slug_ok_ascii: "slug_ok c \<Longrightarrow> is_ascii_byte c"
  by (auto simp: slug_ok_def byte_class_defs)

lemma slug_char_ok: "list_all slug_ok (slug_char sl)"
  by (auto simp: slug_char_def slug_ok_def to_ascii_lower_def byte_class_defs split: list.splits)

lemma replace_dashes_ok: "list_all slug_ok s \<Longrightarrow> list_all slug_ok (replace_str ''--'' ''-'' s)"
  by (induction s rule: induct_list012) (auto simp: starts_with_def slug_ok_def)

lemma collapse_dashes_props:
  "\<not> has_infix ''--'' (collapse_dashes s) \<and> (list_all slug_ok s \<longrightarrow> list_all slug_ok (collapse_dashes s))"
proof (induction s rule: collapse_dashes.induct)
  case (1 s)
  then show ?case using replace_dashes_ok by (subst (1 2) collapse_dashes.simps) simp
qed

lemma no_dashes_sub: "\<not> has_infix ''--'' (p @ s @ q) \<Longrightarrow> \<not> has_infix ''--'' s"
  unfolding has_infix_iff by (metis append.assoc)

lemma trim_dashes_sub: "\<exists>p q. s = p @ trim_dashes s @ q"
proof -
  let ?d = "dropWhile (\<lambda>c. c = CHR ''-'') s"
  have "s = takeWhile (\<lambda>c. c = CHR ''-'') s @ ?d" by simp
  moreover have "?d = rev (dropWhile (\<lambda>c. c = CHR ''-'') (rev ?d)) @ rev (takeWhile (\<lambda>c. c = CHR ''-'') (rev ?d))"
    by (metis rev_append rev_rev_ident takeWhile_dropWhile_id)
  ultimately show ?thesis unfolding trim_dashes_def by metis
qed

lemma trim_dashes_props:
  "list_all P s \<Longrightarrow> list_all P (trim_dashes s)"
  "\<not> has_infix ''--'' s \<Longrightarrow> \<not> has_infix ''--'' (trim_dashes s)"
proof -
  obtain p q where s: "s = p @ trim_dashes s @ q" using trim_dashes_sub by blast
  show "list_all P s \<Longrightarrow> list_all P (trim_dashes s)" by (subst (asm) s) simp
  show "\<not> has_infix ''--'' s \<Longrightarrow> \<not> has_infix ''--'' (trim_dashes s)"
    by (subst (asm) s) (rule no_dashes_sub)
qed

lemma slug_slices: "list_all slug_ok s \<Longrightarrow> char_slices s = map (\<lambda>c. [c]) s"
  by (rule char_slices_is_ascii) (auto simp: is_ascii_str_def list_all_iff slug_ok_ascii)

lemma forwarded_slug:
  obtains slug where "list_all slug_ok slug" "\<not> has_infix ''--'' slug"
    "forwarded_message_filename subject =
       (if slug = [] then ''forwarded-message.eml'' else ''forwarded-'' @ take 48 slug @ ''.eml'')"
proof -
  let ?raw = "concat (map slug_char (char_slices subject))"
  let ?slug = "trim_dashes (collapse_dashes ?raw)"
  have "list_all slug_ok ?raw" using slug_char_ok by (auto simp: list_all_iff)
  then have c: "list_all slug_ok (collapse_dashes ?raw)" "\<not> has_infix ''--'' (collapse_dashes ?raw)"
    using collapse_dashes_props by blast+
  have ok: "list_all slug_ok ?slug" by (rule trim_dashes_props(1) [OF c(1)])
  have "\<not> has_infix ''--'' ?slug" by (rule trim_dashes_props(2) [OF c(2)])
  moreover have "concat (take 48 (char_slices ?slug)) = take 48 ?slug"
    unfolding slug_slices [OF ok] by (simp add: take_map)
  ultimately show thesis using that [OF ok] by (simp add: forwarded_message_filename_def Let_def)
qed

section \<open>A concrete reply\<close>

definition sample_reply_lib :: reply_lib where
  "sample_reply_lib = \<lparr>rp_render = sample_render_lib,
     rp_html = \<lparr>hm_clean = (\<lambda>policy html. html), hm_html2text = (\<lambda>html width. Inr html)\<rparr>\<rparr>"

definition sample_original :: parsed_message where
  "sample_original = \<lparr>
     pg_headers = Mapping.empty, pg_subject = ''Hi'', pg_from = ''a@x'', pg_to = ''Me@x'', pg_cc = ''B@x'',
     pg_reply_to = '' '', pg_message_id = ''<2@x>'', pg_references = '' <0@x> <1@x> '', pg_in_reply_to = [],
     pg_text_body = ''t'', pg_html_body = None, pg_html_cid_part_scopes = [], pg_safe_body = ''t'',
     pg_decode_warnings = [], pg_attachments = [], pg_mime_tree = [], pg_classification = \<lparr>mc_calendar_parts = [], mc_crypto_parts = []\<rparr>\<rparr>"

definition sample_fresh :: fresh_values where
  "sample_fresh = \<lparr>fv_message_uuid = 1, fv_now = 2, fv_boundary_uuid = 3\<rparr>"

section \<open>Properties\<close>

text \<open>
  C15. A reply to all goes to the senders and the original recipients and never back to the user.
  Compared without regard to letter case, the To list is the addresses of the original's Reply-To
  (or From) and To without the user's own, the Cc list those of the original's Cc without the
  user's own, and neither list has a duplicate. The two lists are tidied separately: an address
  that the original names in both is in both.
\<close>

theorem reply_all_recipients:
  assumes "reply_recipients lib original my All = (recipients, cc)"
    and "addresses = wl_address (rl_wire (rp_render lib))" "key = rl_to_lowercase (rp_render lib) \<circ> ma_email"
  shows "distinct (map key recipients) \<and> distinct (map key cc) \<and>
     key ` set recipients =
       key ` (set (parse_address_list addresses (if trim (pg_reply_to original) \<noteq> [] then pg_reply_to original
                                                 else pg_from original)) \<union>
              set (parse_address_list addresses (pg_to original))) - rl_to_lowercase (rp_render lib) ` set my \<and>
     key ` set cc = key ` set (parse_address_list addresses (pg_cc original)) - rl_to_lowercase (rp_render lib) ` set my \<and>
     cm_to (build_reply lib fresh original self my All) = map format_address recipients \<and>
     cm_cc (build_reply lib fresh original self my All) = map format_address cc"
proof -
  let ?lower = "rl_to_lowercase (rp_render lib)"
  let ?senders = "parse_address_list addresses (if trim (pg_reply_to original) \<noteq> [] then pg_reply_to original
      else pg_from original)"
  let ?tidy = "\<lambda>as. exclude_identities ?lower (dedupe_addresses ?lower as) my"
  from assms(1,2) have r: "recipients = ?tidy (?senders @ parse_address_list addresses (pg_to original))"
    and c: "cc = ?tidy (parse_address_list addresses (pg_cc original))"
    by (auto simp: reply_recipients_def Let_def)
  show ?thesis
    unfolding assms(3) r c exclude_dedupe_keys(2) set_append
    by (intro conjI exclude_dedupe_keys(1) build_reply_fields [OF assms(1), unfolded r c] refl)
qed

lemma reply_all_recipients_witness:
  "map ma_email (fst (reply_recipients sample_reply_lib sample_original [''ME@x''] All)) = [''a@x''] \<and>
   cm_to (build_reply sample_reply_lib sample_fresh sample_original \<lparr>id_name = None, id_email = ''me@x''\<rparr>
     [''ME@x''] All) = [''a@x'']"
proof -
  have r: "reply_recipients sample_reply_lib sample_original [''ME@x''] All =
      ([MailAddress None ''a@x''], [MailAddress None ''B@x''])" by code_simp
  have "format_address (MailAddress None ''a@x'') = ''a@x''" by (simp add: format_address_def)
  with reply_all_recipients [OF r refl refl, of sample_fresh "\<lparr>id_name = None, id_email = ''me@x''\<rparr>"] r
  show ?thesis by simp
qed

text \<open>
  C18. A reply continues the thread: the identifiers its References field is rendered with are
  those of the original's References, in order, followed by the original's own identifier.
\<close>

theorem reply_continues_thread:
  assumes "pg_message_id original \<noteq> []"
    and "message_id_tokens ''References'' [trim (pg_references original)] = Inr ancestors"
    and "message_id_tokens ''References'' [pg_message_id original] = Inr ids"
  shows "threading_ids ''References'' (cm_references (build_reply lib fresh original self my kind)) =
     Inr (ancestors @ ids)"
proof -
  obtain recipients cc where r: "reply_recipients lib original my kind = (recipients, cc)" by fastforce
  note refs = build_reply_fields(3) [OF r assms(1)]
  show ?thesis
  proof (cases "trim (pg_references original) = []")
    case True
    have "message_id_loop ''References'' [] True 0 = Inr []" by code_simp
    with True assms(2) have "ancestors = []"
      by (auto simp: Let_def result_simps parse_message_id_sequence_def)
    with True assms(3) refs show ?thesis by (simp add: threading_ids_def)
  next
    case False
    with refs have "cm_references (build_reply lib fresh original self my kind) =
        [trim (pg_references original)] @ [pg_message_id original]" by simp
    with assms(2,3) show ?thesis by (simp only: threading_ids_def message_id_tokens_append) simp
  qed
qed

lemma reply_continues_thread_witness:
  "threading_ids ''References'' (cm_references (build_reply sample_reply_lib sample_fresh sample_original
     \<lparr>id_name = None, id_email = ''me@x''\<rparr> [] Sender)) = Inr [''<0@x>'', ''<1@x>'', ''<2@x>'']"
proof -
  have "pg_message_id sample_original \<noteq> []" by (simp add: sample_original_def)
  moreover have "message_id_tokens ''References'' [trim (pg_references sample_original)] = Inr [''<0@x>'', ''<1@x>'']"
      "message_id_tokens ''References'' [pg_message_id sample_original] = Inr [''<2@x>'']" by code_simp+
  ultimately show ?thesis using reply_continues_thread [of sample_original] by simp
qed

text \<open>
  The file name of a forwarded message is safe whatever the subject: only lower-case
  letters, digits, dots and single dashes, at most 62 bytes, ending in .eml.
\<close>

theorem forwarded_filename_safe:
  "length (forwarded_message_filename subject) \<le> 62 \<and>
   list_all (\<lambda>c. slug_ok c \<or> c = CHR ''.'') (forwarded_message_filename subject) \<and>
   ends_with (forwarded_message_filename subject) ''.eml'' \<and>
   \<not> has_infix ''..'' (forwarded_message_filename subject)"
proof -
  obtain slug where s: "list_all slug_ok slug" "forwarded_message_filename subject =
      (if slug = [] then ''forwarded-message.eml'' else ''forwarded-'' @ take 48 slug @ ''.eml'')"
    using forwarded_slug by metis
  show ?thesis
  proof (cases "slug = []")
    case True
    with s(2) show ?thesis by (simp add: slug_ok_def byte_class_defs ends_with_iff) 
  next
    case False
    let ?f = "''forwarded-'' @ take 48 slug @ ''.eml''"
    have t: "list_all slug_ok (take 48 slug)" using s(1) by (auto simp: list_all_iff dest: in_set_takeD)
    have d: "list_all (\<lambda>c. c \<noteq> CHR ''.'') (''forwarded-'' @ take 48 slug)"
      using t by (auto simp: list_all_iff slug_ok_def byte_class_defs)
    have one_dot: "\<not> has_infix ''..'' (xs @ ''.eml'')" if "list_all (\<lambda>c. c \<noteq> CHR ''.'') xs" for xs
    proof
      assume "has_infix ''..'' (xs @ ''.eml'')"
      then obtain p q where e: "xs @ ''.eml'' = p @ ''..'' @ q" by (auto simp: has_infix_iff)
      have "filter (\<lambda>c. c = CHR ''.'') xs = []" using that by (auto simp: filter_empty_conv list_all_iff)
      with arg_cong [OF e, of "\<lambda>s. length (filter (\<lambda>c. c = CHR ''.'') s)"] show False by simp
    qed
    from one_dot [OF d] have "\<not> has_infix ''..'' ?f" by simp
    moreover have "list_all (\<lambda>c. slug_ok c \<or> c = CHR ''.'') ?f"
      using t by (auto simp: list_all_iff slug_ok_def byte_class_defs)
    ultimately show ?thesis using False s(2) by (simp add: ends_with_iff)
  qed
qed

end
