(* ===== verification/Message_Io.thy ===== *)
theory Message_Io
  imports Mime_Walk
begin

text \<open>
  Bounded reading of messages, \<open>notm-mail/src/message\_io.rs\<close>, and the entry points of
  \<open>notm-mail/src/mime.rs\<close> that read before they parse.  A reader (\<open>std::io::Read\<close>) is the list
  of what its calls will deliver: a packet of bytes (handed out in pieces when the buffer is
  smaller), an interruption, a failure; the end of the list, or an empty packet, is the end of
  the input.
\<close>

section \<open>Readers\<close>

datatype read_event = Packet string | Interrupted | Failure string

type_synonym reader = "read_event list"

datatype io_outcome = ReadBytes string | WasInterrupted | ReadFailed string

text \<open>One call of \<open>read\<close> with a buffer of \<open>cap\<close> bytes.\<close>

fun read_call :: "nat \<Rightarrow> reader \<Rightarrow> io_outcome \<times> reader" where
  "read_call cap [] = (ReadBytes [], [])"
| "read_call cap (Packet bytes # r) =
     (ReadBytes (take cap bytes), if drop cap bytes = [] then r else Packet (drop cap bytes) # r)"
| "read_call cap (Interrupted # r) = (WasInterrupted, r)"
| "read_call cap (Failure message # r) = (ReadFailed message, r)"

definition reader_size :: "reader \<Rightarrow> nat" where
  "reader_size r = sum_list (map (\<lambda>e. case e of Packet bytes \<Rightarrow> length bytes + 1 | _ \<Rightarrow> 1) r)"

lemma read_call_smaller:
  "(out, r') = read_call cap r \<Longrightarrow> 0 < cap \<Longrightarrow> out \<noteq> ReadBytes [] \<Longrightarrow> reader_size r' < reader_size r"
  by (induction cap r rule: read_call.induct) (auto simp: reader_size_def split: if_splits)

section \<open>Constants and errors\<close>

definition RAW_TEXT_LIMIT :: nat where "RAW_TEXT_LIMIT = 4 * 1024 * 1024"
definition HEADER_TEXT_LIMIT :: nat where "HEADER_TEXT_LIMIT = 1024 * 1024"
definition CHUNK_SIZE :: nat where "CHUNK_SIZE = 8 * 1024"

datatype message_io_error = Io string | TooLarge nat

record bounded_text =
  bt_text :: string
  bt_bytes_read :: nat
  bt_truncated :: bool
  bt_lossy :: bool

section \<open>Lossy text\<close>

text \<open>
  \<open>String::from\_utf8\_lossy\<close>: well-formed characters are kept, and each maximal prefix of one
  becomes a replacement character.
\<close>

definition replacement :: string where "replacement = [CHR 0xEF, CHR 0xBF, CHR 0xBD]"

definition second_byte_ok :: "char \<Rightarrow> char \<Rightarrow> bool" where
  "second_byte_ok a b \<longleftrightarrow>
     bval a = 224 \<and> 160 \<le> bval b \<and> bval b \<le> 191
     \<or> 225 \<le> bval a \<and> bval a \<le> 239 \<and> bval a \<noteq> 237 \<and> is_cont b
     \<or> bval a = 237 \<and> 128 \<le> bval b \<and> bval b \<le> 159
     \<or> bval a = 240 \<and> 144 \<le> bval b \<and> bval b \<le> 191
     \<or> 241 \<le> bval a \<and> bval a \<le> 243 \<and> is_cont b
     \<or> bval a = 244 \<and> 128 \<le> bval b \<and> bval b \<le> 143"

definition invalid_prefix_len :: "string \<Rightarrow> nat" where
  "invalid_prefix_len s =
     (case s of
        a # b # c # _ \<Rightarrow>
          if second_byte_ok a b then (if 240 \<le> bval a \<and> is_cont c then 3 else 2) else 1
      | [a, b] \<Rightarrow> if second_byte_ok a b then 2 else 1
      | _ \<Rightarrow> 1)"

function from_utf8_lossy :: "string \<Rightarrow> string" where
  "from_utf8_lossy [] = []"
| "from_utf8_lossy (b # bs) =
     (let n = utf8_len b; s = b # bs in
      if valid_slice (take n s) then take n s @ from_utf8_lossy (drop n s)
      else replacement @ from_utf8_lossy (drop (invalid_prefix_len s) s))"
  by pat_completeness auto

lemma invalid_prefix_len_pos [simp]: "0 < invalid_prefix_len s"
  by (auto simp: invalid_prefix_len_def split: list.splits)

termination from_utf8_lossy
  by (relation "measure length") (auto simp: diff_less_Suc dest!: diff_less [OF invalid_prefix_len_pos])

declare from_utf8_lossy.simps(2) [simp del]

definition display_text :: "string \<Rightarrow> bool \<Rightarrow> bounded_text" where
  "display_text bytes truncated =
     (let invalid_utf8 = (\<not> valid_utf8 bytes);
          embedded_nul = (CHR 0x00 \<in> set bytes);
          displayed = from_utf8_lossy bytes;
          displayed = (if embedded_nul then replace_char CHR 0x00 replacement displayed else displayed) in
      \<lparr>bt_text = displayed, bt_bytes_read = length bytes, bt_truncated = truncated,
       bt_lossy = (invalid_utf8 \<or> embedded_nul)\<rparr>)"

section \<open>Bounded reads\<close>

text \<open>\<open>reader.take(n).read\_to\_end\<close>: interruptions are retried, a failure ends the read.\<close>

fun read_to_end :: "nat \<Rightarrow> reader \<Rightarrow> string + string" where
  "read_to_end remaining [] = Inr []"
| "read_to_end remaining (e # r) =
     (if remaining = 0 then Inr []
      else case e of
        Packet [] \<Rightarrow> Inr []
      | Packet bytes \<Rightarrow>
          map_ok (\<lambda>rest. take remaining bytes @ rest) (read_to_end (remaining - length bytes) r)
      | Interrupted \<Rightarrow> read_to_end remaining r
      | Failure message \<Rightarrow> Inl message)"

definition read_prefix :: "reader \<Rightarrow> nat \<Rightarrow> string + (string \<times> bool)" where
  "read_prefix r limit =
     (let requested = (if fits_usize (limit + 1) then limit + 1 else limit) in
      and_then (read_to_end requested r) (\<lambda>bytes. Inr (take limit bytes, length bytes > limit)))"

definition read_message_bytes_with_limit :: "reader \<Rightarrow> nat \<Rightarrow> message_io_error + string" where
  "read_message_bytes_with_limit r limit =
     and_then (map_err Io (read_prefix r limit)) (\<lambda>(bytes, truncated).
       if truncated then Inl (TooLarge limit) else Inr bytes)"

definition read_message_bytes :: "reader \<Rightarrow> message_io_error + string" where
  "read_message_bytes r = read_message_bytes_with_limit r MESSAGE_BYTES_LIMIT"

definition read_raw_text_with_limit :: "reader \<Rightarrow> nat \<Rightarrow> message_io_error + bounded_text" where
  "read_raw_text_with_limit r limit =
     and_then (map_err Io (read_prefix r limit)) (\<lambda>(bytes, truncated). Inr (display_text bytes truncated))"

definition read_raw_text :: "reader \<Rightarrow> message_io_error + bounded_text" where
  "read_raw_text r = read_raw_text_with_limit r RAW_TEXT_LIMIT"

section \<open>Header previews\<close>

text \<open>\<open>windows(n).position(..)\<close>.\<close>

fun infix_position :: "'a list \<Rightarrow> 'a list \<Rightarrow> nat option" where
  "infix_position needle [] = (if needle = [] then Some 0 else None)"
| "infix_position needle (x # xs) =
     (if take (length needle) (x # xs) = needle then Some 0 else map_option Suc (infix_position needle xs))"

definition header_end :: "string \<Rightarrow> nat option" where
  "header_end bytes =
     (case (infix_position (CRLF @ CRLF) bytes, infix_position [LF, LF] bytes) of
        (Some crlf, Some lf) \<Rightarrow> Some (min crlf lf)
      | (Some index, None) \<Rightarrow> Some index
      | (None, Some index) \<Rightarrow> Some index
      | (None, None) \<Rightarrow> None)"

text \<open>The inner loop that looks for one more byte.\<close>

function has_more :: "reader \<Rightarrow> string + bool" where
  "has_more r =
     (case read_call 1 r of
        (ReadBytes bytes, _) \<Rightarrow> Inr (bytes \<noteq> [])
      | (WasInterrupted, r') \<Rightarrow> has_more r'
      | (ReadFailed message, _) \<Rightarrow> Inl message)"
  by pat_completeness auto
termination by (relation "measure reader_size") (auto dest: read_call_smaller)

declare has_more.simps [simp del]

function header_text_loop :: "reader \<Rightarrow> string \<Rightarrow> nat \<Rightarrow> message_io_error + bounded_text" where
  "header_text_loop r retained limit =
     (case read_call CHUNK_SIZE r of
        (WasInterrupted, r') \<Rightarrow> header_text_loop r' retained limit
      | (ReadFailed message, _) \<Rightarrow> Inl (Io message)
      | (ReadBytes chunk, r') \<Rightarrow>
          if chunk = [] then Inr (display_text retained False)
          else
            (let remaining = limit - length retained;
                 keep = min remaining (length chunk);
                 retained' = retained @ take keep chunk in
             case header_end retained' of
               Some e \<Rightarrow> Inr (display_text (take e retained') False)
             | None \<Rightarrow>
                 if keep < length chunk then Inr (display_text retained' True)
                 else if length retained' = limit
                 then and_then (map_err Io (has_more r')) (\<lambda>more. Inr (display_text retained' more))
                 else header_text_loop r' retained' limit))"
  by pat_completeness auto
termination
  by (relation "measure (\<lambda>(r, _). reader_size r)") (auto dest: read_call_smaller simp: CHUNK_SIZE_def)

declare header_text_loop.simps [simp del]

definition read_header_text_with_limit :: "reader \<Rightarrow> nat \<Rightarrow> message_io_error + bounded_text" where
  "read_header_text_with_limit r limit = header_text_loop r [] limit"

definition read_header_text :: "reader \<Rightarrow> message_io_error + bounded_text" where
  "read_header_text r = read_header_text_with_limit r HEADER_TEXT_LIMIT"

section \<open>Parsing from a reader\<close>

datatype reader_error = ReadError message_io_error | MimeError mime_error | OpenError string

definition parse_reader_with_limits :: "mime_lib \<Rightarrow> reader \<Rightarrow> mime_limits \<Rightarrow> reader_error + parsed_message" where
  "parse_reader_with_limits lib r limits =
     and_then (map_err ReadError (read_message_bytes_with_limit r (max_message_bytes limits))) (\<lambda>bytes.
       map_err MimeError (parse_rfc5322_with_limits lib bytes limits))"

definition parse_reader :: "mime_lib \<Rightarrow> reader \<Rightarrow> reader_error + parsed_message" where
  "parse_reader lib r = parse_reader_with_limits lib r default_limits"

text \<open>A file system as far as these functions use it: what opening a path gives.\<close>

definition parse_file_with_limits ::
  "mime_lib \<Rightarrow> (string \<Rightarrow> string + reader) \<Rightarrow> string \<Rightarrow> mime_limits \<Rightarrow> reader_error + parsed_message" where
  "parse_file_with_limits lib open_file path limits =
     and_then (map_err OpenError (open_file path)) (\<lambda>file. parse_reader_with_limits lib file limits)"

definition parse_file ::
  "mime_lib \<Rightarrow> (string \<Rightarrow> string + reader) \<Rightarrow> string \<Rightarrow> reader_error + parsed_message" where
  "parse_file lib open_file path = parse_file_with_limits lib open_file path default_limits"

definition extract_attachments_from_reader_detailed_with_limits ::
  "mime_lib \<Rightarrow> reader \<Rightarrow> mime_limits \<Rightarrow> reader_error + extraction_report" where
  "extract_attachments_from_reader_detailed_with_limits lib r limits =
     and_then (map_err ReadError (read_message_bytes_with_limit r (max_message_bytes limits))) (\<lambda>bytes.
       map_err MimeError (extract_attachments_detailed_with_limits lib bytes limits))"

definition extract_attachments_from_reader_detailed :: "mime_lib \<Rightarrow> reader \<Rightarrow> reader_error + extraction_report" where
  "extract_attachments_from_reader_detailed lib r =
     extract_attachments_from_reader_detailed_with_limits lib r default_limits"

section \<open>Text that is displayed\<close>

lemma replacement_utf8: "valid_utf8 replacement"
  by code_simp

lemma valid_utf8_take_slice:
  "valid_slice (take (utf8_len b) (b # bs)) \<Longrightarrow> valid_utf8 (take (utf8_len b) (b # bs))"
  by (rule valid_slice_utf8)

lemma from_utf8_lossy_valid: "valid_utf8 (from_utf8_lossy s)"
proof (induction s rule: from_utf8_lossy.induct)
  case (2 b bs)
  show ?case
    using 2 replacement_utf8 valid_utf8_take_slice
    by (subst from_utf8_lossy.simps(2)) (auto simp: Let_def)
qed simp

lemma from_utf8_lossy_id: "valid_utf8 s \<Longrightarrow> from_utf8_lossy s = s"
proof (induction s rule: from_utf8_lossy.induct)
  case (2 b bs)
  have t: "take (utf8_len b) (b # bs) = b # take (utf8_len b - 1) bs" "drop (utf8_len b) (b # bs) = drop (utf8_len b - 1) bs"
    using utf8_len_pos [of b] by (cases "utf8_len b"; simp)+
  from 2(3) have v: "valid_slice (take (utf8_len b) (b # bs))" "valid_utf8 (drop (utf8_len b) (b # bs))"
    unfolding t by (auto simp: valid_utf8_def)
  from 2(1) [OF refl refl v] v(1) show ?case
    by (subst from_utf8_lossy.simps(2)) (simp add: Let_def flip: t)
qed simp

lemma from_utf8_lossy_set: "set (from_utf8_lossy s) \<subseteq> set s \<union> set replacement"
proof (induction s rule: from_utf8_lossy.induct)
  case (2 b bs)
  let ?s = "b # bs"
  show ?case
  proof (cases "valid_slice (take (utf8_len b) ?s)")
    case True
    with 2(1) [OF refl refl] show ?thesis
      using set_take_subset [of "utf8_len b" ?s] set_drop_subset [of "utf8_len b" ?s]
      by (subst from_utf8_lossy.simps(2)) (simp only: Let_def if_True set_append, blast)
  next
    case False
    with 2(2) [OF refl refl] show ?thesis
      using set_drop_subset [of "invalid_prefix_len ?s" ?s]
      by (subst from_utf8_lossy.simps(2)) (simp only: Let_def if_False set_append, blast)
  qed
qed simp

section \<open>Header previews do not depend on how the input arrives\<close>

lemma occurrence_nth:
  "n \<noteq> [] \<Longrightarrow> take (length n) (drop i xs) = n \<longleftrightarrow>
     i + length n \<le> length xs \<and> (\<forall>k < length n. xs ! (i + k) = n ! k)"
proof -
  assume n: "n \<noteq> []"
  have "take (length n) (drop i xs) = n \<longleftrightarrow>
      length (take (length n) (drop i xs)) = length n \<and> (\<forall>k < length n. take (length n) (drop i xs) ! k = n ! k)"
    by (subst list_eq_iff_nth_eq) (rule conj_cong; simp)
  moreover have "length (take (length n) (drop i xs)) = length n \<longleftrightarrow> i + length n \<le> length xs"
    using n by (cases "length n") auto
  moreover have "i + length n \<le> length xs \<Longrightarrow> k < length n \<Longrightarrow> take (length n) (drop i xs) ! k = xs ! (i + k)" for k
    by simp
  ultimately show ?thesis by auto
qed

lemma infix_position_Some:
  "n \<noteq> [] \<Longrightarrow> infix_position n xs = Some i \<longleftrightarrow>
     take (length n) (drop i xs) = n \<and> (\<forall>j < i. take (length n) (drop j xs) \<noteq> n)"
proof (induction xs arbitrary: i)
  case (Cons x xs)
  show ?case
  proof (cases i)
    case 0
    then show ?thesis by auto
  next
    case (Suc j)
    have "(\<forall>k < Suc j. take (length n) (drop k (x # xs)) \<noteq> n) \<longleftrightarrow>
        take (length n) (x # xs) \<noteq> n \<and> (\<forall>k < j. take (length n) (drop k xs) \<noteq> n)"
      by (auto simp: less_Suc_eq_0_disj)
    with Suc Cons.IH [OF Cons.prems, of j] show ?thesis by auto
  qed
qed simp

lemma infix_position_None:
  "n \<noteq> [] \<Longrightarrow> infix_position n xs = None \<longleftrightarrow> (\<forall>i. take (length n) (drop i xs) \<noteq> n)"
proof (induction xs)
  case (Cons x xs)
  have "(\<forall>i. take (length n) (drop i (x # xs)) \<noteq> n) \<longleftrightarrow>
      take (length n) (x # xs) \<noteq> n \<and> (\<forall>i. take (length n) (drop i xs) \<noteq> n)"
    by (metis drop0 drop_Suc_Cons not0_implies_Suc)
  with Cons show ?case by auto
qed simp

text \<open>Where a separator stands.\<close>

definition separator_at :: "string \<Rightarrow> nat \<Rightarrow> bool" where
  "separator_at xs i \<longleftrightarrow>
     i + 4 \<le> length xs \<and> xs ! i = CR \<and> xs ! (i + 1) = LF \<and> xs ! (i + 2) = CR \<and> xs ! (i + 3) = LF
     \<or> i + 2 \<le> length xs \<and> xs ! i = LF \<and> xs ! (i + 1) = LF"

lemma separator_occurs:
  "separator_at xs i \<longleftrightarrow> take 4 (drop i xs) = CRLF @ CRLF \<or> take 2 (drop i xs) = [LF, LF]"
  using occurrence_nth [of "CRLF @ CRLF" i xs] occurrence_nth [of "[LF, LF]" i xs]
  by (auto simp: separator_at_def All_less_Suc numeral_eq_Suc)

lemma header_end_Some:
  "header_end xs = Some e \<longleftrightarrow> separator_at xs e \<and> (\<forall>j < e. \<not> separator_at xs j)"
proof -
  have len: "length (CRLF @ CRLF) = 4" "length [LF, LF] = 2" by simp_all
  have ne: "CRLF @ CRLF \<noteq> []" "[LF, LF] \<noteq> []" by simp_all
  note some = infix_position_Some [OF ne(1), of xs, unfolded len] infix_position_Some [OF ne(2), of xs, unfolded len]
  note none = infix_position_None [OF ne(1), of xs, unfolded len] infix_position_None [OF ne(2), of xs, unfolded len]
  show ?thesis
  proof (cases "infix_position (CRLF @ CRLF) xs"; cases "infix_position [LF, LF] xs")
    fix i j
    assume h: "infix_position (CRLF @ CRLF) xs = Some i" "infix_position [LF, LF] xs = Some j"
    then have "header_end xs = Some (min i j)" by (simp add: header_end_def)
    moreover from some(1) [THEN iffD1, OF h(1)] some(2) [THEN iffD1, OF h(2)]
    have "separator_at xs (min i j)" "\<forall>k < min i j. \<not> separator_at xs k"
      by (auto simp only: separator_occurs min_def split: if_splits)
    ultimately show ?thesis by (metis linorder_neqE_nat option.inject)
  next
    fix i
    assume h: "infix_position (CRLF @ CRLF) xs = Some i" "infix_position [LF, LF] xs = None"
    then have "header_end xs = Some i" by (simp add: header_end_def)
    moreover from some(1) [THEN iffD1, OF h(1)] none(2) [THEN iffD1, OF h(2)]
    have "separator_at xs i" "\<forall>k < i. \<not> separator_at xs k"
      by (auto simp only: separator_occurs)
    ultimately show ?thesis by (metis linorder_neqE_nat option.inject)
  next
    fix i
    assume h: "infix_position (CRLF @ CRLF) xs = None" "infix_position [LF, LF] xs = Some i"
    then have "header_end xs = Some i" by (simp add: header_end_def)
    moreover from some(2) [THEN iffD1, OF h(2)] none(1) [THEN iffD1, OF h(1)]
    have "separator_at xs i" "\<forall>k < i. \<not> separator_at xs k"
      by (auto simp only: separator_occurs)
    ultimately show ?thesis by (metis linorder_neqE_nat option.inject)
  next
    assume h: "infix_position (CRLF @ CRLF) xs = None" "infix_position [LF, LF] xs = None"
    then have "header_end xs = None" by (simp add: header_end_def)
    moreover from none(1) [THEN iffD1, OF h(1)] none(2) [THEN iffD1, OF h(2)]
    have "\<not> separator_at xs k" for k by (auto simp only: separator_occurs)
    ultimately show ?thesis by simp
  qed
qed

lemma separator_append:
  "separator_at xs i \<Longrightarrow> separator_at (xs @ ys) i"
  by (auto simp: separator_at_def nth_append)

lemma header_end_append:
  assumes "header_end xs = Some e"
  shows "header_end (xs @ ys) = Some e"
proof -
  from assms have e: "separator_at xs e" "\<And>j. j < e \<Longrightarrow> \<not> separator_at xs j" by (auto simp: header_end_Some)
  have "\<not> separator_at (xs @ ys) j" if "j < e" for j
  proof
    assume s: "separator_at (xs @ ys) j"
    from e(1) have l: "e + 2 \<le> length xs" by (auto simp: separator_at_def)
    with that have "j + 3 \<le> length xs" by simp
    have long: "\<not> j + 4 \<le> length xs"
      using s e(2) [OF that] by (auto simp: separator_at_def nth_append)
    with s e(2) [OF that] \<open>j + 3 \<le> length xs\<close> have j: "j + 4 > length xs" "(xs @ ys) ! (j + 2) = CR"
      by (auto simp: separator_at_def nth_append)
    with l that have ej: "e = j + 1" by simp
    with j(1) e(1) have "xs ! (e + 1) = LF" by (auto simp: separator_at_def)
    with j(2) ej l show False by (auto simp: nth_append)
  qed
  with separator_append [OF e(1)] show ?thesis by (simp add: header_end_Some)
qed

lemma header_end_bound: "header_end xs = Some e \<Longrightarrow> e < length xs"
  by (auto simp: header_end_Some separator_at_def)

text \<open>The preview as a function of the bytes alone.\<close>

definition header_preview :: "string \<Rightarrow> nat \<Rightarrow> bounded_text" where
  "header_preview bytes limit =
     (case header_end (take limit bytes) of
        Some e \<Rightarrow> display_text (take e bytes) False
      | None \<Rightarrow> display_text (take limit bytes) (length bytes > limit))"

definition reader_bytes :: "reader \<Rightarrow> string" where
  "reader_bytes r = concat (map (\<lambda>e. case e of Packet bytes \<Rightarrow> bytes | _ \<Rightarrow> []) r)"

text \<open>No failures, and no empty packet, which would end the input early.\<close>

definition reads_on :: "reader \<Rightarrow> bool" where
  "reads_on r \<longleftrightarrow> list_all (\<lambda>e. case e of Packet bytes \<Rightarrow> bytes \<noteq> [] | Interrupted \<Rightarrow> True | Failure _ \<Rightarrow> False) r"

lemma read_call_reads_on:
  assumes "reads_on r" "0 < cap"
  obtains (eof) "read_call cap r = (ReadBytes [], [])" "r = []"
    | (interrupted) r' where "read_call cap r = (WasInterrupted, r')" "reads_on r'" "reader_bytes r' = reader_bytes r"
    | (chunk) chunk r' where "read_call cap r = (ReadBytes chunk, r')" "chunk \<noteq> []" "reads_on r'"
        "reader_bytes r = chunk @ reader_bytes r'"
  using assms
proof (cases r)
  case (Cons e es)
  show ?thesis
  proof (cases e)
    case (Packet bytes)
    with Cons assms show ?thesis
      by (intro chunk [of "take cap bytes" "snd (read_call cap r)"]) (auto simp: reads_on_def reader_bytes_def)
  next
    case Interrupted
    with Cons assms show ?thesis by (intro interrupted [of es]) (auto simp: reads_on_def reader_bytes_def)
  qed (use Cons assms in \<open>simp add: reads_on_def\<close>)
qed simp

lemma has_more_reads_on: "reads_on r \<Longrightarrow> has_more r = Inr (reader_bytes r \<noteq> [])"
proof (induction r rule: has_more.induct)
  case (1 r)
  have c: "(0 :: nat) < 1" by simp
  show ?case using 1(2) c
  proof (cases rule: read_call_reads_on)
    case eof
    then show ?thesis by (subst has_more.simps) (simp add: reader_bytes_def)
  next
    case (interrupted r')
    from 1(1) [OF interrupted(1) [symmetric] refl] interrupted show ?thesis
      by (subst has_more.simps) simp
  next
    case (chunk chunk r')
    then show ?thesis by (subst has_more.simps) simp
  qed
qed

lemma header_text_loop_preview:
  assumes "reads_on r" "header_end retained = None" "length retained < limit \<or> retained = []"
  shows "header_text_loop r retained limit = Inr (header_preview (retained @ reader_bytes r) limit)"
  using assms
proof (induction r retained limit rule: header_text_loop.induct)
  case (1 r retained limit)
  have c: "0 < CHUNK_SIZE" by (simp add: CHUNK_SIZE_def)
  have le: "length retained \<le> limit" using 1(5) by auto
  show ?case using 1(3) c
  proof (cases rule: read_call_reads_on)
    case eof
    then have "reader_bytes r = []" by (simp add: reader_bytes_def)
    with 1(4) le eof show ?thesis by (subst header_text_loop.simps) (simp add: header_preview_def)
  next
    case (interrupted r')
    from 1(2) [OF interrupted(1) [symmetric] refl interrupted(2) 1(4,5)] interrupted
    show ?thesis by (subst header_text_loop.simps) simp
  next
    case (chunk chunk r')
    let ?keep = "min (limit - length retained) (length chunk)"
    let ?next = "retained @ take ?keep chunk"
    let ?all = "retained @ chunk @ reader_bytes r'"
    have all: "retained @ reader_bytes r = ?all" by (simp add: chunk(4))
    have step: "header_text_loop r retained limit =
      (case header_end ?next of
         Some e \<Rightarrow> Inr (display_text (take e ?next) False)
       | None \<Rightarrow>
           if ?keep < length chunk then Inr (display_text ?next True)
           else if length ?next = limit
           then and_then (map_err Io (has_more r')) (\<lambda>more. Inr (display_text ?next more))
           else header_text_loop r' ?next limit)"
      by (subst header_text_loop.simps)
         (simp only: chunk(1,2) prod.case io_outcome.case Let_def if_False)
    have len: "length ?next = min limit (length retained + length chunk)" using le by simp
    have pre: "\<exists>t. take limit ?all = ?next @ t"
      using le by (intro exI [of _ "take (limit - length retained - length chunk) (reader_bytes r')"]) (simp add: min_def)
    show ?thesis
    proof (cases "header_end ?next")
      case (Some e)
      from pre obtain t where t: "take limit ?all = ?next @ t" by blast
      from header_end_append [OF Some, of t] t have h: "header_end (take limit ?all) = Some e" by simp
      from header_end_bound [OF Some] have "e < length ?next" .
      then have "take e ?next = take e (take limit ?all)"
        unfolding t by (subst take_append) (simp only: diff_is_0_eq [THEN iffD2, OF less_imp_le] take0 append_Nil2)
      also from \<open>e < length ?next\<close> have "e < limit" unfolding len by (rule min.strict_boundedE)
      then have "take e (take limit ?all) = take e ?all" by (simp only: take_take min.absorb1 less_imp_le)
      finally have eq: "take e ?next = take e ?all" .
      have "display_text (take e ?next) False = header_preview ?all limit"
        unfolding header_preview_def h option.case eq by (rule refl)
      then show ?thesis unfolding step all Some by simp
    next
      case None
      show ?thesis
      proof (cases "?keep < length chunk")
        case True
        with le have k: "?keep = limit - length retained" "limit < length retained + length chunk" by linarith+
        then have "take limit ?all = ?next" "limit < length ?all" using le by auto
        then have "header_preview ?all limit = display_text ?next True" using None by (simp add: header_preview_def)
        then show ?thesis unfolding step all None option.case if_P [OF True] by simp
      next
        case fits: False
        then have "length chunk \<le> limit - length retained" by linarith
        then have nx: "?next = retained @ chunk" "length ?next \<le> limit" using le by simp_all
        show ?thesis
        proof (cases "length ?next = limit")
          case True
          then have "take limit ?all = ?next" "limit < length ?all \<longleftrightarrow> reader_bytes r' \<noteq> []" using nx(1) by auto
          then have "header_preview ?all limit = display_text ?next (reader_bytes r' \<noteq> [])"
            using None by (simp add: header_preview_def)
          then show ?thesis unfolding step all None using fits True has_more_reads_on [OF chunk(3)] by simp
        next
          case False
          with nx(2) have "length ?next < limit \<or> ?next = []" by (metis le_neq_implies_less)
          with 1(1) [OF chunk(1) [symmetric] refl chunk(2) refl refl refl None fits False chunk(3) None]
          have "header_text_loop r' ?next limit = Inr (header_preview (?next @ reader_bytes r') limit)" by blast
          then show ?thesis unfolding step all None using fits False nx(1) by simp
        qed
      qed
    qed
  qed
qed

lemma read_to_end_take: "reads_on r \<Longrightarrow> read_to_end n r = Inr (take n (reader_bytes r))"
proof (induction n r rule: read_to_end.induct)
  case (2 n e r)
  show ?case
  proof (cases "n = 0")
    case False
    show ?thesis
    proof (cases e)
      case (Packet bytes)
      with 2(3) obtain b bs where "bytes = b # bs" "reads_on r" by (cases bytes) (auto simp: reads_on_def)
      with 2(1) Packet False show ?thesis using take_append [of n bytes "reader_bytes r"]
        by (simp add: reader_bytes_def reads_on_def)
    qed (use 2 False in \<open>simp_all add: reader_bytes_def reads_on_def\<close>)
  qed simp
qed (simp add: reader_bytes_def)

section \<open>Properties\<close>

text \<open>
  C10. A header preview depends on the bytes of the message only, not on the pieces in which
  they arrive or on interruptions: it is the text before the first blank line of the first
  \<open>limit\<close> bytes, or those bytes, marked as truncated exactly when there are more.
\<close>

theorem header_preview_any_chunking:
  assumes "reads_on r"
  shows "read_header_text_with_limit r limit = Inr (header_preview (reader_bytes r) limit)"
proof -
  have "header_end [] = None" by (simp add: header_end_def)
  with header_text_loop_preview [OF assms, of "[]" limit] show ?thesis
    by (simp add: read_header_text_with_limit_def)
qed

lemma header_preview_any_chunking_witness:
  "read_header_text_with_limit [Packet ''A: b'', Interrupted, Packet [CR], Packet [LF, CR], Packet (LF # ''body'')] 20 =
     Inr \<lparr>bt_text = ''A: b'', bt_bytes_read = 4, bt_truncated = False, bt_lossy = False\<rparr>"
proof -
  let ?r = "[Packet ''A: b'', Interrupted, Packet [CR], Packet [LF, CR], Packet (LF # ''body'')]"
  have "reads_on ?r" by (simp add: reads_on_def)
  moreover have "header_preview (reader_bytes ?r) 20 =
      \<lparr>bt_text = ''A: b'', bt_bytes_read = 4, bt_truncated = False, bt_lossy = False\<rparr>" by code_simp
  ultimately show ?thesis using header_preview_any_chunking by simp
qed

text \<open>
  C25. A message is read whole or refused: reading with a limit returns all the bytes of the
  input when they are at most \<open>limit\<close>, and the size error otherwise.
\<close>

theorem read_message_whole_or_refused:
  assumes "reads_on r" "fits_usize (limit + 1)"
  shows "read_message_bytes_with_limit r limit =
     (if length (reader_bytes r) \<le> limit then Inr (reader_bytes r) else Inl (TooLarge limit))"
  using assms(2)
  by (simp add: read_message_bytes_with_limit_def read_prefix_def read_to_end_take [OF assms(1)] min_def Let_def)

lemma read_message_whole_or_refused_witness:
  "read_message_bytes_with_limit [Packet ''ab'', Packet ''cd''] 3 = Inl (TooLarge 3) \<and>
   read_message_bytes_with_limit [Packet ''ab'', Packet ''cd''] 4 = Inr ''abcd''"
proof -
  have "reads_on [Packet ''ab'', Packet ''cd'']" by (simp add: reads_on_def)
  moreover have "fits_usize (3 + 1)" "fits_usize (4 + 1)" by code_simp+
  ultimately show ?thesis
    using read_message_whole_or_refused [of "[Packet ''ab'', Packet ''cd'']"] by (simp add: reader_bytes_def)
qed

text \<open>
  C26. Whatever bytes a message has, the text that is displayed is valid UTF-8 without NUL
  characters, and it is the bytes themselves unless it is marked as lossy.
\<close>

theorem displayed_text_is_utf8:
  "valid_utf8 (bt_text (display_text bytes truncated)) \<and> CHR 0x00 \<notin> set (bt_text (display_text bytes truncated)) \<and>
   (bt_lossy (display_text bytes truncated) \<or> bt_text (display_text bytes truncated) = bytes)"
proof -
  let ?d = "from_utf8_lossy bytes"
  have v: "valid_utf8 ?d" by (rule from_utf8_lossy_valid)
  have r: "valid_utf8 (replace_char CHR 0x00 replacement ?d)"
    by (rule valid_utf8_replace_char [OF v _ replacement_utf8]) (simp add: is_ascii_byte_def)
  have nul: "CHR 0x00 \<notin> set (replace_char CHR 0x00 replacement s)" for s
    by (auto simp: replace_char_def replacement_def)
  show ?thesis
  proof (cases "valid_utf8 bytes \<and> CHR 0x00 \<notin> set bytes")
    case True
    then show ?thesis by (simp add: display_text_def from_utf8_lossy_id)
  next
    case False
    have "CHR 0x00 \<notin> set ?d" if "CHR 0x00 \<notin> set bytes"
      using from_utf8_lossy_set [of bytes] that by (auto simp: replacement_def)
    with False v r nul show ?thesis by (simp add: display_text_def Let_def) 
  qed
qed

end
