(* ===== verification/Attachment_Files.thy ===== *)
theory Attachment_Files
  imports Rust_Str Machine
begin

text \<open>
  Saving attachments, \<open>notm-mail/src/attachments.rs\<close>.  A path is its directory and, where it
  has one, its last component; the file system is the contents of its files together with the
  errors the system would report (for creating a directory, opening and writing a file), so
  that every branch of the code can be taken.
\<close>

section \<open>Paths and files\<close>

type_synonym path = "string \<times> string"

record file_system =
  fs_files :: "path \<Rightarrow> string option"
  fs_mkdir_error :: "string \<Rightarrow> string option"
  fs_open_error :: "path \<Rightarrow> string option"
  fs_write_error :: "path \<Rightarrow> string option"

datatype save_error = InvalidTarget | CounterOverflowed | IoError string

record attachment_ref =
  ar_filename :: string
  ar_content_type :: string
  ar_size :: nat

text \<open>\<open>Path::file\_stem\<close> and \<open>Path::extension\<close> of a file name.\<close>

definition split_file_at_dot :: "string \<Rightarrow> string \<times> string option" where
  "split_file_at_dot name =
     (if name = ''..'' then (name, None)
      else case rsplit_once CHR ''.'' name of
        None \<Rightarrow> (name, None)
      | Some (stem, extension) \<Rightarrow> if stem = [] then (name, None) else (stem, Some extension))"

section \<open>File names\<close>

definition sanitize_attachment_filename :: "string \<Rightarrow> string" where
  "sanitize_attachment_filename filename =
     (let cleaned = map (\<lambda>c. if c = CHR ''/'' \<or> c = BSL \<or> c = CHR 0x00 then CHR ''_'' else c) filename in
      if trim cleaned = [] \<or> cleaned = ''.'' \<or> cleaned = ''..'' then ''attachment.bin'' else cleaned)"

definition numbered_filename :: "string \<Rightarrow> nat \<Rightarrow> string" where
  "numbered_filename filename collision_index =
     (if collision_index = 0 then filename
      else
        (let (file_stem, extension) = split_file_at_dot filename;
             extension = (case extension of Some e \<Rightarrow> if e = [] then None else Some e | None \<Rightarrow> None);
             stem = (if extension \<noteq> None then file_stem else filename);
             numbered = stem @ '' ('' @ show_nat collision_index @ '')'' in
         case extension of Some e \<Rightarrow> numbered @ ''.'' @ e | None \<Rightarrow> numbered))"

section \<open>Saving\<close>

datatype open_outcome = Opened | AlreadyExists | OpenFailed string

text \<open>\<open>OpenOptions::new().write(true).create\_new(true).open\<close>.\<close>

definition create_new :: "file_system \<Rightarrow> path \<Rightarrow> open_outcome" where
  "create_new fs path =
     (case fs_open_error fs path of
        Some e \<Rightarrow> OpenFailed e
      | None \<Rightarrow> if fs_files fs path \<noteq> None then AlreadyExists else Opened)"

definition write_new :: "file_system \<Rightarrow> path \<Rightarrow> string \<Rightarrow> (save_error + path) \<times> file_system" where
  "write_new fs path bytes =
     (case fs_write_error fs path of
        Some e \<Rightarrow> (Inl (IoError e), fs\<lparr>fs_files := (fs_files fs)(path \<mapsto> [])\<rparr>)
      | None \<Rightarrow> (Inr path, fs\<lparr>fs_files := (fs_files fs)(path \<mapsto> bytes)\<rparr>))"

function save_loop ::
  "file_system \<Rightarrow> string \<Rightarrow> string \<Rightarrow> string \<Rightarrow> nat \<Rightarrow> (save_error + path) \<times> file_system" where
  "save_loop fs dir filename bytes collision_index =
     (let path = (dir, numbered_filename filename collision_index) in
      case create_new fs path of
        Opened \<Rightarrow> write_new fs path bytes
      | AlreadyExists \<Rightarrow>
          if collision_index < u64_max then save_loop fs dir filename bytes (collision_index + 1)
          else (Inl CounterOverflowed, fs)
      | OpenFailed e \<Rightarrow> (Inl (IoError e), fs))"
  by pat_completeness auto
termination
  by (relation "measure (\<lambda>(fs, dir, filename, bytes, collision_index). u64_max - collision_index)") auto

declare save_loop.simps [simp del]

definition save_attachment_to_target_without_overwrite ::
  "file_system \<Rightarrow> string \<times> string option \<Rightarrow> string \<Rightarrow> (save_error + path) \<times> file_system" where
  "save_attachment_to_target_without_overwrite fs target bytes =
     (let (parent, file_name) = target;
          directory = (if parent = [] then ''.'' else parent) in
      case file_name of
        None \<Rightarrow> (Inl InvalidTarget, fs)
      | Some filename \<Rightarrow>
          (case fs_mkdir_error fs directory of
             Some e \<Rightarrow> (Inl (IoError e), fs)
           | None \<Rightarrow> save_loop fs parent filename bytes 0))"

definition save_attachment_without_overwrite ::
  "file_system \<Rightarrow> string \<Rightarrow> string \<Rightarrow> string \<Rightarrow> (save_error + path) \<times> file_system" where
  "save_attachment_without_overwrite fs target_dir filename bytes =
     (case fs_mkdir_error fs target_dir of
        Some e \<Rightarrow> (Inl (IoError e), fs)
      | None \<Rightarrow>
          save_attachment_to_target_without_overwrite fs
            (target_dir, Some (sanitize_attachment_filename filename)) bytes)"

section \<open>Candidates are different\<close>

lemma show_nat_inj: "show_nat m = show_nat n \<Longrightarrow> m = n"
proof (induction m arbitrary: n rule: less_induct)
  case (less m)
  have digit: "char_of (48 + a) = (char_of (48 + b) :: char) \<Longrightarrow> a < 10 \<Longrightarrow> b < 10 \<Longrightarrow> a = b" for a b :: nat
    by (drule arg_cong [of _ _ "of_char :: char \<Rightarrow> nat"]) simp
  have last: "last (show_nat k) = char_of (48 + k mod 10)" for k
    by (subst show_nat.simps) simp
  have butlast: "butlast (show_nat k) = (if k < 10 then [] else show_nat (k div 10))" for k
    by (subst show_nat.simps) simp
  have ne: "show_nat k \<noteq> []" for k by (subst show_nat.simps) simp
  from less.prems have l: "m mod 10 = n mod 10" using digit [of "m mod 10" "n mod 10"] last by (metis mod_less_divisor zero_less_numeral)
  from less.prems have b: "butlast (show_nat m) = butlast (show_nat n)" by simp
  show ?case
  proof (cases "m < 10")
    case True
    with b butlast ne have "n < 10" by metis
    with True l show ?thesis by simp
  next
    case False
    with b butlast ne have n: "\<not> n < 10" by metis
    with False b butlast have "show_nat (m div 10) = show_nat (n div 10)" by metis
    from less.IH [OF _ this] False have "m div 10 = n div 10" by simp
    with l show ?thesis by (metis div_mult_mod_eq)
  qed
qed

text \<open>What a numbered name is made of.\<close>

lemma numbered_filename_form:
  obtains stem tail where "\<And>i. 0 < i \<Longrightarrow> numbered_filename filename i = stem @ '' ('' @ show_nat i @ '')'' @ tail"
    "filename = stem @ tail"
proof -
  obtain s e where se: "split_file_at_dot filename = (s, e)" by fastforce
  show thesis
  proof (cases "\<exists>x. e = Some x \<and> x \<noteq> []")
    case True
    then obtain x where x: "e = Some x" "x \<noteq> []" by blast
    with se have f: "filename = s @ ''.'' @ x"
      by (auto simp: split_file_at_dot_def rsplit_once_def split_once_Some split: if_splits option.splits)
         (metis append.assoc append_Cons append_Nil rev.simps(2) rev_append rev_rev_ident)
    from that [of s "''.'' @ x"] x se f show thesis by (simp add: numbered_filename_def)
  next
    case False
    with that [of filename "[]"] se show thesis
      by (auto simp: numbered_filename_def split: option.splits)
  qed
qed

lemma numbered_filename_inj: "inj (numbered_filename filename)"
proof (rule injI)
  fix i j
  assume eq: "numbered_filename filename i = numbered_filename filename j"
  obtain stem tail where f: "\<And>i. 0 < i \<Longrightarrow> numbered_filename filename i = stem @ '' ('' @ show_nat i @ '')'' @ tail"
      "filename = stem @ tail" using numbered_filename_form by blast
  have zero: "numbered_filename filename 0 = stem @ tail" using f(2) by (simp add: numbered_filename_def)
  consider "i = 0" "j = 0" | "0 < i" "0 < j" | "i = 0" "0 < j" | "0 < i" "j = 0" by blast
  then show "i = j"
  proof cases
    case 2
    with eq f(1) show ?thesis by (auto dest: show_nat_inj)
  next
    case 3
    with eq f(1) [of j] zero show ?thesis by (auto dest: arg_cong [of _ _ length])
  next
    case 4
    with eq f(1) [of i] zero show ?thesis by (auto dest: arg_cong [of _ _ length])
  qed simp
qed

section \<open>The loop\<close>

lemma save_loop_keeps:
  assumes "save_loop fs dir filename bytes i = (r, fs')"
  shows "fs_files fs p = Some c \<Longrightarrow> fs_files fs' p = Some c"
    and "r = Inr path \<Longrightarrow> fs_files fs path = None \<and> fs_files fs' = (fs_files fs)(path \<mapsto> bytes) \<and> fst path = dir"
  using assms
proof (induction fs dir filename bytes i rule: save_loop.induct)
  case (1 fs dir filename bytes i)
  let ?path = "(dir, numbered_filename filename i)"
  {
    case 1
    with "1.IH"(1) [OF refl] show ?case
      by (subst (asm) (2) save_loop.simps)
         (auto simp: Let_def create_new_def write_new_def split: option.splits if_splits open_outcome.splits)
  next
    case 2
    with "1.IH"(2) [OF refl] show ?case
      by (subst (asm) (2) save_loop.simps)
         (auto simp: Let_def create_new_def write_new_def split: option.splits if_splits open_outcome.splits)
  }
qed

text \<open>The loop finds the first free candidate when no call fails.\<close>

lemma save_loop_first_free:
  assumes "\<forall>p. fs_open_error fs p = None \<and> fs_write_error fs p = None"
    and "i \<le> k" "k \<le> u64_max" "fs_files fs (dir, numbered_filename filename k) = None"
    and "\<forall>j. i \<le> j \<and> j < k \<longrightarrow> fs_files fs (dir, numbered_filename filename j) \<noteq> None"
  shows "fst (save_loop fs dir filename bytes i) = Inr (dir, numbered_filename filename k)"
  using assms(2,5)
proof (induction "k - i" arbitrary: i)
  case 0
  with assms show ?case by (subst save_loop.simps) (simp add: create_new_def write_new_def Let_def)
next
  case (Suc n)
  then have less: "i < k" by simp
  with Suc.prems(2) have "fs_files fs (dir, numbered_filename filename i) \<noteq> None" by blast
  moreover have "fst (save_loop fs dir filename bytes (i + 1)) = Inr (dir, numbered_filename filename k)"
    using Suc.hyps(1) [of "i + 1"] Suc.hyps(2) Suc.prems less by auto
  ultimately show ?case using assms(1) less assms(3)
    by (subst save_loop.simps) (auto simp: create_new_def Let_def)
qed

lemma free_candidate:
  assumes "finite {p. fs_files fs p \<noteq> None}" "card {p. fs_files fs p \<noteq> None} \<le> u64_max"
  obtains k where "k \<le> u64_max" "fs_files fs (dir, numbered_filename filename k) = None"
    "\<forall>j < k. fs_files fs (dir, numbered_filename filename j) \<noteq> None"
proof -
  let ?free = "\<lambda>k. fs_files fs (dir, numbered_filename filename k) = None"
  have "\<exists>k \<le> u64_max. ?free k"
  proof (rule ccontr)
    assume "\<not> (\<exists>k \<le> u64_max. ?free k)"
    then have "(\<lambda>k. (dir, numbered_filename filename k)) ` {0..u64_max} \<subseteq> {p. fs_files fs p \<noteq> None}" by auto
    from card_mono [OF assms(1) this] have "card {0..u64_max} \<le> card {p. fs_files fs p \<noteq> None}"
      using numbered_filename_inj [of filename] by (subst (asm) card_image) (auto simp: inj_on_def)
    with assms(2) show False by simp
  qed
  then obtain k where k: "k \<le> u64_max" "?free k" by blast
  from k(2) have "?free (LEAST k. ?free k)" by (rule LeastI)
  moreover have "(LEAST k. ?free k) \<le> k" using k(2) by (rule Least_le)
  moreover have "\<forall>j < (LEAST k. ?free k). \<not> ?free j" using not_less_Least by blast
  ultimately show thesis using that k(1) by (meson le_trans)
qed

section \<open>Properties\<close>

text \<open>
  C9. Saving an attachment never overwrites: every file that existed keeps its contents,
  whatever happens, and a reported path is new, in the target directory, holds exactly the
  attachment and is the only change.
\<close>

theorem save_never_overwrites:
  assumes "save_attachment_to_target_without_overwrite fs (dir, name) bytes = (r, fs')"
  shows "(fs_files fs p = Some c \<longrightarrow> fs_files fs' p = Some c) \<and>
     (r = Inr path \<longrightarrow> fs_files fs path = None \<and> fs_files fs' = (fs_files fs)(path \<mapsto> bytes) \<and> fst path = dir)"
proof (cases name)
  case None
  with assms show ?thesis by (auto simp: save_attachment_to_target_without_overwrite_def)
next
  case (Some filename)
  show ?thesis
  proof (cases "fs_mkdir_error fs (if dir = [] then ''.'' else dir)")
    case None
    with assms Some have "save_loop fs dir filename bytes 0 = (r, fs')"
      by (simp add: save_attachment_to_target_without_overwrite_def Let_def)
    from save_loop_keeps [OF this] show ?thesis by blast
  next
    case (Some e)
    with assms \<open>name = Some filename\<close> show ?thesis
      by (auto simp: save_attachment_to_target_without_overwrite_def Let_def)
  qed
qed

definition sample_fs :: file_system where
  "sample_fs = \<lparr>
     fs_files = (\<lambda>p. if p = (''d'', ''a.txt'') \<or> p = (''d'', ''a (1).txt'') then Some ''old'' else None),
     fs_mkdir_error = (\<lambda>_. None), fs_open_error = (\<lambda>_. None), fs_write_error = (\<lambda>_. None)\<rparr>"

lemma save_never_overwrites_witness:
  "\<exists>fs'. save_attachment_to_target_without_overwrite sample_fs (''d'', Some ''a.txt'') ''new'' =
      (Inr (''d'', ''a (2).txt''), fs') \<and> fs_files fs' (''d'', ''a.txt'') = Some ''old''"
proof -
  obtain r fs' where s: "save_attachment_to_target_without_overwrite sample_fs (''d'', Some ''a.txt'') ''new'' = (r, fs')"
    by fastforce
  have "fst (save_attachment_to_target_without_overwrite sample_fs (''d'', Some ''a.txt'') ''new'') =
      Inr (''d'', ''a (2).txt'')" by code_simp
  moreover have "fs_files sample_fs (''d'', ''a.txt'') = Some ''old''" by (simp add: sample_fs_def)
  ultimately show ?thesis using save_never_overwrites [OF s] s by auto
qed

text \<open>
  Saving finds a free name: when the system reports no error and there are at most
  \<open>2^64 - 1\<close> files, the save succeeds with the first of its numbered candidates that is free.
\<close>

theorem save_finds_free_name:
  assumes "finite {p. fs_files fs p \<noteq> None}" "card {p. fs_files fs p \<noteq> None} \<le> u64_max"
    and "fs_mkdir_error fs (if dir = [] then ''.'' else dir) = None"
    and "\<forall>p. fs_open_error fs p = None \<and> fs_write_error fs p = None"
  shows "\<exists>k. fst (save_attachment_to_target_without_overwrite fs (dir, Some filename) bytes) =
       Inr (dir, numbered_filename filename k) \<and>
     list_all (\<lambda>j. fs_files fs (dir, numbered_filename filename j) \<noteq> None) [0..<k]"
proof -
  obtain k where k: "k \<le> u64_max" "fs_files fs (dir, numbered_filename filename k) = None"
      "\<forall>j < k. fs_files fs (dir, numbered_filename filename j) \<noteq> None"
    using free_candidate [OF assms(1,2)] by blast
  from save_loop_first_free [OF assms(4) _ k(1,2), of 0 bytes] k(3) assms(3) show ?thesis
    by (intro exI [of _ k]) (auto simp: save_attachment_to_target_without_overwrite_def list_all_iff Let_def)
qed

lemma save_finds_free_name_witness:
  "\<exists>k. fst (save_attachment_to_target_without_overwrite sample_fs (''d'', Some ''a.txt'') ''new'') =
     Inr (''d'', numbered_filename ''a.txt'' k)"
proof -
  have files: "{p. fs_files sample_fs p \<noteq> None} = {(''d'', ''a.txt''), (''d'', ''a (1).txt'')}"
    by (auto simp: sample_fs_def)
  have "card {p. fs_files sample_fs p \<noteq> None} \<le> u64_max"
    unfolding files by (simp add: u64_max_def)
  moreover have "finite {p. fs_files sample_fs p \<noteq> None}" unfolding files by simp
  ultimately show ?thesis
    using save_finds_free_name [of sample_fs "''d''" "''a.txt''" "''new''"] by (auto simp: sample_fs_def)
qed

text \<open>
  The local name of an untrusted attachment is a plain base name: never empty or blank,
  without separators and NUL bytes, and neither of the two directory names.
\<close>

theorem sanitized_filename_is_basename:
  "trim (sanitize_attachment_filename filename) \<noteq> [] \<and> sanitize_attachment_filename filename \<noteq> [] \<and>
   list_all (\<lambda>c. c \<noteq> CHR ''/'' \<and> c \<noteq> BSL \<and> c \<noteq> CHR 0x00) (sanitize_attachment_filename filename) \<and>
   sanitize_attachment_filename filename \<noteq> ''.'' \<and> sanitize_attachment_filename filename \<noteq> ''..''"
proof -
  have "trim ''attachment.bin'' \<noteq> []" by code_simp
  then show ?thesis
    by (auto simp: sanitize_attachment_filename_def Let_def list_all_iff trim_def)
qed

end
