(* ===== verification/Tag_Mutation.thy ===== *)
theory Tag_Mutation
  imports Message_Io "HOL-Library.List_Lexorder" "HOL-Library.Char_ord" "HOL-Library.Product_Lexorder"
    "HOL-Library.Word"
begin

text \<open>
  Tagging messages: the tag part of \<open>notm-notmuch/src/database.rs\<close>, \<open>message.rs\<close> and
  \<open>tags.rs\<close>.  libnotmuch is external: the record \<open>notmuch_lib\<close> has its calls as functions
  on an abstract database state, each with the status it reports.  A \<open>BTreeSet\<close> is a list
  that is strictly increasing in its key.
\<close>

section \<open>Ordered sets\<close>

fun btree_insert :: "('a \<Rightarrow> 'k::linorder) \<Rightarrow> 'a \<Rightarrow> 'a list \<Rightarrow> 'a list" where
  "btree_insert key x [] = [x]"
| "btree_insert key x (y # ys) =
     (if key x < key y then x # y # ys
      else if key x = key y then y # ys else y # btree_insert key x ys)"

definition btree_of :: "('a \<Rightarrow> 'k::linorder) \<Rightarrow> 'a list \<Rightarrow> 'a list" where
  "btree_of key xs = fold (btree_insert key) xs []"

text \<open>
  Paths compare by their components: the root, the current and the parent directory come
  before names; repeated separators and inner current-directory components do not count.
\<close>

definition path_key :: "string \<Rightarrow> (nat \<times> string) list" where
  "path_key path =
     (let parts = split_char CHR ''/'' path; absolute = starts_with path ''/'' in
      (if absolute then [(0, [])] else if hd parts = ''.'' then [(1, [])] else []) @
      map (\<lambda>c. if c = ''..'' then (2, []) else (3, c)) (filter (\<lambda>c. c \<noteq> [] \<and> c \<noteq> ''.'') parts))"

section \<open>Data\<close>

record tag_mutation =
  tm_add :: "string list"
  tm_remove :: "string list"
  tm_sync_maildir_flags :: bool

record message_tag_mutation =
  mt_message_id :: string
  mt_add :: "string list"
  mt_remove :: "string list"

record maildir_filename_change =
  mf_previous_filename :: string
  mf_current_filename :: string

record applied_tag_change =
  ac_message_id :: string
  ac_added :: "string list"
  ac_removed :: "string list"
  ac_tags :: "string list"
  ac_filenames :: "string list"
  ac_filename_changes :: "maildir_filename_change list"

definition inverse_change :: "applied_tag_change \<Rightarrow> message_tag_mutation" where
  "inverse_change self =
     \<lparr>mt_message_id = ac_message_id self, mt_add = ac_removed self, mt_remove = ac_added self\<rparr>"

text \<open>The mutations kept for undo: changes of file names alone have none.\<close>

definition inverse_tag_mutations :: "applied_tag_change list \<Rightarrow> message_tag_mutation list" where
  "inverse_tag_mutations changes =
     map inverse_change (filter (\<lambda>change. ac_added change \<noteq> [] \<or> ac_removed change \<noteq> []) changes)"

datatype tag_failure_stage = Lookup | Freeze | RemoveTag | AddTag | Thaw | MaildirFlagSync

record maildir_flag_sync_failure =
  sf_previous_filename :: string
  sf_expected_filename :: string
  sf_current_filename :: "string option"

record maildir_path_change =
  pc_previous_path :: string
  pc_current_path :: string

record message_path_state =
  ps_message_id :: string
  ps_paths :: "string list"
  ps_path_changes :: "maildir_path_change list"

record message_tag_failure =
  tf_message_id :: string
  tf_stage :: tag_failure_stage
  tf_detail :: string
  tf_current_filenames :: "string list"
  tf_file_failures :: "maildir_flag_sync_failure list"

record tag_batch_report =
  br_requested_messages :: nat
  br_changed_messages :: nat
  br_changes :: "applied_tag_change list"
  br_path_states :: "message_path_state list"
  br_failures :: "message_tag_failure list"
  br_finalization_errors :: "string list"

definition empty_batch :: tag_batch_report where
  "empty_batch = \<lparr>br_requested_messages = 0, br_changed_messages = 0, br_changes = [], br_path_states = [],
     br_failures = [], br_finalization_errors = []\<rparr>"

definition is_complete :: "tag_batch_report \<Rightarrow> bool" where
  "is_complete self \<longleftrightarrow> br_failures self = [] \<and> br_finalization_errors self = []"

definition record_finalization_error :: "string \<Rightarrow> tag_batch_report \<Rightarrow> tag_batch_report" where
  "record_finalization_error e self = self\<lparr>br_finalization_errors := br_finalization_errors self @ [e]\<rparr>"

record revision =
  rv_revision :: "64 word"
  rv_uuid :: string

text \<open>The errors of the database; file system errors do not arise in what is modelled.\<close>

datatype notmuch_error =
    StatusError string
  | NullPointer string
  | NulError string
  | MessageNotFound string
  | MessageFileUnavailable string string
  | InconsistentThreadMessages string nat nat
  | ThreadMessageLimitExceeded string nat nat
  | ThreadTagSnapshotChanged revision revision
  | ThreadTagSnapshotFailed string
  | InvalidTag string

section \<open>Validation\<close>

definition validate_tag :: "string \<Rightarrow> notmuch_error + unit" where
  "validate_tag tag =
     (if tag = [] \<or> length tag > 200 \<or> list_ex ws_slice (char_slices tag) \<or> CHR 0x00 \<in> set tag
      then Inl (InvalidTag tag) else Inr ())"

fun validate_tags :: "string list \<Rightarrow> notmuch_error + unit" where
  "validate_tags [] = Inr ()"
| "validate_tags (tag # tags) = and_then (validate_tag tag) (\<lambda>_. validate_tags tags)"

definition validate_mutation :: "tag_mutation \<Rightarrow> notmuch_error + unit" where
  "validate_mutation mutation = validate_tags (tm_add mutation @ tm_remove mutation)"

text \<open>\<open>CString::new\<close>.\<close>

definition cstring :: "string \<Rightarrow> notmuch_error + string" where
  "cstring s = (if CHR 0x00 \<in> set s then Inl (NulError s) else Inr s)"

definition exact_term_query :: "string \<Rightarrow> string \<Rightarrow> string" where
  "exact_term_query term_prefix value =
     term_prefix @ '':'' @ [DQ] @ replace_char DQ [BSL, DQ] (replace_char BSL [BSL, BSL] value) @ [DQ]"

section \<open>Net effects\<close>

definition effective_tag_mutation :: "string list \<Rightarrow> tag_mutation \<Rightarrow> tag_mutation option" where
  "effective_tag_mutation current_tags mutation =
     (let before = btree_of id current_tags;
          after = filter (\<lambda>tag. tag \<notin> set (tm_remove mutation)) before;
          after = fold (btree_insert id) (tm_add mutation) after;
          added = filter (\<lambda>tag. tag \<notin> set before) after;
          removed = filter (\<lambda>tag. tag \<notin> set after) before in
      if added = [] \<and> removed = [] then None
      else Some \<lparr>tm_add = added, tm_remove = removed,
                 tm_sync_maildir_flags = tm_sync_maildir_flags mutation\<rparr>)"

definition applied_tag_change ::
  "string \<Rightarrow> string list \<Rightarrow> string list \<Rightarrow> string list \<Rightarrow> maildir_filename_change list \<Rightarrow> applied_tag_change option" where
  "applied_tag_change message_id before_tags after_tags filenames filename_changes =
     (let after_tags = remdups_adj (sort after_tags);
          filenames = remdups_adj (sort filenames);
          before = btree_of id before_tags;
          after = btree_of id after_tags;
          added = filter (\<lambda>tag. tag \<notin> set before) after;
          removed = filter (\<lambda>tag. tag \<notin> set after) before;
          filenames_changed =
            list_ex (\<lambda>change. mf_previous_filename change \<noteq> mf_current_filename change) filename_changes in
      if added = [] \<and> removed = [] \<and> \<not> filenames_changed then None
      else Some \<lparr>ac_message_id = message_id, ac_added = added, ac_removed = removed, ac_tags = after_tags,
                 ac_filenames = filenames, ac_filename_changes = filename_changes\<rparr>)"

definition report_filename :: "string \<Rightarrow> string" where
  "report_filename path = from_utf8_lossy path"

definition report_filenames :: "string list \<Rightarrow> string list" where
  "report_filenames paths = map report_filename paths"

definition report_filename_changes :: "maildir_path_change list \<Rightarrow> maildir_filename_change list" where
  "report_filename_changes changes =
     map (\<lambda>change. \<lparr>mf_previous_filename = report_filename (pc_previous_path change),
                    mf_current_filename = report_filename (pc_current_path change)\<rparr>) changes"

section \<open>Maildir file names\<close>

text \<open>\<open>iter().rposition(..)\<close> and \<open>windows(n).rposition(..)\<close>.\<close>

fun last_position :: "('a list \<Rightarrow> bool) \<Rightarrow> nat \<Rightarrow> 'a list \<Rightarrow> nat option" where
  "last_position P i [] = None"
| "last_position P i (x # xs) =
     (case last_position P (i + 1) xs of Some j \<Rightarrow> Some j | None \<Rightarrow> if P (x # xs) then Some i else None)"

definition last_byte :: "char \<Rightarrow> string \<Rightarrow> nat option" where
  "last_byte c s = last_position (\<lambda>t. hd t = c) 0 s"

text \<open>The flags after the info marker, when they are ASCII and strictly increasing.\<close>

fun read_flags :: "char option \<Rightarrow> string \<Rightarrow> string \<Rightarrow> string option" where
  "read_flags previous flags [] = Some flags"
| "read_flags previous flags (flag # rest) =
     (if \<not> is_ascii_byte flag \<or> (case previous of Some p \<Rightarrow> flag < p | None \<Rightarrow> False) \<or> flag \<in> set flags
      then None else read_flags (Some flag) (btree_insert id flag flags) rest)"

definition desired_flags :: "string list \<Rightarrow> (char \<times> bool) list" where
  "desired_flags tags =
     [(CHR ''D'', ''draft'' \<in> set tags), (CHR ''F'', ''flagged'' \<in> set tags),
      (CHR ''P'', ''passed'' \<in> set tags), (CHR ''R'', ''replied'' \<in> set tags),
      (CHR ''S'', ''unread'' \<notin> set tags)]"

fun update_flags :: "(char \<times> bool) list \<Rightarrow> string \<Rightarrow> bool \<Rightarrow> string \<times> bool" where
  "update_flags [] flags changed = (flags, changed)"
| "update_flags ((flag, desired) # rest) flags changed =
     (if desired then update_flags rest (btree_insert id flag flags) (changed \<or> flag \<notin> set flags)
      else update_flags rest (filter (\<lambda>f. f \<noteq> flag) flags) (changed \<or> flag \<in> set flags))"

definition expected_maildir_filename_bytes :: "string \<Rightarrow> string list \<Rightarrow> string" where
  "expected_maildir_filename_bytes filename tags =
     (case last_byte CHR ''/'' filename of
        None \<Rightarrow> filename
      | Some last_slash \<Rightarrow>
          (let directory_start = (case last_byte CHR ''/'' (take last_slash filename) of
                                    Some slash \<Rightarrow> slash + 1 | None \<Rightarrow> 0);
               directory = Rust_Str.slice directory_start last_slash filename in
           if directory \<noteq> ''cur'' \<and> directory \<noteq> ''new'' then filename
           else
             (let maildir_info = (case last_position (\<lambda>t. starts_with t '':2,'') 0 filename of
                                    Some info \<Rightarrow> if info > last_slash then Some info else None
                                  | None \<Rightarrow> None);
                  flag_bytes = (case maildir_info of Some info \<Rightarrow> drop (info + 3) filename | None \<Rightarrow> []) in
              case read_flags None [] flag_bytes of
                None \<Rightarrow> filename
              | Some flags \<Rightarrow>
                  (let (flags, flags_changed) = update_flags (desired_flags tags) flags False in
                   if directory = ''new'' \<and> maildir_info = None \<and> \<not> flags_changed then filename
                   else
                     (let prefix_end = (case maildir_info of Some info \<Rightarrow> info | None \<Rightarrow> length filename);
                          expected = take prefix_end filename @ '':2,'' @ flags in
                      if directory = ''new''
                      then take directory_start expected @ ''cur'' @ drop last_slash expected
                      else expected)))))"

text \<open>On Unix a path is its bytes.\<close>

definition expected_maildir_filename :: "string \<Rightarrow> string list \<Rightarrow> string" where
  "expected_maildir_filename filename tags = expected_maildir_filename_bytes filename tags"

section \<open>Reconciling file names\<close>

definition path_in :: "string \<Rightarrow> string list \<Rightarrow> bool" where
  "path_in p ps \<longleftrightarrow> path_key p \<in> path_key ` set ps"

text \<open>
  One round of the loop; the state is the authoritative and the claimed paths, the changes and
  the failures.
\<close>

type_synonym reconcile_state =
  "string list \<times> string list \<times> maildir_path_change list \<times> maildir_flag_sync_failure list"

definition current_path ::
  "(string \<Rightarrow> bool) \<Rightarrow> string list \<Rightarrow> string list \<Rightarrow> string \<Rightarrow> string \<Rightarrow> string option" where
  "current_path is_file database_filenames claimed previous expected =
     (case List.find (\<lambda>candidate. \<not> path_in candidate claimed \<and> path_in candidate database_filenames \<and>
                                  is_file candidate) [expected, previous] of
        Some candidate \<Rightarrow> Some candidate
      | None \<Rightarrow> List.find (\<lambda>candidate. \<not> path_in candidate claimed \<and> is_file candidate) [expected, previous])"

definition same_path :: "string option \<Rightarrow> string \<Rightarrow> bool" where
  "same_path current expected \<longleftrightarrow>
     (case current of Some c \<Rightarrow> path_key c = path_key expected | None \<Rightarrow> False)"

definition reconcile_one ::
  "(string \<Rightarrow> bool) \<Rightarrow> string list \<Rightarrow> string \<times> string \<Rightarrow> reconcile_state \<Rightarrow> reconcile_state" where
  "reconcile_one is_file database_filenames = (\<lambda>(previous, expected) (authoritative, claimed, path_changes, failures).
     (let current = current_path is_file database_filenames claimed previous expected;
          (authoritative, claimed, path_changes) =
            (case current of
               None \<Rightarrow> (authoritative, claimed, path_changes)
             | Some current \<Rightarrow>
                 (btree_insert path_key current authoritative, btree_insert path_key current claimed,
                  path_changes @ [\<lparr>pc_previous_path = previous, pc_current_path = current\<rparr>]));
          database_and_file_match = (path_in expected database_filenames \<and> is_file expected) in
      (authoritative, claimed, path_changes,
       if \<not> same_path current expected \<or> \<not> database_and_file_match
       then failures @ [\<lparr>sf_previous_filename = report_filename previous,
                         sf_expected_filename = report_filename expected,
                         sf_current_filename = map_option report_filename current\<rparr>]
       else failures)))"

definition reconcile_maildir_filenames ::
  "(string \<Rightarrow> bool) \<Rightarrow> (string \<times> string) list \<Rightarrow> string list \<Rightarrow>
   string list \<times> maildir_path_change list \<times> maildir_flag_sync_failure list" where
  "reconcile_maildir_filenames is_file expectations database_filenames =
     (let database_filenames = btree_of path_key database_filenames;
          (authoritative, claimed, path_changes, failures) =
            fold (reconcile_one is_file database_filenames) expectations ([], [], [], []);
          known = concat (map (\<lambda>(previous, expected). [previous, expected]) expectations);
          authoritative =
            fold (\<lambda>filename authoritative.
                    if \<not> path_in filename known \<and> is_file filename
                    then btree_insert path_key filename authoritative else authoritative)
              database_filenames authoritative in
      (authoritative, path_changes, failures))"

section \<open>Mutating one message\<close>

text \<open>The calls of libnotmuch; a status is an error text or success.\<close>

record ('d, 'm) notmuch_lib =
  nm_message_id :: "'d \<Rightarrow> 'm \<Rightarrow> string"
  nm_tags :: "'d \<Rightarrow> 'm \<Rightarrow> string list"
  nm_filenames :: "'d \<Rightarrow> 'm \<Rightarrow> string list"
  nm_freeze :: "'m \<Rightarrow> 'd \<Rightarrow> (string + unit) \<times> 'd"
  nm_remove_tag :: "'m \<Rightarrow> string \<Rightarrow> 'd \<Rightarrow> (string + unit) \<times> 'd"
  nm_add_tag :: "'m \<Rightarrow> string \<Rightarrow> 'd \<Rightarrow> (string + unit) \<times> 'd"
  nm_thaw :: "'m \<Rightarrow> 'd \<Rightarrow> (string + unit) \<times> 'd"
  nm_tags_to_maildir_flags :: "'m \<Rightarrow> 'd \<Rightarrow> (string + unit) \<times> 'd"
  nm_begin_atomic :: "'d \<Rightarrow> (string + unit) \<times> 'd"
  nm_end_atomic :: "'d \<Rightarrow> (string + unit) \<times> 'd"
  nm_find_message :: "string \<Rightarrow> 'd \<Rightarrow> string + 'm option"
  nm_is_file :: "'d \<Rightarrow> string \<Rightarrow> bool"
  nm_show_error :: "notmuch_error \<Rightarrow> string"

record message_mutation_outcome =
  mo_applied :: "(applied_tag_change \<times> message_path_state) option"
  mo_failures :: "message_tag_failure list"

definition message_failure ::
  "string \<Rightarrow> tag_failure_stage \<Rightarrow> string \<Rightarrow> string list \<Rightarrow> maildir_flag_sync_failure list \<Rightarrow> message_tag_failure" where
  "message_failure message_id stage detail current_filenames file_failures =
     \<lparr>tf_message_id = message_id, tf_stage = stage, tf_detail = detail,
      tf_current_filenames = current_filenames, tf_file_failures = file_failures\<rparr>"

definition finalize_message_mutation ::
  "string \<Rightarrow> string list \<Rightarrow> string list \<Rightarrow> string list \<Rightarrow> maildir_path_change list \<Rightarrow>
   message_tag_failure list \<Rightarrow> message_mutation_outcome" where
  "finalize_message_mutation message_id before_tags after_tags current_filename_paths path_changes failures =
     (let current_filenames = report_filenames current_filename_paths;
          failures = map (\<lambda>failure. failure\<lparr>tf_current_filenames := current_filenames\<rparr>) failures in
      if list_ex (\<lambda>failure. tf_stage failure = Thaw) failures
      then \<lparr>mo_applied = None, mo_failures = failures\<rparr>
      else
        (let filename_changes = report_filename_changes path_changes;
             applied = map_option (\<lambda>change. (change, \<lparr>ps_message_id = message_id, ps_paths = current_filename_paths,
                                                       ps_path_changes = path_changes\<rparr>))
               (applied_tag_change message_id before_tags after_tags current_filenames filename_changes) in
         \<lparr>mo_applied = applied, mo_failures = failures\<rparr>))"

text \<open>The loops that remove and add tags stop at the first failure.\<close>

fun change_tags ::
  "('d, 'm) notmuch_lib \<Rightarrow> (string \<Rightarrow> 'd \<Rightarrow> (string + unit) \<times> 'd) \<Rightarrow> tag_failure_stage \<Rightarrow> string \<Rightarrow> string \<Rightarrow>
   string list \<Rightarrow> string list \<Rightarrow> 'd \<Rightarrow> message_tag_failure list \<times> 'd" where
  "change_tags lib call stage verb message_id before_filenames [] d = ([], d)"
| "change_tags lib call stage verb message_id before_filenames (tag # tags) d =
     (case cstring tag of
        Inl e \<Rightarrow> ([message_failure message_id stage (nm_show_error lib e) before_filenames []], d)
      | Inr tag_c \<Rightarrow>
          (case call tag_c d of
             (Inl err, d) \<Rightarrow>
               ([message_failure message_id stage (verb @ '' tag `'' @ tag @ ''` failed: '' @ err) before_filenames []], d)
           | (Inr _, d) \<Rightarrow> change_tags lib call stage verb message_id before_filenames tags d))"

definition requested_mutation :: "string list \<Rightarrow> tag_mutation \<Rightarrow> tag_mutation option" where
  "requested_mutation before_tags mutation =
     (case effective_tag_mutation before_tags mutation of
        Some effective \<Rightarrow> Some effective
      | None \<Rightarrow>
          if tm_sync_maildir_flags mutation
          then Some \<lparr>tm_add = [], tm_remove = [], tm_sync_maildir_flags = True\<rparr> else None)"

text \<open>The Maildir half: rename the files, then see which path each message file has.\<close>

definition sync_maildir ::
  "('d, 'm) notmuch_lib \<Rightarrow> 'm \<Rightarrow> string \<Rightarrow> string list \<Rightarrow> string list \<Rightarrow> 'd \<Rightarrow>
   (string list \<times> maildir_path_change list \<times> message_tag_failure list) \<times> 'd" where
  "sync_maildir lib m message_id before_filename_paths after_tags d =
     (let expectations = map (\<lambda>filename. (filename, expected_maildir_filename filename after_tags)) before_filename_paths;
          (sync_status, d) = nm_tags_to_maildir_flags lib m d;
          database_filename_paths = sort_key path_key (nm_filenames lib d m);
          (authoritative, path_changes, file_failures) =
            reconcile_maildir_filenames (nm_is_file lib d) expectations database_filename_paths;
          current_filenames = report_filenames authoritative;
          failures = (case sync_status of
              Inl err \<Rightarrow> [message_failure message_id MaildirFlagSync err current_filenames file_failures]
            | Inr _ \<Rightarrow>
                if file_failures \<noteq> []
                then [message_failure message_id MaildirFlagSync
                        ''one or more Maildir files were not renamed to the expected path''
                        current_filenames file_failures]
                else []) in
      ((authoritative, path_changes, failures), d))"

definition mutate_message ::
  "('d, 'm) notmuch_lib \<Rightarrow> 'm \<Rightarrow> tag_mutation \<Rightarrow> 'd \<Rightarrow> message_mutation_outcome \<times> 'd" where
  "mutate_message lib m mutation d =
     (let message_id = nm_message_id lib d m;
          before_tags = sort (nm_tags lib d m);
          before_filename_paths = sort_key path_key (nm_filenames lib d m);
          before_filenames = report_filenames before_filename_paths in
      case requested_mutation before_tags mutation of
        None \<Rightarrow> (\<lparr>mo_applied = None, mo_failures = []\<rparr>, d)
      | Some effective \<Rightarrow>
          (case nm_freeze lib m d of
             (Inl err, d) \<Rightarrow>
               (\<lparr>mo_applied = None, mo_failures = [message_failure message_id Freeze err before_filenames []]\<rparr>, d)
           | (Inr _, d) \<Rightarrow>
               (let (failures, d) = change_tags lib (nm_remove_tag lib m) RemoveTag ''removing'' message_id
                      before_filenames (tm_remove effective) d;
                    (failures, d) =
                      (if failures = [] then change_tags lib (nm_add_tag lib m) AddTag ''adding'' message_id
                         before_filenames (tm_add effective) d
                       else (failures, d));
                    (thaw_status, d) = nm_thaw lib m d;
                    (thaw_succeeded, failures) =
                      (case thaw_status of
                         Inr _ \<Rightarrow> (True, failures)
                       | Inl err \<Rightarrow> (False, failures @ [message_failure message_id Thaw err before_filenames []]));
                    after_tags = sort (nm_tags lib d m);
                    tag_operations_succeeded =
                      list_all (\<lambda>failure. tf_stage failure = MaildirFlagSync) failures;
                    current_filename_paths = sort_key path_key (nm_filenames lib d m);
                    path_changes = map (\<lambda>p. \<lparr>pc_previous_path = p, pc_current_path = p\<rparr>) before_filename_paths;
                    ((current_filename_paths, path_changes, failures), d) =
                      (if tm_sync_maildir_flags effective \<and> thaw_succeeded \<and> tag_operations_succeeded
                       then (let ((paths, changes, more_failures), d) =
                               sync_maildir lib m message_id before_filename_paths after_tags d in
                             ((paths, changes, failures @ more_failures), d))
                       else ((current_filename_paths, path_changes, failures), d)) in
                (finalize_message_mutation message_id before_tags after_tags current_filename_paths path_changes failures,
                 d))))"

section \<open>Batches\<close>

record prepared_message_mutation =
  pm_message_id :: string
  pm_mutation :: tag_mutation

definition prepare_uniform_mutations ::
  "string list \<Rightarrow> tag_mutation \<Rightarrow> notmuch_error + prepared_message_mutation list" where
  "prepare_uniform_mutations message_ids mutation =
     collect_results (\<lambda>message_id.
       map_ok (\<lambda>_. \<lparr>pm_message_id = message_id, pm_mutation = mutation\<rparr>) (cstring message_id)) message_ids"

definition mutate_prepared ::
  "('d, 'm) notmuch_lib \<Rightarrow> prepared_message_mutation \<Rightarrow> tag_batch_report \<times> 'd \<Rightarrow> tag_batch_report \<times> 'd" where
  "mutate_prepared lib prepared = (\<lambda>(report, d).
     (case nm_find_message lib (pm_message_id prepared) d of
        Inl err \<Rightarrow>
          (report\<lparr>br_failures := br_failures report @ [message_failure (pm_message_id prepared) Lookup err [] []]\<rparr>, d)
      | Inr None \<Rightarrow>
          (report\<lparr>br_failures := br_failures report @
             [message_failure (pm_message_id prepared) Lookup ''message was not found in the database'' [] []]\<rparr>, d)
      | Inr (Some m) \<Rightarrow>
          (let (outcome, d) = mutate_message lib m (pm_mutation prepared) d;
               report = (case mo_applied outcome of
                   None \<Rightarrow> report
                 | Some (change, path_state) \<Rightarrow>
                     report\<lparr>br_changes := br_changes report @ [change],
                            br_path_states := br_path_states report @ [path_state]\<rparr>) in
           (report\<lparr>br_failures := br_failures report @ mo_failures outcome\<rparr>, d))))"

definition apply_prepared_tag_mutations ::
  "('d, 'm) notmuch_lib \<Rightarrow> prepared_message_mutation list \<Rightarrow> 'd \<Rightarrow> (notmuch_error + tag_batch_report) \<times> 'd" where
  "apply_prepared_tag_mutations lib prepared d =
     (if prepared = [] then (Inr empty_batch, d)
      else case nm_begin_atomic lib d of
        (Inl err, d) \<Rightarrow> (Inl (StatusError err), d)
      | (Inr _, d) \<Rightarrow>
          (let (report, d) = fold (mutate_prepared lib) prepared
                 (empty_batch\<lparr>br_requested_messages := length prepared\<rparr>, d);
               report = report\<lparr>br_changed_messages := length (br_changes report)\<rparr> in
           case nm_end_atomic lib d of
             (Inl err, d) \<Rightarrow> (Inr (record_finalization_error err report), d)
           | (Inr _, d) \<Rightarrow> (Inr report, d)))"

definition prepare_message_mutations ::
  "message_tag_mutation list \<Rightarrow> bool \<Rightarrow> notmuch_error + prepared_message_mutation list" where
  "prepare_message_mutations mutations sync_maildir_flags =
     collect_results (\<lambda>mutation.
       and_then (validate_tags (mt_add mutation @ mt_remove mutation)) (\<lambda>_.
         map_ok (\<lambda>_. \<lparr>pm_message_id = mt_message_id mutation,
                      pm_mutation = \<lparr>tm_add = mt_add mutation, tm_remove = mt_remove mutation,
                                     tm_sync_maildir_flags = sync_maildir_flags\<rparr>\<rparr>)
           (cstring (mt_message_id mutation)))) mutations"

definition apply_tags_to_messages ::
  "('d, 'm) notmuch_lib \<Rightarrow> message_tag_mutation list \<Rightarrow> bool \<Rightarrow> 'd \<Rightarrow> (notmuch_error + tag_batch_report) \<times> 'd" where
  "apply_tags_to_messages lib mutations sync_maildir_flags d =
     (case prepare_message_mutations mutations sync_maildir_flags of
        Inl e \<Rightarrow> (Inl e, d)
      | Inr prepared \<Rightarrow> apply_prepared_tag_mutations lib prepared d)"

fun option_list :: "'a option \<Rightarrow> 'a list" where
  "option_list None = []"
| "option_list (Some x) = [x]"

section \<open>Ordered sets are sets\<close>

lemma set_btree_insert [simp]: "set (btree_insert id x xs) = insert x (set xs)"
  by (induction "id :: 'a \<Rightarrow> 'a::linorder" x xs rule: btree_insert.induct) auto

lemma set_fold_btree_insert: "set (fold (btree_insert id) xs acc) = set xs \<union> set acc"
  by (induction xs arbitrary: acc) auto

lemma set_btree_of [simp]: "set (btree_of id xs) = set xs"
  by (simp add: btree_of_def set_fold_btree_insert)

lemma sorted_btree_insert: "sorted_wrt (<) xs \<Longrightarrow> sorted_wrt (<) (btree_insert id x xs)"
  by (induction "id :: 'a \<Rightarrow> 'a::linorder" x xs rule: btree_insert.induct) auto

lemma btree_insert_mem: "sorted_wrt (<) xs \<Longrightarrow> x \<in> set xs \<Longrightarrow> btree_insert id x xs = xs"
  by (induction "id :: 'a \<Rightarrow> 'a::linorder" x xs rule: btree_insert.induct) auto

lemma btree_insert_last: "\<forall>y \<in> set xs. y < x \<Longrightarrow> btree_insert id x xs = xs @ [x]"
  by (induction "id :: 'a \<Rightarrow> 'a::linorder" x xs rule: btree_insert.induct) auto

section \<open>Maildir names\<close>

lemma last_position_Suc [simp]: "last_position P (Suc i) xs = map_option Suc (last_position P i xs)"
  by (induction xs arbitrary: i) (auto split: option.splits)

lemma last_position_None: "last_position P 0 xs = None \<longleftrightarrow> (\<forall>k < length xs. \<not> P (drop k xs))"
  by (induction xs) (auto simp: All_less_Suc2 split: option.splits)

lemma last_position_append:
  "last_position P 0 (xs @ ys) =
     (case last_position P 0 ys of
        Some j \<Rightarrow> Some (length xs + j)
      | None \<Rightarrow> last_position (\<lambda>t. P (t @ ys)) 0 xs)"
  by (induction xs) (auto split: option.splits)

lemma last_position_less: "last_position P 0 xs = Some j \<Longrightarrow> j < length xs"
  by (induction xs arbitrary: j) (auto split: option.splits if_splits)

lemma last_byte_None: "last_byte c s = None \<longleftrightarrow> c \<notin> set s"
  by (auto simp: last_byte_def last_position_None hd_drop_conv_nth in_set_conv_nth)

lemma last_byte_split: "c \<notin> set B \<Longrightarrow> last_byte c (A @ c # B) = Some (length A)"
  using last_byte_None [of c B]
  by (simp add: last_byte_def last_position_append) 

lemma last_byte_cases:
  assumes "last_byte c s = Some i"
  obtains A B where "s = A @ c # B" "c \<notin> set B" "i = length A"
proof -
  have "c \<in> set s"
    using assms last_byte_None [of c s] by (metis option.distinct(1))
  then obtain A B where "s = A @ c # B" "c \<notin> set B" using split_list_last by metis
  with assms that show ?thesis by (simp add: last_byte_split)
qed

definition info_position :: "string \<Rightarrow> nat option" where
  "info_position base = last_position (\<lambda>t. starts_with t '':2,'') 0 base"

text \<open>The renaming in terms of the directory and the base name.\<close>

definition renamed_base :: "string \<Rightarrow> string list \<Rightarrow> string \<Rightarrow> string option" where
  "renamed_base dir tags base =
     (case read_flags None [] (case info_position base of Some i \<Rightarrow> drop (i + 3) base | None \<Rightarrow> []) of
        None \<Rightarrow> None
      | Some flags \<Rightarrow>
          (let (flags, changed) = update_flags (desired_flags tags) flags False in
           if dir = ''new'' \<and> info_position base = None \<and> \<not> changed then None
           else Some (take (case info_position base of Some i \<Rightarrow> i | None \<Rightarrow> length base) base @ '':2,'' @ flags)))"

lemma info_after_slash:
  "(case last_position (\<lambda>t. starts_with t '':2,'') 0 (A @ CHR ''/'' # B) of
      Some info \<Rightarrow> if info > length A then Some info else None | None \<Rightarrow> None) =
   map_option (\<lambda>i. length A + 1 + i) (info_position B)"
proof (cases "info_position B")
  case None
  then have "last_position (\<lambda>t. starts_with t '':2,'') 0 (CHR ''/'' # B) = None"
    by (simp add: info_position_def) (simp add: starts_with_def)
  then have "last_position (\<lambda>t. starts_with t '':2,'') 0 (A @ CHR ''/'' # B) =
     last_position (\<lambda>t. starts_with (t @ CHR ''/'' # B) '':2,'') 0 A"
    by (simp add: last_position_append)
  then show ?thesis by (auto simp: None split: option.splits dest: last_position_less)
next
  case (Some i)
  then show ?thesis
    using last_position_append [of "\<lambda>t. starts_with t '':2,''" "A @ ''/''" B]
    by (simp add: info_position_def)
qed

lemma expected_parts:
  assumes "CHR ''/'' \<notin> set base" "CHR ''/'' \<notin> set dir" "parent = [] \<or> last parent = CHR ''/''"
  shows "expected_maildir_filename (parent @ dir @ CHR ''/'' # base) tags =
    (if dir = ''cur'' \<or> dir = ''new''
     then (case renamed_base dir tags base of
             None \<Rightarrow> parent @ dir @ CHR ''/'' # base
           | Some base' \<Rightarrow> parent @ ''cur/'' @ base')
     else parent @ dir @ CHR ''/'' # base)"
proof -
  have slash: "last_byte CHR ''/'' (parent @ dir @ CHR ''/'' # base) = Some (length (parent @ dir))"
    using last_byte_split [OF assms(1), of "parent @ dir"] by simp
  have start: "(case last_byte CHR ''/'' (parent @ dir) of Some slash \<Rightarrow> slash + 1 | None \<Rightarrow> 0) = length parent"
  proof (cases "parent = []")
    case True
    with assms(2) show ?thesis by (simp add: last_byte_None [THEN iffD2])
  next
    case False
    with assms(3) obtain p where p: "parent = p @ [CHR ''/'']"
      by (metis append_butlast_last_id)
    then show ?thesis using last_byte_split [OF assms(2), of p] by simp
  qed
  have take: "take (length (parent @ dir)) (parent @ dir @ CHR ''/'' # base) = parent @ dir" by simp
  have slice: "Rust_Str.slice (length parent) (length (parent @ dir)) (parent @ dir @ CHR ''/'' # base) = dir"
    by (simp add: Rust_Str.slice_def)
  have info: "(case last_position (\<lambda>t. starts_with t '':2,'') 0 (parent @ dir @ CHR ''/'' # base) of
        Some info \<Rightarrow> if info > length (parent @ dir) then Some info else None | None \<Rightarrow> None) =
      map_option (\<lambda>i. length (parent @ dir) + 1 + i) (info_position base)"
    using info_after_slash [of "parent @ dir" base] by simp
  have parts: "drop (length (parent @ dir) + 1 + i + 3) (parent @ dir @ CHR ''/'' # base) = drop (i + 3) base"
    "take (length (parent @ dir) + 1 + i) (parent @ dir @ CHR ''/'' # base) = parent @ dir @ CHR ''/'' # take i base"
    "take (length (parent @ dir @ CHR ''/'' # base)) (parent @ dir @ CHR ''/'' # base) = parent @ dir @ CHR ''/'' # base"
    "take (length parent) (parent @ dir @ rest) @ ''cur'' @ drop (length (parent @ dir)) (parent @ dir @ rest) =
       parent @ ''cur'' @ rest" for i rest
    by (simp_all add: eval_nat_numeral)
  note unfold = expected_maildir_filename_def expected_maildir_filename_bytes_def Let_def slash option.case take start slice info
    renamed_base_def
  show ?thesis
  proof (cases "dir = ''cur'' \<or> dir = ''new''")
    case False
    then show ?thesis unfolding unfold by simp
  next
    case True
    show ?thesis
    proof (cases "info_position base")
      case None
      with True show ?thesis
        unfolding unfold None option.map option.case parts append_assoc append_Cons
        by (auto simp: split: option.splits prod.splits)
    next
      case (Some i)
      with True show ?thesis
        unfolding unfold Some option.map option.case parts append_assoc append_Cons
        by (auto simp: split: option.splits prod.splits)
    qed
  qed
qed


text \<open>Flags are kept strictly increasing and ASCII.\<close>

lemma read_flags_sorted:
  "read_flags previous acc fs = Some flags \<Longrightarrow> sorted_wrt (<) acc \<Longrightarrow> list_all is_ascii_byte acc \<Longrightarrow>
     sorted_wrt (<) flags \<and> list_all is_ascii_byte flags"
proof (induction previous acc fs rule: read_flags.induct)
  case (2 previous acc flag rest)
  then show ?case
    by (auto simp: sorted_btree_insert list_all_iff split: if_splits)
qed simp

lemma read_flags_same:
  assumes "sorted_wrt (<) (acc @ fs)" "list_all is_ascii_byte fs"
    "case previous of Some p \<Rightarrow> acc \<noteq> [] \<and> last acc = p | None \<Rightarrow> acc = []"
  shows "read_flags previous acc fs = Some (acc @ fs)"
  using assms
proof (induction previous acc fs rule: read_flags.induct)
  case (2 previous acc flag rest)
  then have less: "\<forall>c \<in> set acc. c < flag" by (simp add: sorted_wrt_append)
  then have "btree_insert id flag acc = acc @ [flag]" by (rule btree_insert_last)
  moreover have "\<not> (case previous of Some p \<Rightarrow> flag < p | None \<Rightarrow> False)"
    using 2(4) less by (auto split: option.splits) (metis last_in_set less_asym)
  ultimately show ?case using 2 less by auto
qed simp

definition desired_set :: "(char \<times> bool) list \<Rightarrow> char set \<Rightarrow> char set" where
  "desired_set ds flags = (flags - {f. (f, False) \<in> set ds}) \<union> {f. (f, True) \<in> set ds}"

lemma update_flags_sorted:
  "sorted_wrt (<) flags \<Longrightarrow> list_all is_ascii_byte flags \<Longrightarrow> \<forall>(f, b) \<in> set ds. is_ascii_byte f \<Longrightarrow>
     sorted_wrt (<) (fst (update_flags ds flags changed)) \<and>
     list_all is_ascii_byte (fst (update_flags ds flags changed))"
  by (induction ds flags changed rule: update_flags.induct)
    (auto simp: sorted_btree_insert sorted_wrt_filter list_all_iff)

lemma update_flags_set:
  "distinct (map fst ds) \<Longrightarrow> set (fst (update_flags ds flags changed)) = desired_set ds (set flags)"
  by (induction ds flags changed rule: update_flags.induct)
    (auto simp: desired_set_def image_iff)

lemma update_flags_same:
  assumes "sorted_wrt (<) flags" "\<forall>(f, b) \<in> set ds. b = (f \<in> set flags)"
  shows "update_flags ds flags changed = (flags, changed)"
  using assms(2)
proof (induction ds)
  case (Cons d ds)
  obtain f b where d: "d = (f, b)" by fastforce
  from Cons have "update_flags ds flags changed = (flags, changed)" "b = (f \<in> set flags)" by (auto simp: d)
  moreover have "f \<notin> set flags \<Longrightarrow> filter (\<lambda>g. g \<noteq> f) flags = flags" by (auto simp: filter_id_conv)
  ultimately show ?case by (simp add: d btree_insert_mem [OF assms(1)])
qed simp


lemma read_flags_set: "read_flags previous acc fs = Some flags \<Longrightarrow> set flags = set acc \<union> set fs"
  by (induction previous acc fs rule: read_flags.induct) (auto split: if_splits)

lemma desired_flags_ascii: "\<forall>(f, b) \<in> set (desired_flags tags). is_ascii_byte f \<and> f \<noteq> CHR ''/''"
  by (simp add: desired_flags_def is_ascii_byte_def)

lemma desired_flags_distinct: "distinct (map fst (desired_flags tags))"
  by (simp add: desired_flags_def)

lemma info_position_new:
  assumes "sorted_wrt (<) flags"
  shows "info_position (stem @ '':2,'' @ flags) = Some (length stem)"
proof -
  have "\<not> starts_with (drop k flags) '':2,''" for k
  proof
    assume "starts_with (drop k flags) '':2,''"
    moreover have "sorted_wrt (<) (take 3 (drop k flags))"
      by (rule sorted_wrt_take [OF sorted_wrt_drop [OF assms]])
    ultimately show False by (simp add: starts_with_def less_char_def numeral_3_eq_3)
  qed
  then have "last_position (\<lambda>t. starts_with t '':2,'') 0 flags = None" by (simp add: last_position_None)
  then show ?thesis by (simp add: info_position_def last_position_append) (simp add: starts_with_def)
qed

lemma renamed_base_again:
  assumes "renamed_base dir tags base = Some base'" "CHR ''/'' \<notin> set base"
  shows "CHR ''/'' \<notin> set base' \<and> renamed_base ''cur'' tags base' = Some base'"
proof -
  let ?rest = "case info_position base of Some i \<Rightarrow> drop (i + 3) base | None \<Rightarrow> []"
  from assms(1) obtain flags stem where flags: "read_flags None [] ?rest = Some flags"
    and base': "base' = stem @ '':2,'' @ fst (update_flags (desired_flags tags) flags False)"
    and stem: "stem = take (case info_position base of Some i \<Rightarrow> i | None \<Rightarrow> length base) base"
    by (auto simp: renamed_base_def Let_def split: option.splits prod.splits if_splits)
  let ?flags = "fst (update_flags (desired_flags tags) flags False)"
  from read_flags_sorted [OF flags] have sorted: "sorted_wrt (<) ?flags" "list_all is_ascii_byte ?flags"
    using update_flags_sorted [of flags "desired_flags tags" False] desired_flags_ascii [of tags] by auto
  have set: "set ?flags = desired_set (desired_flags tags) (set flags)"
    by (rule update_flags_set [OF desired_flags_distinct])
  have wanted: "\<forall>(f, b) \<in> set (desired_flags tags). b = (f \<in> set ?flags)"
    unfolding set by (auto simp: desired_set_def desired_flags_def)
  have "set ?rest \<subseteq> set base" by (auto split: option.splits dest: in_set_dropD)
  with read_flags_set [OF flags] assms(2) have "CHR ''/'' \<notin> set flags" by auto
  then have "CHR ''/'' \<notin> set ?flags"
    unfolding set using desired_flags_ascii [of tags] by (auto simp: desired_set_def)
  moreover have "CHR ''/'' \<notin> set stem" using assms(2) unfolding stem by (auto dest: in_set_takeD)
  ultimately have "CHR ''/'' \<notin> set base'" by (simp add: base')
  moreover have "read_flags None [] ?flags = Some ?flags"
    using read_flags_same [of "[]" ?flags None] sorted by simp
  moreover note update_flags_same [OF sorted(1) wanted] info_position_new [OF sorted(1), of stem, folded base']
  ultimately show ?thesis
    by (simp add: renamed_base_def base')
qed

text \<open>
  The file name expected for a message is a fixed point: a file that has been
  renamed for a set of tags is in place, and computing its name again changes neither directory
  nor flags, for any file name (whatever markers, flags and separators it has) and any tags.
\<close>

theorem expected_filename_settles:
  "expected_maildir_filename (expected_maildir_filename filename tags) tags =
     expected_maildir_filename filename tags"
proof (cases "last_byte CHR ''/'' filename")
  case None
  then show ?thesis by (simp add: expected_maildir_filename_def expected_maildir_filename_bytes_def)
next
  case (Some i)
  then obtain path base where f: "filename = path @ CHR ''/'' # base" "CHR ''/'' \<notin> set base"
    by (rule last_byte_cases)
  obtain parent dir where path: "path = parent @ dir" "CHR ''/'' \<notin> set dir" "parent = [] \<or> last parent = CHR ''/''"
  proof (cases "last_byte CHR ''/'' path")
    case None
    with that [of "[]" path] show ?thesis by (simp add: last_byte_None)
  next
    case (Some j)
    then obtain a b where "path = a @ CHR ''/'' # b" "CHR ''/'' \<notin> set b" by (rule last_byte_cases)
    with that [of "a @ ''/''" b] show ?thesis by simp
  qed
  note parts = expected_parts [OF _ _ path(3)]
  show ?thesis
  proof (cases "(dir = ''cur'' \<or> dir = ''new'') \<and> renamed_base dir tags base \<noteq> None")
    case True
    then obtain base' where base': "renamed_base dir tags base = Some base'" by blast
    note again = renamed_base_again [OF base' f(2)]
    have e: "expected_maildir_filename filename tags = parent @ ''cur'' @ CHR ''/'' # base'"
      using True by (simp add: f(1) path(1) parts [OF f(2) path(2)] base')
    show ?thesis unfolding e
      by (subst parts) (use again in auto)
  next
    case False
    then have "expected_maildir_filename filename tags = filename"
      by (auto simp: f(1) path(1) parts [OF f(2) path(2)])
    then show ?thesis by simp
  qed
qed

section \<open>The effect of a mutation\<close>

definition tag_effect :: "string list \<Rightarrow> string list \<Rightarrow> string set \<Rightarrow> string set" where
  "tag_effect add remove tags = (tags - set remove) \<union> set add"

lemma set_after:
  "set (fold (btree_insert id) add (filter (\<lambda>tag. tag \<notin> set remove) (btree_of id current))) =
     tag_effect add remove (set current)"
  by (auto simp: set_fold_btree_insert tag_effect_def)

lemma effective_tag_mutation_None:
  "effective_tag_mutation current mutation = None \<longleftrightarrow>
     tag_effect (tm_add mutation) (tm_remove mutation) (set current) = set current"
  unfolding effective_tag_mutation_def Let_def
  by (simp add: set_after filter_empty_conv) blast

lemma effective_tag_mutation_Some:
  assumes "effective_tag_mutation current mutation = Some e"
  shows "set (tm_add e) = tag_effect (tm_add mutation) (tm_remove mutation) (set current) - set current"
    and "set (tm_remove e) = set current - tag_effect (tm_add mutation) (tm_remove mutation) (set current)"
    and "tm_sync_maildir_flags e = tm_sync_maildir_flags mutation"
  using assms unfolding effective_tag_mutation_def Let_def
  by (auto simp: set_after simp del: set_btree_insert split: if_splits)

lemma tag_effect_difference: "(S - (S - T)) \<union> (T - S) = (T :: 'a set)"
  by blast

lemma requested_mutation_effect:
  assumes "requested_mutation current mutation = Some e"
  shows "tag_effect (tm_add e) (tm_remove e) (set current) =
     tag_effect (tm_add mutation) (tm_remove mutation) (set current)"
proof (cases "effective_tag_mutation current mutation")
  case None
  with assms have "tm_add e = []" "tm_remove e = []"
    by (simp_all add: requested_mutation_def split: if_splits) auto
  with None show ?thesis by (simp add: effective_tag_mutation_None) (simp add: tag_effect_def)
next
  case (Some e')
  with assms have "e' = e" by (simp add: requested_mutation_def)
  show ?thesis
    unfolding tag_effect_def [of "tm_add e"] effective_tag_mutation_Some [OF Some [unfolded \<open>e' = e\<close>]]
    by (rule tag_effect_difference)
qed

lemma requested_mutation_None:
  "requested_mutation current mutation = None \<Longrightarrow>
     tag_effect (tm_add mutation) (tm_remove mutation) (set current) = set current"
  by (simp add: requested_mutation_def effective_tag_mutation_None split: option.splits)

text \<open>
  What the documentation of libnotmuch says of its calls: a successful call changes the tags
  of its message as it is named for, and nothing else; messages stay findable.
\<close>

definition tags_become ::
  "('d, 'm) notmuch_lib \<Rightarrow> 'm \<Rightarrow> (string set \<Rightarrow> string set) \<Rightarrow> 'd \<Rightarrow> 'd \<Rightarrow> bool" where
  "tags_become lib m f d d' \<longleftrightarrow>
     (\<forall>m'. set (nm_tags lib d' m') = (if m' = m then f (set (nm_tags lib d m')) else set (nm_tags lib d m'))) \<and>
     (\<forall>i. nm_find_message lib i d' = nm_find_message lib i d)"

definition tags_kept :: "('d, 'm) notmuch_lib \<Rightarrow> 'd \<Rightarrow> 'd \<Rightarrow> bool" where
  "tags_kept lib d d' \<longleftrightarrow>
     (\<forall>m. set (nm_tags lib d' m) = set (nm_tags lib d m)) \<and>
     (\<forall>i. nm_find_message lib i d' = nm_find_message lib i d)"

definition notmuch_laws :: "('d, 'm) notmuch_lib \<Rightarrow> bool" where
  "notmuch_laws lib \<longleftrightarrow>
     (\<forall>m d d'. nm_freeze lib m d = (Inr (), d') \<longrightarrow> tags_kept lib d d') \<and>
     (\<forall>m d d'. nm_thaw lib m d = (Inr (), d') \<longrightarrow> tags_kept lib d d') \<and>
     (\<forall>m d d'. nm_tags_to_maildir_flags lib m d = (Inr (), d') \<longrightarrow> tags_kept lib d d') \<and>
     (\<forall>d d'. nm_begin_atomic lib d = (Inr (), d') \<longrightarrow> tags_kept lib d d') \<and>
     (\<forall>d d'. nm_end_atomic lib d = (Inr (), d') \<longrightarrow> tags_kept lib d d') \<and>
     (\<forall>m t d d'. nm_remove_tag lib m t d = (Inr (), d') \<longrightarrow> tags_become lib m (\<lambda>tags. tags - {t}) d d') \<and>
     (\<forall>m t d d'. nm_add_tag lib m t d = (Inr (), d') \<longrightarrow> tags_become lib m (insert t) d d') \<and>
     (\<forall>i m d. nm_find_message lib i d = Inr (Some m) \<longrightarrow> nm_message_id lib d m = i)"

lemma tags_kept_trans: "tags_kept lib d d' \<Longrightarrow> tags_kept lib d' d'' \<Longrightarrow> tags_kept lib d d''"
  by (simp add: tags_kept_def)

lemma tags_become_kept: "tags_become lib m f d d' \<Longrightarrow> tags_kept lib d' d'' \<Longrightarrow> tags_become lib m f d d''"
  by (simp add: tags_become_def tags_kept_def)

lemma tags_kept_become: "tags_kept lib d d' \<Longrightarrow> tags_become lib m f d' d'' \<Longrightarrow> tags_become lib m f d d''"
  by (auto simp: tags_become_def tags_kept_def)

lemma tags_become_trans:
  "tags_become lib m f d d' \<Longrightarrow> tags_become lib m g d' d'' \<Longrightarrow> tags_become lib m (g \<circ> f) d d''"
  by (simp add: tags_become_def)

lemma tags_become_id: "tags_become lib m (\<lambda>tags. tags) d d"
  by (simp add: tags_become_def)

lemma change_tags_effect:
  assumes "change_tags lib call stage verb i b tags d = ([], d')"
    and "\<And>t d d'. call t d = (Inr (), d') \<Longrightarrow> tags_become lib m (f t) d d'"
  shows "tags_become lib m (fold f tags) d d'"
  using assms(1)
proof (induction tags arbitrary: d)
  case Nil
  then show ?case by (simp add: tags_become_def)
next
  case (Cons t ts)
  then obtain d1 where d1: "call t d = (Inr (), d1)" "change_tags lib call stage verb i b ts d1 = ([], d')"
    by (auto simp: cstring_def split: if_splits prod.splits sum.splits)
  from tags_become_trans [OF assms(2) [OF d1(1)] Cons.IH [OF d1(2)]] show ?case by (simp add: comp_def)
qed

lemma fold_remove: "fold (\<lambda>t tags. tags - {t}) ts S = S - set ts"
  by (induction ts arbitrary: S) auto

lemma fold_insert_set: "fold insert ts S = S \<union> set ts"
  by (induction ts arbitrary: S) auto

lemma sync_maildir_kept:
  assumes "sync_maildir lib m i paths tags d = ((a, c, []), d')" "notmuch_laws lib"
  shows "tags_kept lib d d'"
proof -
  obtain status d1 where s: "nm_tags_to_maildir_flags lib m d = (status, d1)" by fastforce
  with assms(1) have "status = Inr ()" "d' = d1"
    by (auto simp: sync_maildir_def Let_def split: prod.splits sum.splits if_splits)
  with s assms(2) show ?thesis by (auto simp: notmuch_laws_def)
qed

lemma finalize_failures: "mo_failures (finalize_message_mutation i b a p c fs) = [] \<longleftrightarrow> fs = []"
  by (auto simp: finalize_message_mutation_def Let_def)

lemma mutate_message_success:
  assumes "mutate_message lib m mutation d = (out, d')" "mo_failures out = []" "notmuch_laws lib"
  obtains (unchanged) "requested_mutation (sort (nm_tags lib d m)) mutation = None" "d' = d" "mo_applied out = None"
  | (changed) e d0 d1 d2 d3 paths changes where
      "requested_mutation (sort (nm_tags lib d m)) mutation = Some e"
      "tags_kept lib d d0"
      "tags_become lib m (fold (\<lambda>t tags. tags - {t}) (tm_remove e)) d0 d1"
      "tags_become lib m (fold insert (tm_add e)) d1 d2"
      "tags_kept lib d2 d3" "tags_kept lib d3 d'"
      "out = finalize_message_mutation (nm_message_id lib d m) (sort (nm_tags lib d m)) (sort (nm_tags lib d3 m)) paths changes []"
proof (cases "requested_mutation (sort (nm_tags lib d m)) mutation")
  case None
  with assms(1) have "d' = d" "mo_applied out = None" by (auto simp: mutate_message_def Let_def)
  with None show ?thesis by (rule unchanged)
next
  case (Some e)
  let ?i = "nm_message_id lib d m"
  let ?paths = "sort_key path_key (nm_filenames lib d m)"
  let ?b = "report_filenames ?paths"
  obtain s0 d0 where frozen: "nm_freeze lib m d = (s0, d0)" by fastforce
  obtain f1 d1 where removed: "change_tags lib (nm_remove_tag lib m) RemoveTag ''removing'' ?i ?b (tm_remove e) d0 = (f1, d1)"
    by fastforce
  obtain f2 d2 where added: "change_tags lib (nm_add_tag lib m) AddTag ''adding'' ?i ?b (tm_add e) d1 = (f2, d2)"
    by fastforce
  obtain s3 d3 where thawed: "nm_thaw lib m d2 = (s3, d3)" by fastforce
  from assms(1,2) Some frozen have "s0 = Inr ()"
    by (auto simp: mutate_message_def Let_def split: sum.splits)
  note frozen = frozen [unfolded this]
  have f1: "f1 = []"
  proof (rule ccontr)
    assume "f1 \<noteq> []"
    with assms(1,2) Some frozen removed show False
      by (auto simp: mutate_message_def Let_def finalize_failures split: prod.splits sum.splits if_splits)
  qed
  have f2: "f2 = []"
  proof (rule ccontr)
    assume "f2 \<noteq> []"
    with assms(1,2) Some frozen removed f1 added show False
      by (auto simp: mutate_message_def Let_def finalize_failures split: prod.splits sum.splits if_splits)
  qed
  have s3: "s3 = Inr ()"
  proof (cases s3)
    case (Inl err)
    with assms(1,2) Some frozen removed f1 added f2 thawed show ?thesis
      by (auto simp: mutate_message_def Let_def finalize_failures split: prod.splits if_splits)
  qed simp
  have "\<exists>paths changes. tags_kept lib d3 d' \<and>
    out = finalize_message_mutation ?i (sort (nm_tags lib d m)) (sort (nm_tags lib d3 m)) paths changes []"
  proof (cases "tm_sync_maildir_flags e")
    case False
    with assms(1) Some frozen removed f1 added f2 thawed s3 show ?thesis
      by (auto simp: mutate_message_def Let_def tags_kept_def split: prod.splits if_splits)
  next
    case True
    obtain a c fs d4 where s: "sync_maildir lib m ?i ?paths (sort (nm_tags lib d3 m)) d3 = ((a, c, fs), d4)"
      by (metis prod.collapse)
    with True assms(1,2) Some frozen removed f1 added f2 thawed s3 have
      *: "fs = []" "d' = d4" "out = finalize_message_mutation ?i (sort (nm_tags lib d m)) (sort (nm_tags lib d3 m)) a c []"
      by (auto simp: mutate_message_def Let_def finalize_failures split: prod.splits if_splits)
    with sync_maildir_kept [OF s [unfolded *(1)] assms(3)] show ?thesis by blast
  qed
  moreover have "tags_become lib m (fold (\<lambda>t tags. tags - {t}) (tm_remove e)) d0 d1"
    by (rule change_tags_effect [OF removed [unfolded f1]]) (use assms(3) in \<open>auto simp: notmuch_laws_def\<close>)
  moreover have "tags_become lib m (fold insert (tm_add e)) d1 d2"
    by (rule change_tags_effect [OF added [unfolded f2]]) (use assms(3) in \<open>auto simp: notmuch_laws_def\<close>)
  moreover have "tags_kept lib d d0" "tags_kept lib d2 d3"
    using assms(3) frozen thawed s3 by (auto simp: notmuch_laws_def)
  ultimately show ?thesis using changed [OF Some] by (elim exE conjE) assumption
qed

lemma mutate_message_effect:
  assumes "mutate_message lib m mutation d = (out, d')" "mo_failures out = []" "notmuch_laws lib"
  shows "tags_become lib m (tag_effect (tm_add mutation) (tm_remove mutation)) d d'"
  using assms
proof (cases rule: mutate_message_success)
  case unchanged
  then show ?thesis using requested_mutation_None [OF unchanged(1)] by (simp add: tags_become_def)
next
  case (changed e d0 d1 d2 d3 paths changes)
  then have "tags_become lib m (fold insert (tm_add e) \<circ> fold (\<lambda>t tags. tags - {t}) (tm_remove e)) d d'"
    by (meson tags_become_trans tags_become_kept tags_kept_become)
  moreover have "fold insert (tm_add e) \<circ> fold (\<lambda>t tags. tags - {t}) (tm_remove e) =
    tag_effect (tm_add e) (tm_remove e)"
    by (simp add: fun_eq_iff tag_effect_def fold_remove fold_insert_set)
  ultimately have "tags_become lib m (tag_effect (tm_add e) (tm_remove e)) d d'" by simp
  with requested_mutation_effect [OF changed(1)] show ?thesis
    by (auto simp: tags_become_def)
qed

text \<open>What a reported change says of a message and the states before and after.\<close>

definition change_recorded :: "string \<Rightarrow> string set \<Rightarrow> string set \<Rightarrow> applied_tag_change option \<Rightarrow> bool" where
  "change_recorded i before after change =
     (case change of
        None \<Rightarrow> after = before
      | Some c \<Rightarrow> ac_message_id c = i \<and> set (ac_added c) = after - before \<and> set (ac_removed c) = before - after)"

lemma applied_tag_change_recorded:
  "change_recorded i (set before) (set after) (applied_tag_change i before after filenames changes)"
proof (cases "applied_tag_change i before after filenames changes")
  case None
  then show ?thesis
    by (auto simp: applied_tag_change_def change_recorded_def Let_def filter_empty_conv split: if_splits)
next
  case (Some c)
  then show ?thesis
    by (auto simp: applied_tag_change_def change_recorded_def Let_def split: if_splits)
qed

lemma mutate_message_recorded:
  assumes "mutate_message lib m mutation d = (out, d')" "mo_failures out = []" "notmuch_laws lib"
  shows "change_recorded (nm_message_id lib d m) (set (nm_tags lib d m)) (set (nm_tags lib d' m))
    (map_option fst (mo_applied out))"
  using assms
proof (cases rule: mutate_message_success)
  case unchanged
  then show ?thesis by (simp add: change_recorded_def)
next
  case (changed e d0 d1 d2 d3 paths changes)
  then have "set (nm_tags lib d' m) = set (sort (nm_tags lib d3 m))" by (simp add: tags_kept_def)
  then show ?thesis
    unfolding changed finalize_message_mutation_def Let_def
    using applied_tag_change_recorded [of _ "sort (nm_tags lib d m)" "sort (nm_tags lib d3 m)"]
    by (simp add: option.map_comp comp_def option.map_ident)
qed

section \<open>Batches\<close>

lemma mutate_prepared_found:
  assumes "mutate_prepared lib p (r, d) = (r', d')" "br_failures r' = []" "notmuch_laws lib"
  obtains m change where
    "br_failures r = []"
    "nm_find_message lib (pm_message_id p) d = Inr (Some m)"
    "tags_become lib m (tag_effect (tm_add (pm_mutation p)) (tm_remove (pm_mutation p))) d d'"
    "change_recorded (pm_message_id p) (set (nm_tags lib d m)) (set (nm_tags lib d' m)) change"
    "br_changes r' = br_changes r @ option_list change"
proof (cases "nm_find_message lib (pm_message_id p) d")
  case (Inl err)
  with assms(1,2) show ?thesis by (auto simp: mutate_prepared_def)
next
  case (Inr found)
  show ?thesis
  proof (cases found)
    case None
    with assms(1,2) Inr show ?thesis by (auto simp: mutate_prepared_def)
  next
    case (Some m)
    obtain out d2 where run: "mutate_message lib m (pm_mutation p) d = (out, d2)" by fastforce
    with assms(1,2) Inr Some have r: "d2 = d'" "mo_failures out = []" "br_failures r = []"
      "br_changes r' = br_changes r @ option_list (map_option fst (mo_applied out))"
      by (auto simp: mutate_prepared_def Let_def split: option.splits)
    from assms(3) Inr Some have i: "nm_message_id lib d m = pm_message_id p"
      by (auto simp: notmuch_laws_def)
    note run = run [unfolded r(1)]
    show ?thesis
      using that [OF r(3) Inr [unfolded Some] mutate_message_effect [OF run r(2) assms(3)]
          mutate_message_recorded [OF run r(2) assms(3), unfolded i] r(4)] .
  qed
qed

text \<open>What a list of mutations calls for, message by message.\<close>

definition intended :: "('d, 'm) notmuch_lib \<Rightarrow> 'd \<Rightarrow> 'm \<Rightarrow> message_tag_mutation list \<Rightarrow> string set \<Rightarrow> string set" where
  "intended lib d m = fold (\<lambda>mutation tags.
     if nm_find_message lib (mt_message_id mutation) d = Inr (Some m)
     then tag_effect (mt_add mutation) (mt_remove mutation) tags else tags)"

lemma intended_simps [simp]:
  "intended lib d m [] tags = tags"
  "intended lib d m (mutation # rest) tags = intended lib d m rest
     (if nm_find_message lib (mt_message_id mutation) d = Inr (Some m)
      then tag_effect (mt_add mutation) (mt_remove mutation) tags else tags)"
  by (simp_all add: intended_def)

lemma intended_append: "intended lib d m (xs @ ys) tags = intended lib d m ys (intended lib d m xs tags)"
  by (simp add: intended_def)

lemma inverse_tag_mutations_append:
  "inverse_tag_mutations (xs @ ys) = inverse_tag_mutations xs @ inverse_tag_mutations ys"
  by (simp add: inverse_tag_mutations_def)

lemma intended_cong:
  "(\<And>i. nm_find_message lib i d' = nm_find_message lib i d) \<Longrightarrow> intended lib d' m ms tags = intended lib d m ms tags"
  by (induction ms arbitrary: tags) auto

lemma intended_not_addressed:
  "\<forall>mutation \<in> set ms. nm_find_message lib (mt_message_id mutation) d \<noteq> Inr (Some m) \<Longrightarrow>
     intended lib d m ms tags = tags"
  by (induction ms arbitrary: tags) auto

definition plain_mutation :: "prepared_message_mutation \<Rightarrow> message_tag_mutation" where
  "plain_mutation p = \<lparr>mt_message_id = pm_message_id p, mt_add = tm_add (pm_mutation p),
                       mt_remove = tm_remove (pm_mutation p)\<rparr>"

lemma prepared_batch_spec:
  assumes "fold (mutate_prepared lib) ps (r, d) = (r', d')" "br_failures r' = []" "notmuch_laws lib"
  shows "br_failures r = [] \<and>
    (\<forall>i. nm_find_message lib i d' = nm_find_message lib i d) \<and>
    (\<forall>p \<in> set ps. \<exists>m. nm_find_message lib (pm_message_id p) d = Inr (Some m)) \<and>
    (\<forall>m. set (nm_tags lib d' m) = intended lib d m (map plain_mutation ps) (set (nm_tags lib d m)))"
  using assms
proof (induction ps arbitrary: r d)
  case Nil
  then show ?case by simp
next
  case (Cons p ps)
  obtain r1 d1 where one: "mutate_prepared lib p (r, d) = (r1, d1)" by fastforce
  with Cons.prems have rest: "fold (mutate_prepared lib) ps (r1, d1) = (r', d')" by simp
  note ih = Cons.IH [OF rest Cons.prems(2,3)]
  then have "br_failures r1 = []" by simp
  from one this Cons.prems(3) show ?case
  proof (cases rule: mutate_prepared_found)
    case (1 m change)
    then have same: "\<And>i. nm_find_message lib i d1 = nm_find_message lib i d"
      by (simp add: tags_become_def)
    have tags: "set (nm_tags lib d1 m') = (if nm_find_message lib (pm_message_id p) d = Inr (Some m')
        then tag_effect (tm_add (pm_mutation p)) (tm_remove (pm_mutation p)) (set (nm_tags lib d m'))
        else set (nm_tags lib d m'))" for m'
      using 1 by (auto simp: tags_become_def)
    show ?thesis
      using ih 1(1,2) by (simp add: same tags plain_mutation_def intended_cong [OF same])
  qed
qed

lemma inverse_change_effect:
  assumes "change_recorded i before after (Some c)"
  shows "tag_effect (mt_add (inverse_change c)) (mt_remove (inverse_change c)) after = before"
  using assms by (auto simp: change_recorded_def inverse_change_def tag_effect_def)

lemma intended_inverse:
  assumes "change_recorded i before after change" "nm_find_message lib i d = Inr (Some m)"
  shows "intended lib d m (inverse_tag_mutations (option_list change)) after = before"
proof (cases change)
  case None
  with assms show ?thesis by (simp add: inverse_tag_mutations_def change_recorded_def)
next
  case (Some c)
  with assms have i: "mt_message_id (inverse_change c) = i"
    by (simp add: change_recorded_def inverse_change_def)
  show ?thesis
  proof (cases "ac_added c = [] \<and> ac_removed c = []")
    case True
    with assms Some show ?thesis by (auto simp: inverse_tag_mutations_def change_recorded_def)
  next
    case False
    with Some assms(2) show ?thesis
      by (simp add: inverse_tag_mutations_def i inverse_change_effect [OF assms(1) [unfolded Some]])
  qed
qed

lemma prepared_batch_undo:
  assumes "fold (mutate_prepared lib) ps (r, d) = (r', d')" "br_failures r' = []" "notmuch_laws lib"
    "distinct (map pm_message_id ps)"
  shows "\<exists>cs. br_changes r' = br_changes r @ cs \<and> ac_message_id ` set cs \<subseteq> pm_message_id ` set ps \<and>
    (\<forall>m. intended lib d m (inverse_tag_mutations cs) (set (nm_tags lib d' m)) = set (nm_tags lib d m))"
  using assms
proof (induction ps arbitrary: r d)
  case Nil
  then show ?case by (auto simp: inverse_tag_mutations_def)
next
  case (Cons p ps)
  obtain r1 d1 where one: "mutate_prepared lib p (r, d) = (r1, d1)" by fastforce
  with Cons.prems have rest: "fold (mutate_prepared lib) ps (r1, d1) = (r', d')" by simp
  note spec = prepared_batch_spec [OF rest Cons.prems(2,3)]
  from Cons.IH [OF rest Cons.prems(2,3)] Cons.prems(4) obtain cs where cs:
    "br_changes r' = br_changes r1 @ cs" "ac_message_id ` set cs \<subseteq> pm_message_id ` set ps"
    "\<And>m. intended lib d1 m (inverse_tag_mutations cs) (set (nm_tags lib d' m)) = set (nm_tags lib d1 m)"
    by auto
  from one spec [THEN conjunct1] Cons.prems(3) show ?case
  proof (cases rule: mutate_prepared_found)
    case (1 m change)
    let ?i = "pm_message_id p"
    have same: "\<And>i. nm_find_message lib i d1 = nm_find_message lib i d"
      using 1(3) by (simp add: tags_become_def)
    have fresh: "nm_find_message lib i d \<noteq> Inr (Some m)" if "i \<in> pm_message_id ` set ps" for i
    proof
      assume "nm_find_message lib i d = Inr (Some m)"
      with 1(2) Cons.prems(3) have "i = ?i" unfolding notmuch_laws_def by metis
      with that Cons.prems(4) show False by simp
    qed
    have "set (nm_tags lib d' m) = intended lib d1 m (map plain_mutation ps) (set (nm_tags lib d1 m))"
      using spec by blast
    also have "\<dots> = set (nm_tags lib d1 m)"
      by (rule intended_not_addressed) (auto simp: plain_mutation_def same fresh)
    finally have later: "set (nm_tags lib d' m) = set (nm_tags lib d1 m)" .
    have untouched: "intended lib d m (inverse_tag_mutations cs) tags = tags" for tags
      by (rule intended_not_addressed)
        (use cs(2) fresh in \<open>auto simp: inverse_tag_mutations_def inverse_change_def\<close>)
    have undone: "intended lib d m' (inverse_tag_mutations (option_list change @ cs)) (set (nm_tags lib d' m')) =
        set (nm_tags lib d m')" for m'
    proof (cases "m' = m")
      case True
      show ?thesis
        unfolding True later inverse_tag_mutations_append intended_append untouched
        by (rule intended_inverse [OF 1(4,2)])
    next
      case False
      have "set (nm_tags lib d1 m') = set (nm_tags lib d m')"
        using 1(3) False by (simp add: tags_become_def)
      moreover have "intended lib d m' (inverse_tag_mutations (option_list change)) tags = tags" for tags
        by (rule intended_not_addressed)
          (use 1(2,4) False in \<open>auto simp: inverse_tag_mutations_def inverse_change_def change_recorded_def
             split: option.splits\<close>)
      ultimately show ?thesis
        using cs(3) [of m'] by (simp add: inverse_tag_mutations_append intended_append intended_cong [OF same])
    qed
    moreover have "ac_message_id ` set (option_list change @ cs) \<subseteq> insert ?i (pm_message_id ` set ps)"
      using cs(2) 1(4) by (cases change) (auto simp: change_recorded_def)
    ultimately show ?thesis
      using cs(1) 1(5) by (intro exI [of _ "option_list change @ cs"]) simp
  qed
qed

lemma prepare_message_mutations_plain:
  "prepare_message_mutations ms sync = Inr ps \<Longrightarrow> map plain_mutation ps = ms"
proof (induction ms arbitrary: ps)
  case Nil
  then show ?case by (simp add: prepare_message_mutations_def)
next
  case (Cons x xs)
  then show ?case
    by (auto simp: prepare_message_mutations_def plain_mutation_def result_simps)
qed

lemma apply_prepared_complete:
  assumes "apply_prepared_tag_mutations lib ps d = (Inr r, d')" "is_complete r" "notmuch_laws lib"
  obtains "ps = []" "d' = d" "br_changes r = []"
  | d0 r1 d1 where "tags_kept lib d d0"
      "fold (mutate_prepared lib) ps (empty_batch\<lparr>br_requested_messages := length ps\<rparr>, d0) = (r1, d1)"
      "br_failures r1 = []" "br_changes r = br_changes r1" "tags_kept lib d1 d'"
proof (cases "ps = []")
  case True
  with assms(1) that(1) show ?thesis
    by (auto simp: apply_prepared_tag_mutations_def empty_batch_def)
next
  case False
  obtain s0 d0 where s0: "nm_begin_atomic lib d = (s0, d0)" by fastforce
  with assms(1) False have "s0 = Inr ()" by (auto simp: apply_prepared_tag_mutations_def split: sum.splits)
  note s0 = s0 [unfolded this]
  obtain r1 d1 where f: "fold (mutate_prepared lib) ps (empty_batch\<lparr>br_requested_messages := length ps\<rparr>, d0) = (r1, d1)"
    by fastforce
  obtain s2 d2 where s2: "nm_end_atomic lib d1 = (s2, d2)" by fastforce
  have "s2 = Inr ()" "br_failures r1 = []" "br_changes r = br_changes r1" "d2 = d'"
    using assms(1,2) False s0 f s2
    by (auto simp: apply_prepared_tag_mutations_def Let_def is_complete_def record_finalization_error_def split: sum.splits)
  moreover from this assms(3) s0 s2 have "tags_kept lib d d0" "tags_kept lib d1 d'"
    by (auto simp: notmuch_laws_def)
  ultimately show ?thesis using that(2) [OF _ f] by simp
qed

lemma apply_prepared_spec:
  assumes "apply_prepared_tag_mutations lib ps d = (Inr r, d')" "is_complete r" "notmuch_laws lib"
  shows "(\<forall>i. nm_find_message lib i d' = nm_find_message lib i d) \<and>
    (\<forall>p \<in> set ps. \<exists>m. nm_find_message lib (pm_message_id p) d = Inr (Some m)) \<and>
    (\<forall>m. set (nm_tags lib d' m) = intended lib d m (map plain_mutation ps) (set (nm_tags lib d m)))"
  using assms
proof (cases rule: apply_prepared_complete)
  case 1
  then show ?thesis by simp
next
  case (2 d0 r1 d1)
  have same: "\<And>i. nm_find_message lib i d0 = nm_find_message lib i d"
    using 2(1) by (simp add: tags_kept_def)
  from prepared_batch_spec [OF 2(2,3) assms(3)] 2(1,5) show ?thesis
    by (simp add: tags_kept_def intended_cong [OF same])
qed

lemma apply_prepared_undo:
  assumes "apply_prepared_tag_mutations lib ps d = (Inr r, d')" "is_complete r" "notmuch_laws lib"
    "distinct (map pm_message_id ps)"
  shows "intended lib d m (inverse_tag_mutations (br_changes r)) (set (nm_tags lib d' m)) = set (nm_tags lib d m)"
  using assms(1-3)
proof (cases rule: apply_prepared_complete)
  case 1
  then show ?thesis by (simp add: inverse_tag_mutations_def)
next
  case (2 d0 r1 d1)
  have same: "\<And>i. nm_find_message lib i d0 = nm_find_message lib i d"
    using 2(1) by (simp add: tags_kept_def)
  from prepared_batch_undo [OF 2(2,3) assms(3,4)] 2(1,4,5) show ?thesis
    by (auto simp: tags_kept_def empty_batch_def intended_cong [OF same])
qed

lemma apply_tags_to_messages_Inr:
  assumes "apply_tags_to_messages lib ms sync d = (Inr r, d')"
  obtains ps where "map plain_mutation ps = ms" "apply_prepared_tag_mutations lib ps d = (Inr r, d')"
  using assms prepare_message_mutations_plain [of ms sync]
  by (auto simp: apply_tags_to_messages_def split: sum.splits)

text \<open>
  C27. Tagging a batch of messages (\<open>apply_tags_to_messages\<close>, inside one atomic
  section) refines the plain specification: when the report is complete, every message asked for
  was found, and the tags of every message of the database are the old ones with the mutations
  addressed to it applied in order (removed tags first, then added ones) and all other messages
  are untouched; nothing can be silently skipped.
\<close>

theorem complete_batch_applies_all:
  assumes "notmuch_laws lib"
    and "apply_tags_to_messages lib mutations sync_maildir_flags d = (Inr report, d')"
    and "is_complete report"
  shows "(\<forall>mutation \<in> set mutations. \<exists>m. nm_find_message lib (mt_message_id mutation) d = Inr (Some m)) \<and>
    (\<forall>m. set (nm_tags lib d' m) = intended lib d m mutations (set (nm_tags lib d m)))"
proof -
  from assms(2) obtain ps where ps: "map plain_mutation ps = mutations"
    "apply_prepared_tag_mutations lib ps d = (Inr report, d')"
    by (rule apply_tags_to_messages_Inr)
  from apply_prepared_spec [OF ps(2) assms(3,1)] show ?thesis
    unfolding ps(1) [symmetric] by (simp add: plain_mutation_def)
qed

text \<open>
  C7. Undo is exact: the mutations kept for undo after a complete batch over distinct
  messages, applied completely, give every message of the database the tags it had before.
\<close>

theorem undo_restores_tags:
  assumes "notmuch_laws lib"
    and "apply_tags_to_messages lib mutations sync_maildir_flags d = (Inr report, d')"
    and "is_complete report" and "distinct (map mt_message_id mutations)"
    and "apply_tags_to_messages lib (inverse_tag_mutations (br_changes report)) sync_maildir_flags d' = (Inr undo_report, d'')"
    and "is_complete undo_report"
  shows "set (nm_tags lib d'' m) = set (nm_tags lib d m)"
proof -
  from assms(2) obtain ps where ps: "map plain_mutation ps = mutations"
    "apply_prepared_tag_mutations lib ps d = (Inr report, d')"
    by (rule apply_tags_to_messages_Inr)
  have "map pm_message_id ps = map mt_message_id mutations"
    unfolding ps(1) [symmetric] by (simp add: plain_mutation_def)
  with assms(4) have distinct: "distinct (map pm_message_id ps)" by simp
  from assms(5) obtain us where us: "map plain_mutation us = inverse_tag_mutations (br_changes report)"
    "apply_prepared_tag_mutations lib us d' = (Inr undo_report, d'')"
    by (rule apply_tags_to_messages_Inr)
  have same: "\<And>i. nm_find_message lib i d' = nm_find_message lib i d"
    using apply_prepared_spec [OF ps(2) assms(3,1)] by blast
  have "set (nm_tags lib d'' m) = intended lib d m (inverse_tag_mutations (br_changes report)) (set (nm_tags lib d' m))"
    using apply_prepared_spec [OF us(2) assms(6,1)] by (simp add: us(1) intended_cong [OF same])
  with apply_prepared_undo [OF ps(2) assms(3,1) distinct] show ?thesis by simp
qed

text \<open>A database of two messages, as a concrete instance.\<close>

definition two_messages :: "(string list \<times> string list, bool) notmuch_lib" where
  "two_messages =
     \<lparr>nm_message_id = \<lambda>d m. if m then ''a@x'' else ''b@x'',
      nm_tags = \<lambda>d m. if m then fst d else snd d,
      nm_filenames = \<lambda>d m. [''/m/cur/1:2,''],
      nm_freeze = \<lambda>m d. (Inr (), d),
      nm_remove_tag = \<lambda>m t d. (Inr (), if m then (removeAll t (fst d), snd d) else (fst d, removeAll t (snd d))),
      nm_add_tag = \<lambda>m t d. (Inr (), if m then (t # fst d, snd d) else (fst d, t # snd d)),
      nm_thaw = \<lambda>m d. (Inr (), d),
      nm_tags_to_maildir_flags = \<lambda>m d. (Inr (), d),
      nm_begin_atomic = \<lambda>d. (Inr (), d), nm_end_atomic = \<lambda>d. (Inr (), d),
      nm_find_message = \<lambda>i d. Inr (if i = ''a@x'' then Some True else if i = ''b@x'' then Some False else None),
      nm_is_file = \<lambda>d p. True, nm_show_error = \<lambda>e. ''error''\<rparr>"

lemma two_messages_laws: "notmuch_laws two_messages"
  by (auto simp: notmuch_laws_def two_messages_def tags_kept_def tags_become_def split: if_splits)

definition archive_both :: "message_tag_mutation list" where
  "archive_both =
     [\<lparr>mt_message_id = ''a@x'', mt_add = [''todo''], mt_remove = [''inbox'']\<rparr>,
      \<lparr>mt_message_id = ''b@x'', mt_add = [''todo''], mt_remove = [''inbox'']\<rparr>]"

definition archived :: "(notmuch_error + tag_batch_report) \<times> (string list \<times> string list)" where
  "archived = apply_tags_to_messages two_messages archive_both False ([''inbox''], [''unread''])"

definition unarchived :: "(notmuch_error + tag_batch_report) \<times> (string list \<times> string list)" where
  "unarchived = apply_tags_to_messages two_messages
     (inverse_tag_mutations (br_changes (projr (fst archived)))) False (snd archived)"

lemma archived_complete:
  "apply_tags_to_messages two_messages archive_both False ([''inbox''], [''unread'']) =
     (Inr (projr (fst archived)), snd archived)" "is_complete (projr (fst archived))"
  by code_simp+

lemma unarchived_complete:
  "apply_tags_to_messages two_messages
     (inverse_tag_mutations (br_changes (projr (fst archived)))) False (snd archived) =
     (Inr (projr (fst unarchived)), snd unarchived)" "is_complete (projr (fst unarchived))"
  by code_simp+

lemma complete_batch_applies_all_witness:
  "set (nm_tags two_messages (snd archived) True) = {''todo''} \<and>
   set (nm_tags two_messages (snd archived) False) = {''unread'', ''todo''}"
  using complete_batch_applies_all [OF two_messages_laws archived_complete, THEN conjunct2, THEN spec, of True]
    complete_batch_applies_all [OF two_messages_laws archived_complete, THEN conjunct2, THEN spec, of False]
  by (simp_all add: archive_both_def two_messages_def tag_effect_def insert_commute)

lemma undo_restores_tags_witness:
  "set (nm_tags two_messages (snd unarchived) False) = {''unread''}"
  using undo_restores_tags [OF two_messages_laws archived_complete _ unarchived_complete, of False]
  by (simp add: archive_both_def) (simp add: two_messages_def)

end
