(* ===== verification/Thread_Snapshot.thy ===== *)
theory Thread_Snapshot
  imports Tag_Mutation
begin

text \<open>
  Reading from the database: the query part of \<open>notm-notmuch/src/database.rs\<close> and
  \<open>query.rs\<close>.  A query object is the record of what was set on it; the calls that evaluate
  it are external.  Other programs may write to the database meanwhile: counting and searching
  return a new state.
\<close>

section \<open>Queries\<close>

datatype sort_order = OldestFirst | NewestFirst | MessageIdOrder | Unsorted

record query_options =
  qo_limit :: nat
  qo_offset :: nat
  qo_sort :: sort_order
  qo_excluded_tags :: "string list"

definition default_query_options :: query_options where
  "default_query_options =
     \<lparr>qo_limit = 100, qo_offset = 0, qo_sort = NewestFirst, qo_excluded_tags = [''trash'', ''spam'']\<rparr>"

definition usize_max :: nat where
  "usize_max = 2 ^ 64 - 1"

record notmuch_query =
  nq_text :: string
  nq_sort :: sort_order
  nq_excluded :: "string list"

datatype exclude_status = Excluded | Ignored | ExcludeFailed string

text \<open>
  An iterator is the list of what it yields, a null object being \<open>None\<close>, and the status
  after a number of elements was taken.
\<close>

record 'a iterator =
  it_items :: "'a option list"
  it_status :: "nat \<Rightarrow> string option"

record message_summary =
  ms_message_id :: string
  ms_thread_id :: string
  ms_date :: int
  ms_from :: string
  ms_to :: string
  ms_cc :: string
  ms_subject :: string
  ms_tags :: "string list"
  ms_filenames :: "string list"

record raw_thread =
  rt_thread_id :: string
  rt_subject :: string
  rt_authors :: string
  rt_oldest_date :: int
  rt_newest_date :: int
  rt_matched_messages :: int
  rt_total_messages :: int
  rt_tags :: "string list"

text \<open>
  A message as the iterator yields it: its identifier may be missing; the summary is what
  \<open>message_summary\<close> reads from it.
\<close>

record raw_message =
  rm_id :: "string option"
  rm_summary :: message_summary

record 'd query_lib =
  ql_revision :: "'d \<Rightarrow> revision"
  ql_create :: "string \<Rightarrow> 'd \<Rightarrow> bool"
  ql_exclude :: "notmuch_query \<Rightarrow> string \<Rightarrow> 'd \<Rightarrow> exclude_status"
  ql_count_messages :: "notmuch_query \<Rightarrow> 'd \<Rightarrow> (string + nat) \<times> 'd"
  ql_count_threads :: "notmuch_query \<Rightarrow> 'd \<Rightarrow> (string + nat) \<times> 'd"
  ql_search_messages :: "notmuch_query \<Rightarrow> 'd \<Rightarrow> (string + raw_message iterator) \<times> 'd"
  ql_search_threads :: "notmuch_query \<Rightarrow> 'd \<Rightarrow> (string + raw_thread iterator) \<times> 'd"
  ql_show_error :: "notmuch_error \<Rightarrow> string"

fun add_excludes ::
  "'d query_lib \<Rightarrow> 'd \<Rightarrow> string list \<Rightarrow> notmuch_query \<Rightarrow> notmuch_error + notmuch_query" where
  "add_excludes lib d [] q = Inr q"
| "add_excludes lib d (tag # tags) q =
     and_then (cstring tag) (\<lambda>tag.
       case ql_exclude lib q tag d of
         ExcludeFailed err \<Rightarrow> Inl (StatusError err)
       | _ \<Rightarrow> add_excludes lib d tags (q\<lparr>nq_excluded := nq_excluded q @ [tag]\<rparr>))"

definition create_query ::
  "'d query_lib \<Rightarrow> string \<Rightarrow> query_options \<Rightarrow> 'd \<Rightarrow> notmuch_error + notmuch_query" where
  "create_query lib query options d =
     and_then (cstring query) (\<lambda>query.
       if \<not> ql_create lib query d then Inl (NullPointer ''notmuch_query_create'')
       else add_excludes lib d (qo_excluded_tags options)
              \<lparr>nq_text = query, nq_sort = qo_sort options, nq_excluded = []\<rparr>)"

text \<open>A call of the library, with its status as an error of ours.\<close>

definition checked :: "(string + 'a) \<times> 'd \<Rightarrow> (notmuch_error + 'a) \<times> 'd" where
  "checked r = (map_err StatusError (fst r), snd r)"

definition count_messages ::
  "'d query_lib \<Rightarrow> string \<Rightarrow> query_options \<Rightarrow> 'd \<Rightarrow> (notmuch_error + nat) \<times> 'd" where
  "count_messages lib query options d =
     (case create_query lib query options d of
        Inl e \<Rightarrow> (Inl e, d)
      | Inr q \<Rightarrow> checked (ql_count_messages lib q d))"

definition count_threads ::
  "'d query_lib \<Rightarrow> string \<Rightarrow> query_options \<Rightarrow> 'd \<Rightarrow> (notmuch_error + nat) \<times> 'd" where
  "count_threads lib query options d =
     (case create_query lib query options d of
        Inl e \<Rightarrow> (Inl e, d)
      | Inr q \<Rightarrow> checked (ql_count_threads lib q d))"

text \<open>
  The loops over an iterator skip \<open>offset\<close> objects and stop once \<open>limit\<close> were taken; the
  last argument of the result is how often the iterator was moved.
\<close>

fun take_items ::
  "nat \<Rightarrow> nat \<Rightarrow> ('a \<Rightarrow> notmuch_error + 'b) \<Rightarrow> nat \<Rightarrow> nat \<Rightarrow> 'b list \<Rightarrow> 'a option list \<Rightarrow>
   notmuch_error + 'b list \<times> nat" where
  "take_items offset limit read moved skipped out [] = Inr (out, moved)"
| "take_items offset limit read moved skipped out (item # items) =
     (case item of
        None \<Rightarrow> if length out \<ge> limit then Inr (out, moved)
                 else take_items offset limit read (moved + 1) skipped out items
      | Some x \<Rightarrow>
          and_then (if offset \<le> skipped \<and> length out < limit then map_ok (\<lambda>y. out @ [y]) (read x) else Inr out)
            (\<lambda>out. if length out \<ge> limit then Inr (out, moved)
                    else take_items offset limit read (moved + 1) (skipped + 1) out items))"

definition check_iterator :: "'a iterator \<Rightarrow> nat \<Rightarrow> notmuch_error + unit" where
  "check_iterator iterator moved =
     (case it_status iterator moved of Some err \<Rightarrow> Inl (StatusError err) | None \<Rightarrow> Inr ())"

definition read_iterator ::
  "nat \<Rightarrow> nat \<Rightarrow> ('a \<Rightarrow> notmuch_error + 'b) \<Rightarrow> 'a iterator \<Rightarrow> notmuch_error + 'b list" where
  "read_iterator offset limit read iterator =
     and_then (take_items offset limit read 0 0 [] (it_items iterator)) (\<lambda>(out, moved).
     and_then (check_iterator iterator moved) (\<lambda>_. Inr out))"

definition required_message_id :: "raw_message \<Rightarrow> notmuch_error + string" where
  "required_message_id message = ok_or (rm_id message) (NullPointer ''notmuch_message_get_message_id'')"

definition search_message_ids_with_query ::
  "'d query_lib \<Rightarrow> notmuch_query \<Rightarrow> query_options \<Rightarrow> 'd \<Rightarrow> (notmuch_error + string list) \<times> 'd" where
  "search_message_ids_with_query lib q options d =
     (let (messages, d) = checked (ql_search_messages lib q d) in
      (and_then messages (read_iterator (qo_offset options) (qo_limit options) required_message_id), d))"

definition search_messages_with_query ::
  "'d query_lib \<Rightarrow> notmuch_query \<Rightarrow> query_options \<Rightarrow> 'd \<Rightarrow> (notmuch_error + message_summary list) \<times> 'd" where
  "search_messages_with_query lib q options d =
     (let (messages, d) = checked (ql_search_messages lib q d) in
      (and_then messages (read_iterator (qo_offset options) (qo_limit options) (\<lambda>m. Inr (rm_summary m))), d))"

definition search_messages ::
  "'d query_lib \<Rightarrow> string \<Rightarrow> query_options \<Rightarrow> 'd \<Rightarrow> (notmuch_error + message_summary list) \<times> 'd" where
  "search_messages lib query options d =
     (case create_query lib query options d of
        Inl e \<Rightarrow> (Inl e, d)
      | Inr q \<Rightarrow> search_messages_with_query lib q options d)"

record thread_summary =
  ts_thread_id :: string
  ts_subject :: string
  ts_authors :: string
  ts_oldest_date :: int
  ts_newest_date :: int
  ts_matched_messages :: int
  ts_total_messages :: int
  ts_tags :: "string list"
  ts_has_unread :: bool
  ts_is_flagged :: bool

definition thread_summary_of :: "raw_thread \<Rightarrow> thread_summary" where
  "thread_summary_of thread =
     \<lparr>ts_thread_id = rt_thread_id thread, ts_subject = rt_subject thread, ts_authors = rt_authors thread,
      ts_oldest_date = rt_oldest_date thread, ts_newest_date = rt_newest_date thread,
      ts_matched_messages = rt_matched_messages thread, ts_total_messages = rt_total_messages thread,
      ts_tags = rt_tags thread, ts_has_unread = list_ex (\<lambda>t. t = ''unread'') (rt_tags thread),
      ts_is_flagged = list_ex (\<lambda>t. t = ''flagged'') (rt_tags thread)\<rparr>"

definition search_threads ::
  "'d query_lib \<Rightarrow> string \<Rightarrow> query_options \<Rightarrow> 'd \<Rightarrow> (notmuch_error + thread_summary list) \<times> 'd" where
  "search_threads lib query options d =
     (case create_query lib query options d of
        Inl e \<Rightarrow> (Inl e, d)
      | Inr q \<Rightarrow>
          (let (threads, d) = checked (ql_search_threads lib q d) in
           (and_then threads (read_iterator (qo_offset options) (qo_limit options) (\<lambda>t. Inr (thread_summary_of t))), d)))"

section \<open>Pages of a thread\<close>

record 'a thread_page =
  tp_thread_id :: string
  tp_items :: "'a list"
  tp_total :: nat
  tp_offset :: nat
  tp_limit :: nat
  tp_revision :: revision

definition has_more_messages :: "'a thread_page \<Rightarrow> bool" where
  "has_more_messages page \<longleftrightarrow> tp_offset page + length (tp_items page) < tp_total page"

definition COMPLETE_THREAD_PAGE_SIZE :: nat where "COMPLETE_THREAD_PAGE_SIZE = 256"
definition THREAD_MESSAGE_ID_PAGE_SIZE :: nat where "THREAD_MESSAGE_ID_PAGE_SIZE = 256"
definition MAX_THREAD_TAG_MESSAGES :: nat where "MAX_THREAD_TAG_MESSAGES = 4096"

definition check_thread_tag_snapshot_revision :: "revision \<Rightarrow> revision \<Rightarrow> notmuch_error + unit" where
  "check_thread_tag_snapshot_revision expected observed =
     (if observed \<noteq> expected then Inl (ThreadTagSnapshotChanged expected observed) else Inr ())"

definition thread_messages_page ::
  "'d query_lib \<Rightarrow> string \<Rightarrow> nat \<Rightarrow> nat \<Rightarrow> 'd \<Rightarrow> (notmuch_error + message_summary thread_page) \<times> 'd" where
  "thread_messages_page lib thread_id offset limit d =
     (let query = exact_term_query ''thread'' thread_id;
          options = \<lparr>qo_limit = limit, qo_offset = offset, qo_sort = OldestFirst, qo_excluded_tags = []\<rparr>;
          revision_before = ql_revision lib d in
      case count_messages lib query options d of
        (Inl e, d) \<Rightarrow> (Inl e, d)
      | (Inr total_count, d) \<Rightarrow>
          (case (if limit = 0 \<or> total_count \<le> offset then (Inr [], d) else search_messages lib query options d) of
             (Inl e, d) \<Rightarrow> (Inl e, d)
           | (Inr messages, d) \<Rightarrow>
               (let revision_after = ql_revision lib d;
                    expected_page_len = min (total_count - offset) limit in
                (if revision_before \<noteq> revision_after \<or> length messages \<noteq> expected_page_len
                 then Inl (InconsistentThreadMessages thread_id total_count (offset + length messages))
                 else Inr \<lparr>tp_thread_id = thread_id, tp_items = messages, tp_total = total_count,
                           tp_offset = offset, tp_limit = limit, tp_revision = revision_before\<rparr>, d))))"

definition thread_message_ids_page ::
  "'d query_lib \<Rightarrow> string \<Rightarrow> nat \<Rightarrow> nat \<Rightarrow> revision \<Rightarrow> 'd \<Rightarrow> (notmuch_error + string thread_page) \<times> 'd" where
  "thread_message_ids_page lib thread_id offset limit expected_revision d =
     (case check_thread_tag_snapshot_revision expected_revision (ql_revision lib d) of
        Inl e \<Rightarrow> (Inl e, d)
      | Inr _ \<Rightarrow>
     (let query = exact_term_query ''thread'' thread_id;
          options = \<lparr>qo_limit = limit, qo_offset = offset, qo_sort = MessageIdOrder, qo_excluded_tags = []\<rparr> in
      case create_query lib query options d of
        Inl e \<Rightarrow> (Inl e, d)
      | Inr q \<Rightarrow>
     (case checked (ql_count_messages lib q d) of
        (Inl e, d) \<Rightarrow> (Inl e, d)
      | (Inr total_count, d) \<Rightarrow>
     (case (if limit = 0 \<or> total_count \<le> offset then (Inr [], d) else search_message_ids_with_query lib q options d) of
        (Inl e, d) \<Rightarrow> (Inl e, d)
      | (Inr message_ids, d) \<Rightarrow>
     (let observed_revision = ql_revision lib d in
      case check_thread_tag_snapshot_revision expected_revision observed_revision of
        Inl e \<Rightarrow> (Inl e, d)
      | Inr _ \<Rightarrow>
     (let expected_page_len = min (total_count - offset) limit in
      (if length message_ids \<noteq> expected_page_len
       then Inl (InconsistentThreadMessages thread_id total_count (offset + length message_ids))
       else Inr \<lparr>tp_thread_id = thread_id, tp_items = message_ids, tp_total = total_count,
                 tp_offset = offset, tp_limit = limit, tp_revision = observed_revision\<rparr>, d)))))))"

definition check_thread_page_snapshot ::
  "string \<Rightarrow> revision \<Rightarrow> nat \<Rightarrow> nat \<Rightarrow> message_summary thread_page \<Rightarrow> notmuch_error + unit" where
  "check_thread_page_snapshot thread_id expected_revision expected_total loaded page =
     (if tp_revision page \<noteq> expected_revision \<or> tp_total page \<noteq> expected_total
      then Inl (InconsistentThreadMessages thread_id expected_total loaded) else Inr ())"

definition check_thread_message_id_page_snapshot ::
  "string \<Rightarrow> revision \<Rightarrow> nat \<Rightarrow> nat \<Rightarrow> string thread_page \<Rightarrow> notmuch_error + unit" where
  "check_thread_message_id_page_snapshot thread_id expected_revision expected_total loaded page =
     and_then (check_thread_tag_snapshot_revision expected_revision (tp_revision page)) (\<lambda>_.
       if tp_thread_id page \<noteq> thread_id \<or> tp_total page \<noteq> expected_total \<or> tp_offset page \<noteq> loaded \<or>
          tp_limit page < length (tp_items page)
       then Inl (InconsistentThreadMessages thread_id expected_total loaded) else Inr ())"

text \<open>The inner loop: every element must be new.\<close>

fun push_unique ::
  "('a \<Rightarrow> string) \<Rightarrow> (nat \<Rightarrow> notmuch_error) \<Rightarrow> 'a list \<Rightarrow> 'a list \<Rightarrow> notmuch_error + 'a list" where
  "push_unique key inconsistent acc [] = Inr acc"
| "push_unique key inconsistent acc (x # xs) =
     (if key x \<in> key ` set acc then Inl (inconsistent (length acc)) else push_unique key inconsistent (acc @ [x]) xs)"

text \<open>
  The paging loop, shared by both collectors: \<open>fetch offset limit loaded\<close> is the page with the
  check of its snapshot.
\<close>

function page_loop ::
  "(nat \<Rightarrow> nat \<Rightarrow> nat \<Rightarrow> 'd \<Rightarrow> (notmuch_error + 'a list) \<times> 'd) \<Rightarrow> ('a \<Rightarrow> string) \<Rightarrow>
   (nat \<Rightarrow> notmuch_error) \<Rightarrow> nat \<Rightarrow> nat \<Rightarrow> nat \<Rightarrow> 'a list \<Rightarrow> 'd \<Rightarrow> (notmuch_error + 'a list) \<times> 'd" where
  "page_loop fetch key inconsistent page_size expected_total offset acc d =
     (if offset < expected_total then
        (case fetch offset (min page_size (expected_total - offset)) (length acc) d of
           (Inl e, d) \<Rightarrow> (Inl e, d)
         | (Inr items, d) \<Rightarrow>
             (case push_unique key inconsistent acc items of
                Inl e \<Rightarrow> (Inl e, d)
              | Inr acc \<Rightarrow>
                  if length items = 0 then (Inl (inconsistent (length acc)), d)
                  else page_loop fetch key inconsistent page_size expected_total (offset + length items) acc d))
      else (if length acc \<noteq> expected_total then Inl (inconsistent (length acc)) else Inr acc, d))"
  by pat_completeness auto
termination
  by (relation "measure (\<lambda>(fetch, key, inconsistent, page_size, expected_total, offset, acc, d). expected_total - offset)") (auto simp: neq_Nil_conv)

declare page_loop.simps [simp del]

definition thread_messages_bounded ::
  "'d query_lib \<Rightarrow> string \<Rightarrow> nat \<Rightarrow> 'd \<Rightarrow> (notmuch_error + message_summary list) \<times> 'd" where
  "thread_messages_bounded lib thread_id maximum d =
     (case thread_messages_page lib thread_id 0 0 d of
        (Inl e, d) \<Rightarrow> (Inl e, d)
      | (Inr snapshot, d) \<Rightarrow>
          (let expected_total = tp_total snapshot in
           if expected_total > maximum
           then (Inl (ThreadMessageLimitExceeded thread_id expected_total maximum), d)
           else page_loop
             (\<lambda>offset limit loaded d.
                (case thread_messages_page lib thread_id offset limit d of
                   (Inl e, d) \<Rightarrow> (Inl e, d)
                 | (Inr page, d) \<Rightarrow>
                     (map_ok (\<lambda>_. tp_items page)
                        (check_thread_page_snapshot thread_id (tp_revision snapshot) expected_total loaded page), d)))
             ms_message_id (InconsistentThreadMessages thread_id expected_total)
             COMPLETE_THREAD_PAGE_SIZE expected_total 0 [] d))"

definition thread_message_ids_bounded ::
  "'d query_lib \<Rightarrow> string \<Rightarrow> nat \<Rightarrow> revision \<Rightarrow> 'd \<Rightarrow> (notmuch_error + string list) \<times> 'd" where
  "thread_message_ids_bounded lib thread_id maximum expected_revision d =
     (case thread_message_ids_page lib thread_id 0 0 expected_revision d of
        (Inl e, d) \<Rightarrow> (Inl e, d)
      | (Inr snapshot, d) \<Rightarrow>
          (let expected_total = tp_total snapshot in
           if expected_total > maximum
           then (Inl (ThreadMessageLimitExceeded thread_id expected_total maximum), d)
           else page_loop
             (\<lambda>offset limit loaded d.
                (case thread_message_ids_page lib thread_id offset limit expected_revision d of
                   (Inl e, d) \<Rightarrow> (Inl e, d)
                 | (Inr page, d) \<Rightarrow>
                     (map_ok (\<lambda>_. tp_items page)
                        (check_thread_message_id_page_snapshot thread_id expected_revision expected_total loaded page), d)))
             id (InconsistentThreadMessages thread_id expected_total)
             THREAD_MESSAGE_ID_PAGE_SIZE expected_total 0 [] d))"


section \<open>Several threads at once\<close>

datatype bounded_thread_messages =
    Loaded "message_summary list"
  | ThreadLimitExceeded string nat nat
  | BatchLimitExceeded nat nat

text \<open>\<open>slice.join(separator)\<close>.\<close>

fun join :: "string \<Rightarrow> string list \<Rightarrow> string" where
  "join separator [] = []"
| "join separator [x] = x"
| "join separator (x # y # xs) = x @ separator @ join separator (y # xs)"

definition thread_query :: "string list \<Rightarrow> string" where
  "thread_query thread_ids = join '' or '' (map (\<lambda>thread_id. ''thread:'' @ thread_id) thread_ids)"

text \<open>A map over the requested identifiers, in their order.\<close>

type_synonym outcomes = "(string \<times> bounded_thread_messages) list"

definition set_outcome :: "string \<Rightarrow> bounded_thread_messages \<Rightarrow> outcomes \<Rightarrow> outcomes" where
  "set_outcome thread_id outcome = map (\<lambda>(i, o'). if i = thread_id then (i, outcome) else (i, o'))"

definition note_thread ::
  "string list \<Rightarrow> nat \<Rightarrow> raw_thread option \<Rightarrow> outcomes \<times> (string \<rightharpoonup> nat) \<times> nat \<Rightarrow> outcomes \<times> (string \<rightharpoonup> nat) \<times> nat" where
  "note_thread requested thread_maximum thread = (\<lambda>(outcomes, expected_counts, loadable_total).
     (case thread of
        None \<Rightarrow> (outcomes, expected_counts, loadable_total)
      | Some thread \<Rightarrow>
          (let thread_id = rt_thread_id thread; count = nat (rt_total_messages thread) in
           if thread_id \<in> set requested then
             (let expected_counts = expected_counts(thread_id \<mapsto> count) in
              if count > thread_maximum
              then (set_outcome thread_id (ThreadLimitExceeded thread_id count thread_maximum) outcomes,
                    expected_counts, loadable_total)
              else (outcomes, expected_counts, min usize_max (loadable_total + count)))
           else (outcomes, expected_counts, loadable_total))))"

definition note_message :: "raw_message option \<Rightarrow> outcomes \<Rightarrow> outcomes" where
  "note_message message outcomes =
     (case message of
        None \<Rightarrow> outcomes
      | Some message \<Rightarrow>
          map (\<lambda>(i, outcome).
            (i, if i = ms_thread_id (rm_summary message)
                then (case outcome of Loaded messages \<Rightarrow> Loaded (messages @ [rm_summary message]) | _ \<Rightarrow> outcome)
                else outcome)) outcomes)"

definition expected_of :: "(string \<rightharpoonup> nat) \<Rightarrow> string \<Rightarrow> nat" where
  "expected_of expected_counts thread_id = (case expected_counts thread_id of Some n \<Rightarrow> n | None \<Rightarrow> 0)"

definition refuse_batch :: "(string \<rightharpoonup> nat) \<Rightarrow> nat \<Rightarrow> nat \<Rightarrow> outcomes \<Rightarrow> outcomes" where
  "refuse_batch expected_counts loadable_total batch_maximum =
     map (\<lambda>(i, outcome).
       (i, if expected_of expected_counts i > 0 \<and> (case outcome of Loaded _ \<Rightarrow> True | _ \<Rightarrow> False)
           then BatchLimitExceeded loadable_total batch_maximum else outcome))"

fun check_counts :: "(string \<rightharpoonup> nat) \<Rightarrow> outcomes \<Rightarrow> notmuch_error + unit" where
  "check_counts expected_counts [] = Inr ()"
| "check_counts expected_counts ((i, outcome) # rest) =
     (case outcome of
        Loaded messages \<Rightarrow>
          if length messages \<noteq> expected_of expected_counts i
          then Inl (InconsistentThreadMessages i (expected_of expected_counts i) (length messages))
          else check_counts expected_counts rest
      | _ \<Rightarrow> check_counts expected_counts rest)"

definition thread_messages_for_threads_bounded ::
  "'d query_lib \<Rightarrow> string list \<Rightarrow> nat \<Rightarrow> nat \<Rightarrow> 'd \<Rightarrow> (notmuch_error + outcomes) \<times> 'd" where
  "thread_messages_for_threads_bounded lib thread_ids thread_maximum batch_maximum d =
     (let requested = btree_of id thread_ids in
      if requested = [] then (Inr [], d)
      else
        (let options = \<lparr>qo_limit = usize_max, qo_offset = 0, qo_sort = OldestFirst, qo_excluded_tags = []\<rparr> in
         case create_query lib (thread_query requested) options d of
           Inl e \<Rightarrow> (Inl e, d)
         | Inr query \<Rightarrow>
             (case checked (ql_search_threads lib query d) of
                (Inl e, d) \<Rightarrow> (Inl e, d)
              | (Inr threads, d) \<Rightarrow>
                  (let (outcomes, expected_counts, loadable_total) =
                         fold (note_thread requested thread_maximum) (it_items threads)
                           (map (\<lambda>i. (i, Loaded [])) requested, Map.empty, 0) in
                   case check_iterator threads (length (it_items threads)) of
                     Inl e \<Rightarrow> (Inl e, d)
                   | Inr _ \<Rightarrow>
                       if loadable_total > batch_maximum
                       then (Inr (refuse_batch expected_counts loadable_total batch_maximum outcomes), d)
                       else if loadable_total = 0 then (Inr outcomes, d)
                       else
                         (case checked (ql_search_messages lib query d) of
                            (Inl e, d) \<Rightarrow> (Inl e, d)
                          | (Inr messages, d) \<Rightarrow>
                              (let outcomes = fold note_message (it_items messages) outcomes in
                               (and_then (check_iterator messages (length (it_items messages))) (\<lambda>_.
                                map_ok (\<lambda>_. outcomes) (check_counts expected_counts outcomes)), d)))))))"

section \<open>Reading an iterator\<close>

abbreviation somes :: "'a option list \<Rightarrow> 'a list" where
  "somes items \<equiv> map the (filter (\<lambda>i. i \<noteq> None) items)"

lemma take_items_reads:
  "take_items offset limit read moved skipped out items = Inr (out', n) \<Longrightarrow> length out \<le> limit \<Longrightarrow>
     \<exists>ys. collect_results read (take (limit - length out) (drop (offset - skipped) (somes items))) = Inr ys \<and>
          out' = out @ ys"
proof (induction offset limit read moved skipped out items rule: take_items.induct)
  case (1 offset limit read moved skipped out)
  then show ?case by simp
next
  case (2 offset limit read moved skipped out item items)
  show ?case
  proof (cases item)
    case None
    with 2 show ?thesis by (auto split: if_splits)
  next
    case (Some x)
    show ?thesis
    proof (cases "offset \<le> skipped \<and> length out < limit")
      case True
      with 2(3) Some obtain y where y: "read x = Inr y" by (auto simp: result_simps)
      show ?thesis
      proof (cases "length (out @ [y]) \<ge> limit")
        case True': True
        with True have one: "limit - length out = 1" by simp linarith
        from 2(3) Some True y True' have "out' = out @ [y]" by simp
        with True y show ?thesis by (simp add: one Some)
      next
        case False
        have off: "offset - skipped = 0" "offset - (skipped + 1) = 0" using True by simp_all
        have lim: "limit - length out = Suc (limit - length (out @ [y]))" using True by (simp add: Suc_diff_Suc)
        from 2(3) Some True y False have
          "take_items offset limit read (moved + 1) (skipped + 1) (out @ [y]) items = Inr (out', n)" by simp
        moreover have "length (out @ [y]) \<le> limit" using True by simp
        ultimately obtain ys where "collect_results read (take (limit - length (out @ [y])) (somes items)) = Inr ys"
          "out' = (out @ [y]) @ ys"
          using 2(2) [OF Some, of "out @ [y]"] True y False off by auto
        then show ?thesis unfolding lim off Some using y by simp
      qed
    next
      case False
      show ?thesis
      proof (cases "length out \<ge> limit")
        case True
        with 2(3,4) Some False show ?thesis by simp
      next
        case lt: False
        with False have off: "offset - skipped = Suc (offset - (skipped + 1))" by simp
        from 2(3) Some False lt have
          "take_items offset limit read (moved + 1) (skipped + 1) out items = Inr (out', n)" by simp
        with 2(2) [OF Some, of out] False lt 2(4) show ?thesis unfolding off Some by simp
      qed
    qed
  qed
qed

lemma read_iterator_reads:
  "read_iterator offset limit read iterator = Inr ys \<Longrightarrow>
     collect_results read (take limit (drop offset (somes (it_items iterator)))) = Inr ys"
  using take_items_reads [of offset limit read 0 0 "[]" "it_items iterator"]
  by (auto simp: read_iterator_def result_simps)

section \<open>The paging loop\<close>

lemma push_unique_append: "push_unique key inconsistent acc xs = Inr acc' \<Longrightarrow> acc' = acc @ xs"
  by (induction key inconsistent acc xs rule: push_unique.induct) (auto split: if_splits)

lemma push_unique_distinct:
  "push_unique key inconsistent acc xs = Inr acc' \<Longrightarrow> distinct (map key acc) \<Longrightarrow> distinct (map key acc')"
  by (induction key inconsistent acc xs rule: push_unique.induct) (auto split: if_splits)

lemma page_loop_whole:
  assumes "page_loop fetch key inconsistent page_size n offset acc d = (Inr out, d')" "distinct (map key acc)"
  shows "distinct (map key out) \<and> length out = n"
  using assms
proof (induction fetch key inconsistent page_size n offset acc d rule: page_loop.induct)
  case (1 fetch key inconsistent page_size n offset acc d)
  show ?case
  proof (cases "offset < n")
    case False
    with 1(2,3) show ?thesis by (simp add: page_loop.simps split: if_splits)
  next
    case True
    with 1(2) obtain items d1 acc1 where
      "fetch offset (min page_size (n - offset)) (length acc) d = (Inr items, d1)"
      "push_unique key inconsistent acc items = Inr acc1" "length items \<noteq> 0"
      "page_loop fetch key inconsistent page_size n (offset + length items) acc1 d1 = (Inr out, d')"
      by (auto simp: page_loop.simps [of fetch key inconsistent page_size n offset] split: prod.splits sum.splits if_splits)
    with 1(1) [OF True] 1(3) push_unique_distinct show ?thesis by (metis (no_types, lifting))
  qed
qed

lemma page_loop_contents:
  assumes "page_loop fetch key inconsistent page_size (length C) offset acc d = (Inr out, d')"
    and "acc = take offset C" "offset \<le> length C" "Q d"
    and fetch: "\<And>offset limit items d d'. offset \<le> length C \<Longrightarrow> Q d \<Longrightarrow> fetch offset limit offset d = (Inr items, d') \<Longrightarrow>
      items = take limit (drop offset C) \<and> Q d'"
  shows "out = C \<and> Q d'"
  using assms(1-4)
proof (induction "length C - offset" arbitrary: offset acc d rule: less_induct)
  case less
  show ?case
  proof (cases "offset < length C")
    case False
    with less(2-5) show ?thesis by (simp add: page_loop.simps split: if_splits)
  next
    case True
    from True less(3) have len: "length acc = offset" by simp
    from True less(2) obtain items d1 acc1 where
      f: "fetch offset (min page_size (length C - offset)) offset d = (Inr items, d1)"
      and u: "push_unique key inconsistent acc items = Inr acc1" "length items \<noteq> 0"
      and r: "page_loop fetch key inconsistent page_size (length C) (offset + length items) acc1 d1 = (Inr out, d')"
      by (auto simp: page_loop.simps [of fetch key inconsistent page_size "length C" offset] len
          split: prod.splits sum.splits if_splits)
    from fetch [OF less(4,5) f] have items: "items = take (min page_size (length C - offset)) (drop offset C)" and Q: "Q d1"
      by auto
    have "acc1 = take (offset + length items) C"
      using push_unique_append [OF u(1)] less(3) items by (simp add: take_add)
    moreover have "offset + length items \<le> length C" using items less(4) by simp
    moreover have "length C - (offset + length items) < length C - offset" using True u(2) by linarith
    ultimately show ?thesis using less(1) [OF _ r] Q by blast
  qed
qed


section \<open>Snapshots of a thread\<close>

text \<open>
  What counting and searching promise on a handle that is open for writing. \<open>execute\_tag\_worker\<close>
  opens the database read-write, which takes its exclusive lock, so nobody else changes it meanwhile
  and reading it changes neither what is in the threads nor a tag. The messages of a thread are those
  its query finds, and \<open>notmuch\_query\_count\_messages\<close> is the number of messages the search finds.
\<close>

definition thread_query_of :: "string \<Rightarrow> sort_order \<Rightarrow> notmuch_query" where
  "thread_query_of thread_id order =
     \<lparr>nq_text = exact_term_query ''thread'' thread_id, nq_sort = order, nq_excluded = []\<rparr>"

definition database_kept :: "('d, 'm) notmuch_lib \<Rightarrow> ('d \<Rightarrow> string \<Rightarrow> string list) \<Rightarrow> 'd \<Rightarrow> 'd \<Rightarrow> bool" where
  "database_kept lib contents d d' \<longleftrightarrow> tags_kept lib d d' \<and> contents d' = contents d"

definition reading_laws :: "'d query_lib \<Rightarrow> ('d, 'm) notmuch_lib \<Rightarrow> ('d \<Rightarrow> string \<Rightarrow> string list) \<Rightarrow> bool" where
  "reading_laws qlib lib contents \<longleftrightarrow>
     (\<forall>q d n d'. ql_count_messages qlib q d = (Inr n, d') \<longrightarrow> database_kept lib contents d d') \<and>
     (\<forall>q d messages d'. ql_search_messages qlib q d = (Inr messages, d') \<longrightarrow> database_kept lib contents d d') \<and>
     (\<forall>thread_id order d n d'. ql_count_messages qlib (thread_query_of thread_id order) d = (Inr n, d') \<longrightarrow>
        n = length (contents d thread_id)) \<and>
     (\<forall>thread_id d messages d'.
        ql_search_messages qlib (thread_query_of thread_id MessageIdOrder) d = (Inr messages, d') \<longrightarrow>
        map rm_id (somes (it_items messages)) = map Some (contents d thread_id))"

lemma database_kept_refl: "database_kept lib contents d d"
  by (simp add: database_kept_def tags_kept_def)

lemma database_kept_trans:
  "database_kept lib contents d d' \<Longrightarrow> database_kept lib contents d' d'' \<Longrightarrow> database_kept lib contents d d''"
  by (auto simp: database_kept_def intro: tags_kept_trans)

lemma reading_lawsD:
  assumes "reading_laws qlib lib contents"
  shows "ql_count_messages qlib q d = (Inr n, d') \<Longrightarrow> database_kept lib contents d d'"
    and "ql_search_messages qlib q d = (Inr messages, d') \<Longrightarrow> database_kept lib contents d d'"
    and "ql_count_messages qlib (thread_query_of thread_id order) d = (Inr n, d') \<Longrightarrow>
      n = length (contents d thread_id)"
    and "ql_search_messages qlib (thread_query_of thread_id MessageIdOrder) d = (Inr messages, d') \<Longrightarrow>
      map rm_id (somes (it_items messages)) = map Some (contents d thread_id)"
  using assms unfolding reading_laws_def by blast+

lemma create_thread_query:
  "create_query lib (exact_term_query ''thread'' thread_id)
     \<lparr>qo_limit = l, qo_offset = i, qo_sort = order, qo_excluded_tags = []\<rparr> d = Inr q \<Longrightarrow>
   q = thread_query_of thread_id order"
  by (auto simp: create_query_def thread_query_of_def cstring_def result_simps split: if_splits)

lemma collect_required_ids:
  "map rm_id ms = map Some ids \<Longrightarrow> collect_results required_message_id ms = Inr ids"
  by (induction ms arbitrary: ids) (auto simp: required_message_id_def Cons_eq_map_conv map_eq_Cons_conv)

lemma thread_message_ids_page_exact:
  assumes "thread_message_ids_page qlib thread_id offset limit r d = (Inr page, d')"
    and "reading_laws qlib lib contents"
  shows "tp_items page = take limit (drop offset (contents d thread_id)) \<and>
    tp_total page = length (contents d thread_id) \<and> database_kept lib contents d d'"
proof -
  let ?options = "\<lparr>qo_limit = limit, qo_offset = offset, qo_sort = MessageIdOrder, qo_excluded_tags = []\<rparr>"
  let ?q = "thread_query_of thread_id MessageIdOrder"
  note laws = reading_lawsD [OF assms(2)]
  from assms(1) have r: "ql_revision qlib d = r"
    by (auto simp: thread_message_ids_page_def check_thread_tag_snapshot_revision_def split: sum.splits if_splits)
  from assms(1) obtain q where "create_query qlib (exact_term_query ''thread'' thread_id) ?options d = Inr q"
    by (auto simp: thread_message_ids_page_def Let_def split: sum.splits)
  with create_thread_query have q: "create_query qlib (exact_term_query ''thread'' thread_id) ?options d = Inr ?q"
    by metis
  from assms(1) obtain n d1 where n: "ql_count_messages qlib ?q d = (Inr n, d1)"
    by (cases "ql_count_messages qlib ?q d")
      (auto simp: thread_message_ids_page_def Let_def q checked_def result_simps split: sum.splits)
  note counted = laws(1) [OF n] laws(3) [OF n]
  show ?thesis
  proof (cases "limit = 0 \<or> n \<le> offset")
    case True
    with assms(1) n q r have "d1 = d'" "tp_items page = []" "tp_total page = n"
      by (auto simp: thread_message_ids_page_def Let_def checked_def check_thread_tag_snapshot_revision_def
          split: sum.splits if_splits)
    with counted True show ?thesis by auto
  next
    case False
    obtain searched d2 where s: "search_message_ids_with_query qlib ?q ?options d1 = (searched, d2)" by fastforce
    with False assms(1) n q r obtain ids where ids: "searched = Inr ids"
      by (cases searched)
        (auto simp: thread_message_ids_page_def Let_def checked_def check_thread_tag_snapshot_revision_def)
    note s = s [unfolded this]
    from False assms(1) n q r s have d': "d2 = d'" "tp_items page = ids" "tp_total page = n"
      by (auto simp: thread_message_ids_page_def Let_def checked_def check_thread_tag_snapshot_revision_def
          split: sum.splits if_splits)
    from s obtain it where it: "ql_search_messages qlib ?q d1 = (Inr it, d2)"
      and ids: "read_iterator offset limit required_message_id it = Inr ids"
      by (cases "ql_search_messages qlib ?q d1")
        (auto simp: search_message_ids_with_query_def checked_def result_simps)
    have "map rm_id (somes (it_items it)) = map Some (contents d thread_id)"
      using laws(4) [OF it] counted(1) by (simp add: database_kept_def)
    then have "map rm_id (take limit (drop offset (somes (it_items it)))) = map Some (take limit (drop offset (contents d thread_id)))"
      by (metis take_map drop_map)
    from collect_required_ids [OF this] read_iterator_reads [OF ids] have
      "ids = take limit (drop offset (contents d thread_id))" by simp
    with counted d' database_kept_trans [OF counted(1) laws(2) [OF it]] show ?thesis by simp
  qed
qed

lemma thread_message_ids_bounded_exact:
  assumes "thread_message_ids_bounded qlib thread_id maximum r d = (Inr ids, d')"
    and "reading_laws qlib lib contents"
  shows "ids = contents d thread_id \<and> length ids \<le> maximum \<and> distinct ids \<and> database_kept lib contents d d'"
proof -
  obtain snapshot d1 where s: "thread_message_ids_page qlib thread_id 0 0 r d = (Inr snapshot, d1)"
    using assms(1) by (auto simp: thread_message_ids_bounded_def split: prod.splits sum.splits)
  note page = thread_message_ids_page_exact [OF s assms(2)]
  let ?fetch = "\<lambda>offset limit loaded d'.
      (case thread_message_ids_page qlib thread_id offset limit r d' of
         (Inl e, d') \<Rightarrow> (Inl e, d')
       | (Inr page, d') \<Rightarrow>
           (map_ok (\<lambda>_. tp_items page)
              (check_thread_message_id_page_snapshot thread_id r (length (contents d thread_id)) loaded page), d'))"
  have run: "page_loop ?fetch id (InconsistentThreadMessages thread_id (length (contents d thread_id)))
      THREAD_MESSAGE_ID_PAGE_SIZE (length (contents d thread_id)) 0 [] d1 = (Inr ids, d')"
    and bound: "length (contents d thread_id) \<le> maximum"
    using assms(1) s page by (auto simp: thread_message_ids_bounded_def Let_def split: if_splits)
  have "ids = contents d thread_id \<and> database_kept lib contents d d'"
  proof (rule page_loop_contents [OF run])
    fix offset limit items d2 d3
    assume kept: "database_kept lib contents d d2" and "?fetch offset limit offset d2 = (Inr items, d3)"
    then obtain page where p: "thread_message_ids_page qlib thread_id offset limit r d2 = (Inr page, d3)"
      and "items = tp_items page"
      by (auto simp: result_simps split: prod.splits sum.splits)
    with thread_message_ids_page_exact [OF p assms(2)] kept
    show "items = take limit (drop offset (contents d thread_id)) \<and> database_kept lib contents d d3"
      using database_kept_trans [OF kept] by (simp add: database_kept_def)
  qed (use page in auto)
  with page_loop_whole [OF run] bound show ?thesis by simp
qed

section \<open>Reading several threads\<close>

lemma sorted_fold_btree_insert:
  "sorted_wrt (<) acc \<Longrightarrow> sorted_wrt (<) (fold (btree_insert id) xs acc)"
  by (induction xs arbitrary: acc) (auto simp: sorted_btree_insert)

lemma distinct_btree_of: "distinct (btree_of id xs)"
  using sorted_fold_btree_insert [of "[]" xs] by (simp add: btree_of_def strict_sorted_iff)

definition loadable :: "(string \<rightharpoonup> nat) \<Rightarrow> string \<times> bounded_thread_messages \<Rightarrow> nat" where
  "loadable counts o' = (case snd o' of Loaded _ \<Rightarrow> expected_of counts (fst o') | _ \<Rightarrow> 0)"

text \<open>
  While the threads are counted: every outcome is of a requested thread, in order; a thread
  still to be loaded is within the limit, and their sum is bounded by the running total.
\<close>

definition counted :: "string list \<Rightarrow> nat \<Rightarrow> outcomes \<times> (string \<rightharpoonup> nat) \<times> nat \<Rightarrow> bool" where
  "counted requested thread_maximum = (\<lambda>(outcomes, counts, sum).
     map fst outcomes = requested \<and>
     (\<forall>(i, outcome) \<in> set outcomes. \<forall>messages. outcome = Loaded messages \<longrightarrow>
        messages = [] \<and> expected_of counts i \<le> thread_maximum) \<and>
     (sum < usize_max \<longrightarrow> sum_list (map (loadable counts) outcomes) \<le> sum))"

lemma loadable_other: "fst o' \<noteq> i \<Longrightarrow> loadable (counts(i \<mapsto> n)) o' = loadable counts o'"
  by (simp add: loadable_def expected_of_def split: bounded_thread_messages.splits)

lemma sum_loadable_update:
  assumes "distinct (map fst outcomes)"
  shows "sum_list (map (loadable (counts(i \<mapsto> n))) outcomes) \<le> sum_list (map (loadable counts) outcomes) + n"
  using assms
proof (induction outcomes)
  case (Cons x xs)
  show ?case
  proof (cases "fst x = i")
    case True
    with Cons.prems have "map (loadable (counts(i \<mapsto> n))) xs = map (loadable counts) xs"
      by (intro map_cong refl loadable_other) (auto simp: image_iff)
    moreover have "loadable (counts(i \<mapsto> n)) x \<le> n"
      using True by (simp add: loadable_def expected_of_def split: bounded_thread_messages.splits)
    ultimately show ?thesis by (simp del: map_eq_conv fun_upd_apply add: fun_upd_def [symmetric])
  next
    case False
    from Cons loadable_other [OF this, of counts n] show ?thesis by (simp del: fun_upd_apply)
  qed
qed simp

lemma sum_loadable_refused:
  assumes "\<And>m. o' \<noteq> Loaded m"
  shows "sum_list (map (loadable (counts(i \<mapsto> n))) (set_outcome i o' outcomes)) \<le>
     sum_list (map (loadable counts) outcomes)"
proof (induction outcomes)
  case (Cons x xs)
  have "loadable (counts(i \<mapsto> n)) (if fst x = i then (fst x, o') else x) \<le> loadable counts x"
    using assms by (cases o') (auto simp: loadable_def expected_of_def split: bounded_thread_messages.splits)
  moreover have "set_outcome i o' (x # xs) = (if fst x = i then (fst x, o') else x) # set_outcome i o' xs"
    by (cases x) (simp add: set_outcome_def)
  ultimately show ?case using Cons by (simp only: list.map sum_list.Cons add_mono)
qed (simp add: set_outcome_def)

lemma note_thread_counted:
  assumes "counted requested thread_maximum st" "distinct requested"
  shows "counted requested thread_maximum (note_thread requested thread_maximum thread st)"
proof -
  obtain outcomes counts sum where st: "st = (outcomes, counts, sum)" by (cases st)
  show ?thesis
  proof (cases "\<exists>t. thread = Some t \<and> rt_thread_id t \<in> set requested")
    case False
    with assms(1) show ?thesis by (auto simp: note_thread_def st Let_def split: option.splits)
  next
    case True
    then obtain t where t: "thread = Some t" "rt_thread_id t \<in> set requested" by blast
    let ?i = "rt_thread_id t" and ?n = "nat (rt_total_messages t)"
    from assms(1) have keys: "map fst outcomes = requested" by (simp add: counted_def st)
    show ?thesis
    proof (cases "?n > thread_maximum")
      case True
      have "map fst (set_outcome ?i o' outcomes) = requested" for o'
        unfolding keys [symmetric] by (simp add: set_outcome_def comp_def case_prod_beta if_distrib cong: if_cong)
      moreover have "\<forall>(j, outcome) \<in> set (set_outcome ?i (ThreadLimitExceeded ?i ?n thread_maximum) outcomes).
          \<forall>messages. outcome = Loaded messages \<longrightarrow>
            messages = [] \<and> expected_of (counts(?i \<mapsto> ?n)) j \<le> thread_maximum"
        using assms(1) by (auto simp: counted_def st set_outcome_def expected_of_def split: if_splits)
      moreover have "sum_list (map (loadable (counts(?i \<mapsto> ?n)))
          (set_outcome ?i (ThreadLimitExceeded ?i ?n thread_maximum) outcomes)) \<le> sum" if "sum < usize_max"
        using sum_loadable_refused [of "ThreadLimitExceeded ?i ?n thread_maximum" counts ?i ?n outcomes] assms(1) that
        by (fastforce simp: counted_def st)
      ultimately show ?thesis
        using True t by (simp add: note_thread_def st counted_def Let_def)
    next
      case False
      have "\<forall>(j, outcome) \<in> set outcomes. \<forall>messages. outcome = Loaded messages \<longrightarrow>
            messages = [] \<and> expected_of (counts(?i \<mapsto> ?n)) j \<le> thread_maximum"
        using assms(1) False by (auto simp: counted_def st expected_of_def)
      moreover have "sum_list (map (loadable (counts(?i \<mapsto> ?n))) outcomes) \<le> sum + ?n" if "sum < usize_max"
        using sum_loadable_update [of outcomes counts ?i ?n] assms that by (auto simp: counted_def st)
      ultimately show ?thesis
        using False t keys by (auto simp: note_thread_def st counted_def min_def Let_def)
    qed
  qed
qed

lemma fold_note_thread_counted:
  assumes "distinct requested" "counted requested thread_maximum st"
  shows "counted requested thread_maximum (fold (note_thread requested thread_maximum) threads st)"
  using assms(2) by (induction threads arbitrary: st) (simp_all add: note_thread_counted [OF _ assms(1)])

lemma nothing_counted: "counted requested thread_maximum (map (\<lambda>i. (i, Loaded [])) requested, Map.empty, 0)"
  by (auto simp: counted_def comp_def loadable_def expected_of_def)

text \<open>Loading keeps which outcomes are loads; the final check makes their lengths exact.\<close>

lemma loadable_note_message:
  "map fst (note_message message outcomes) = map fst outcomes \<and>
   map (loadable counts) (note_message message outcomes) = map (loadable counts) outcomes"
  by (auto simp: note_message_def loadable_def comp_def case_prod_beta split: option.splits bounded_thread_messages.splits)

lemma loadable_note_messages:
  "map fst (fold note_message messages outcomes) = map fst outcomes \<and>
   map (loadable counts) (fold note_message messages outcomes) = map (loadable counts) outcomes"
  by (induction messages arbitrary: outcomes) (auto simp: loadable_note_message)

lemma note_messages_loaded:
  "(i, Loaded ms) \<in> set (fold note_message messages outcomes) \<Longrightarrow> \<exists>ms'. (i, Loaded ms') \<in> set outcomes"
proof (induction messages arbitrary: outcomes)
  case (Cons m messages)
  then obtain ms' where "(i, Loaded ms') \<in> set (note_message m outcomes)" by auto
  then show ?case
    by (auto simp: note_message_def split: option.splits if_splits bounded_thread_messages.splits)
qed auto

lemma check_counts_Inr:
  "check_counts counts outcomes = Inr u \<Longrightarrow> (i, Loaded messages) \<in> set outcomes \<Longrightarrow>
     length messages = expected_of counts i"
  by (induction counts outcomes rule: check_counts.induct) (auto split: bounded_thread_messages.splits if_splits)

definition loaded_length :: "string \<times> bounded_thread_messages \<Rightarrow> nat" where
  "loaded_length o' = (case snd o' of Loaded messages \<Rightarrow> length messages | _ \<Rightarrow> 0)"

text \<open>
  C28. Reading several threads at once stays within both limits, whatever the database returns:
  there is one outcome for each requested thread, a thread that is loaded has at most the
  per-thread maximum, and all loaded messages together are at most the batch maximum.
\<close>

theorem batch_read_within_limits:
  assumes "thread_messages_for_threads_bounded lib thread_ids thread_maximum batch_maximum d = (Inr outcomes, d')"
    and "batch_maximum < usize_max"
  shows "map fst outcomes = btree_of id thread_ids \<and>
    (\<forall>i messages. (i, Loaded messages) \<in> set outcomes \<longrightarrow> length messages \<le> thread_maximum) \<and>
    sum_list (map loaded_length outcomes) \<le> batch_maximum"
proof (cases "btree_of id thread_ids = []")
  case True
  with assms(1) show ?thesis by (simp add: thread_messages_for_threads_bounded_def)
next
  case False
  let ?req = "btree_of id thread_ids"
  from assms(1) False obtain query threads d1 where
    q: "create_query lib (thread_query ?req)
        \<lparr>qo_limit = usize_max, qo_offset = 0, qo_sort = OldestFirst, qo_excluded_tags = []\<rparr> d = Inr query"
    and t: "checked (ql_search_threads lib query d) = (Inr threads, d1)"
    by (auto simp: thread_messages_for_threads_bounded_def Let_def split: sum.splits prod.splits)
  obtain read counts sum where f: "fold (note_thread ?req thread_maximum) (it_items threads)
      (map (\<lambda>i. (i, Loaded [])) ?req, Map.empty, 0) = (read, counts, sum)" by (metis prod.collapse)
  from fold_note_thread_counted [OF distinct_btree_of nothing_counted, of thread_ids thread_maximum "it_items threads"]
  have counted: "counted ?req thread_maximum (read, counts, sum)" unfolding f .
  then have keys: "map fst read = ?req"
    and empty: "\<And>i messages. (i, Loaded messages) \<in> set read \<Longrightarrow> messages = [] \<and> expected_of counts i \<le> thread_maximum"
    and sum: "sum < usize_max \<Longrightarrow> sum_list (map (loadable counts) read) \<le> sum"
    by (auto simp: counted_def)
  consider (refused) "sum > batch_maximum" "outcomes = refuse_batch counts sum batch_maximum read"
    | (none) "outcomes = read"
    | (loaded) messages where "sum \<le> batch_maximum" "outcomes = fold note_message messages read"
        "check_counts counts outcomes = Inr ()"
    using assms(1) False q t f
    by (auto simp: thread_messages_for_threads_bounded_def Let_def result_simps split: sum.splits prod.splits if_splits)
  then show ?thesis
  proof cases
    case refused
    have *: "(i, Loaded messages) \<in> set outcomes \<Longrightarrow> messages = []" for i messages
      using empty by (auto simp: refused(2) refuse_batch_def split: if_splits)
    then have "sum_list (map loaded_length outcomes) = 0"
      by (auto simp: loaded_length_def split: bounded_thread_messages.splits)
    moreover have "map fst outcomes = ?req"
      unfolding keys [symmetric] by (simp add: refused(2) refuse_batch_def comp_def case_prod_beta)
    ultimately show ?thesis by (auto dest: * simp del: sum_list_eq_0_iff)
  next
    case none
    then have "sum_list (map loaded_length outcomes) = 0"
      using empty by (auto simp: loaded_length_def split: bounded_thread_messages.splits)
    then show ?thesis using none keys by (auto dest: empty simp del: sum_list_eq_0_iff)
  next
    case loaded
    note same = loadable_note_messages [of messages read counts, folded loaded(2)]
    have exact: "length ms = expected_of counts i" if "(i, Loaded ms) \<in> set outcomes" for i ms
      using check_counts_Inr [OF loaded(3) that] .
    then have "map loaded_length outcomes = map (loadable counts) outcomes"
      by (auto simp: loaded_length_def loadable_def split: bounded_thread_messages.splits)
    moreover have "length ms \<le> thread_maximum" if "(i, Loaded ms) \<in> set outcomes" for i ms
      using note_messages_loaded [of i ms messages read] that exact [OF that] empty by (auto simp: loaded(2))
    ultimately show ?thesis using same keys sum loaded(1) assms(2) by simp
  qed
qed


definition sample_message :: "string \<Rightarrow> string \<Rightarrow> raw_message" where
  "sample_message i t = \<lparr>rm_id = Some i, rm_summary =
     \<lparr>ms_message_id = i, ms_thread_id = t, ms_date = 0, ms_from = [], ms_to = [], ms_cc = [],
      ms_subject = [], ms_tags = [], ms_filenames = []\<rparr>\<rparr>"

definition sample_thread :: "string \<Rightarrow> int \<Rightarrow> raw_thread" where
  "sample_thread t n = \<lparr>rt_thread_id = t, rt_subject = [], rt_authors = [], rt_oldest_date = 0, rt_newest_date = 0,
     rt_matched_messages = n, rt_total_messages = n, rt_tags = []\<rparr>"

text \<open>Two threads, one of them too long.\<close>

definition sample_queries :: "unit query_lib" where
  "sample_queries =
     \<lparr>ql_revision = \<lambda>d. \<lparr>rv_revision = 1, rv_uuid = ''u''\<rparr>, ql_create = \<lambda>q d. True,
      ql_exclude = \<lambda>q t d. Excluded,
      ql_count_messages = \<lambda>q d. (Inr 1, d), ql_count_threads = \<lambda>q d. (Inr 2, d),
      ql_search_messages = \<lambda>q d.
        (Inr \<lparr>it_items = [Some (sample_message ''a@x'' ''1''), Some (sample_message ''b@x'' ''2''), None],
              it_status = \<lambda>n. None\<rparr>, d),
      ql_search_threads = \<lambda>q d.
        (Inr \<lparr>it_items = [Some (sample_thread ''1'' 1), Some (sample_thread ''2'' 5)], it_status = \<lambda>n. None\<rparr>, d),
      ql_show_error = \<lambda>e. ''error''\<rparr>"

definition sample_outcomes :: outcomes where
  "sample_outcomes = [(''1'', Loaded [rm_summary (sample_message ''a@x'' ''1'')]), (''2'', ThreadLimitExceeded ''2'' 5 3)]"

lemma sample_read:
  "thread_messages_for_threads_bounded sample_queries [''2'', ''1''] 3 10 () = (Inr sample_outcomes, ())"
  by code_simp

lemma batch_read_within_limits_witness: "sum_list (map loaded_length sample_outcomes) \<le> 10"
  using batch_read_within_limits [OF sample_read] by (simp add: usize_max_def)

end
