(* ===== verification/Thread_Tags.thy ===== *)
theory Thread_Tags
  imports Thread_Snapshot
begin

text \<open>
  Tagging whole threads and query results (\<open>apply_tags_to_threads\<close>, \<open>apply_tags_to_query\<close> of
  \<open>notm-notmuch/src/database.rs\<close>) and the worker that runs tag operations for the interface
  (\<open>notm-ui/src/main\_window.rs\<close>).  The targets are captured before anything is changed, with
  the revision of the database checked around every page that is read.
\<close>

section \<open>Threads\<close>

record thread_resolution_failure =
  rf_thread_id :: string
  rf_detail :: string

record thread_tag_report =
  tr_thread_ids :: "string list"
  tr_missing_thread_ids :: "string list"
  tr_thread_resolution_failures :: "thread_resolution_failure list"
  tr_matched_threads :: nat
  tr_changed_threads :: nat
  tr_added :: "string list"
  tr_removed :: "string list"
  tr_batch :: tag_batch_report

definition thread_report_is_complete :: "thread_tag_report \<Rightarrow> bool" where
  "thread_report_is_complete self \<longleftrightarrow>
     tr_missing_thread_ids self = [] \<and> tr_thread_resolution_failures self = [] \<and> is_complete (tr_batch self)"

definition isolated_thread_resolution_failure :: "notmuch_error \<Rightarrow> bool" where
  "isolated_thread_resolution_failure error =
     (case error of NulError _ \<Rightarrow> True | ThreadMessageLimitExceeded _ _ _ \<Rightarrow> True | _ \<Rightarrow> False)"

text \<open>The targets found so far; \<open>message_threads\<close> is ordered by message identifier.\<close>

record thread_targets =
  tt_missing :: "string list"
  tt_failures :: "thread_resolution_failure list"
  tt_message_threads :: "(string \<times> string) list"
  tt_matched :: nat

definition no_targets :: thread_targets where
  "no_targets = \<lparr>tt_missing = [], tt_failures = [], tt_message_threads = [], tt_matched = 0\<rparr>"

definition note_messages :: "string \<Rightarrow> string list \<Rightarrow> thread_targets \<Rightarrow> thread_targets" where
  "note_messages thread_id message_ids targets =
     targets\<lparr>tt_matched := min usize_max (tt_matched targets + 1),
             tt_message_threads :=
               fold (\<lambda>message_id. btree_insert fst (message_id, thread_id)) message_ids (tt_message_threads targets)\<rparr>"

fun resolve_threads ::
  "'d query_lib \<Rightarrow> revision \<Rightarrow> string list \<Rightarrow> thread_targets \<Rightarrow> 'd \<Rightarrow> (notmuch_error + thread_targets) \<times> 'd" where
  "resolve_threads lib snapshot_revision [] targets d = (Inr targets, d)"
| "resolve_threads lib snapshot_revision (thread_id # thread_ids) targets d =
     (case thread_message_ids_bounded lib thread_id MAX_THREAD_TAG_MESSAGES snapshot_revision d of
        (Inr message_ids, d) \<Rightarrow>
          (if message_ids = []
           then resolve_threads lib snapshot_revision thread_ids
                  (targets\<lparr>tt_missing := tt_missing targets @ [thread_id]\<rparr>) d
           else resolve_threads lib snapshot_revision thread_ids (note_messages thread_id message_ids targets) d)
      | (Inl error, d) \<Rightarrow>
          (case error of
             ThreadTagSnapshotChanged _ _ \<Rightarrow> (Inl error, d)
           | _ \<Rightarrow>
               if isolated_thread_resolution_failure error
               then resolve_threads lib snapshot_revision thread_ids
                      (targets\<lparr>tt_failures := tt_failures targets @
                         [\<lparr>rf_thread_id = thread_id, rf_detail = ql_show_error lib error\<rparr>]\<rparr>) d
               else (Inl (ThreadTagSnapshotFailed (ql_show_error lib error)), d)))"

text \<open>Keep the first of equal identifiers.\<close>

fun unique_ids :: "string list \<Rightarrow> string set \<Rightarrow> string list" where
  "unique_ids [] seen = []"
| "unique_ids (i # ids) seen = (if i \<in> seen then unique_ids ids seen else i # unique_ids ids (insert i seen))"

definition changed_thread_count :: "(string \<times> string) list \<Rightarrow> applied_tag_change list \<Rightarrow> nat" where
  "changed_thread_count message_threads changes =
     length (btree_of id (concat (map (\<lambda>change. option_list (map_of message_threads (ac_message_id change))) changes)))"

definition apply_tags_to_threads ::
  "'d query_lib \<Rightarrow> ('d, 'm) notmuch_lib \<Rightarrow> string list \<Rightarrow> tag_mutation \<Rightarrow> 'd \<Rightarrow>
   (notmuch_error + thread_tag_report) \<times> 'd" where
  "apply_tags_to_threads qlib lib thread_ids mutation d =
     (case validate_mutation mutation of
        Inl e \<Rightarrow> (Inl e, d)
      | Inr _ \<Rightarrow>
     (let unique_thread_ids = unique_ids thread_ids {};
          snapshot_revision = ql_revision qlib d in
      case resolve_threads qlib snapshot_revision unique_thread_ids no_targets d of
        (Inl e, d) \<Rightarrow> (Inl e, d)
      | (Inr targets, d) \<Rightarrow>
     (case check_thread_tag_snapshot_revision snapshot_revision (ql_revision qlib d) of
        Inl e \<Rightarrow> (Inl e, d)
      | Inr _ \<Rightarrow>
     (case map_err (\<lambda>e. ThreadTagSnapshotFailed (ql_show_error qlib e))
             (prepare_uniform_mutations (map fst (tt_message_threads targets)) mutation) of
        Inl e \<Rightarrow> (Inl e, d)
      | Inr prepared \<Rightarrow>
     (case check_thread_tag_snapshot_revision snapshot_revision (ql_revision qlib d) of
        Inl e \<Rightarrow> (Inl e, d)
      | Inr _ \<Rightarrow>
     (case apply_prepared_tag_mutations lib prepared d of
        (Inl e, d) \<Rightarrow> (Inl e, d)
      | (Inr batch, d) \<Rightarrow>
          (Inr \<lparr>tr_thread_ids = unique_thread_ids, tr_missing_thread_ids = tt_missing targets,
                tr_thread_resolution_failures = tt_failures targets, tr_matched_threads = tt_matched targets,
                tr_changed_threads = changed_thread_count (tt_message_threads targets) (br_changes batch),
                tr_added = tm_add mutation, tr_removed = tm_remove mutation, tr_batch = batch\<rparr>, d)))))))"

section \<open>Queries\<close>

record tag_operation_report =
  to_query :: string
  to_added :: "string list"
  to_removed :: "string list"
  to_batch :: tag_batch_report

definition operation_is_complete :: "tag_operation_report \<Rightarrow> bool" where
  "operation_is_complete self = is_complete (to_batch self)"

definition apply_tags_to_query ::
  "'d query_lib \<Rightarrow> ('d, 'm) notmuch_lib \<Rightarrow> string \<Rightarrow> tag_mutation \<Rightarrow> 'd \<Rightarrow>
   (notmuch_error + tag_operation_report) \<times> 'd" where
  "apply_tags_to_query qlib lib query mutation d =
     (case validate_mutation mutation of
        Inl e \<Rightarrow> (Inl e, d)
      | Inr _ \<Rightarrow>
     (let options = \<lparr>qo_limit = usize_max, qo_offset = 0, qo_sort = Unsorted, qo_excluded_tags = []\<rparr> in
      case search_messages qlib query options d of
        (Inl e, d) \<Rightarrow> (Inl e, d)
      | (Inr messages, d) \<Rightarrow>
     (case prepare_uniform_mutations (map ms_message_id messages) mutation of
        Inl e \<Rightarrow> (Inl e, d)
      | Inr prepared \<Rightarrow>
     (case apply_prepared_tag_mutations lib prepared d of
        (Inl e, d) \<Rightarrow> (Inl e, d)
      | (Inr batch, d) \<Rightarrow>
          (Inr \<lparr>to_query = query, to_added = tm_add mutation, to_removed = tm_remove mutation, to_batch = batch\<rparr>, d)))))"

section \<open>The tag worker\<close>

record undo_tag_action =
  ua_mutations :: "message_tag_mutation list"
  ua_sync_maildir_flags :: bool
  ua_label :: string
  ua_detail :: "string option"

datatype tag_worker_operation =
    ThreadsOperation "string list" tag_mutation
  | MessagesOperation "message_tag_mutation list" bool
  | UndoActions "undo_tag_action list"

record tag_worker_result =
  tw_report :: tag_batch_report
  tw_operation_errors :: "string list"
  tw_discard_retained_message_state :: bool

definition worker_is_complete :: "tag_worker_result \<Rightarrow> bool" where
  "worker_is_complete self \<longleftrightarrow> is_complete (tw_report self) \<and> tw_operation_errors self = []"

definition merge_tag_batch_report :: "tag_batch_report \<Rightarrow> tag_batch_report \<Rightarrow> tag_batch_report" where
  "merge_tag_batch_report combined report =
     \<lparr>br_requested_messages = min usize_max (br_requested_messages combined + br_requested_messages report),
      br_changed_messages = min usize_max (br_changed_messages combined + br_changed_messages report),
      br_changes = br_changes combined @ br_changes report,
      br_path_states = br_path_states combined @ br_path_states report,
      br_failures = br_failures combined @ br_failures report,
      br_finalization_errors = br_finalization_errors combined @ br_finalization_errors report\<rparr>"


definition thread_operation_errors :: "thread_tag_report \<Rightarrow> string list" where
  "thread_operation_errors report =
     (if tr_missing_thread_ids report \<noteq> []
      then [show_nat (length (tr_missing_thread_ids report)) @
            '' exact target thread ID(s) disappeared before mutation: '' @ join '', '' (tr_missing_thread_ids report)]
      else []) @
     (if tr_thread_resolution_failures report \<noteq> []
      then [show_nat (length (tr_thread_resolution_failures report)) @
            '' exact target thread ID(s) were rejected before their messages were mutated: '' @
            join ''; '' (map (\<lambda>failure. rf_thread_id failure @ '' ('' @ rf_detail failure @ '')'')
                           (tr_thread_resolution_failures report))]
      else [])"

text \<open>The report, the errors of the operation and whether retained message state is discarded.\<close>

type_synonym operation_result = "notmuch_error + tag_batch_report \<times> string list \<times> bool"

definition thread_tag_worker_operation_result ::
  "(notmuch_error \<Rightarrow> string) \<Rightarrow> notmuch_error + thread_tag_report \<Rightarrow> operation_result" where
  "thread_tag_worker_operation_result show_error result =
     (case result of
        Inr report \<Rightarrow>
          Inr (tr_batch report, thread_operation_errors report,
               tr_missing_thread_ids report \<noteq> [] \<or> tr_thread_resolution_failures report \<noteq> [])
      | Inl error \<Rightarrow>
          (case error of
             ThreadTagSnapshotChanged _ _ \<Rightarrow>
               Inr (empty_batch, [''exact tag target snapshot was invalidated: '' @ show_error error], True)
           | ThreadTagSnapshotFailed _ \<Rightarrow>
               Inr (empty_batch, [''exact tag target snapshot was invalidated: '' @ show_error error], True)
           | _ \<Rightarrow> Inl error))"

text \<open>The selected undo actions run in order and stop at the first that is not complete.\<close>

fun run_undo_actions ::
  "('d, 'm) notmuch_lib \<Rightarrow> nat \<Rightarrow> undo_tag_action list \<Rightarrow> nat \<Rightarrow> tag_batch_report \<Rightarrow> 'd \<Rightarrow>
   (tag_batch_report \<times> string list) \<times> 'd" where
  "run_undo_actions lib action_count [] index combined d = ((combined, []), d)"
| "run_undo_actions lib action_count (action # actions) index combined d =
     (let left = action_count - (index + 1) in
      case apply_tags_to_messages lib (ua_mutations action) (ua_sync_maildir_flags action) d of
        (Inl error, d) \<Rightarrow>
          ((combined,
            [''selected undo action '' @ show_nat (index + 1) @ '' failed before a report was available: '' @
             nm_show_error lib error] @
            (if left > 0 then [''stopped before '' @ show_nat left @ '' later selected undo action(s)''] else [])), d)
      | (Inr report, d) \<Rightarrow>
          (let combined = merge_tag_batch_report combined report in
           if is_complete report then run_undo_actions lib action_count actions (index + 1) combined d
           else ((combined,
                  if left > 0
                  then [''stopped before '' @ show_nat left @ '' later selected undo action(s) after a partial result'']
                  else []), d)))"

definition run_tag_operation ::
  "'d query_lib \<Rightarrow> ('d, 'm) notmuch_lib \<Rightarrow> tag_worker_operation \<Rightarrow> 'd \<Rightarrow> operation_result \<times> 'd" where
  "run_tag_operation qlib lib operation d =
     (case operation of
        ThreadsOperation thread_ids mutation \<Rightarrow>
          (let (result, d) = apply_tags_to_threads qlib lib thread_ids mutation d in
           (thread_tag_worker_operation_result (ql_show_error qlib) result, d))
      | MessagesOperation mutations sync_maildir_flags \<Rightarrow>
          (let (result, d) = apply_tags_to_messages lib mutations sync_maildir_flags d in
           (map_ok (\<lambda>report. (report, [], False)) result, d))
      | UndoActions actions \<Rightarrow>
          (let ((combined, operation_errors), d) = run_undo_actions lib (length actions) actions 0 empty_batch d in
           (Inr (combined, operation_errors, False), d)))"

datatype worker_error = OperationFailed notmuch_error | OperationAndCloseFailed notmuch_error string

definition finalize_tag_worker_result :: "operation_result \<Rightarrow> string + unit \<Rightarrow> worker_error + tag_worker_result" where
  "finalize_tag_worker_result operation_result close_result =
     (case (operation_result, close_result) of
        (Inr (report, operation_errors, discard), Inr _) \<Rightarrow>
          Inr \<lparr>tw_report = report, tw_operation_errors = operation_errors, tw_discard_retained_message_state = discard\<rparr>
      | (Inr (report, operation_errors, discard), Inl error) \<Rightarrow>
          Inr \<lparr>tw_report = record_finalization_error (''database close/commit failed: '' @ error) report,
               tw_operation_errors = operation_errors, tw_discard_retained_message_state = discard\<rparr>
      | (Inl error, Inr _) \<Rightarrow> Inl (OperationFailed error)
      | (Inl error, Inl close_error) \<Rightarrow> Inl (OperationAndCloseFailed error close_error))"

text \<open>Opening and closing the database are external.\<close>

definition execute_tag_worker ::
  "(notmuch_error + 'd) \<Rightarrow> ('d \<Rightarrow> (string + unit) \<times> 'd) \<Rightarrow> 'd query_lib \<Rightarrow> ('d, 'm) notmuch_lib \<Rightarrow>
   tag_worker_operation \<Rightarrow> (worker_error + tag_worker_result) \<times> 'd option" where
  "execute_tag_worker opened close qlib lib operation =
     (case opened of
        Inl e \<Rightarrow> (Inl (OperationFailed e), None)
      | Inr d \<Rightarrow>
          (let (operation_result, d) = run_tag_operation qlib lib operation d;
               (close_result, d) = close d in
           (finalize_tag_worker_result operation_result close_result, Some d)))"

section \<open>The undo history\<close>

definition MAX_UNDO_TAG_ACTIONS :: nat where "MAX_UNDO_TAG_ACTIONS = 30"

text \<open>Each operation also hands a snapshot of the history to the thread that stores it.\<close>

definition push_undo_tag_action :: "undo_tag_action \<Rightarrow> undo_tag_action list \<Rightarrow> undo_tag_action list" where
  "push_undo_tag_action action actions =
     (let actions = actions @ [action] in
      if length actions > MAX_UNDO_TAG_ACTIONS then drop (length actions - MAX_UNDO_TAG_ACTIONS) actions else actions)"

definition restore_undo_tag_actions_in_memory ::
  "undo_tag_action list \<Rightarrow> undo_tag_action list \<Rightarrow> undo_tag_action list" where
  "restore_undo_tag_actions_in_memory history actions =
     (let history = history @ rev actions in
      if length history > MAX_UNDO_TAG_ACTIONS then drop (length history - MAX_UNDO_TAG_ACTIONS) history else history)"

definition pop_last_undo_tag_action :: "undo_tag_action list \<Rightarrow> undo_tag_action option \<times> undo_tag_action list" where
  "pop_last_undo_tag_action actions =
     (if actions = [] then (None, []) else (Some (last actions), butlast actions))"

definition remove_undo_tag_action :: "nat \<Rightarrow> undo_tag_action list \<Rightarrow> undo_tag_action option \<times> undo_tag_action list" where
  "remove_undo_tag_action index actions =
     (if index \<ge> length actions then (None, actions)
      else (Some (actions ! index), take index actions @ drop (index + 1) actions))"

definition tag_mutation_label :: "tag_mutation \<Rightarrow> string" where
  "tag_mutation_label mutation =
     (let adds = (if tm_add mutation = [] then [] else ''+'' @ join '' +'' (tm_add mutation));
          removes = (if tm_remove mutation = [] then [] else ''-'' @ join '' -'' (tm_remove mutation)) in
      join '' '' (filter (\<lambda>part. part \<noteq> []) [adds, removes]))"

definition message_tag_undo_label :: "tag_mutation \<Rightarrow> nat \<Rightarrow> string" where
  "message_tag_undo_label mutation changed_messages =
     tag_mutation_label mutation @ '' on 1 message ('' @ show_nat changed_messages @ '' changed)''"

text \<open>A comma after every third digit from the right; the argument is the digits, last first.\<close>

fun group_digits :: "nat \<Rightarrow> string \<Rightarrow> string" where
  "group_digits index [] = []"
| "group_digits index (ch # digits) =
     (if index > 0 \<and> index mod 3 = 0 then [CHR '',''] else []) @ [ch] @ group_digits (index + 1) digits"

definition format_count :: "nat \<Rightarrow> string" where
  "format_count n = rev (group_digits 0 (rev (show_nat n)))"

definition tag_target_status_label :: "nat \<Rightarrow> string" where
  "tag_target_status_label n =
     (if n = 0 then ''no threads'' else if n = 1 then ''1 thread'' else format_count n @ '' threads'')"

definition tag_undo_label :: "tag_mutation \<Rightarrow> nat \<Rightarrow> nat \<Rightarrow> string" where
  "tag_undo_label mutation target_threads changed_messages =
     tag_mutation_label mutation @ '' on '' @ tag_target_status_label target_threads @
     '' ('' @ show_nat changed_messages @ '' changed)''"

section \<open>After an operation\<close>

definition tag_report_has_uncertain_retained_state :: "tag_batch_report \<Rightarrow> bool" where
  "tag_report_has_uncertain_retained_state report \<longleftrightarrow>
     br_finalization_errors report \<noteq> [] \<or>
     list_ex (\<lambda>failure.
       (case tf_stage failure of
          Lookup \<Rightarrow> False
        | MaildirFlagSync \<Rightarrow>
            list_ex (\<lambda>file. sf_current_filename file \<noteq> Some (sf_previous_filename file)) (tf_file_failures failure)
        | _ \<Rightarrow> True)) (br_failures report)"

definition tag_report_requires_fresh_message_state :: "tag_batch_report \<Rightarrow> bool" where
  "tag_report_requires_fresh_message_state report \<longleftrightarrow>
     list_ex (\<lambda>failure. tf_stage failure = Lookup) (br_failures report)"

text \<open>The history after a finished operation (\<open>apply_completed_tag_report\<close>).\<close>

datatype pending_tag_ui_action =
    PendingThreads "string list" tag_mutation "string option"
  | PendingMessage message_summary tag_mutation string
  | PendingUndo "undo_tag_action list"

definition history_after_report ::
  "pending_tag_ui_action \<Rightarrow> tag_batch_report \<Rightarrow> bool \<Rightarrow> undo_tag_action list \<Rightarrow> undo_tag_action list" where
  "history_after_report ui_action report complete history =
     (let inverse_mutations = inverse_tag_mutations (br_changes report) in
      case ui_action of
        PendingThreads target_thread_ids mutation undo_detail \<Rightarrow>
          if inverse_mutations \<noteq> []
          then push_undo_tag_action
                 \<lparr>ua_mutations = inverse_mutations, ua_sync_maildir_flags = tm_sync_maildir_flags mutation,
                  ua_label = tag_undo_label mutation (length target_thread_ids) (br_changed_messages report),
                  ua_detail = undo_detail\<rparr> history
          else history
      | PendingMessage message mutation detail \<Rightarrow>
          if inverse_mutations \<noteq> []
          then push_undo_tag_action
                 \<lparr>ua_mutations = inverse_mutations, ua_sync_maildir_flags = tm_sync_maildir_flags mutation,
                  ua_label = message_tag_undo_label mutation (br_changed_messages report),
                  ua_detail = Some detail\<rparr> history
          else history
      | PendingUndo actions \<Rightarrow>
          if complete then history else restore_undo_tag_actions_in_memory history actions)"

section \<open>Targets\<close>

lemma fst_btree_insert: "fst ` set (btree_insert fst x xs) = insert (fst x) (fst ` set xs)"
  by (induction "fst :: 'a \<times> 'b \<Rightarrow> 'a::linorder" x xs rule: btree_insert.induct) auto

lemma distinct_btree_insert:
  "sorted_wrt (<) (map fst xs) \<Longrightarrow> sorted_wrt (<) (map fst (btree_insert fst x xs))"
proof (induction "fst :: 'a \<times> 'b \<Rightarrow> 'a::linorder" x xs rule: btree_insert.induct)
  case (2 x y ys)
  have "\<forall>k \<in> fst ` set (btree_insert fst x ys). fst y < k" if "fst y < fst x"
    using 2(2) that by (auto simp: fst_btree_insert)
  with 2 show ?case by (auto simp: image_iff)
qed simp

lemma note_messages_keys:
  "fst ` set (tt_message_threads (note_messages thread_id ids targets)) =
     set ids \<union> fst ` set (tt_message_threads targets)"
proof -
  have "fst ` set (fold (\<lambda>i. btree_insert fst (i, thread_id)) ids xs) = set ids \<union> fst ` set xs" for xs
    by (induction ids arbitrary: xs) (auto simp: fst_btree_insert)
  then show ?thesis by (simp add: note_messages_def)
qed

lemma note_messages_same [simp]:
  "tt_missing (note_messages thread_id ids targets) = tt_missing targets"
  "tt_failures (note_messages thread_id ids targets) = tt_failures targets"
  by (simp_all add: note_messages_def)

lemma resolve_threads_step:
  assumes "resolve_threads lib r (thread_id # thread_ids) targets d = (Inr found, d')"
  obtains d1 where "thread_message_ids_bounded lib thread_id MAX_THREAD_TAG_MESSAGES r d = (Inr [], d1)"
      "resolve_threads lib r thread_ids (targets\<lparr>tt_missing := tt_missing targets @ [thread_id]\<rparr>) d1 = (Inr found, d')"
  | ids d1 where "ids \<noteq> []"
      "thread_message_ids_bounded lib thread_id MAX_THREAD_TAG_MESSAGES r d = (Inr ids, d1)"
      "resolve_threads lib r thread_ids (note_messages thread_id ids targets) d1 = (Inr found, d')"
  | failure d1 where
      "resolve_threads lib r thread_ids (targets\<lparr>tt_failures := tt_failures targets @ [failure]\<rparr>) d1 = (Inr found, d')"
proof -
  obtain result d1 where page: "thread_message_ids_bounded lib thread_id MAX_THREAD_TAG_MESSAGES r d = (result, d1)"
    by fastforce
  show ?thesis
  proof (cases result)
    case (Inr ids)
    with assms page that(1,2) show ?thesis by (cases "ids = []") auto
  next
    case (Inl e)
    with assms page that(3) show ?thesis by (cases e) (auto simp: isolated_thread_resolution_failure_def)
  qed
qed

lemma resolve_threads_grows:
  "resolve_threads lib r thread_ids targets d = (Inr found, d') \<Longrightarrow>
     (tt_missing found = [] \<longrightarrow> tt_missing targets = []) \<and> (tt_failures found = [] \<longrightarrow> tt_failures targets = [])"
proof (induction thread_ids arbitrary: targets d)
  case (Cons thread_id thread_ids)
  from Cons.prems show ?case
    by (rule resolve_threads_step) (use Cons.IH in \<open>force+\<close>)
qed simp

lemma resolve_threads_exact:
  assumes "resolve_threads qlib r thread_ids targets d = (Inr found, d')"
    and "tt_missing found = []" "tt_failures found = []" "reading_laws qlib lib contents"
  shows "(\<forall>t \<in> set thread_ids. contents d t \<noteq> []) \<and>
    fst ` set (tt_message_threads found) =
      fst ` set (tt_message_threads targets) \<union> (\<Union>t \<in> set thread_ids. set (contents d t)) \<and>
    database_kept lib contents d d'"
  using assms(1)
proof (induction thread_ids arbitrary: targets d)
  case Nil
  then show ?case by (simp add: database_kept_refl)
next
  case (Cons thread_id thread_ids)
  from Cons.prems show ?case
  proof (cases rule: resolve_threads_step)
    case (1 d1)
    with resolve_threads_grows [OF 1(2)] assms(2) show ?thesis by simp
  next
    case (2 ids d1)
    from thread_message_ids_bounded_exact [OF 2(2) assms(4)]
    have ids: "ids = contents d thread_id" and kept: "database_kept lib contents d d1" by auto
    then have same: "contents d1 = contents d" by (simp add: database_kept_def)
    note rest = Cons.IH [OF 2(3), unfolded same]
    with database_kept_trans [OF kept] have "database_kept lib contents d d'" by blast
    with 2(1) ids rest show ?thesis by (auto simp: note_messages_keys)
  next
    case (3 failure d1)
    with resolve_threads_grows [OF 3] assms(3) show ?thesis by simp
  qed
qed

lemma set_unique_ids: "set (unique_ids ids seen) = set ids - seen"
  by (induction ids seen rule: unique_ids.induct) auto

lemma tag_effect_twice [simp]: "tag_effect add remove (tag_effect add remove tags) = tag_effect add remove tags"
  by (auto simp: tag_effect_def)

lemma intended_uniform:
  assumes "\<forall>p \<in> set ps. pm_mutation p = mutation"
  shows "intended lib d m (map plain_mutation ps) tags =
    (if \<exists>p \<in> set ps. nm_find_message lib (pm_message_id p) d = Inr (Some m)
     then tag_effect (tm_add mutation) (tm_remove mutation) tags else tags)"
  using assms by (induction ps arbitrary: tags) (auto simp: plain_mutation_def)

lemma prepare_uniform_Inr:
  assumes "prepare_uniform_mutations ids mutation = Inr ps"
  shows "(\<forall>p \<in> set ps. pm_mutation p = mutation) \<and> map pm_message_id ps = ids"
  using assms unfolding prepare_uniform_mutations_def
  by (induction ids arbitrary: ps) (auto simp: result_simps)

text \<open>
  C6. Tagging threads is exact: when the report is complete, each of the given threads had
  messages, all of them were found, every message of these threads has exactly the tags the
  mutation calls for, and no other message of the database was touched. The threads are read page
  by page, with the number of messages and the revision checked on every page.
\<close>

theorem thread_tagging_exact:
  assumes "reading_laws qlib lib contents" "notmuch_laws lib"
    and "apply_tags_to_threads qlib lib thread_ids mutation d = (Inr report, d')"
    and "thread_report_is_complete report"
  defines "targets \<equiv> {m. \<exists>t \<in> set thread_ids. \<exists>i \<in> set (contents d t). nm_find_message lib i d = Inr (Some m)}"
  shows "(\<forall>t \<in> set thread_ids. contents d t \<noteq> [] \<and>
      (\<forall>i \<in> set (contents d t). \<exists>m. nm_find_message lib i d = Inr (Some m))) \<and>
    (\<forall>m. set (nm_tags lib d' m) =
      (if m \<in> targets then tag_effect (tm_add mutation) (tm_remove mutation) (set (nm_tags lib d m))
       else set (nm_tags lib d m)))"
proof -
  let ?r = "ql_revision qlib d"
  from assms(3) obtain found d1 prepared where
    resolved: "resolve_threads qlib ?r (unique_ids thread_ids {}) no_targets d = (Inr found, d1)"
    and prepared: "prepare_uniform_mutations (map fst (tt_message_threads found)) mutation = Inr prepared"
    and run: "apply_prepared_tag_mutations lib prepared d1 = (Inr (tr_batch report), d')"
    and parts: "tr_missing_thread_ids report = tt_missing found"
      "tr_thread_resolution_failures report = tt_failures found"
    by (auto simp: apply_tags_to_threads_def Let_def result_simps split: sum.splits prod.splits)
  from assms(4) parts have complete: "tt_missing found = []" "tt_failures found = []" "is_complete (tr_batch report)"
    by (simp_all add: thread_report_is_complete_def)
  from resolve_threads_exact [OF resolved complete(1,2) assms(1)] have
    nonempty: "\<forall>t \<in> set thread_ids. contents d t \<noteq> []" and
    keys: "fst ` set (tt_message_threads found) = (\<Union>t \<in> set thread_ids. set (contents d t))" and
    kept: "tags_kept lib d d1"
    by (auto simp: set_unique_ids no_targets_def database_kept_def)
  from prepare_uniform_Inr [OF prepared] have uniform: "\<forall>p \<in> set prepared. pm_mutation p = mutation"
    and "map pm_message_id prepared = map fst (tt_message_threads found)" by auto
  then have ids: "pm_message_id ` set prepared = (\<Union>t \<in> set thread_ids. set (contents d t))"
    unfolding keys [symmetric] by (metis image_set)
  note spec = apply_prepared_spec [OF run complete(3) assms(2)]
  have "m \<in> targets \<longleftrightarrow> (\<exists>p \<in> set prepared. nm_find_message lib (pm_message_id p) d = Inr (Some m))" for m
  proof -
    have "m \<in> targets \<longleftrightarrow> (\<exists>i \<in> pm_message_id ` set prepared. nm_find_message lib i d = Inr (Some m))"
      unfolding ids targets_def by blast
    then show ?thesis by simp
  qed
  then have "set (nm_tags lib d' m) =
      (if m \<in> targets then tag_effect (tm_add mutation) (tm_remove mutation) (set (nm_tags lib d m))
       else set (nm_tags lib d m))" for m
    using spec kept by (simp add: intended_uniform [OF uniform] tags_kept_def)
  moreover have "\<exists>m. nm_find_message lib i d = Inr (Some m)" if "t \<in> set thread_ids" "i \<in> set (contents d t)" for t i
  proof -
    from that ids have "i \<in> pm_message_id ` set prepared" by blast
    with spec kept show ?thesis by (auto simp: tags_kept_def)
  qed
  ultimately show ?thesis using nonempty by blast
qed


text \<open>A database of one thread with two messages that knows one tag, as a concrete instance.\<close>

definition inbox_only :: "(bool \<times> bool, bool) notmuch_lib" where
  "inbox_only =
     \<lparr>nm_message_id = \<lambda>d m. if m then ''a@x'' else ''b@x'',
      nm_tags = \<lambda>d m. if (if m then fst d else snd d) then [''inbox''] else [],
      nm_filenames = \<lambda>d m. [],
      nm_freeze = \<lambda>m d. (Inr (), d),
      nm_remove_tag = \<lambda>m t d. (Inr (), if t \<noteq> ''inbox'' then d else if m then (False, snd d) else (fst d, False)),
      nm_add_tag = \<lambda>m t d. if t \<noteq> ''inbox'' then (Inl ''full'', d)
                          else (Inr (), if m then (True, snd d) else (fst d, True)),
      nm_thaw = \<lambda>m d. (Inr (), d),
      nm_tags_to_maildir_flags = \<lambda>m d. (Inr (), d),
      nm_begin_atomic = \<lambda>d. (Inr (), d), nm_end_atomic = \<lambda>d. (Inr (), d),
      nm_find_message = \<lambda>i d. Inr (if i = ''a@x'' then Some True else if i = ''b@x'' then Some False else None),
      nm_is_file = \<lambda>d p. True, nm_show_error = \<lambda>e. ''error''\<rparr>"

definition one_thread :: "string \<Rightarrow> string list" where
  "one_thread query = (if query = exact_term_query ''thread'' ''1'' then [''a@x'', ''b@x''] else [])"

definition inbox_queries :: "(bool \<times> bool) query_lib" where
  "inbox_queries =
     \<lparr>ql_revision = \<lambda>d. \<lparr>rv_revision = 1, rv_uuid = ''u''\<rparr>,
      ql_create = \<lambda>q d. True, ql_exclude = \<lambda>q t d. Excluded,
      ql_count_messages = \<lambda>q d. (Inr (length (one_thread (nq_text q))), d),
      ql_count_threads = \<lambda>q d. (Inr 1, d),
      ql_search_messages = \<lambda>q d.
        (Inr \<lparr>it_items = map (\<lambda>i. Some \<lparr>rm_id = Some i, rm_summary =
                \<lparr>ms_message_id = i, ms_thread_id = ''1'', ms_date = 0, ms_from = [], ms_to = [], ms_cc = [],
                 ms_subject = [], ms_tags = [], ms_filenames = []\<rparr>\<rparr>) (one_thread (nq_text q)),
              it_status = \<lambda>n. None\<rparr>, d),
      ql_search_threads = \<lambda>q d. (Inr \<lparr>it_items = [], it_status = \<lambda>n. None\<rparr>, d),
      ql_show_error = \<lambda>e. ''error''\<rparr>"

lemma inbox_notmuch_laws: "notmuch_laws inbox_only"
  unfolding notmuch_laws_def
  by (intro conjI) (auto simp: inbox_only_def tags_kept_def tags_become_def split: if_splits)

lemma inbox_reading_laws: "reading_laws inbox_queries inbox_only (\<lambda>d t. one_thread (exact_term_query ''thread'' t))"
proof -
  have "ql_count_messages inbox_queries q d = (Inr (length (one_thread (nq_text q))), d)"
    "ql_search_messages inbox_queries q d = (Inr messages, d') \<longleftrightarrow>
      d' = d \<and> messages = projr (fst (ql_search_messages inbox_queries q d))" for q d messages d'
    by (auto simp: inbox_queries_def)
  moreover have "map rm_id (somes (it_items (projr (fst (ql_search_messages inbox_queries q d))))) =
      map Some (one_thread (nq_text q))" for q d
    by (simp add: inbox_queries_def comp_def)
  ultimately show ?thesis
    by (simp add: reading_laws_def thread_query_of_def database_kept_def tags_kept_def)
qed

lemmas inbox_laws = inbox_reading_laws inbox_notmuch_laws

definition archived_thread :: "(notmuch_error + thread_tag_report) \<times> (bool \<times> bool)" where
  "archived_thread = apply_tags_to_threads inbox_queries inbox_only [''1'']
     \<lparr>tm_add = [], tm_remove = [''inbox''], tm_sync_maildir_flags = False\<rparr> (True, True)"

lemma archived_thread_complete:
  "apply_tags_to_threads inbox_queries inbox_only [''1'']
     \<lparr>tm_add = [], tm_remove = [''inbox''], tm_sync_maildir_flags = False\<rparr> (True, True) =
     (Inr (projr (fst archived_thread)), snd archived_thread)"
  "thread_report_is_complete (projr (fst archived_thread))"
  by code_simp+

lemma thread_tagging_exact_witness:
  "set (nm_tags inbox_only (snd archived_thread) False) = {}"
  using thread_tagging_exact [OF inbox_laws archived_thread_complete, THEN conjunct2, THEN spec, of False]
  by (simp add: one_thread_def) (simp add: inbox_only_def tag_effect_def)

end
