(* ===== verification/Link_Hints.thy ===== *)
theory Link_Hints
  imports Machine Rust_Str "HOL-Library.Word"
begin

text \<open>
  Keyboard hints on the links of an HTML message (\<open>notm-ui/src/widgets/link\_hints.rs\<close>): the
  controller with its phases, its labels and its callbacks.  The web view is outside: scripts
  that run in it answer later, with any result, and each answer carries the generation it was
  asked in.
\<close>

section \<open>Labels\<close>

definition LINK_HINT_ALPHABET :: string where
  "LINK_HINT_ALPHABET = ''asdfghjklqwertyuiopzxcvbnm''"

definition usize_limit :: nat where "usize_limit = 2 ^ 64 - 1"

text \<open>The capacity after a number of rounds of the width loop, by saturating products.\<close>

fun label_capacity :: "nat \<Rightarrow> nat" where
  "label_capacity 0 = length LINK_HINT_ALPHABET"
| "label_capacity (Suc n) = min usize_limit (label_capacity n * length LINK_HINT_ALPHABET)"

lemma alphabet_length [simp]: "length LINK_HINT_ALPHABET = 26"
  by (simp add: LINK_HINT_ALPHABET_def)

lemma label_capacity_pos: "0 < label_capacity n"
  by (induction n) (auto simp: usize_limit_def)

text \<open>A count is a \<open>usize\<close>: one above the limit does not occur.\<close>

function hint_label_width_loop :: "nat \<Rightarrow> nat \<Rightarrow> nat" where
  "hint_label_width_loop n rounds =
     (if label_capacity rounds < min n usize_limit then hint_label_width_loop n (rounds + 1) else rounds + 1)"
  by pat_completeness auto
termination
proof (relation "measure (\<lambda>(n, rounds). usize_limit - label_capacity rounds)")
  fix n rounds
  assume "label_capacity rounds < min n usize_limit"
  then have "label_capacity rounds < label_capacity (rounds + 1)" "label_capacity rounds < usize_limit"
    using label_capacity_pos [of rounds] by auto
  then show "((n, rounds + 1), n, rounds) \<in> measure (\<lambda>(n, rounds). usize_limit - label_capacity rounds)"
    by (simp del: label_capacity.simps)
qed simp

declare hint_label_width_loop.simps [simp del]

definition hint_label_width :: "nat \<Rightarrow> nat" where
  "hint_label_width n = hint_label_width_loop n 0"

text \<open>The digits of the index, last position first.\<close>

fun hint_label :: "nat \<Rightarrow> nat \<Rightarrow> string" where
  "hint_label index 0 = []"
| "hint_label index (Suc width) =
     hint_label (index div length LINK_HINT_ALPHABET) width @ [LINK_HINT_ALPHABET ! (index mod length LINK_HINT_ALPHABET)]"

definition link_hint_labels :: "nat \<Rightarrow> string list" where
  "link_hint_labels n =
     (if n = 0 then [] else map (\<lambda>index. hint_label index (hint_label_width n)) [0..<n])"

definition html_link_scheme_is_external_safe :: "string \<Rightarrow> bool" where
  "html_link_scheme_is_external_safe uri =
     (case split_once CHR '':'' uri of
        None \<Rightarrow> False
      | Some (scheme, rest) \<Rightarrow> to_ascii_lowercase scheme \<in> {''http'', ''https'', ''mailto''})"

section \<open>State\<close>

datatype link_hint_phase = Idle | AwaitingLoad | Collecting | Rendering | Active

definition is_loading :: "link_hint_phase \<Rightarrow> bool" where
  "is_loading phase \<longleftrightarrow> phase \<in> {AwaitingLoad, Collecting, Rendering}"

definition consumes_keys :: "link_hint_phase \<Rightarrow> bool" where
  "consumes_keys phase \<longleftrightarrow> phase \<noteq> Idle"

record link_hint_candidate =
  hc_label :: string
  hc_uri :: string

record link_hint_state =
  hs_phase :: link_hint_phase
  hs_generation :: "64 word"
  hs_prefix :: string
  hs_candidates :: "link_hint_candidate list"
  hs_overlay_count :: nat
  hs_collect_attempts :: nat

definition default_hint_state :: link_hint_state where
  "default_hint_state =
     \<lparr>hs_phase = Idle, hs_generation = 0, hs_prefix = [], hs_candidates = [], hs_overlay_count = 0,
      hs_collect_attempts = 0\<rparr>"

text \<open>A coordinate is the text of its number, \<open>None\<close> when it is not finite.\<close>

record visible_link_target =
  vt_uri :: string
  vt_x :: "string option"
  vt_y :: "string option"

record visible_link_collection =
  vc_targets :: "visible_link_target list"
  vc_eligible_count :: nat
  vc_laid_out_count :: nat

text \<open>What the controller asks of the outside.\<close>

datatype hint_action =
    CollectLinks "64 word"
  | RetryLater "64 word"
  | RenderHints "64 word" "(string \<times> visible_link_target) list"
  | RemoveOverlays
  | FilterOverlays string
  | SetStatus string
  | OpenLink string

definition ELLIPSIS :: string where
  "ELLIPSIS = [CHR 0xE2, CHR 0x80, CHR 0xA6]"

definition restarted :: "link_hint_phase \<Rightarrow> link_hint_state \<Rightarrow> link_hint_state" where
  "restarted phase state =
     state\<lparr>hs_generation := hs_generation state + 1, hs_prefix := [], hs_candidates := [], hs_overlay_count := 0,
           hs_collect_attempts := 0, hs_phase := phase\<rparr>"

definition start_hints :: "bool \<Rightarrow> link_hint_state \<Rightarrow> link_hint_state \<times> hint_action list" where
  "start_hints view_is_loading state =
     (let state = restarted (if view_is_loading then AwaitingLoad else Collecting) state in
      (state,
       [SetStatus (if view_is_loading then ''Link hints: waiting for Visual HTML to finish loading'' @ ELLIPSIS
                   else ''Link hints: finding visible links'' @ ELLIPSIS),
        RemoveOverlays] @
       (if view_is_loading then [] else [CollectLinks (hs_generation state)])))"

definition reset_hints :: "link_hint_state \<Rightarrow> bool \<times> link_hint_state" where
  "reset_hints state = (consumes_keys (hs_phase state), restarted Idle state)"

definition cancel_hints :: "link_hint_state \<Rightarrow> link_hint_state \<times> hint_action list" where
  "cancel_hints state =
     (let (was_active, state) = reset_hints state in
      (state, (if was_active then [SetStatus ''Link hints cancelled''] else []) @ [RemoveOverlays]))"

definition cancel_silent :: "link_hint_state \<Rightarrow> link_hint_state \<times> hint_action list" where
  "cancel_silent state = (snd (reset_hints state), [RemoveOverlays])"

definition fail_hints :: "64 word \<Rightarrow> string \<Rightarrow> link_hint_state \<Rightarrow> link_hint_state \<times> hint_action list" where
  "fail_hints generation message state =
     (if hs_generation state \<noteq> generation then (state, [])
      else (snd (reset_hints state), [RemoveOverlays, SetStatus message]))"

section \<open>Typing\<close>

datatype link_hint_input_outcome =
    OutcomeInactive
  | OutcomeLoading
  | OutcomeInvalid string string nat nat
  | OutcomeUpdated string nat nat
  | OutcomeSelected string

definition to_ascii_upper :: "char \<Rightarrow> char" where
  "to_ascii_upper c = (if is_ascii_lower c then char_of (bval c - 32) else c)"

definition matching_hint_count :: "link_hint_candidate list \<Rightarrow> string \<Rightarrow> nat" where
  "matching_hint_count candidates hint_prefix =
     length (filter (\<lambda>candidate. starts_with (hc_label candidate) hint_prefix) candidates)"

definition link_hint_prompt :: "string \<Rightarrow> nat \<Rightarrow> nat \<Rightarrow> string" where
  "link_hint_prompt hint_prefix matches all_hints =
     (if hint_prefix = [] then ''Link hints: type a displayed label ('' @ show_nat all_hints @ '' visible); Esc cancels''
      else ''Link hints: '' @ map to_ascii_upper hint_prefix @ '' ('' @ show_nat matches @ '' match'' @
           (if matches = 1 then [] else ''es'') @ ''); Backspace edits, Esc cancels'')"

definition apply_link_hint_char :: "link_hint_state \<Rightarrow> char \<Rightarrow> link_hint_input_outcome \<times> link_hint_state" where
  "apply_link_hint_char state input =
     (let attempted = hs_prefix state @ [input];
          matching = filter (\<lambda>candidate. starts_with (hc_label candidate) attempted) (hs_candidates state) in
      if matching = []
      then (OutcomeInvalid attempted (hs_prefix state) (matching_hint_count (hs_candidates state) (hs_prefix state))
              (length (hs_candidates state)), state)
      else (case List.find (\<lambda>candidate. hc_label candidate = attempted) matching of
              Some candidate \<Rightarrow> (OutcomeSelected (hc_uri candidate), restarted Idle state)
            | None \<Rightarrow>
                (OutcomeUpdated attempted (length matching) (length (hs_candidates state)), state\<lparr>hs_prefix := attempted\<rparr>)))"

fun apply_input_outcome :: "link_hint_input_outcome \<Rightarrow> hint_action list" where
  "apply_input_outcome OutcomeInactive = []"
| "apply_input_outcome OutcomeLoading = [SetStatus (''Link hints are still loading'' @ ELLIPSIS)]"
| "apply_input_outcome (OutcomeInvalid attempted hint_prefix matches all_hints) =
     [SetStatus (''No link hint starts with '' @ map to_ascii_upper attempted @ ''; '' @
        to_ascii_lowercase (link_hint_prompt hint_prefix matches all_hints))]"
| "apply_input_outcome (OutcomeUpdated hint_prefix matches all_hints) =
     [FilterOverlays hint_prefix, SetStatus (link_hint_prompt hint_prefix matches all_hints)]"
| "apply_input_outcome (OutcomeSelected uri) = [RemoveOverlays, OpenLink uri]"

definition TYPE_A_LETTER :: string where
  "TYPE_A_LETTER = ''Link hints: type a displayed letter, Backspace, or Esc''"

text \<open>A character is its code point.\<close>

definition lower_code_point :: "nat \<Rightarrow> nat" where
  "lower_code_point c = (if 65 \<le> c \<and> c \<le> 90 then c + 32 else c)"

definition input_char :: "nat \<Rightarrow> link_hint_state \<Rightarrow> link_hint_state \<times> hint_action list" where
  "input_char input state =
     (let input = lower_code_point input in
      if \<not> (input < 128 \<and> char_of input \<in> set LINK_HINT_ALPHABET) then (state, [SetStatus TYPE_A_LETTER])
      else
        (let (outcome, state) =
               (if is_loading (hs_phase state) then (OutcomeLoading, state)
                else if hs_phase state \<noteq> Active then (OutcomeInactive, state)
                else apply_link_hint_char state (char_of input)) in
         (state, apply_input_outcome outcome)))"

definition backspace :: "link_hint_state \<Rightarrow> link_hint_state \<times> hint_action list" where
  "backspace state =
     (if is_loading (hs_phase state) then (state, [SetStatus (''Link hints are still loading'' @ ELLIPSIS)])
      else if hs_phase state = Active then
        (let hint_prefix = butlast (hs_prefix state);
             matches = matching_hint_count (hs_candidates state) hint_prefix in
         (state\<lparr>hs_prefix := hint_prefix\<rparr>,
          [FilterOverlays hint_prefix, SetStatus (link_hint_prompt hint_prefix matches (length (hs_candidates state)))]))
      else (state, []))"

datatype hint_key = KeyEscape | KeyBackSpace | KeyChar nat | KeyOther

text \<open>The result says whether the key was consumed; the modifiers are control, alt and super.\<close>

definition handle_key :: "hint_key \<Rightarrow> bool \<Rightarrow> link_hint_state \<Rightarrow> bool \<times> link_hint_state \<times> hint_action list" where
  "handle_key key has_modifier state =
     (if \<not> consumes_keys (hs_phase state) then (False, state, [])
      else if key = KeyEscape then (True, cancel_hints state)
      else if key = KeyBackSpace then (True, backspace state)
      else if has_modifier then (True, state, [SetStatus TYPE_A_LETTER])
      else (case key of
              KeyChar c \<Rightarrow> (True, input_char c state)
            | _ \<Rightarrow> (True, state, [SetStatus TYPE_A_LETTER])))"

section \<open>Callbacks of the web view\<close>

definition load_started :: "link_hint_state \<Rightarrow> link_hint_state" where
  "load_started state = restarted (if hs_phase state = AwaitingLoad then AwaitingLoad else Idle) state"

definition load_finished :: "link_hint_state \<Rightarrow> link_hint_state \<times> hint_action list" where
  "load_finished state =
     (if hs_phase state \<noteq> AwaitingLoad then (state, [])
      else (state\<lparr>hs_phase := Collecting\<rparr>,
            [SetStatus (''Link hints: finding visible links'' @ ELLIPSIS), CollectLinks (hs_generation state)]))"

definition finish_collecting ::
  "64 word \<Rightarrow> string + visible_link_collection \<Rightarrow> link_hint_state \<Rightarrow> link_hint_state \<times> hint_action list" where
  "finish_collecting generation result state =
     (case result of
        Inl error \<Rightarrow> fail_hints generation (''Link hints failed: '' @ error) state
      | Inr collection \<Rightarrow>
          (let retry_layout = (vc_targets collection = [] \<and> vc_eligible_count collection > 0 \<and>
                               vc_laid_out_count collection = 0);
               targets = filter (\<lambda>target. vt_x target \<noteq> None \<and> vt_y target \<noteq> None \<and>
                                          html_link_scheme_is_external_safe (vt_uri target)) (vc_targets collection) in
           if targets = [] then
             (if retry_layout \<and> hs_generation state = generation \<and> hs_phase state = Collecting \<and>
                 hs_collect_attempts state < 10
              then (state\<lparr>hs_collect_attempts := hs_collect_attempts state + 1\<rparr>,
                    [SetStatus (''Link hints: waiting for the HTML layout'' @ ELLIPSIS), RetryLater generation])
              else if hs_generation state = generation
              then (snd (reset_hints state), [SetStatus ''No visible links in this HTML message''])
              else (state, []))
           else
             (let labels = link_hint_labels (length targets);
                  candidates = map (\<lambda>(target, label). \<lparr>hc_label = label, hc_uri = vt_uri target\<rparr>) (zip targets labels) in
              if hs_generation state \<noteq> generation \<or> hs_phase state \<noteq> Collecting then (state, [])
              else (state\<lparr>hs_phase := Rendering, hs_candidates := candidates\<rparr>,
                    [RenderHints generation (zip labels targets)]))))"

definition retry_collecting :: "64 word \<Rightarrow> link_hint_state \<Rightarrow> link_hint_state \<times> hint_action list" where
  "retry_collecting generation state =
     (state, if hs_generation state = generation \<and> hs_phase state = Collecting then [CollectLinks generation] else [])"

definition finish_rendering ::
  "64 word \<Rightarrow> nat \<Rightarrow> string + nat \<Rightarrow> link_hint_state \<Rightarrow> link_hint_state \<times> hint_action list" where
  "finish_rendering generation expected_count result state =
     (case result of
        Inl error \<Rightarrow> fail_hints generation (''Link hints failed: '' @ error) state
      | Inr rendered \<Rightarrow>
          if rendered \<noteq> expected_count
          then fail_hints generation
                 (''Link hints failed: rendered '' @ show_nat rendered @ '' of '' @ show_nat expected_count @ '' labels'') state
          else if hs_generation state \<noteq> generation \<or> hs_phase state \<noteq> Rendering then (state, [])
          else (state\<lparr>hs_phase := Active, hs_overlay_count := rendered\<rparr>,
                [SetStatus (link_hint_prompt (hs_prefix state) (length (hs_candidates state)) (length (hs_candidates state)))]))"


section \<open>The controller at work\<close>

text \<open>The system: the state, the callbacks still to come, and the links opened so far.\<close>

datatype hint_callback = PendingCollect "64 word" | PendingRetry "64 word" | PendingRender "64 word" nat

record hint_system =
  sy_hints :: link_hint_state
  sy_pending :: "hint_callback list"
  sy_opened :: "string list"

fun perform :: "hint_action \<Rightarrow> hint_system \<Rightarrow> hint_system" where
  "perform (CollectLinks generation) sys = sys\<lparr>sy_pending := sy_pending sys @ [PendingCollect generation]\<rparr>"
| "perform (RetryLater generation) sys = sys\<lparr>sy_pending := sy_pending sys @ [PendingRetry generation]\<rparr>"
| "perform (RenderHints generation overlays) sys =
     sys\<lparr>sy_pending := sy_pending sys @ [PendingRender generation (length overlays)]\<rparr>"
| "perform (OpenLink uri) sys = sys\<lparr>sy_opened := sy_opened sys @ [uri]\<rparr>"
| "perform RemoveOverlays sys = sys"
| "perform (FilterOverlays _) sys = sys"
| "perform (SetStatus _) sys = sys"

definition settle :: "link_hint_state \<times> hint_action list \<Rightarrow> hint_system \<Rightarrow> hint_system" where
  "settle r sys = fold perform (snd r) (sys\<lparr>sy_hints := fst r\<rparr>)"

datatype hint_event =
    StartHints bool
  | CancelHints
  | CancelSilent
  | PressKey hint_key bool
  | LoadStarted
  | LoadFinished
  | Unmap
  | Collected nat "string + visible_link_collection"
  | Retried nat
  | Rendered nat "string + nat"

definition without :: "nat \<Rightarrow> hint_system \<Rightarrow> hint_system" where
  "without n sys = sys\<lparr>sy_pending := take n (sy_pending sys) @ drop (Suc n) (sy_pending sys)\<rparr>"

definition pending_at :: "nat \<Rightarrow> hint_system \<Rightarrow> hint_callback option" where
  "pending_at n sys = (if n < length (sy_pending sys) then Some (sy_pending sys ! n) else None)"

text \<open>A collection has at most \<open>usize_limit\<close> targets: it is a vector.\<close>

fun hint_step :: "hint_event \<Rightarrow> hint_system \<Rightarrow> hint_system option" where
  "hint_step (StartHints loading) sys = Some (settle (start_hints loading (sy_hints sys)) sys)"
| "hint_step CancelHints sys = Some (settle (cancel_hints (sy_hints sys)) sys)"
| "hint_step CancelSilent sys = Some (settle (cancel_silent (sy_hints sys)) sys)"
| "hint_step (PressKey key has_modifier) sys =
     Some (settle (snd (handle_key key has_modifier (sy_hints sys))) sys)"
| "hint_step LoadStarted sys = Some (settle (load_started (sy_hints sys), []) sys)"
| "hint_step LoadFinished sys = Some (settle (load_finished (sy_hints sys)) sys)"
| "hint_step Unmap sys = Some (settle (cancel_silent (sy_hints sys)) sys)"
| "hint_step (Collected n result) sys =
     (case pending_at n sys of
        Some (PendingCollect generation) \<Rightarrow>
          (if (case result of Inr c \<Rightarrow> length (vc_targets c) \<le> usize_limit | Inl _ \<Rightarrow> True)
           then Some (settle (finish_collecting generation result (sy_hints sys)) (without n sys)) else None)
      | _ \<Rightarrow> None)"
| "hint_step (Retried n) sys =
     (case pending_at n sys of
        Some (PendingRetry generation) \<Rightarrow> Some (settle (retry_collecting generation (sy_hints sys)) (without n sys))
      | _ \<Rightarrow> None)"
| "hint_step (Rendered n result) sys =
     (case pending_at n sys of
        Some (PendingRender generation expected_count) \<Rightarrow>
          Some (settle (finish_rendering generation expected_count result (sy_hints sys)) (without n sys))
      | _ \<Rightarrow> None)"

definition hint_initial :: "hint_system \<Rightarrow> bool" where
  "hint_initial sys \<longleftrightarrow> sys = \<lparr>sy_hints = default_hint_state, sy_pending = [], sy_opened = []\<rparr>"

section \<open>Labels are distinct\<close>

lemma length_hint_label [simp]: "length (hint_label i w) = w"
  by (induction i w rule: hint_label.induct) auto

lemma alphabet_distinct: "i < 26 \<Longrightarrow> j < 26 \<Longrightarrow> LINK_HINT_ALPHABET ! i = LINK_HINT_ALPHABET ! j \<Longrightarrow> i = j"
proof -
  have "distinct LINK_HINT_ALPHABET" by (simp add: LINK_HINT_ALPHABET_def)
  then show "i < 26 \<Longrightarrow> j < 26 \<Longrightarrow> LINK_HINT_ALPHABET ! i = LINK_HINT_ALPHABET ! j \<Longrightarrow> i = j"
    by (simp add: nth_eq_iff_index_eq)
qed

lemma hint_label_inj: "i < 26 ^ w \<Longrightarrow> j < 26 ^ w \<Longrightarrow> hint_label i w = hint_label j w \<Longrightarrow> i = j"
proof (induction w arbitrary: i j)
  case (Suc w)
  from Suc.prems(3) have "hint_label (i div 26) w = hint_label (j div 26) w"
    and "LINK_HINT_ALPHABET ! (i mod 26) = LINK_HINT_ALPHABET ! (j mod 26)" by simp_all
  moreover from Suc.prems have "i div 26 < 26 ^ w" "j div 26 < 26 ^ w"
    by (simp_all add: less_mult_imp_div_less mult.commute)
  ultimately have "i div 26 = j div 26" "i mod 26 = j mod 26"
    using Suc.IH alphabet_distinct [of "i mod 26" "j mod 26"] by simp_all
  then show ?case by (metis div_mult_mod_eq)
qed simp

lemma label_capacity_power: "label_capacity n \<le> 26 ^ Suc n"
  by (induction n) (auto simp: min.coboundedI2)

lemma hint_label_width_loop_enough:
  "n \<le> usize_limit \<Longrightarrow> n \<le> 26 ^ hint_label_width_loop n rounds \<and> 0 < hint_label_width_loop n rounds"
proof (induction n rounds rule: hint_label_width_loop.induct)
  case (1 n rounds)
  show ?case
  proof (cases "label_capacity rounds < min n usize_limit")
    case True
    with 1 show ?thesis by (simp add: hint_label_width_loop.simps [of n rounds])
  next
    case False
    with 1(2) label_capacity_power [of rounds] show ?thesis
      by (simp add: hint_label_width_loop.simps [of n rounds])
  qed
qed

lemma labels_width: "label \<in> set (link_hint_labels n) \<Longrightarrow> length label = hint_label_width n"
  by (auto simp: link_hint_labels_def split: if_splits)

lemma hint_label_width_pos: "n \<le> usize_limit \<Longrightarrow> 0 < hint_label_width n"
  using hint_label_width_loop_enough [of n 0] by (simp add: hint_label_width_def)

lemma length_link_hint_labels [simp]: "length (link_hint_labels n) = n"
  by (simp add: link_hint_labels_def)

lemma link_hint_labels_distinct:
  assumes "n \<le> usize_limit"
  shows "distinct (link_hint_labels n)"
proof -
  have "i < 26 ^ hint_label_width n" if "i < n" for i
    using that hint_label_width_loop_enough [OF assms, of 0] by (simp add: hint_label_width_def)
  then have "inj_on (\<lambda>i. hint_label i (hint_label_width n)) {0..<n}"
    by (intro inj_onI) (meson atLeastLessThan_iff hint_label_inj)
  then show ?thesis by (simp add: link_hint_labels_def distinct_map)
qed

section \<open>Reachable states\<close>

definition has_hints :: "link_hint_phase \<Rightarrow> bool" where
  "has_hints phase \<longleftrightarrow> phase = Rendering \<or> phase = Active"

text \<open>
  While hints are shown they are labelled in order and lead to safe links; what was typed is a
  proper beginning of one of the labels.
\<close>

definition hints_ok :: "link_hint_state \<Rightarrow> bool" where
  "hints_ok state \<longleftrightarrow>
     (if has_hints (hs_phase state)
      then hs_candidates state \<noteq> [] \<and> length (hs_candidates state) \<le> usize_limit \<and>
           map hc_label (hs_candidates state) = link_hint_labels (length (hs_candidates state)) \<and>
           (\<forall>c \<in> set (hs_candidates state). html_link_scheme_is_external_safe (hc_uri c))
      else hs_candidates state = []) \<and>
     (if hs_phase state = Active
      then \<exists>c \<in> set (hs_candidates state). \<exists>x rest. hc_label c = hs_prefix state @ x # rest
      else hs_prefix state = [])"

definition result_ok :: "link_hint_state \<times> hint_action list \<Rightarrow> bool" where
  "result_ok r \<longleftrightarrow> hints_ok (fst r) \<and> (\<forall>uri. OpenLink uri \<in> set (snd r) \<longrightarrow> html_link_scheme_is_external_safe uri)"

definition system_ok :: "hint_system \<Rightarrow> bool" where
  "system_ok sys \<longleftrightarrow> hints_ok (sy_hints sys) \<and> (\<forall>uri \<in> set (sy_opened sys). html_link_scheme_is_external_safe uri)"

lemma restarted_ok [simp]: "\<not> has_hints phase \<Longrightarrow> hints_ok (restarted phase state)"
  by (simp add: hints_ok_def restarted_def has_hints_def)

lemma no_hints [simp]: "\<not> has_hints Idle" "\<not> has_hints AwaitingLoad" "\<not> has_hints Collecting"
  by (simp_all add: has_hints_def)

lemma hints_ok_attempts [simp]: "hints_ok (state\<lparr>hs_collect_attempts := n\<rparr>) = hints_ok state"
  by (simp add: hints_ok_def)

lemma result_ok_simple:
  "result_ok (start_hints loading state)" "result_ok (cancel_hints state)" "result_ok (cancel_silent state)"
  "result_ok (load_started state, [])"
  by (auto simp: result_ok_def start_hints_def cancel_hints_def cancel_silent_def reset_hints_def load_started_def Let_def)

lemma result_ok_fail: "hints_ok state \<Longrightarrow> result_ok (fail_hints generation message state)"
  by (simp add: result_ok_def fail_hints_def reset_hints_def)

lemma result_ok_load_finished: "hints_ok state \<Longrightarrow> result_ok (load_finished state)"
  by (simp add: result_ok_def load_finished_def hints_ok_def has_hints_def)

lemma result_ok_retry: "hints_ok state \<Longrightarrow> result_ok (retry_collecting generation state)"
  by (simp add: result_ok_def retry_collecting_def)

lemma labels_of_zip:
  "length labels = length targets \<Longrightarrow>
     map hc_label (map (\<lambda>(target, label). \<lparr>hc_label = label, hc_uri = vt_uri target\<rparr>) (zip targets labels)) = labels"
  by (induction targets labels rule: list_induct2') auto

lemma result_ok_collecting:
  assumes "hints_ok state" "case result of Inr c \<Rightarrow> length (vc_targets c) \<le> usize_limit | Inl _ \<Rightarrow> True"
  shows "result_ok (finish_collecting generation result state)"
proof (cases result)
  case (Inl e)
  with assms show ?thesis by (simp add: finish_collecting_def result_ok_fail)
next
  case (Inr c)
  let ?ts = "filter (\<lambda>target. vt_x target \<noteq> None \<and> vt_y target \<noteq> None \<and>
    html_link_scheme_is_external_safe (vt_uri target)) (vc_targets c)"
  let ?cs = "map (\<lambda>(target, label). \<lparr>hc_label = label, hc_uri = vt_uri target\<rparr>) (zip ?ts (link_hint_labels (length ?ts)))"
  show ?thesis
  proof (cases "?ts = []")
    case True
    have "finish_collecting generation result state \<in>
      {(state, []), (snd (reset_hints state), [SetStatus ''No visible links in this HTML message'']),
       (state\<lparr>hs_collect_attempts := hs_collect_attempts state + 1\<rparr>,
        [SetStatus (''Link hints: waiting for the HTML layout'' @ ELLIPSIS), RetryLater generation])}"
      unfolding finish_collecting_def Inr sum.case Let_def True by (simp only: refl if_True) auto
    then show ?thesis using assms(1) by (elim insertE emptyE) (simp_all add: result_ok_def reset_hints_def)
  next
    case False
    from assms(2) Inr have "length (vc_targets c) \<le> usize_limit" by simp
    then have "length ?ts \<le> usize_limit" by (rule order.trans [OF length_filter_le])
    moreover have "map hc_label ?cs = link_hint_labels (length ?ts)" by (rule labels_of_zip) simp
    moreover have "\<forall>x \<in> set ?cs. html_link_scheme_is_external_safe (hc_uri x)"
      by (auto dest: set_zip_leftD)
    moreover have "?cs \<noteq> []" "length ?cs = length ?ts" using False by (simp_all add: link_hint_labels_def)
    ultimately have rendering: "hints_ok (state\<lparr>hs_phase := Rendering, hs_candidates := ?cs\<rparr>)" if "hs_phase state = Collecting"
      using assms(1) that unfolding hints_ok_def has_hints_def by simp
    have "finish_collecting generation result state =
      (if hs_generation state \<noteq> generation \<or> hs_phase state \<noteq> Collecting then (state, [])
       else (state\<lparr>hs_phase := Rendering, hs_candidates := ?cs\<rparr>,
         [RenderHints generation (zip (link_hint_labels (length ?ts)) ?ts)]))"
      unfolding finish_collecting_def Inr sum.case Let_def using False by (simp only: if_False)
    with rendering assms(1) show ?thesis by (simp add: result_ok_def)
  qed
qed

lemma result_ok_rendering:
  assumes "hints_ok state"
  shows "result_ok (finish_rendering generation expected_count result state)"
proof -
  have "hints_ok (state\<lparr>hs_phase := Active, hs_overlay_count := n\<rparr>)" if "hs_phase state = Rendering" for n
  proof -
    from assms that have cs: "hs_candidates state \<noteq> []" "length (hs_candidates state) \<le> usize_limit"
      "map hc_label (hs_candidates state) = link_hint_labels (length (hs_candidates state))" "hs_prefix state = []"
      by (auto simp: hints_ok_def has_hints_def)
    then obtain c where c: "c \<in> set (hs_candidates state)" by (meson list.set_sel(1))
    with cs(3) have "length (hc_label c) = hint_label_width (length (hs_candidates state))"
      by (metis image_eqI image_set labels_width)
    with hint_label_width_pos [OF cs(2)] have "hc_label c \<noteq> []" by auto
    with c cs(4) assms that show ?thesis
      by (auto simp: hints_ok_def has_hints_def neq_Nil_conv intro!: bexI [of _ c])
  qed
  with assms result_ok_fail [OF assms] show ?thesis
    by (auto simp: finish_rendering_def result_ok_def split: sum.splits)
qed

lemma result_ok_backspace:
  assumes "hints_ok state"
  shows "result_ok (backspace state)"
proof -
  have "hints_ok (state\<lparr>hs_prefix := butlast (hs_prefix state)\<rparr>)" if "hs_phase state = Active"
  proof -
    from assms that obtain c x rest where c: "c \<in> set (hs_candidates state)" "hc_label c = hs_prefix state @ x # rest"
      by (auto simp: hints_ok_def)
    then have "\<exists>x rest. hc_label c = butlast (hs_prefix state) @ x # rest"
      by (cases "hs_prefix state" rule: rev_cases) auto
    with assms that c(1) show ?thesis by (auto simp: hints_ok_def has_hints_def)
  qed
  with assms show ?thesis by (simp add: backspace_def result_ok_def Let_def)
qed

lemma find_in_set: "List.find P xs = Some x \<Longrightarrow> x \<in> set xs \<and> P x"
  by (induction xs) (auto split: if_splits)

lemma find_misses: "List.find P xs = None \<Longrightarrow> x \<in> set xs \<Longrightarrow> \<not> P x"
  by (induction xs) (auto split: if_splits)

lemma apply_char_ok:
  assumes "hints_ok state" "hs_phase state = Active" "apply_link_hint_char state input = (outcome, state')"
  shows "result_ok (state', apply_input_outcome outcome)"
proof -
  let ?attempted = "hs_prefix state @ [input]"
  let ?matching = "filter (\<lambda>candidate. starts_with (hc_label candidate) ?attempted) (hs_candidates state)"
  show ?thesis
  proof (cases "?matching = []")
    case True
    with assms show ?thesis by (auto simp: apply_link_hint_char_def result_ok_def Let_def)
  next
    case False
    show ?thesis
    proof (cases "List.find (\<lambda>candidate. hc_label candidate = ?attempted) ?matching")
      case (Some c)
      then have "c \<in> set (hs_candidates state)" using find_in_set by fastforce
      with assms Some False show ?thesis
        by (auto simp: apply_link_hint_char_def result_ok_def hints_ok_def has_hints_def restarted_def Let_def)
    next
      case None
      from False obtain c where c: "c \<in> set ?matching" by (meson list.set_sel(1))
      then obtain t where t: "hc_label c = ?attempted @ t" by (auto simp: starts_with_iff)
      from None c have "hc_label c \<noteq> ?attempted" using find_misses by fastforce
      with t have "\<exists>x rest. hc_label c = ?attempted @ x # rest" by (cases t) auto
      with c have ex: "\<exists>c \<in> set (hs_candidates state). \<exists>x rest. hc_label c = ?attempted @ x # rest" by auto
      have "hints_ok (state\<lparr>hs_prefix := ?attempted\<rparr>)"
        using assms(1,2) ex by (simp add: hints_ok_def has_hints_def)
      moreover from assms(3) None False have "state' = state\<lparr>hs_prefix := ?attempted\<rparr>"
        "\<exists>n k. outcome = OutcomeUpdated ?attempted n k"
        unfolding apply_link_hint_char_def Let_def by auto
      ultimately show ?thesis by (auto simp: result_ok_def)
    qed
  qed
qed

lemma result_ok_key:
  assumes "hints_ok state"
  shows "result_ok (snd (handle_key key has_modifier state))"
proof -
  have same: "result_ok (state, [SetStatus m])" "result_ok (state, [])" for m
    using assms by (simp_all add: result_ok_def)
  have "result_ok (input_char c state)" for c
  proof (cases "hs_phase state = Active \<and> lower_code_point c < 128 \<and> char_of (lower_code_point c) \<in> set LINK_HINT_ALPHABET")
    case True
    obtain outcome state' where "apply_link_hint_char state (char_of (lower_code_point c)) = (outcome, state')" by fastforce
    with True apply_char_ok [OF assms _ this] show ?thesis by (simp add: input_char_def is_loading_def Let_def)
  next
    case False
    then show ?thesis using same by (auto simp: input_char_def Let_def)
  qed
  then show ?thesis
    using same result_ok_backspace [OF assms] result_ok_simple(2)
    by (auto simp: handle_key_def split: hint_key.splits)
qed

lemma perform_simps [simp]:
  "sy_hints (fold perform actions sys) = sy_hints sys"
  "sy_opened (fold perform actions sys) = sy_opened sys @ concat (map (\<lambda>a. case a of OpenLink uri \<Rightarrow> [uri] | _ \<Rightarrow> []) actions)"
proof -
  have "sy_hints (perform a sys) = sy_hints sys \<and>
    sy_opened (perform a sys) = sy_opened sys @ (case a of OpenLink uri \<Rightarrow> [uri] | _ \<Rightarrow> [])" for a sys
    by (cases a) auto
  then show "sy_hints (fold perform actions sys) = sy_hints sys"
    "sy_opened (fold perform actions sys) = sy_opened sys @ concat (map (\<lambda>a. case a of OpenLink uri \<Rightarrow> [uri] | _ \<Rightarrow> []) actions)"
    by (induction actions arbitrary: sys) auto
qed

lemma settle_simps [simp]:
  "sy_hints (settle r sys) = fst r"
  "sy_opened (settle r sys) = sy_opened sys @ concat (map (\<lambda>a. case a of OpenLink uri \<Rightarrow> [uri] | _ \<Rightarrow> []) (snd r))"
  by (simp_all add: settle_def)

lemma settle_ok: "result_ok r \<Longrightarrow> system_ok sys \<Longrightarrow> system_ok (settle r sys)"
  by (auto simp: system_ok_def result_ok_def split: hint_action.splits)

lemma without_simps [simp]: "sy_hints (without n sys) = sy_hints sys" "sy_opened (without n sys) = sy_opened sys"
  by (simp_all add: without_def)

interpretation hints: machine_invariant hint_step hint_initial system_ok
proof unfold_locales
  fix sys :: hint_system
  assume "hint_initial sys"
  then show "system_ok sys" by (simp add: hint_initial_def system_ok_def hints_ok_def default_hint_state_def)
next
  fix sys sys' :: hint_system and event
  assume ok: "system_ok sys" and step: "hint_step event sys = Some sys'"
  then have hints: "hints_ok (sy_hints sys)" and ok': "\<And>n. system_ok (without n sys)" by (simp_all add: system_ok_def)
  show "system_ok sys'"
    using step by (cases event)
      (auto intro!: settle_ok ok ok' result_ok_simple result_ok_load_finished [OF hints] result_ok_retry [OF hints]
        result_ok_collecting [OF hints] result_ok_rendering [OF hints] result_ok_key [OF hints]
        split: option.splits hint_callback.splits if_splits)
qed


section \<open>Typing a label\<close>

definition type_char :: "char \<Rightarrow> hint_event" where
  "type_char x = PressKey (KeyChar (of_char x)) False"

lemma label_chars: "set (hint_label i w) \<subseteq> set LINK_HINT_ALPHABET"
  by (induction i w rule: hint_label.induct) auto

lemma alphabet_typed:
  assumes "x \<in> set LINK_HINT_ALPHABET"
  shows "lower_code_point (of_char x) = of_char x" "of_char x < (128 :: nat)"
  using assms by (auto simp: LINK_HINT_ALPHABET_def lower_code_point_def)

lemma type_char_active:
  assumes "hs_phase (sy_hints sys) = Active" "x \<in> set LINK_HINT_ALPHABET"
    "apply_link_hint_char (sy_hints sys) x = (outcome, state)"
  shows "hint_step (type_char x) sys = Some (settle (state, apply_input_outcome outcome) sys)"
  using assms alphabet_typed [OF assms(2)]
  by (simp add: type_char_def handle_key_def consumes_keys_def input_char_def is_loading_def Let_def)

lemma active_labels:
  assumes "hints_ok state" "hs_phase state = Active"
  shows "distinct (map hc_label (hs_candidates state))"
    "c \<in> set (hs_candidates state) \<Longrightarrow> length (hc_label c) = hint_label_width (length (hs_candidates state))"
    "c \<in> set (hs_candidates state) \<Longrightarrow> set (hc_label c) \<subseteq> set LINK_HINT_ALPHABET"
    "c \<in> set (hs_candidates state) \<Longrightarrow> length (hs_prefix state) < length (hc_label c)"
proof -
  from assms have labels: "map hc_label (hs_candidates state) = link_hint_labels (length (hs_candidates state))"
    and bound: "length (hs_candidates state) \<le> usize_limit"
    and typed: "\<exists>c \<in> set (hs_candidates state). \<exists>x rest. hc_label c = hs_prefix state @ x # rest"
    by (auto simp: hints_ok_def has_hints_def)
  show "distinct (map hc_label (hs_candidates state))"
    unfolding labels by (rule link_hint_labels_distinct [OF bound])
  have mem: "hc_label c \<in> set (link_hint_labels (length (hs_candidates state)))" if "c \<in> set (hs_candidates state)" for c
    unfolding labels [symmetric] using that by simp
  have width: "length (hc_label c) = hint_label_width (length (hs_candidates state))"
    if "c \<in> set (hs_candidates state)" for c
    using labels_width [OF mem [OF that]] .
  then show "c \<in> set (hs_candidates state) \<Longrightarrow> length (hc_label c) = hint_label_width (length (hs_candidates state))" .
  show "set (hc_label c) \<subseteq> set LINK_HINT_ALPHABET" if "c \<in> set (hs_candidates state)"
    using mem [OF that] subsetD [OF label_chars] by (auto simp: link_hint_labels_def split: if_splits)
  from typed obtain c' x rest where "c' \<in> set (hs_candidates state)" "hc_label c' = hs_prefix state @ x # rest" by blast
  with width [of c'] have "length (hs_prefix state) < hint_label_width (length (hs_candidates state))"
    by (metis length_append length_Cons less_add_Suc1 add_Suc_right)
  with width show "c \<in> set (hs_candidates state) \<Longrightarrow> length (hs_prefix state) < length (hc_label c)" by simp
qed

lemma type_last_char:
  assumes "hints_ok state" "hs_phase state = Active" "c \<in> set (hs_candidates state)"
    "hc_label c = hs_prefix state @ [x]"
  shows "apply_link_hint_char state x = (OutcomeSelected (hc_uri c), restarted Idle state)"
proof -
  let ?attempted = "hs_prefix state @ [x]"
  let ?matching = "filter (\<lambda>candidate. starts_with (hc_label candidate) ?attempted) (hs_candidates state)"
  from assms(3,4) have c: "c \<in> set ?matching" by (simp add: starts_with_def)
  then have nonempty: "?matching \<noteq> []" by (metis empty_iff empty_set)
  obtain c' where c': "List.find (\<lambda>candidate. hc_label candidate = ?attempted) ?matching = Some c'"
    using find_misses [OF _ c] assms(4) by (metis (mono_tags, lifting) not_None_eq)
  with find_in_set [OF this] have "c' \<in> set (hs_candidates state)" "hc_label c' = hc_label c" using assms(4) by auto
  with active_labels(1) [OF assms(1,2)] assms(3) have "c' = c" by (auto simp: distinct_map inj_on_def)
  with c' nonempty show ?thesis unfolding apply_link_hint_char_def Let_def by (simp only: if_False option.case)
qed

lemma type_inner_char:
  assumes "hints_ok state" "hs_phase state = Active" "c \<in> set (hs_candidates state)"
    "hc_label c = hs_prefix state @ x # y # rest"
  shows "\<exists>n k. apply_link_hint_char state x =
    (OutcomeUpdated (hs_prefix state @ [x]) n k, state\<lparr>hs_prefix := hs_prefix state @ [x]\<rparr>)"
proof -
  let ?attempted = "hs_prefix state @ [x]"
  let ?matching = "filter (\<lambda>candidate. starts_with (hc_label candidate) ?attempted) (hs_candidates state)"
  from assms(3,4) have "c \<in> set ?matching" by (simp add: starts_with_iff)
  then have nonempty: "?matching \<noteq> []" by (metis empty_iff empty_set)
  have "hc_label c' \<noteq> ?attempted" if "c' \<in> set (hs_candidates state)" for c'
  proof
    assume "hc_label c' = ?attempted"
    then have "length (hc_label c') = length (hs_prefix state) + 1" by simp
    moreover have "length (hc_label c') = length (hc_label c)"
      using active_labels(2) [OF assms(1,2)] that assms(3) by simp
    ultimately show False using assms(4) by simp
  qed
  then have "List.find (\<lambda>candidate. hc_label candidate = ?attempted) ?matching = None"
    by (auto simp: find_None_iff)
  with nonempty show ?thesis unfolding apply_link_hint_char_def Let_def by (simp only: if_False option.case) blast
qed

lemma type_label:
  "system_ok sys \<Longrightarrow> hs_phase (sy_hints sys) = Active \<Longrightarrow> c \<in> set (hs_candidates (sy_hints sys)) \<Longrightarrow>
   hc_label c = hs_prefix (sy_hints sys) @ rest \<Longrightarrow>
   \<exists>sys'. run_steps hint_step (map type_char rest) sys = Some sys' \<and>
     sy_opened sys' = sy_opened sys @ [hc_uri c] \<and> hs_phase (sy_hints sys') = Idle"
proof (induction rest arbitrary: sys)
  case Nil
  then have "hints_ok (sy_hints sys)" by (simp add: system_ok_def)
  from active_labels(4) [OF this Nil(2,3)] Nil(4) show ?case by simp
next
  case (Cons x rest)
  then have ok: "hints_ok (sy_hints sys)" by (simp add: system_ok_def)
  have x: "x \<in> set LINK_HINT_ALPHABET"
    using active_labels(3) [OF ok Cons.prems(2,3)] Cons.prems(4) by auto
  note typed = type_char_active [OF Cons.prems(2) x]
  show ?case
  proof (cases rest)
    case Nil
    from typed [OF type_last_char [OF ok Cons.prems(2,3)]] Cons.prems(4) Nil show ?thesis
      by (simp add: restarted_def)
  next
    case (Cons y ys)
    with Cons.prems(4) type_inner_char [OF ok Cons.prems(2,3), of x y ys] obtain n k where
      applied: "apply_link_hint_char (sy_hints sys) x =
        (OutcomeUpdated (hs_prefix (sy_hints sys) @ [x]) n k,
         (sy_hints sys)\<lparr>hs_prefix := hs_prefix (sy_hints sys) @ [x]\<rparr>)" by auto
    let ?sys = "settle ((sy_hints sys)\<lparr>hs_prefix := hs_prefix (sy_hints sys) @ [x]\<rparr>,
        apply_input_outcome (OutcomeUpdated (hs_prefix (sy_hints sys) @ [x]) n k)) sys"
    note step = typed [OF applied]
    from hints.keeps [OF Cons.prems(1) step] have "system_ok ?sys" .
    from Cons.IH [OF this] Cons.prems(2-4) obtain sys' where
      "run_steps hint_step (map type_char rest) ?sys = Some sys'"
      "sy_opened sys' = sy_opened sys @ [hc_uri c]" "hs_phase (sy_hints sys') = Idle" by auto
    with step show ?thesis by auto
  qed
qed

text \<open>
  C29. Whatever happened before (loads that start and finish, answers of scripts of earlier
  generations, keys pressed while loading), once hints are active typing what is left of a
  displayed label, letter by letter, opens exactly the link it labels and ends the mode; the
  labels are distinct, and only links with an http, https or mailto scheme are ever opened.
\<close>

theorem typed_label_opens_link:
  assumes "reachable hint_step hint_initial sys"
    and "hs_phase (sy_hints sys) = Active"
    and "c \<in> set (hs_candidates (sy_hints sys))"
    and "hc_label c = hs_prefix (sy_hints sys) @ rest"
  shows "(\<exists>sys'. run_steps hint_step (map type_char rest) sys = Some sys' \<and>
      sy_opened sys' = sy_opened sys @ [hc_uri c] \<and> hs_phase (sy_hints sys') = Idle) \<and>
    distinct (map hc_label (hs_candidates (sy_hints sys))) \<and>
    (\<forall>uri \<in> set (sy_opened sys). html_link_scheme_is_external_safe uri) \<and>
    html_link_scheme_is_external_safe (hc_uri c)"
proof -
  from hints.holds [OF assms(1)] have ok: "system_ok sys" .
  then have "hints_ok (sy_hints sys)" by (simp add: system_ok_def)
  with active_labels(1) [OF this assms(2)] type_label [OF ok assms(2-4)] ok assms(2,3) show ?thesis
    by (auto simp: system_ok_def hints_ok_def has_hints_def)
qed

definition two_links :: visible_link_collection where
  "two_links = \<lparr>vc_targets = [\<lparr>vt_uri = ''https://a'', vt_x = Some ''2'', vt_y = Some ''2''\<rparr>,
                              \<lparr>vt_uri = ''javascript:x'', vt_x = Some ''2'', vt_y = Some ''5''\<rparr>,
                              \<lparr>vt_uri = ''MAILTO:b@x'', vt_x = Some ''2'', vt_y = Some ''9''\<rparr>],
                vc_eligible_count = 3, vc_laid_out_count = 3\<rparr>"

definition hints_shown :: hint_system where
  "hints_shown = the (run_steps hint_step [StartHints False, Collected 0 (Inr two_links), Rendered 0 (Inr 2)]
     \<lparr>sy_hints = default_hint_state, sy_pending = [], sy_opened = []\<rparr>)"

lemma hints_shown_reachable: "reachable hint_step hint_initial hints_shown"
proof -
  have "run_steps hint_step [StartHints False, Collected 0 (Inr two_links), Rendered 0 (Inr 2)]
     \<lparr>sy_hints = default_hint_state, sy_pending = [], sy_opened = []\<rparr> = Some hints_shown"
    unfolding hints_shown_def by code_simp
  from reachable_run [OF reachable.start this] show ?thesis by (simp add: hint_initial_def)
qed

lemma typed_label_opens_link_witness:
  "\<exists>sys'. run_steps hint_step (map type_char ''s'') hints_shown = Some sys' \<and>
     sy_opened sys' = sy_opened hints_shown @ [''MAILTO:b@x''] \<and> hs_phase (sy_hints sys') = Idle"
proof -
  let ?c = "\<lparr>hc_label = ''s'', hc_uri = ''MAILTO:b@x''\<rparr>"
  have "hs_phase (sy_hints hints_shown) = Active" by code_simp
  moreover have "?c \<in> set (hs_candidates (sy_hints hints_shown))" by code_simp
  moreover have "hc_label ?c = hs_prefix (sy_hints hints_shown) @ ''s''" by code_simp
  ultimately show ?thesis using typed_label_opens_link [OF hints_shown_reachable, of ?c "''s''"] by simp
qed

end
