(* ===== verification/Html_Lifecycle.thy ===== *)
theory Html_Lifecycle
  imports Machine Rust_Str Complex_Main "HOL-Library.AList"
begin

text \<open>
  The HTML view of a message (\<open>notm-ui/src/html\_view\_lifecycle.rs\<close>): which document is
  shown, whether it is ready, where it is scrolled to, and the script evaluations under way.
  Reports come from the document itself and from evaluations, in any order and late; each
  carries the generation of the document it is from.  Numbers from scripts are reals; counters
  are as in the code, restarting from one after \<open>2^64 - 1\<close>.
\<close>

section \<open>Data\<close>

record html_scroll_metrics =
  sm_y :: real
  sm_h :: real
  sm_c :: real
  sm_can_scroll :: bool
  sm_fraction :: real

record html_image_metrics =
  im_total :: nat
  im_loaded :: nat
  im_failed :: nat
  im_pending :: nat

record html_appearance_snapshot =
  ap_dark_background :: bool
  ap_background :: string
  ap_foreground :: string
  ap_link :: "string option"
  ap_table_background :: "string option"
  ap_table_foreground :: "string option"
  ap_image_filter :: "string option"

record scroll_report =
  sr_generation :: nat
  sr_ready :: bool
  sr_y :: real
  sr_h :: real
  sr_c :: real
  sr_images :: html_image_metrics
  sr_appearance :: "html_appearance_snapshot option"

definition clamp :: "real \<Rightarrow> real \<Rightarrow> real \<Rightarrow> real" where
  "clamp x lo hi = (if x < lo then lo else if x > hi then hi else x)"

definition metrics_from_report :: "scroll_report \<Rightarrow> html_scroll_metrics" where
  "metrics_from_report report =
     (let h = max (sr_h report) 0; c = max (sr_c report) 0; m = max (h - c) 0; y = clamp (sr_y report) 0 m in
      \<lparr>sm_y = y, sm_h = h, sm_c = c, sm_can_scroll = m > 0,
       sm_fraction = (if m > 0 then clamp (y / m) 0 1 else 0)\<rparr>)"

datatype evaluation_kind = Probe | Scroll | Restore

record evaluation =
  ev_id :: nat
  ev_generation :: nat
  ev_kind :: evaluation_kind

record pending_restore =
  pr_generation :: nat
  pr_fraction :: real

record lifecycle_state =
  lc_generation :: nat
  lc_completed_generation :: nat
  lc_ready_generation :: "nat option"
  lc_metrics :: "html_scroll_metrics option"
  lc_image_metrics :: "html_image_metrics option"
  lc_appearance :: "html_appearance_snapshot option"
  lc_pending_restore :: "pending_restore option"
  lc_restore_in_flight :: "nat option"
  lc_next_evaluation_id :: nat
  lc_evaluations :: "(nat \<times> evaluation) list"
  lc_last_error :: "string option"

definition default_lifecycle :: lifecycle_state where
  "default_lifecycle =
     \<lparr>lc_generation = 0, lc_completed_generation = 0, lc_ready_generation = None, lc_metrics = None,
      lc_image_metrics = None, lc_appearance = None, lc_pending_restore = None, lc_restore_in_flight = None,
      lc_next_evaluation_id = 0, lc_evaluations = [], lc_last_error = None\<rparr>"

text \<open>\<open>checked\_add(1).unwrap\_or(1)\<close>.\<close>

definition next_or_one :: "nat \<Rightarrow> nat" where
  "next_or_one n = (if n < u64_max then n + 1 else 1)"

section \<open>Operations\<close>

definition begin_load :: "lifecycle_state \<Rightarrow> nat \<times> lifecycle_state" where
  "begin_load self =
     (let generation = next_or_one (lc_generation self) in
      (generation,
       self\<lparr>lc_generation := generation, lc_ready_generation := None, lc_metrics := None, lc_image_metrics := None,
            lc_appearance := None, lc_pending_restore := None, lc_restore_in_flight := None,
            lc_evaluations := [], lc_last_error := None\<rparr>))"

text \<open>Inserting into the map of evaluations replaces an entry of the same identifier.\<close>

definition begin_evaluation :: "evaluation_kind \<Rightarrow> lifecycle_state \<Rightarrow> evaluation \<times> lifecycle_state" where
  "begin_evaluation kind self =
     (let i = next_or_one (lc_next_evaluation_id self);
          evaluation = \<lparr>ev_id = i, ev_generation = lc_generation self, ev_kind = kind\<rparr> in
      (evaluation, self\<lparr>lc_next_evaluation_id := i, lc_evaluations := AList.update i evaluation (lc_evaluations self)\<rparr>))"

definition queue_restore :: "real \<Rightarrow> lifecycle_state \<Rightarrow> lifecycle_state" where
  "queue_restore fraction self =
     self\<lparr>lc_pending_restore := Some \<lparr>pr_generation = lc_generation self, pr_fraction = clamp fraction 0 1\<rparr>\<rparr>"

definition begin_ready_restore :: "lifecycle_state \<Rightarrow> (evaluation \<times> real) option \<times> lifecycle_state" where
  "begin_ready_restore self =
     (case lc_pending_restore self of
        None \<Rightarrow> (None, self)
      | Some pending \<Rightarrow>
          if pr_generation pending \<noteq> lc_generation self \<or> lc_ready_generation self \<noteq> Some (lc_generation self) \<or>
             lc_restore_in_flight self \<noteq> None
          then (None, self)
          else
            (let (evaluation, self) = begin_evaluation Restore self in
             (Some (evaluation, pr_fraction pending), self\<lparr>lc_restore_in_flight := Some (ev_id evaluation)\<rparr>)))"

definition note_report :: "scroll_report \<Rightarrow> lifecycle_state \<Rightarrow> lifecycle_state" where
  "note_report report self =
     self\<lparr>lc_ready_generation := (if sr_ready report then Some (sr_generation report) else None),
          lc_completed_generation := (if sr_ready report then sr_generation report else lc_completed_generation self),
          lc_metrics := Some (metrics_from_report report),
          lc_image_metrics := Some (sr_images report),
          lc_appearance := (case sr_appearance report of Some a \<Rightarrow> Some a | None \<Rightarrow> lc_appearance self),
          lc_last_error := None\<rparr>"

definition record_report :: "scroll_report \<Rightarrow> lifecycle_state \<Rightarrow> bool \<times> lifecycle_state" where
  "record_report report self =
     (if sr_generation report \<noteq> lc_generation self then (False, self) else (True, note_report report self))"

definition complete_evaluation ::
  "evaluation \<Rightarrow> string + scroll_report \<Rightarrow> lifecycle_state \<Rightarrow> bool \<times> lifecycle_state" where
  "complete_evaluation evaluation result self =
     (let self = self\<lparr>lc_evaluations := AList.delete (ev_id evaluation) (lc_evaluations self)\<rparr> in
      if ev_generation evaluation \<noteq> lc_generation self then (False, self)
      else
        (let self = (if lc_restore_in_flight self = Some (ev_id evaluation)
                     then self\<lparr>lc_restore_in_flight := None\<rparr> else self) in
         case result of
           Inl error \<Rightarrow> (True, self\<lparr>lc_last_error := Some error\<rparr>)
         | Inr report \<Rightarrow>
             if sr_generation report \<noteq> lc_generation self then (False, self)
             else
               (let self = note_report report self in
                (True, if ev_kind evaluation = Restore \<and> sr_ready report
                       then self\<lparr>lc_pending_restore := None\<rparr> else self))))"

record html_view_snapshot =
  hv_generation :: nat
  hv_completed_generation :: nat
  hv_ready :: bool
  hv_evaluation_pending :: bool
  hv_pending_restore :: "real option"
  hv_scroll :: "html_scroll_metrics option"
  hv_images :: "html_image_metrics option"
  hv_appearance :: "html_appearance_snapshot option"
  hv_last_error :: "string option"

definition view_snapshot :: "lifecycle_state \<Rightarrow> html_view_snapshot" where
  "view_snapshot self =
     \<lparr>hv_generation = lc_generation self, hv_completed_generation = lc_completed_generation self,
      hv_ready = (lc_ready_generation self = Some (lc_generation self)),
      hv_evaluation_pending = list_ex (\<lambda>(i, e). ev_generation e = lc_generation self) (lc_evaluations self),
      hv_pending_restore =
        (case lc_pending_restore self of
           Some pending \<Rightarrow> if pr_generation pending = lc_generation self then Some (pr_fraction pending) else None
         | None \<Rightarrow> None),
      hv_scroll = lc_metrics self, hv_images = lc_image_metrics self, hv_appearance = lc_appearance self,
      hv_last_error = lc_last_error self\<rparr>"

section \<open>Documents and scripts\<close>

definition DATA_GENERATION :: string where
  "DATA_GENERATION = '' data-notm-generation='' @ [DQ]"

text \<open>\<open>str::find\<close>.\<close>

fun find_substring :: "string \<Rightarrow> string \<Rightarrow> nat option" where
  "find_substring needle [] = (if needle = [] then Some 0 else None)"
| "find_substring needle (x # xs) =
     (if starts_with (x # xs) needle then Some 0 else map_option Suc (find_substring needle xs))"

definition document_with_generation :: "string \<Rightarrow> nat \<Rightarrow> bool \<Rightarrow> string" where
  "document_with_generation document generation dark_background =
     (let appearance = (if dark_background then '' data-notm-dark-background'' else []) in
      case find_substring ''<html'' document of
        Some html_start \<Rightarrow>
          (let insert_at = html_start + length ''<html'' in
           take insert_at document @ DATA_GENERATION @ show_nat generation @ [DQ] @ appearance @ drop insert_at document)
      | None \<Rightarrow>
          ''<!doctype html><html data-notm-generation='' @ [DQ] @ show_nat generation @ [DQ] @ appearance @
          ''><body>'' @ document @ ''</body></html>'')"


section \<open>The view at work\<close>

text \<open>
  What a script does to the document after it has set the dark background, the scripts the web
  view has not answered yet, and the view that runs them.
\<close>

datatype script_operation =
    NoOperation
  | ScrollBy int
  | ScrollByPages real
  | ScrollToEdge bool
  | ScrollToFraction real

record running_script =
  rs_evaluation :: evaluation
  rs_dark :: bool
  rs_operation :: script_operation

record html_view =
  vw_state :: lifecycle_state
  vw_outstanding :: "running_script list"
  vw_dark_background :: bool

text \<open>\<open>f64::round\<close>: halves away from zero.\<close>

definition round_half_away :: "real \<Rightarrow> int" where
  "round_half_away x = (if x \<ge> 0 then \<lfloor>x + 1 / 2\<rfloor> else - \<lfloor>- x + 1 / 2\<rfloor>)"

definition evaluate_started :: "evaluation \<Rightarrow> script_operation \<Rightarrow> html_view \<Rightarrow> html_view" where
  "evaluate_started evaluation operation view =
     view\<lparr>vw_outstanding := vw_outstanding view @
       [\<lparr>rs_evaluation = evaluation, rs_dark = vw_dark_background view, rs_operation = operation\<rparr>]\<rparr>"

definition evaluate :: "evaluation_kind \<Rightarrow> script_operation \<Rightarrow> html_view \<Rightarrow> html_view" where
  "evaluate kind operation view =
     (let (evaluation, state) = begin_evaluation kind (vw_state view) in
      evaluate_started evaluation operation (view\<lparr>vw_state := state\<rparr>))"

definition dispatch_ready_restore :: "html_view \<Rightarrow> html_view" where
  "dispatch_ready_restore view =
     (case begin_ready_restore (vw_state view) of
        (None, state) \<Rightarrow> view\<lparr>vw_state := state\<rparr>
      | (Some (evaluation, fraction), state) \<Rightarrow>
          evaluate_started evaluation (ScrollToFraction fraction) (view\<lparr>vw_state := state\<rparr>))"

definition load_view :: "html_view \<Rightarrow> html_view" where
  "load_view view = view\<lparr>vw_state := snd (begin_load (vw_state view))\<rparr>"

definition set_dark_background :: "bool \<Rightarrow> html_view \<Rightarrow> html_view" where
  "set_dark_background enabled view =
     (if vw_dark_background view = enabled then view
      else (let view = view\<lparr>vw_dark_background := enabled\<rparr> in
            if hv_ready (view_snapshot (vw_state view)) then evaluate Probe NoOperation view else view))"

definition scroll_lines :: "real \<Rightarrow> html_view \<Rightarrow> html_view" where
  "scroll_lines n view = evaluate Scroll (ScrollBy (round_half_away (n * 40))) view"

definition scroll_pages :: "real \<Rightarrow> html_view \<Rightarrow> html_view" where
  "scroll_pages pages view = evaluate Scroll (ScrollByPages pages) view"

definition scroll_to_edge :: "bool \<Rightarrow> html_view \<Rightarrow> html_view" where
  "scroll_to_edge bottom view = evaluate Scroll (ScrollToEdge bottom) view"

definition scroll_fraction :: "html_view \<Rightarrow> real option" where
  "scroll_fraction view = map_option sm_fraction (hv_scroll (view_snapshot (vw_state view)))"

definition restore_fraction :: "real \<Rightarrow> html_view \<Rightarrow> html_view" where
  "restore_fraction fraction view =
     dispatch_ready_restore (view\<lparr>vw_state := queue_restore fraction (vw_state view)\<rparr>)"

definition receive_message :: "scroll_report \<Rightarrow> html_view \<Rightarrow> html_view" where
  "receive_message report view =
     (let (accepted, state) = record_report report (vw_state view); view = view\<lparr>vw_state := state\<rparr> in
      if accepted then dispatch_ready_restore view else view)"

definition receive_answer :: "evaluation \<Rightarrow> string + scroll_report \<Rightarrow> html_view \<Rightarrow> html_view" where
  "receive_answer evaluation result view =
     (let (current, state) = complete_evaluation evaluation result (vw_state view); view = view\<lparr>vw_state := state\<rparr> in
      if current \<and> lc_last_error state = None then dispatch_ready_restore view else view)"

datatype view_event =
    LoadHtml
  | RestoreFraction real
  | ScrollLines real
  | ScrollPages real
  | ScrollEdge bool
  | LoadFinished
  | Message scroll_report
  | Answer nat "string + scroll_report"
  | SetDark bool

definition drop_at :: "nat \<Rightarrow> 'a list \<Rightarrow> 'a list" where
  "drop_at n xs = take n xs @ drop (Suc n) xs"

text \<open>The web view answers its scripts in any order.\<close>

fun view_step :: "view_event \<Rightarrow> html_view \<Rightarrow> html_view option" where
  "view_step LoadHtml view = Some (load_view view)"
| "view_step (RestoreFraction fraction) view = Some (restore_fraction fraction view)"
| "view_step (ScrollLines n) view = Some (scroll_lines n view)"
| "view_step (ScrollPages pages) view = Some (scroll_pages pages view)"
| "view_step (ScrollEdge bottom) view = Some (scroll_to_edge bottom view)"
| "view_step LoadFinished view = Some (evaluate Probe NoOperation view)"
| "view_step (Message report) view = Some (receive_message report view)"
| "view_step (Answer n result) view =
     (if n < length (vw_outstanding view)
      then Some (receive_answer (rs_evaluation (vw_outstanding view ! n)) result
                   (view\<lparr>vw_outstanding := drop_at n (vw_outstanding view)\<rparr>))
      else None)"
| "view_step (SetDark enabled) view = Some (set_dark_background enabled view)"

text \<open>
  The counters are exact for the first \<open>2^64 - 1\<close> events of a view: a step takes at most one
  new identifier.  The events are counted beside the view.
\<close>

definition counted_step :: "view_event \<Rightarrow> nat \<times> html_view \<Rightarrow> (nat \<times> html_view) option" where
  "counted_step event nv =
     (if fst nv < u64_max then map_option (Pair (Suc (fst nv))) (view_step event (snd nv)) else None)"

definition view_initial :: "nat \<times> html_view \<Rightarrow> bool" where
  "view_initial nv \<longleftrightarrow> nv = (0, \<lparr>vw_state = default_lifecycle, vw_outstanding = [], vw_dark_background = False\<rparr>)"

section \<open>Bookkeeping\<close>

definition outstanding :: "html_view \<Rightarrow> evaluation list" where
  "outstanding view = map rs_evaluation (vw_outstanding view)"

definition current_outstanding :: "html_view \<Rightarrow> evaluation list" where
  "current_outstanding view =
     filter (\<lambda>e. ev_generation e = lc_generation (vw_state view)) (outstanding view)"

text \<open>
  Identifiers are distinct, what the state lists as running is what the web view still has to
  answer for this document, a restore in flight is among them, and readiness and a queued
  restore are those of the document shown.
\<close>

definition ids_ok :: "html_view \<Rightarrow> bool" where
  "ids_ok view \<longleftrightarrow>
     distinct (map ev_id (outstanding view)) \<and>
     (\<forall>e \<in> set (outstanding view). ev_id e \<le> lc_next_evaluation_id (vw_state view) \<and>
        ev_generation e \<le> lc_generation (vw_state view))"

definition running_ok :: "html_view \<Rightarrow> bool" where
  "running_ok view \<longleftrightarrow> lc_evaluations (vw_state view) = map (\<lambda>e. (ev_id e, e)) (current_outstanding view)"

definition flight_ok :: "html_view \<Rightarrow> bool" where
  "flight_ok view \<longleftrightarrow>
     (\<forall>i. lc_restore_in_flight (vw_state view) = Some i \<longrightarrow>
        (\<exists>e \<in> set (current_outstanding view). ev_id e = i \<and> ev_kind e = Restore))"

definition document_ok :: "lifecycle_state \<Rightarrow> bool" where
  "document_ok state \<longleftrightarrow>
     (\<forall>g. lc_ready_generation state = Some g \<longrightarrow> g = lc_generation state \<and> lc_completed_generation state = g) \<and>
     (\<forall>p. lc_pending_restore state = Some p \<longrightarrow>
        pr_generation p = lc_generation state \<and> 0 \<le> pr_fraction p \<and> pr_fraction p \<le> 1)"

definition view_ok :: "html_view \<Rightarrow> bool" where
  "view_ok view \<longleftrightarrow> ids_ok view \<and> running_ok view \<and> flight_ok view \<and> document_ok (vw_state view)"

definition counters_ok :: "nat \<times> html_view \<Rightarrow> bool" where
  "counters_ok nv \<longleftrightarrow>
     fst nv \<le> u64_max \<and> lc_next_evaluation_id (vw_state (snd nv)) \<le> fst nv \<and> lc_generation (vw_state (snd nv)) \<le> fst nv \<and>
     view_ok (snd nv)"

lemmas view_ok_defs = view_ok_def ids_ok_def running_ok_def flight_ok_def document_ok_def
  current_outstanding_def outstanding_def

lemma clamp_unit [simp]: "0 \<le> clamp x 0 1" "clamp x 0 1 \<le> 1"
  by (auto simp: clamp_def)

lemma next_or_one_eq: "n < u64_max \<Longrightarrow> next_or_one n = Suc n"
  by (simp add: next_or_one_def)

lemma update_fresh: "k \<notin> fst ` set al \<Longrightarrow> AList.update k v al = al @ [(k, v)]"
  by (induction al) auto

lemma load_view_ok:
  assumes "view_ok view" "lc_generation (vw_state view) < u64_max"
  shows "view_ok (load_view view)"
  using assms
  by (fastforce simp: view_ok_defs load_view_def begin_load_def next_or_one_eq Let_def filter_empty_conv)

text \<open>Starting an evaluation.\<close>

lemma begin_evaluation_ok:
  assumes "view_ok view" "lc_next_evaluation_id (vw_state view) < u64_max"
    and "begin_evaluation kind (vw_state view) = (evaluation, state)"
  shows "view_ok (evaluate_started evaluation operation (view\<lparr>vw_state := state\<rparr>))"
    and "kind = Restore \<Longrightarrow> view_ok (evaluate_started evaluation operation
           (view\<lparr>vw_state := state\<lparr>lc_restore_in_flight := Some (ev_id evaluation)\<rparr>\<rparr>))"
    and "ev_id evaluation = Suc (lc_next_evaluation_id (vw_state view))"
    and "ev_generation evaluation = lc_generation (vw_state view)" and "ev_kind evaluation = kind"
proof -
  let ?s = "vw_state view"
  have i: "next_or_one (lc_next_evaluation_id ?s) = Suc (lc_next_evaluation_id ?s)"
    by (rule next_or_one_eq [OF assms(2)])
  show e: "ev_id evaluation = Suc (lc_next_evaluation_id ?s)" "ev_generation evaluation = lc_generation ?s"
    "ev_kind evaluation = kind"
    using assms(3) i by (auto simp: begin_evaluation_def Let_def)
  have fresh: "Suc (lc_next_evaluation_id ?s) \<notin> fst ` set (lc_evaluations ?s)"
    using assms(1) by (fastforce simp: view_ok_defs)
  have s: "state = ?s\<lparr>lc_next_evaluation_id := Suc (lc_next_evaluation_id ?s),
      lc_evaluations := lc_evaluations ?s @ [(ev_id evaluation, evaluation)]\<rparr>"
    using assms(3) i update_fresh [OF fresh] by (auto simp: begin_evaluation_def Let_def)
  have ids: "\<forall>e \<in> rs_evaluation ` set (vw_outstanding view). ev_id e \<le> lc_next_evaluation_id ?s"
    using assms(1) by (auto simp: view_ok_defs)
  then have "Suc (lc_next_evaluation_id ?s) \<notin> (ev_id \<circ> rs_evaluation) ` set (vw_outstanding view)" by force
  then show "view_ok (evaluate_started evaluation operation (view\<lparr>vw_state := state\<rparr>))"
    and "kind = Restore \<Longrightarrow> view_ok (evaluate_started evaluation operation
           (view\<lparr>vw_state := state\<lparr>lc_restore_in_flight := Some (ev_id evaluation)\<rparr>\<rparr>))"
    using assms(1) e unfolding s by (auto simp: view_ok_defs evaluate_started_def le_SucI)
qed

text \<open>Setting the dark background and the report are outside the bookkeeping.\<close>

lemma view_ok_dark [simp]: "view_ok (view\<lparr>vw_dark_background := b\<rparr>) = view_ok view"
  by (simp add: view_ok_defs)

lemma note_report_fields [simp]:
  "lc_generation (note_report r state) = lc_generation state"
  "lc_pending_restore (note_report r state) = lc_pending_restore state"
  "lc_restore_in_flight (note_report r state) = lc_restore_in_flight state"
  "lc_next_evaluation_id (note_report r state) = lc_next_evaluation_id state"
  "lc_evaluations (note_report r state) = lc_evaluations state"
  "lc_last_error (note_report r state) = None"
  by (simp_all add: note_report_def)

lemma note_report_ok:
  assumes "view_ok view" "sr_generation report = lc_generation (vw_state view)"
  shows "view_ok (view\<lparr>vw_state := note_report report (vw_state view)\<rparr>)"
  using assms by (simp add: view_ok_defs) (simp add: note_report_def)

lemma pending_ok:
  assumes "view_ok view"
  shows "view_ok (view\<lparr>vw_state := queue_restore fraction (vw_state view)\<rparr>)"
    and "view_ok (view\<lparr>vw_state := (vw_state view)\<lparr>lc_pending_restore := None\<rparr>\<rparr>)"
    and "view_ok (view\<lparr>vw_state := (vw_state view)\<lparr>lc_last_error := e\<rparr>\<rparr>)"
    and "view_ok (view\<lparr>vw_state := (vw_state view)\<lparr>lc_restore_in_flight := None\<rparr>\<rparr>)"
  using assms by (auto simp: view_ok_defs queue_restore_def)

lemma filter_other:
  assumes "distinct (map f (xs @ x # ys))"
  shows "filter (\<lambda>y. f y \<noteq> f x) (xs @ x # ys) = xs @ ys"
proof -
  have "filter (\<lambda>y. f y \<noteq> f x) xs = xs" "filter (\<lambda>y. f y \<noteq> f x) ys = ys"
    unfolding filter_id_conv using assms by (auto simp: rev_image_eqI)
  then show ?thesis by simp
qed

lemma drop_at_filter:
  assumes "distinct (map f xs)" "n < length xs"
  shows "drop_at n xs = filter (\<lambda>x. f x \<noteq> f (xs ! n)) xs"
proof -
  have xs: "take n xs @ xs ! n # drop (Suc n) xs = xs" by (rule id_take_nth_drop [OF assms(2), symmetric])
  have "distinct (map f (take n xs @ xs ! n # drop (Suc n) xs))" unfolding xs by (rule assms(1))
  from filter_other [OF this] show ?thesis unfolding xs drop_at_def by (rule sym)
qed

lemma set_drop_at: "set (drop_at n xs) \<subseteq> set xs"
  using set_take_subset [of n xs] set_drop_subset [of "Suc n" xs] by (auto simp: drop_at_def)

text \<open>An answer removes its evaluation from what the state lists and from the web view's list.\<close>

definition answered :: "nat \<Rightarrow> html_view \<Rightarrow> html_view" where
  "answered n view =
     (let i = ev_id (rs_evaluation (vw_outstanding view ! n)); state = vw_state view in
      view\<lparr>vw_outstanding := drop_at n (vw_outstanding view),
           vw_state := state\<lparr>lc_evaluations := AList.delete i (lc_evaluations state),
             lc_restore_in_flight := (if lc_restore_in_flight state = Some i then None
                                      else lc_restore_in_flight state)\<rparr>\<rparr>)"

lemma answered_ok:
  assumes "view_ok view" "n < length (vw_outstanding view)"
  shows "view_ok (answered n view)"
proof -
  let ?i = "ev_id (rs_evaluation (vw_outstanding view ! n))"
  have "distinct (map (ev_id \<circ> rs_evaluation) (vw_outstanding view))"
    using assms(1) by (simp add: view_ok_defs)
  from drop_at_filter [OF this assms(2)]
  have out: "outstanding (answered n view) = filter (\<lambda>e. ev_id e \<noteq> ?i) (outstanding view)"
    by (simp add: outstanding_def answered_def Let_def filter_map comp_def)
  have gen: "lc_generation (vw_state (answered n view)) = lc_generation (vw_state view)"
    "lc_next_evaluation_id (vw_state (answered n view)) = lc_next_evaluation_id (vw_state view)"
    by (simp_all add: answered_def Let_def)
  have cur: "current_outstanding (answered n view) = filter (\<lambda>e. ev_id e \<noteq> ?i) (current_outstanding view)"
    unfolding current_outstanding_def out gen by (simp add: conj_commute)
  have ids: "ids_ok (answered n view)"
    using assms(1) unfolding view_ok_def ids_ok_def out gen by (auto simp: distinct_map_filter)
  have "lc_evaluations (vw_state (answered n view)) = AList.delete ?i (lc_evaluations (vw_state view))"
    by (simp add: answered_def Let_def)
  also have "\<dots> = map (\<lambda>e. (ev_id e, e)) (current_outstanding (answered n view))"
    using assms(1) unfolding cur view_ok_def running_ok_def
    by (simp add: AList.delete_eq filter_map comp_def eq_commute)
  finally have running: "running_ok (answered n view)" by (simp add: running_ok_def)
  have flight: "flight_ok (answered n view)"
    unfolding flight_ok_def cur
    using assms(1) by (auto simp: view_ok_def flight_ok_def answered_def Let_def split: if_splits)
  have "document_ok (vw_state (answered n view))"
    using assms(1) by (simp add: view_ok_def document_ok_def answered_def Let_def)
  with ids running flight show ?thesis by (simp add: view_ok_def)
qed

lemma flight_is_current:
  assumes "view_ok view" "n < length (vw_outstanding view)"
    and "lc_restore_in_flight (vw_state view) = Some (ev_id (rs_evaluation (vw_outstanding view ! n)))"
  shows "ev_generation (rs_evaluation (vw_outstanding view ! n)) = lc_generation (vw_state view)"
    and "ev_kind (rs_evaluation (vw_outstanding view ! n)) = Restore"
proof -
  let ?e = "rs_evaluation (vw_outstanding view ! n)"
  obtain e where e: "e \<in> set (current_outstanding view)" "ev_id e = ev_id ?e" "ev_kind e = Restore"
    using assms(1,3) by (auto simp: view_ok_def flight_ok_def)
  have "e \<in> set (outstanding view)" "?e \<in> set (outstanding view)"
    using e(1) assms(2) by (auto simp: current_outstanding_def outstanding_def)
  moreover have "inj_on ev_id (set (outstanding view))"
    using assms(1) by (auto simp: view_ok_def ids_ok_def distinct_map)
  ultimately have "e = ?e" using e(2) by (meson inj_onD)
  then show "ev_generation ?e = lc_generation (vw_state view)" "ev_kind ?e = Restore"
    using e by (auto simp: current_outstanding_def)
qed

lemma complete_evaluation_answered:
  assumes "view_ok view" "n < length (vw_outstanding view)"
  defines "e \<equiv> rs_evaluation (vw_outstanding view ! n)" and "s \<equiv> vw_state (answered n view)"
  shows "complete_evaluation e result (vw_state view) =
    (if ev_generation e \<noteq> lc_generation s then (False, s)
     else case result of
        Inl error \<Rightarrow> (True, s\<lparr>lc_last_error := Some error\<rparr>)
      | Inr report \<Rightarrow>
          if sr_generation report \<noteq> lc_generation s then (False, s)
          else (True, if ev_kind e = Restore \<and> sr_ready report
                      then (note_report report s)\<lparr>lc_pending_restore := None\<rparr> else note_report report s))"
proof (cases "lc_restore_in_flight (vw_state view) = Some (ev_id e)")
  case True
  then have "ev_generation e = lc_generation (vw_state view)"
    using flight_is_current [OF assms(1,2)] by (simp add: e_def)
  then show ?thesis using True
    by (simp add: s_def answered_def Let_def e_def complete_evaluation_def split: sum.split)
next
  case False
  then show ?thesis
    by (simp add: s_def answered_def Let_def e_def complete_evaluation_def split: sum.split)
qed

lemma dispatch_ready_restore_ok:
  assumes "view_ok view" "lc_next_evaluation_id (vw_state view) < u64_max"
  shows "view_ok (dispatch_ready_restore view)"
proof (cases "fst (begin_ready_restore (vw_state view)) = None")
  case True
  then have "dispatch_ready_restore view = view"
    by (auto simp: dispatch_ready_restore_def begin_ready_restore_def Let_def
        split: option.splits if_splits prod.splits)
  then show ?thesis using assms by simp
next
  case False
  then obtain fraction evaluation state where
    "begin_evaluation Restore (vw_state view) = (evaluation, state)"
    and run: "begin_ready_restore (vw_state view) =
      (Some (evaluation, fraction), state\<lparr>lc_restore_in_flight := Some (ev_id evaluation)\<rparr>)"
    by (auto simp: begin_ready_restore_def split: option.splits if_splits prod.splits)
  from begin_evaluation_ok(2) [OF assms this(1), of "ScrollToFraction fraction"] run
  show ?thesis by (simp add: dispatch_ready_restore_def)
qed

lemma evaluate_ok:
  assumes "view_ok view" "lc_next_evaluation_id (vw_state view) < u64_max"
  shows "view_ok (evaluate kind operation view)"
  using begin_evaluation_ok(1) [OF assms] by (simp add: evaluate_def Let_def split: prod.split)

lemma receive_message_ok:
  assumes "view_ok view" "lc_next_evaluation_id (vw_state view) < u64_max"
  shows "view_ok (receive_message report view)"
  using assms note_report_ok [OF assms(1), of report]
  by (auto simp: receive_message_def record_report_def Let_def intro!: dispatch_ready_restore_ok)

lemma receive_answer_ok:
  assumes "view_ok view" "lc_next_evaluation_id (vw_state view) < u64_max" "n < length (vw_outstanding view)"
  shows "view_ok (receive_answer (rs_evaluation (vw_outstanding view ! n)) result
           (view\<lparr>vw_outstanding := drop_at n (vw_outstanding view)\<rparr>))"
proof -
  let ?v = "answered n view" and ?e = "rs_evaluation (vw_outstanding view ! n)"
  have ok: "view_ok ?v" by (rule answered_ok [OF assms(1,3)])
  have v: "view\<lparr>vw_outstanding := drop_at n (vw_outstanding view), vw_state := t\<rparr> = ?v\<lparr>vw_state := t\<rparr>" for t
    by (simp add: answered_def Let_def)
  have gen: "lc_generation (vw_state ?v) = lc_generation (vw_state view)"
    "lc_next_evaluation_id (vw_state ?v) = lc_next_evaluation_id (vw_state view)"
    by (simp_all add: answered_def Let_def)
  have all: "view_ok (?v\<lparr>vw_state := snd (complete_evaluation ?e result (vw_state view))\<rparr>) \<and>
     lc_next_evaluation_id (snd (complete_evaluation ?e result (vw_state view))) < u64_max"
    using ok pending_ok [OF ok] pending_ok [OF note_report_ok [OF ok]] note_report_ok [OF ok] assms(2)
    unfolding complete_evaluation_answered [OF assms(1,3)] by (auto simp: gen split: sum.split)
  obtain current state where s: "complete_evaluation ?e result (vw_state view) = (current, state)" by fastforce
  have "view_ok (?v\<lparr>vw_state := state\<rparr>)" "lc_next_evaluation_id state < u64_max"
    using all by (simp_all add: s)
  then show ?thesis
    by (auto simp: receive_answer_def s Let_def v intro!: dispatch_ready_restore_ok)
qed

section \<open>Reachable views\<close>

text \<open>How far one operation moves the counters.\<close>

definition advances :: "html_view \<Rightarrow> html_view \<Rightarrow> bool" where
  "advances view view' \<longleftrightarrow>
     lc_generation (vw_state view') = lc_generation (vw_state view) \<and>
     (lc_next_evaluation_id (vw_state view') = lc_next_evaluation_id (vw_state view) \<or>
      lc_next_evaluation_id (vw_state view') = next_or_one (lc_next_evaluation_id (vw_state view)))"

lemma evaluate_advances: "advances view (evaluate kind operation view)"
  by (simp add: advances_def evaluate_def begin_evaluation_def evaluate_started_def Let_def)

lemma dispatch_advances: "advances view (dispatch_ready_restore view)"
  by (auto simp: advances_def dispatch_ready_restore_def begin_ready_restore_def begin_evaluation_def
      evaluate_started_def Let_def split: option.splits)

lemma advances_state:
  "advances v w \<Longrightarrow> lc_generation (vw_state v) = lc_generation (vw_state u) \<Longrightarrow>
   lc_next_evaluation_id (vw_state v) = lc_next_evaluation_id (vw_state u) \<Longrightarrow> advances u w"
  by (simp add: advances_def)

lemma complete_evaluation_counters:
  "lc_generation (snd (complete_evaluation e result state)) = lc_generation state"
  "lc_next_evaluation_id (snd (complete_evaluation e result state)) = lc_next_evaluation_id state"
  by (auto simp: complete_evaluation_def Let_def split: sum.split)

lemma record_report_counters:
  "lc_generation (snd (record_report report state)) = lc_generation state"
  "lc_next_evaluation_id (snd (record_report report state)) = lc_next_evaluation_id state"
  by (auto simp: record_report_def)

lemma receive_answer_advances:
  "advances view (receive_answer e result (view\<lparr>vw_outstanding := out\<rparr>))"
  using complete_evaluation_counters [of e result "vw_state view"]
  by (auto simp: receive_answer_def Let_def split: prod.split
      intro!: advances_state [OF dispatch_advances]) (simp_all add: advances_def)

lemma receive_message_advances: "advances view (receive_message report view)"
  using record_report_counters [of report "vw_state view"]
  by (auto simp: receive_message_def Let_def split: prod.split
      intro!: advances_state [OF dispatch_advances]) (simp_all add: advances_def)

lemma restore_fraction_advances: "advances view (restore_fraction fraction view)"
  unfolding restore_fraction_def
  by (rule advances_state [OF dispatch_advances]) (simp_all add: queue_restore_def)

lemma set_dark_background_advances: "advances view (set_dark_background enabled view)"
  using evaluate_advances [of "view\<lparr>vw_dark_background := enabled\<rparr>" Probe NoOperation]
  by (auto simp: set_dark_background_def Let_def advances_def)

lemma view_step_counts:
  assumes "view_step event view = Some view'" "lc_next_evaluation_id (vw_state view) \<le> n"
    and "lc_generation (vw_state view) \<le> n" "n < u64_max"
  shows "lc_next_evaluation_id (vw_state view') \<le> Suc n \<and> lc_generation (vw_state view') \<le> Suc n"
proof -
  have adv: ?thesis if "advances view view'"
    using that assms(2-4) by (auto simp: advances_def next_or_one_def)
  show ?thesis
  proof (cases event)
    case LoadHtml
    then show ?thesis using assms by (auto simp: load_view_def begin_load_def next_or_one_def Let_def)
  qed (use adv assms(1) in \<open>auto simp: scroll_lines_def scroll_pages_def scroll_to_edge_def split: if_splits
      intro: evaluate_advances receive_answer_advances receive_message_advances restore_fraction_advances
        set_dark_background_advances\<close>)
qed

lemma view_step_ok:
  assumes "view_step event view = Some view'" "view_ok view"
    and "lc_next_evaluation_id (vw_state view) < u64_max" "lc_generation (vw_state view) < u64_max"
  shows "view_ok view'"
proof (cases event)
  case (RestoreFraction fraction)
  have "view_ok (restore_fraction fraction view)"
    unfolding restore_fraction_def using assms(3)
    by (intro dispatch_ready_restore_ok pending_ok(1) assms(2)) (simp add: queue_restore_def)
  then show ?thesis using RestoreFraction assms(1) by simp
next
  case (SetDark enabled)
  have "view_ok (set_dark_background enabled view)"
    using assms(2,3) by (auto simp: set_dark_background_def Let_def intro!: evaluate_ok)
  then show ?thesis using SetDark assms(1) by simp
next
  case (Answer n result)
  then show ?thesis using assms(1) receive_answer_ok [OF assms(2,3)] by (auto split: if_splits)
qed (use assms in \<open>auto simp: scroll_lines_def scroll_pages_def scroll_to_edge_def
    intro: evaluate_ok receive_message_ok load_view_ok\<close>)

interpretation html: machine_invariant counted_step view_initial counters_ok
proof unfold_locales
  fix nv
  assume "view_initial nv"
  then show "counters_ok nv"
    by (simp add: view_initial_def counters_ok_def default_lifecycle_def view_ok_defs)
next
  fix nv event nv'
  assume ok: "counters_ok nv" and "counted_step event nv = Some nv'"
  then obtain view' where n: "fst nv < u64_max" and step: "view_step event (snd nv) = Some view'"
    and nv': "nv' = (Suc (fst nv), view')"
    by (auto simp: counted_step_def split: if_splits)
  show "counters_ok nv'"
    using view_step_counts [OF step _ _ n] view_step_ok [OF step] ok n
    by (simp add: counters_ok_def nv')
qed

section \<open>Reports of superseded documents, and queued restores\<close>

lemma evaluation_pending_iff:
  assumes "running_ok view"
  shows "hv_evaluation_pending (view_snapshot (vw_state view)) \<longleftrightarrow> current_outstanding view \<noteq> []"
proof -
  have "hv_evaluation_pending (view_snapshot (vw_state view)) \<longleftrightarrow>
      (\<exists>e \<in> set (current_outstanding view). ev_generation e = lc_generation (vw_state view))"
    using assms by (auto simp: running_ok_def view_snapshot_def list_ex_iff)
  also have "\<dots> \<longleftrightarrow> current_outstanding view \<noteq> []"
    by (fastforce simp: current_outstanding_def filter_empty_conv)
  finally show ?thesis .
qed

lemma stale_answer_snapshot:
  assumes ok: "view_ok view" and n: "n < length (vw_outstanding view)"
    and stale: "ev_generation (rs_evaluation (vw_outstanding view ! n)) \<noteq> lc_generation (vw_state view)"
  shows "view_snapshot (snd (complete_evaluation (rs_evaluation (vw_outstanding view ! n)) result (vw_state view))) =
    view_snapshot (vw_state view)"
proof -
  let ?e = "rs_evaluation (vw_outstanding view ! n)"
  have "\<forall>e \<in> set (current_outstanding view). ev_id e \<noteq> ev_id ?e"
  proof
    fix e assume "e \<in> set (current_outstanding view)"
    then have "e \<noteq> ?e" "e \<in> set (outstanding view)" using stale by (auto simp: current_outstanding_def)
    moreover have "?e \<in> set (outstanding view)" using n by (auto simp: outstanding_def)
    moreover have "inj_on ev_id (set (outstanding view))"
      using ok by (simp add: view_ok_def ids_ok_def distinct_map)
    ultimately show "ev_id e \<noteq> ev_id ?e" by (meson inj_onD)
  qed
  then have "AList.delete (ev_id ?e) (lc_evaluations (vw_state view)) = lc_evaluations (vw_state view)"
    using ok by (auto simp: view_ok_def running_ok_def AList.delete_eq filter_id_conv)
  then show ?thesis using stale by (simp add: complete_evaluation_def Let_def)
qed

lemma rejected_answer:
  assumes "view_step (Answer k result) view = Some view'"
    and "\<not> fst (complete_evaluation (rs_evaluation (vw_outstanding view ! k)) result (vw_state view))"
  shows "vw_state view' = snd (complete_evaluation (rs_evaluation (vw_outstanding view ! k)) result (vw_state view))"
  using assms by (auto simp: receive_answer_def Let_def split: if_splits prod.splits)

lemma view_snapshot_running:
  "(view_snapshot (state\<lparr>lc_evaluations := al, lc_restore_in_flight := i\<rparr>))\<lparr>hv_evaluation_pending := b\<rparr> =
   (view_snapshot state)\<lparr>hv_evaluation_pending := b\<rparr>"
  by (simp add: view_snapshot_def split: option.split)

lemma view_snapshot_same [simp]:
  "(view_snapshot state)\<lparr>hv_evaluation_pending := hv_evaluation_pending (view_snapshot state)\<rparr> = view_snapshot state"
  by simp

lemma other_token:
  assumes "sr_generation report \<noteq> lc_generation state"
  shows "\<not> fst (complete_evaluation e (Inr report) state)"
    and "(view_snapshot (snd (complete_evaluation e (Inr report) state)))
      \<lparr>hv_evaluation_pending := hv_evaluation_pending (view_snapshot state)\<rparr> = view_snapshot state"
proof -
  let ?al = "AList.delete (ev_id e) (lc_evaluations state)"
  let ?i = "if lc_restore_in_flight state = Some (ev_id e) \<and> ev_generation e = lc_generation state then None
    else lc_restore_in_flight state"
  have "complete_evaluation e (Inr report) state = (False, state\<lparr>lc_evaluations := ?al, lc_restore_in_flight := ?i\<rparr>)"
    using assms by (cases state) (simp add: complete_evaluation_def Let_def)
  then show "\<not> fst (complete_evaluation e (Inr report) state)"
    and "(view_snapshot (snd (complete_evaluation e (Inr report) state)))
      \<lparr>hv_evaluation_pending := hv_evaluation_pending (view_snapshot state)\<rparr> = view_snapshot state"
    by (simp_all only: fst_conv snd_conv view_snapshot_running view_snapshot_same simp_thms)
qed

text \<open>
  What a view shows, traced to the events since its document was loaded: reports that carry the
  document's token, restores that were asked for, failed scripts.
\<close>

definition since_load :: "view_event list \<Rightarrow> view_event list" where
  "since_load events = takeWhile (\<lambda>event. event \<noteq> LoadHtml) (rev events)"

definition reports_of :: "nat \<Rightarrow> view_event list \<Rightarrow> scroll_report set" where
  "reports_of generation events =
     {r. (Message r \<in> set events \<or> (\<exists>k. Answer k (Inr r) \<in> set events)) \<and> sr_generation r = generation}"

definition shown_from :: "view_event list \<Rightarrow> lifecycle_state \<Rightarrow> bool" where
  "shown_from events state \<longleftrightarrow>
     (\<forall>m. lc_metrics state = Some m \<longrightarrow> (\<exists>r \<in> reports_of (lc_generation state) events. m = metrics_from_report r)) \<and>
     (\<forall>i. lc_image_metrics state = Some i \<longrightarrow> (\<exists>r \<in> reports_of (lc_generation state) events. i = sr_images r)) \<and>
     (\<forall>a. lc_appearance state = Some a \<longrightarrow>
        (\<exists>r \<in> reports_of (lc_generation state) events. sr_appearance r = Some a)) \<and>
     (lc_ready_generation state \<noteq> None \<longrightarrow> (\<exists>r \<in> reports_of (lc_generation state) events. sr_ready r)) \<and>
     (\<forall>p. lc_pending_restore state = Some p \<longrightarrow>
        (\<exists>f. RestoreFraction f \<in> set events \<and> pr_fraction p = clamp f 0 1)) \<and>
     (\<forall>e. lc_last_error state = Some e \<longrightarrow> (\<exists>k. Answer k (Inl e) \<in> set events))"

lemma since_load_snoc:
  "since_load (events @ [event]) = (if event = LoadHtml then [] else event # since_load events)"
  by (simp add: since_load_def)

lemma shown_from_later:
  assumes "shown_from events state" "set events \<subseteq> set events'"
  shows "shown_from events' state"
proof -
  have "reports_of g events \<subseteq> reports_of g events'" for g using assms(2) by (auto simp: reports_of_def)
  with assms show ?thesis unfolding shown_from_def by (meson subset_eq)
qed

text \<open>Starting scripts does not touch what is shown.\<close>

definition same_shown :: "lifecycle_state \<Rightarrow> lifecycle_state \<Rightarrow> bool" where
  "same_shown state state' \<longleftrightarrow>
     lc_generation state' = lc_generation state \<and> lc_metrics state' = lc_metrics state \<and>
     lc_image_metrics state' = lc_image_metrics state \<and> lc_appearance state' = lc_appearance state \<and>
     lc_ready_generation state' = lc_ready_generation state \<and>
     lc_pending_restore state' = lc_pending_restore state \<and> lc_last_error state' = lc_last_error state"

lemma shown_from_same: "same_shown state state' \<Longrightarrow> shown_from events state \<Longrightarrow> shown_from events state'"
  by (simp add: same_shown_def shown_from_def)

lemma evaluate_same: "same_shown (vw_state view) (vw_state (evaluate kind operation view))"
  by (simp add: same_shown_def evaluate_def begin_evaluation_def evaluate_started_def Let_def)

lemma evaluate_shown:
  "shown_from events (vw_state view) \<Longrightarrow> shown_from (event # events) (vw_state (evaluate kind operation view))"
  by (rule shown_from_same [OF evaluate_same shown_from_later]) auto

lemma dispatch_same: "same_shown (vw_state view) (vw_state (dispatch_ready_restore view))"
  by (auto simp: same_shown_def dispatch_ready_restore_def begin_ready_restore_def begin_evaluation_def
      evaluate_started_def Let_def split: option.splits)

lemma note_report_shown:
  assumes "shown_from events state" "report \<in> reports_of (lc_generation state) events"
  shows "shown_from events (note_report report state)"
  using assms by (auto simp: shown_from_def note_report_def split: option.splits)

lemma complete_evaluation_shown:
  assumes "shown_from events state" "Answer k result \<in> set events"
  shows "shown_from events (snd (complete_evaluation e result state))"
proof -
  let ?s = "state\<lparr>lc_evaluations := AList.delete (ev_id e) (lc_evaluations state),
      lc_restore_in_flight := (if lc_restore_in_flight state = Some (ev_id e) then None else lc_restore_in_flight state)\<rparr>"
  have s: "shown_from events ?s" "shown_from events (state\<lparr>lc_evaluations := AList.delete (ev_id e) (lc_evaluations state)\<rparr>)"
    using assms(1) by (auto simp: shown_from_def)
  have eq: "snd (complete_evaluation e result state) =
      (if ev_generation e \<noteq> lc_generation state then state\<lparr>lc_evaluations := AList.delete (ev_id e) (lc_evaluations state)\<rparr>
       else case result of
          Inl error \<Rightarrow> ?s\<lparr>lc_last_error := Some error\<rparr>
        | Inr report \<Rightarrow>
            if sr_generation report \<noteq> lc_generation state then ?s
            else if ev_kind e = Restore \<and> sr_ready report
                 then (note_report report ?s)\<lparr>lc_pending_restore := None\<rparr> else note_report report ?s)"
    by (cases state) (auto simp: complete_evaluation_def Let_def split: sum.split)
  show ?thesis
  proof (cases result)
    case (Inl error)
    then show ?thesis using s assms(2) unfolding eq by (auto simp: shown_from_def)
  next
    case (Inr report)
    have "shown_from events (note_report report ?s)" if "sr_generation report = lc_generation state"
      by (rule note_report_shown [OF s(1)]) (use that assms(2) Inr in \<open>auto simp: reports_of_def\<close>)
    then show ?thesis using s Inr unfolding eq by (auto simp: shown_from_def)
  qed
qed

lemma view_step_shown:
  assumes "view_step event view = Some view'" "shown_from events (vw_state view)"
  shows "shown_from (if event = LoadHtml then [] else event # events) (vw_state view')"
proof -
  have later: "shown_from (event # events) (vw_state view)"
    using assms(2) by (rule shown_from_later) auto
  have started: ?thesis if "event \<noteq> LoadHtml" "same_shown (vw_state view) (vw_state view')"
    using shown_from_same [OF that(2) later] that(1) by simp
  show ?thesis
  proof (cases event)
    case LoadHtml
    then show ?thesis using assms(1) by (auto simp: load_view_def begin_load_def shown_from_def Let_def)
  next
    case (RestoreFraction f)
    have "shown_from (event # events) (queue_restore f (vw_state view))"
      using later RestoreFraction by (auto simp: shown_from_def queue_restore_def)
    then have "shown_from (event # events) (vw_state (restore_fraction f view))"
      unfolding restore_fraction_def by (intro shown_from_same [OF dispatch_same]) simp
    then show ?thesis using RestoreFraction assms(1) by simp
  next
    case (Message report)
    have "shown_from (event # events) (snd (record_report report (vw_state view)))"
      using later note_report_shown [OF later, of report] Message by (auto simp: record_report_def reports_of_def)
    then have "shown_from (event # events) (vw_state (receive_message report view))"
      unfolding receive_message_def Let_def
      by (auto split: prod.split intro: shown_from_same [OF dispatch_same])
    then show ?thesis using Message assms(1) by simp
  next
    case (Answer k result)
    let ?e = "rs_evaluation (vw_outstanding view ! k)"
    have "shown_from (event # events) (snd (complete_evaluation ?e result (vw_state view)))"
      by (rule complete_evaluation_shown [OF later, of k]) (simp add: Answer)
    then have "shown_from (event # events)
        (vw_state (receive_answer ?e result (view\<lparr>vw_outstanding := drop_at k (vw_outstanding view)\<rparr>)))"
      unfolding receive_answer_def Let_def
      by (auto split: prod.split intro: shown_from_same [OF dispatch_same])
    then show ?thesis using Answer assms(1) by (auto split: if_splits)
  next
    case (SetDark enabled)
    have "same_shown (vw_state view) (vw_state view')"
      using SetDark assms(1) evaluate_same [of "view\<lparr>vw_dark_background := enabled\<rparr>" Probe NoOperation]
      by (auto simp: set_dark_background_def Let_def same_shown_def)
    with started SetDark show ?thesis by simp
  qed (use assms in \<open>auto intro!: evaluate_shown simp: scroll_lines_def scroll_pages_def scroll_to_edge_def\<close>)
qed

lemma run_shown:
  assumes "view_initial start" "run_steps counted_step events start = Some nv"
  shows "shown_from (since_load events) (vw_state (snd nv))"
  using assms(2)
proof (induction events arbitrary: nv rule: rev_induct)
  case Nil
  then show ?case using assms(1) by (auto simp: view_initial_def shown_from_def default_lifecycle_def)
next
  case (snoc event events)
  then obtain mv where mv: "run_steps counted_step events start = Some mv" "counted_step event mv = Some nv"
    by (auto simp: run_steps_snoc)
  from mv(2) have "view_step event (snd mv) = Some (snd nv)"
    by (auto simp: counted_step_def split: if_splits)
  from view_step_shown [OF this snoc.IH [OF mv(1)]] show ?case by (simp add: since_load_snoc)
qed

text \<open>
  C30. What a view shows about its document comes from that document.  After any events, the scroll
  metrics, the image metrics, the appearance and the readiness shown were reported since the
  document was loaded, by reports that carry its token; a queued restore was asked for, and an error
  shown was answered, since it was loaded.  Readiness means that the shown document completed, and an
  evaluation is pending exactly when the web view owes an answer for the shown document.  A message
  of another document changes nothing; the answer of an evaluation begun for another document leaves
  the whole snapshot as it was; and an answer that carries another document's token leaves metrics,
  images, appearance, readiness and the queued restore as they were.
\<close>

theorem html_state_belongs_to_shown_document:
  assumes "view_initial start" "run_steps counted_step events start = Some (n, view)"
  defines "shown \<equiv> lc_generation (vw_state view)" and "before \<equiv> view_snapshot (vw_state view)"
    and "reports \<equiv> reports_of (lc_generation (vw_state view)) (since_load events)"
  shows "(\<forall>m. hv_scroll before = Some m \<longrightarrow> (\<exists>r \<in> reports. m = metrics_from_report r)) \<and>
    (\<forall>i. hv_images before = Some i \<longrightarrow> (\<exists>r \<in> reports. i = sr_images r)) \<and>
    (\<forall>a. hv_appearance before = Some a \<longrightarrow> (\<exists>r \<in> reports. sr_appearance r = Some a)) \<and>
    (hv_ready before \<longrightarrow> (\<exists>r \<in> reports. sr_ready r) \<and> hv_completed_generation before = hv_generation before) \<and>
    (\<forall>f. hv_pending_restore before = Some f \<longrightarrow>
       (\<exists>x. RestoreFraction x \<in> set (since_load events) \<and> f = clamp x 0 1)) \<and>
    (\<forall>e. hv_last_error before = Some e \<longrightarrow> (\<exists>k. Answer k (Inl e) \<in> set (since_load events))) \<and>
    (hv_evaluation_pending before \<longleftrightarrow> current_outstanding view \<noteq> []) \<and>
    (\<forall>report. sr_generation report \<noteq> shown \<longrightarrow> view_step (Message report) view = Some view) \<and>
    (\<forall>k < length (vw_outstanding view). \<forall>result view'.
       view_step (Answer k result) view = Some view' \<longrightarrow>
       (ev_generation (rs_evaluation (vw_outstanding view ! k)) \<noteq> shown \<longrightarrow>
          view_snapshot (vw_state view') = before) \<and>
       (\<forall>report. result = Inr report \<longrightarrow> sr_generation report \<noteq> shown \<longrightarrow>
          (view_snapshot (vw_state view'))\<lparr>hv_evaluation_pending := hv_evaluation_pending before\<rparr> = before))"
proof -
  have "counters_ok (n, view)"
    by (rule html.holds_after [OF html.starts [OF assms(1)] assms(2)])
  then have ok: "view_ok view" by (simp add: counters_ok_def)
  note from_document = run_shown [OF assms(1,2), unfolded snd_conv shown_from_def, folded reports_def]
  have stale: "view_snapshot (vw_state view') = before"
    if "view_step (Answer k result) view = Some view'" "k < length (vw_outstanding view)"
      "ev_generation (rs_evaluation (vw_outstanding view ! k)) \<noteq> shown" for k result view'
    using stale_answer_snapshot [OF ok that(2), of result] rejected_answer [OF that(1)] that(3)
    by (simp add: shown_def before_def complete_evaluation_def Let_def)
  have token: "(view_snapshot (vw_state view'))\<lparr>hv_evaluation_pending := hv_evaluation_pending before\<rparr> = before"
    if "view_step (Answer k (Inr report)) view = Some view'" "sr_generation report \<noteq> shown" for k report view'
    using rejected_answer [OF that(1)] other_token [OF that(2) [unfolded shown_def]] by (simp add: before_def)
  show ?thesis
  proof (intro conjI allI impI)
    show "\<exists>r \<in> reports. m = metrics_from_report r" if "hv_scroll before = Some m" for m
      using from_document that by (simp add: before_def view_snapshot_def)
    show "\<exists>r \<in> reports. i = sr_images r" if "hv_images before = Some i" for i
      using from_document that by (simp add: before_def view_snapshot_def)
    show "\<exists>r \<in> reports. sr_appearance r = Some a" if "hv_appearance before = Some a" for a
      using from_document that by (simp add: before_def view_snapshot_def)
    show "\<exists>r \<in> reports. sr_ready r" if "hv_ready before"
      using from_document that by (simp add: before_def view_snapshot_def)
    show "hv_completed_generation before = hv_generation before" if "hv_ready before"
      using ok that by (auto simp: before_def view_snapshot_def view_ok_def document_ok_def)
    show "\<exists>x. RestoreFraction x \<in> set (since_load events) \<and> f = clamp x 0 1" if "hv_pending_restore before = Some f" for f
    proof -
      from that obtain p where "lc_pending_restore (vw_state view) = Some p" "f = pr_fraction p"
        by (auto simp: before_def view_snapshot_def split: option.splits if_splits)
      with from_document [THEN conjunct2, THEN conjunct2, THEN conjunct2, THEN conjunct2, THEN conjunct1]
      show ?thesis by blast
    qed
    show "\<exists>k. Answer k (Inl e) \<in> set (since_load events)" if "hv_last_error before = Some e" for e
      using from_document that by (simp add: before_def view_snapshot_def)
    show "hv_evaluation_pending before \<longleftrightarrow> current_outstanding view \<noteq> []"
      using evaluation_pending_iff ok by (simp add: before_def view_ok_def)
    show "view_step (Message report) view = Some view" if "sr_generation report \<noteq> shown" for report
      using that by (simp add: shown_def receive_message_def record_report_def)
  qed (blast intro: stale token)+
qed

lemma ready_restore_dispatched:
  assumes "lc_pending_restore (vw_state view) = Some pending" "lc_restore_in_flight (vw_state view) = None"
    and "pr_generation pending = lc_generation (vw_state view)"
    and "lc_ready_generation (vw_state view) = Some (lc_generation (vw_state view))"
    and "begin_evaluation Restore (vw_state view) = (evaluation, state)"
  shows "dispatch_ready_restore view =
    evaluate_started evaluation (ScrollToFraction (pr_fraction pending))
      (view\<lparr>vw_state := state\<lparr>lc_restore_in_flight := Some (ev_id evaluation)\<rparr>\<rparr>)"
  using assms by (simp add: dispatch_ready_restore_def begin_ready_restore_def)

lemma no_restore_dispatched:
  "lc_pending_restore (vw_state view) = None \<Longrightarrow> dispatch_ready_restore view = view"
  by (simp add: dispatch_ready_restore_def begin_ready_restore_def)

text \<open>
  When the restore of a fraction is due: the document reports that it is ready, or a script of the
  shown document answers so, while a restore is queued, or a restore is asked for in a document that
  is ready.  The scripts that stay unanswered are all but the one that answers.
\<close>

definition reports_ready :: "scroll_report \<Rightarrow> html_view \<Rightarrow> bool" where
  "reports_ready report view \<longleftrightarrow> sr_generation report = lc_generation (vw_state view) \<and> sr_ready report"

fun restore_due :: "view_event \<Rightarrow> html_view \<Rightarrow> real option" where
  "restore_due (Message report) view =
     (if reports_ready report view then map_option pr_fraction (lc_pending_restore (vw_state view)) else None)"
| "restore_due (Answer k (Inr report)) view =
     (if k < length (vw_outstanding view) \<and> reports_ready report view \<and>
         ev_generation (rs_evaluation (vw_outstanding view ! k)) = lc_generation (vw_state view) \<and>
         ev_kind (rs_evaluation (vw_outstanding view ! k)) \<noteq> Restore
      then map_option pr_fraction (lc_pending_restore (vw_state view)) else None)"
| "restore_due (RestoreFraction x) view =
     (if hv_ready (view_snapshot (vw_state view)) then Some (clamp x 0 1) else None)"
| "restore_due _ view = None"

fun unanswered :: "view_event \<Rightarrow> html_view \<Rightarrow> running_script list" where
  "unanswered (Answer k result) view = drop_at k (vw_outstanding view)"
| "unanswered _ view = vw_outstanding view"

text \<open>A restore that is ready is dispatched, and its answer settles it.\<close>

definition restore_runs :: "real \<Rightarrow> running_script list \<Rightarrow> html_view \<Rightarrow> bool" where
  "restore_runs fraction scripts view \<longleftrightarrow>
     (\<exists>evaluation.
        vw_outstanding view = scripts @
          [\<lparr>rs_evaluation = evaluation, rs_dark = vw_dark_background view, rs_operation = ScrollToFraction fraction\<rparr>] \<and>
        ev_kind evaluation = Restore \<and> lc_restore_in_flight (vw_state view) = Some (ev_id evaluation)) \<and>
     (\<forall>answer. reports_ready answer view \<longrightarrow>
        (\<exists>after. view_step (Answer (length scripts) (Inr answer)) view = Some after \<and>
           vw_outstanding after = scripts \<and>
           hv_pending_restore (view_snapshot (vw_state after)) = None \<and>
           hv_ready (view_snapshot (vw_state after)) \<and>
           scroll_fraction after = Some (sm_fraction (metrics_from_report answer))))"

lemma dispatched_restore_runs:
  assumes "lc_pending_restore (vw_state view) = Some pending" "lc_restore_in_flight (vw_state view) = None"
    and "pr_generation pending = lc_generation (vw_state view)"
    and "lc_ready_generation (vw_state view) = Some (lc_generation (vw_state view))"
  shows "restore_runs (pr_fraction pending) (vw_outstanding view) (dispatch_ready_restore view)"
proof -
  obtain evaluation state where e: "begin_evaluation Restore (vw_state view) = (evaluation, state)" by fastforce
  have kind: "ev_kind evaluation = Restore" "ev_generation evaluation = lc_generation (vw_state view)"
    "lc_generation state = lc_generation (vw_state view)"
    using e by (auto simp: begin_evaluation_def Let_def)
  let ?view' = "evaluate_started evaluation (ScrollToFraction (pr_fraction pending))
      (view\<lparr>vw_state := state\<lparr>lc_restore_in_flight := Some (ev_id evaluation)\<rparr>\<rparr>)"
  have "\<exists>after. view_step (Answer (length (vw_outstanding view)) (Inr answer)) ?view' = Some after \<and>
      vw_outstanding after = vw_outstanding view \<and>
      hv_pending_restore (view_snapshot (vw_state after)) = None \<and>
      hv_ready (view_snapshot (vw_state after)) \<and>
      scroll_fraction after = Some (sm_fraction (metrics_from_report answer))"
    if "reports_ready answer ?view'" for answer
    using that kind
    by (simp add: reports_ready_def receive_answer_def complete_evaluation_def Let_def evaluate_started_def drop_at_def
        no_restore_dispatched view_snapshot_def scroll_fraction_def note_report_def)
  moreover have "vw_outstanding ?view' = vw_outstanding view @
      [\<lparr>rs_evaluation = evaluation, rs_dark = vw_dark_background ?view',
        rs_operation = ScrollToFraction (pr_fraction pending)\<rparr>]"
    "lc_restore_in_flight (vw_state ?view') = Some (ev_id evaluation)"
    by (simp_all add: evaluate_started_def)
  ultimately have "restore_runs (pr_fraction pending) (vw_outstanding view) ?view'"
    unfolding restore_runs_def using kind(1) by blast
  then show ?thesis unfolding ready_restore_dispatched [OF assms e] .
qed

text \<open>
  C31. A restore is carried out as soon as it is due.  When a reachable view has no restore in
  flight and one becomes due (its document reports that it is ready, or a probe or scroll script
  answers so, while a restore is queued; or a restore is asked for in a ready document), the web view
  is given, in the same step, exactly the script that scrolls to that fraction, as the restore in
  flight; once that script answers with the ready document, the restore is no longer queued and the
  view's fraction is the reported one.
\<close>

theorem queued_restore_is_carried_out:
  assumes "reachable counted_step view_initial (n, view)"
    and "lc_restore_in_flight (vw_state view) = None"
    and "restore_due event view = Some fraction"
  shows "\<exists>view'. view_step event view = Some view' \<and>
    (\<exists>evaluation.
       vw_outstanding view' = unanswered event view @
         [\<lparr>rs_evaluation = evaluation, rs_dark = vw_dark_background view', rs_operation = ScrollToFraction fraction\<rparr>] \<and>
       ev_kind evaluation = Restore \<and> lc_restore_in_flight (vw_state view') = Some (ev_id evaluation)) \<and>
    (\<forall>answer. sr_generation answer = lc_generation (vw_state view') \<and> sr_ready answer \<longrightarrow>
       (\<exists>after. view_step (Answer (length (unanswered event view)) (Inr answer)) view' = Some after \<and>
          vw_outstanding after = unanswered event view \<and>
          hv_pending_restore (view_snapshot (vw_state after)) = None \<and>
          hv_ready (view_snapshot (vw_state after)) \<and>
          scroll_fraction after = Some (sm_fraction (metrics_from_report answer))))"
proof -
  have "view_ok view" using html.holds [OF assms(1)] by (simp add: counters_ok_def)
  then have queued: "pr_generation pending = lc_generation (vw_state view)"
    if "lc_pending_restore (vw_state view) = Some pending" for pending
    using that by (simp add: view_ok_def document_ok_def)
  have "\<exists>view'. view_step event view = Some view' \<and> restore_runs fraction (unanswered event view) view'"
  proof (cases rule: restore_due.cases [of "(event, view)"])
    case (1 report w)
    then obtain pending where p: "lc_pending_restore (vw_state view) = Some pending" "fraction = pr_fraction pending"
      and r: "reports_ready report view" using assms(3) by (auto split: if_splits)
    let ?w = "view\<lparr>vw_state := note_report report (vw_state view)\<rparr>"
    have "restore_runs (pr_fraction pending) (vw_outstanding ?w) (dispatch_ready_restore ?w)"
      using p r assms(2) queued by (intro dispatched_restore_runs) (auto simp: reports_ready_def note_report_def)
    moreover have "view_step event view = Some (dispatch_ready_restore ?w)"
      using 1 r by (simp add: reports_ready_def receive_message_def record_report_def)
    ultimately show ?thesis using 1 p(2) by simp
  next
    case (2 k report w)
    let ?e = "rs_evaluation (vw_outstanding view ! k)"
    from 2 obtain pending where p: "lc_pending_restore (vw_state view) = Some pending" "fraction = pr_fraction pending"
      and r: "k < length (vw_outstanding view)" "reports_ready report view"
        "ev_generation ?e = lc_generation (vw_state view)" "ev_kind ?e \<noteq> Restore"
      using assms(3) by (auto split: if_splits)
    let ?s = "note_report report ((vw_state view)
        \<lparr>lc_evaluations := AList.delete (ev_id ?e) (lc_evaluations (vw_state view))\<rparr>)"
    let ?w = "view\<lparr>vw_outstanding := drop_at k (vw_outstanding view), vw_state := ?s\<rparr>"
    have "restore_runs (pr_fraction pending) (vw_outstanding ?w) (dispatch_ready_restore ?w)"
      using p r assms(2) queued by (intro dispatched_restore_runs) (auto simp: reports_ready_def note_report_def)
    moreover have "complete_evaluation ?e (Inr report) (vw_state view) = (True, ?s)"
      using r assms(2) by (simp add: complete_evaluation_def reports_ready_def Let_def)
    then have "view_step event view = Some (dispatch_ready_restore ?w)"
      using 2 r by (simp add: receive_answer_def)
    ultimately show ?thesis using 2 p(2) by simp
  next
    case (3 x w)
    then have r: "lc_ready_generation (vw_state view) = Some (lc_generation (vw_state view))" "fraction = clamp x 0 1"
      using assms(3) by (auto simp: view_snapshot_def split: if_splits)
    let ?w = "view\<lparr>vw_state := queue_restore x (vw_state view)\<rparr>"
    let ?p = "\<lparr>pr_generation = lc_generation (vw_state view), pr_fraction = clamp x 0 1\<rparr>"
    have "restore_runs (pr_fraction ?p) (vw_outstanding ?w) (dispatch_ready_restore ?w)"
      using r assms(2) by (intro dispatched_restore_runs) (simp_all add: queue_restore_def)
    then show ?thesis using 3 r(2) by (simp add: restore_fraction_def)
  qed (use assms(3) in auto)
  then show ?thesis unfolding restore_runs_def reports_ready_def .
qed

text \<open>
  A restore asked for while another is in flight is lost: the answer to the earlier one clears
  whatever is queued.
\<close>

lemma restore_during_flight_is_dropped:
  assumes "lc_restore_in_flight state = Some (ev_id evaluation)" "ev_kind evaluation = Restore"
    and "ev_generation evaluation = lc_generation state"
    and "sr_generation answer = lc_generation state" "sr_ready answer"
  shows "fst (begin_ready_restore (queue_restore fraction state)) = None \<and>
    lc_pending_restore (snd (complete_evaluation evaluation (Inr answer) (queue_restore fraction state))) = None"
  using assms by (simp add: begin_ready_restore_def complete_evaluation_def queue_restore_def Let_def)

text \<open>A view whose document is loading, to be scrolled to three quarters of its height.\<close>

definition loading_view :: html_view where
  "loading_view =
     \<lparr>vw_state = default_lifecycle\<lparr>lc_generation := 1, lc_next_evaluation_id := 1,
        lc_evaluations := [(1, \<lparr>ev_id = 1, ev_generation = 1, ev_kind = Probe\<rparr>)],
        lc_pending_restore := Some \<lparr>pr_generation = 1, pr_fraction = 3 / 4\<rparr>\<rparr>,
      vw_outstanding = [\<lparr>rs_evaluation = \<lparr>ev_id = 1, ev_generation = 1, ev_kind = Probe\<rparr>, rs_dark = False,
        rs_operation = NoOperation\<rparr>],
      vw_dark_background = False\<rparr>"

definition ready_report :: "nat \<Rightarrow> real \<Rightarrow> scroll_report" where
  "ready_report generation y =
     \<lparr>sr_generation = generation, sr_ready = True, sr_y = y, sr_h = 1000, sr_c = 200,
      sr_images = \<lparr>im_total = 0, im_loaded = 0, im_failed = 0, im_pending = 0\<rparr>, sr_appearance = None\<rparr>"

lemma loading_view_reachable: "reachable counted_step view_initial (3, loading_view)"
proof (rule reachable_run [OF reachable.start])
  show "view_initial (0, \<lparr>vw_state = default_lifecycle, vw_outstanding = [], vw_dark_background = False\<rparr>)"
    by (simp add: view_initial_def)
  show "run_steps counted_step [LoadHtml, RestoreFraction (3 / 4), LoadFinished]
      (0, \<lparr>vw_state = default_lifecycle, vw_outstanding = [], vw_dark_background = False\<rparr>) = Some (3, loading_view)"
    by (simp add: counted_step_def u64_max_def load_view_def begin_load_def next_or_one_def default_lifecycle_def
        restore_fraction_def queue_restore_def clamp_def dispatch_ready_restore_def begin_ready_restore_def
        evaluate_def begin_evaluation_def evaluate_started_def loading_view_def Let_def)
qed

text \<open>A document that was ready is replaced by another; a late report of the first one arrives.\<close>

definition replaced_events :: "view_event list" where
  "replaced_events =
     [LoadHtml, LoadFinished, Message (ready_report 1 300), LoadHtml, Message (ready_report 1 600)]"

definition replaced_view :: html_view where
  "replaced_view =
     \<lparr>vw_state = default_lifecycle\<lparr>lc_generation := 2, lc_completed_generation := 1, lc_next_evaluation_id := 1\<rparr>,
      vw_outstanding = [\<lparr>rs_evaluation = \<lparr>ev_id = 1, ev_generation = 1, ev_kind = Probe\<rparr>, rs_dark = False,
        rs_operation = NoOperation\<rparr>],
      vw_dark_background = False\<rparr>"

definition view_start :: "nat \<times> html_view" where
  "view_start = (0, \<lparr>vw_state = default_lifecycle, vw_outstanding = [], vw_dark_background = False\<rparr>)"

lemma replaced_run:
  "view_initial view_start" "run_steps counted_step replaced_events view_start = Some (5, replaced_view)"
  by (simp_all add: view_start_def view_initial_def replaced_events_def counted_step_def u64_max_def load_view_def
      begin_load_def next_or_one_def default_lifecycle_def receive_message_def record_report_def note_report_def
      ready_report_def dispatch_ready_restore_def begin_ready_restore_def evaluate_def begin_evaluation_def
      evaluate_started_def replaced_view_def Let_def)

theorem html_state_belongs_to_shown_document_witness:
  "hv_scroll (view_snapshot (vw_state replaced_view)) = None \<and>
   \<not> hv_ready (view_snapshot (vw_state replaced_view)) \<and>
   (\<exists>result view'. view_step (Answer 0 result) replaced_view = Some view' \<and>
      view_snapshot (vw_state view') = view_snapshot (vw_state replaced_view))"
proof -
  note state = html_state_belongs_to_shown_document [OF replaced_run]
  have recent: "since_load replaced_events = [Message (ready_report 1 600)]"
    by (simp add: since_load_def replaced_events_def)
  have none: "reports_of (lc_generation (vw_state replaced_view)) (since_load replaced_events) = {}"
    by (simp add: recent reports_of_def replaced_view_def ready_report_def)
  have "hv_scroll (view_snapshot (vw_state replaced_view)) = None"
    using state [THEN conjunct1] unfolding none by (metis empty_iff not_Some_eq)
  moreover have "\<not> hv_ready (view_snapshot (vw_state replaced_view))"
    using state [THEN conjunct2, THEN conjunct2, THEN conjunct2, THEN conjunct1] unfolding none by blast
  moreover obtain view' where step: "view_step (Answer 0 (Inl ''gone'')) replaced_view = Some view'"
    by (simp add: replaced_view_def)
  have "0 < length (vw_outstanding replaced_view)"
    "ev_generation (rs_evaluation (vw_outstanding replaced_view ! 0)) \<noteq> lc_generation (vw_state replaced_view)"
    by (simp_all add: replaced_view_def)
  with state [THEN conjunct2, THEN conjunct2, THEN conjunct2, THEN conjunct2, THEN conjunct2, THEN conjunct2,
      THEN conjunct2, THEN conjunct2] step
  have "view_snapshot (vw_state view') = view_snapshot (vw_state replaced_view)" by blast
  ultimately show ?thesis using step by blast
qed

theorem queued_restore_is_carried_out_witness:
  "\<exists>view' view''. view_step (Answer 0 (Inr (ready_report 1 0))) loading_view = Some view' \<and>
     view_step (Answer 0 (Inr (ready_report 1 600))) view' = Some view'' \<and>
     scroll_fraction view'' = Some (3 / 4)"
proof -
  let ?event = "Answer 0 (Inr (ready_report 1 0))"
  have due: "restore_due ?event loading_view = Some (3 / 4)"
    and idle: "lc_restore_in_flight (vw_state loading_view) = None"
    and none: "unanswered ?event loading_view = []"
    by (simp_all add: loading_view_def default_lifecycle_def reports_ready_def ready_report_def drop_at_def)
  from queued_restore_is_carried_out [OF loading_view_reachable idle due] obtain view' where
    step: "view_step ?event loading_view = Some view'"
    and answers: "\<And>answer. sr_generation answer = lc_generation (vw_state view') \<Longrightarrow> sr_ready answer \<Longrightarrow>
       \<exists>after. view_step (Answer 0 (Inr answer)) view' = Some after \<and>
          scroll_fraction after = Some (sm_fraction (metrics_from_report answer))"
    unfolding none list.size by blast
  have "advances loading_view view'"
    using step receive_answer_advances by (auto split: if_splits)
  then have "lc_generation (vw_state view') = lc_generation (vw_state loading_view)"
    by (simp only: advances_def)
  then have "lc_generation (vw_state view') = 1" by (simp add: loading_view_def)
  then have "sr_generation (ready_report 1 600) = lc_generation (vw_state view')" "sr_ready (ready_report 1 600)"
    by (simp_all add: ready_report_def)
  moreover have "sm_fraction (metrics_from_report (ready_report 1 600)) = 3 / 4"
    by (simp add: metrics_from_report_def ready_report_def clamp_def Let_def)
  ultimately show ?thesis using step answers by metis
qed

text \<open>The fraction of a report always lies between zero and one.\<close>

lemma report_fraction_bounds:
  "0 \<le> sm_fraction (metrics_from_report report) \<and> sm_fraction (metrics_from_report report) \<le> 1 \<and>
   0 \<le> sm_y (metrics_from_report report) \<and>
   sm_y (metrics_from_report report) \<le> max (sm_h (metrics_from_report report) - sm_c (metrics_from_report report)) 0"
  by (auto simp: metrics_from_report_def Let_def clamp_def)

end
