(* ===== verification/Inline_Images.thy ===== *)
theory Inline_Images
  imports Mime_Walk Html_Sanitize
begin

text \<open>
  The HTML document of a prepared message (\<open>notm-ui/src/thread\_loader.rs\<close>): sanitizing the
  body scope by scope, replacing \<open>cid:\<close> references by the message's own images within byte
  budgets, blocking remote images, and the two documents with their content security policies.
  The regular expression for \<open>src="cid:..."\<close> and the base64 encoder are external; matches come
  in the order of \<open>captures\_iter\<close>, each as start, end and captured text.
\<close>

section \<open>Data\<close>

definition MAX_TEXT_VIEW_BYTES :: nat where "MAX_TEXT_VIEW_BYTES = 4 * 1024 * 1024"
definition MAX_INLINE_IMAGE_BYTES :: nat where "MAX_INLINE_IMAGE_BYTES = 4 * 1024 * 1024"
definition MAX_TOTAL_INLINE_IMAGE_BYTES :: nat where "MAX_TOTAL_INLINE_IMAGE_BYTES = 8 * 1024 * 1024"
definition MAX_INLINE_IMAGE_REFERENCES :: nat where "MAX_INLINE_IMAGE_REFERENCES = 2048"
definition MAX_INLINE_IMAGE_HTML_BYTES :: nat where "MAX_INLINE_IMAGE_HTML_BYTES = 16 * 1024 * 1024"

record inline_lib =
  il_html :: html_lib
  il_mime :: mime_lib
  il_cid_captures :: "string \<Rightarrow> (nat \<times> nat \<times> string) list"
  il_base64 :: "string \<Rightarrow> string"

record prepared_scope =
  ps_start :: nat
  ps_end :: nat
  ps_part_indexes :: "nat list option"

record segment_selection =
  ss_start :: nat
  ss_end :: nat
  ss_part_indexes :: "(string \<times> nat) list"

record inline_resource =
  ir_content_id :: string
  ir_data_uri :: string

datatype prepared_html =
    HtmlMissing
  | HtmlReady nat string string
  | HtmlUnavailable nat string

text \<open>\<open>str::is\_char\_boundary\<close> and \<open>str::get\<close>.\<close>

definition is_char_boundary :: "string \<Rightarrow> nat \<Rightarrow> bool" where
  "is_char_boundary s i \<longleftrightarrow> i = 0 \<or> i = length s \<or> i < length s \<and> \<not> is_cont (s ! i)"

definition str_get :: "string \<Rightarrow> nat \<Rightarrow> nat \<Rightarrow> string option" where
  "str_get s start stop =
     (if start \<le> stop \<and> is_char_boundary s start \<and> is_char_boundary s stop then Some (slice start stop s) else None)"

section \<open>Scopes\<close>

text \<open>The \<open>try\_fold\<close> that checks the scopes: each starts where the previous one ended.\<close>

fun scopes_end :: "string \<Rightarrow> nat \<Rightarrow> cid_scope list \<Rightarrow> nat option" where
  "scopes_end html expected_start [] = Some expected_start"
| "scopes_end html expected_start (scope # scopes) =
     (if cs_start scope = expected_start \<and> cs_end scope \<ge> cs_start scope \<and> cs_end scope \<le> length html \<and>
         is_char_boundary html (cs_start scope) \<and> is_char_boundary html (cs_end scope)
      then scopes_end html (cs_end scope) scopes else None)"

definition prepared_html_cid_part_scopes :: "string \<Rightarrow> cid_scope list \<Rightarrow> prepared_scope list" where
  "prepared_html_cid_part_scopes html scopes =
     (let valid_scopes = scopes \<noteq> [] \<and> scopes_end html 0 scopes = Some (length html) in
      if valid_scopes
      then map (\<lambda>scope. \<lparr>ps_start = cs_start scope, ps_end = cs_end scope, ps_part_indexes = cs_part_indexes scope\<rparr>) scopes
      else [\<lparr>ps_start = 0, ps_end = length html, ps_part_indexes = (if scopes \<noteq> [] then Some [] else None)\<rparr>])"

fun sanitize_scopes :: "html_lib \<Rightarrow> string \<Rightarrow> string \<Rightarrow> prepared_scope list \<Rightarrow> string \<times> prepared_scope list" where
  "sanitize_scopes lib html sanitized [] = (sanitized, [])"
| "sanitize_scopes lib html sanitized (scope # scopes) =
     (let fragment = sanitize_html_with_cid_images lib (slice (ps_start scope) (ps_end scope) html);
          start = length sanitized;
          sanitized = sanitized @ fragment;
          (result, rest) = sanitize_scopes lib html sanitized scopes in
      (result, \<lparr>ps_start = start, ps_end = length sanitized, ps_part_indexes = ps_part_indexes scope\<rparr> # rest))"

definition sanitize_html_with_cid_part_scopes ::
  "html_lib \<Rightarrow> string \<Rightarrow> cid_scope list \<Rightarrow> string \<times> prepared_scope list" where
  "sanitize_html_with_cid_part_scopes lib html scopes =
     sanitize_scopes lib html [] (prepared_html_cid_part_scopes html scopes)"

section \<open>Content identifiers\<close>

definition cid_hex_value :: "char \<Rightarrow> nat option" where
  "cid_hex_value byte =
     (if is_ascii_digit byte then Some (bval byte - 48)
      else if 97 \<le> bval byte \<and> bval byte \<le> 102 then Some (bval byte - 97 + 10)
      else if 65 \<le> bval byte \<and> bval byte \<le> 70 then Some (bval byte - 65 + 10)
      else None)"

definition normalize_url_content_id :: "string \<Rightarrow> string" where
  "normalize_url_content_id value' =
     to_ascii_lowercase (trim (rev (dropWhile (\<lambda>c. c = CHR ''>'')
       (rev (dropWhile (\<lambda>c. c = CHR ''<'') (trim value'))))))"

function decode_sanitized_attribute_entities :: "string \<Rightarrow> string" where
  "decode_sanitized_attribute_entities [] = []"
| "decode_sanitized_attribute_entities (b # bs) =
     (if starts_with (b # bs) ''&amp;'' then CHR ''&'' # decode_sanitized_attribute_entities (drop 4 bs)
      else if starts_with (b # bs) ''&quot;'' then DQ # decode_sanitized_attribute_entities (drop 5 bs)
      else if starts_with (b # bs) ''&nbsp;''
      then CHR 0xC2 # CHR 0xA0 # decode_sanitized_attribute_entities (drop 5 bs)
      else b # take (utf8_len b - 1) bs @ decode_sanitized_attribute_entities (drop (utf8_len b - 1) bs))"
  by pat_completeness auto
termination by (relation "measure length") auto

fun percent_decode_cid :: "string \<Rightarrow> string option" where
  "percent_decode_cid [] = Some []"
| "percent_decode_cid (c # cs) =
     (if c \<noteq> CHR ''%'' then map_option (Cons c) (percent_decode_cid cs)
      else (case cs of
              h # l # rest \<Rightarrow>
                Option.bind (cid_hex_value h) (\<lambda>high. Option.bind (cid_hex_value l) (\<lambda>low.
                  map_option (Cons (char_of (16 * high + low))) (percent_decode_cid rest)))
            | _ \<Rightarrow> None))"

definition decode_cid_url_content_id :: "string \<Rightarrow> string option" where
  "decode_cid_url_content_id value' =
     Option.bind (percent_decode_cid (decode_sanitized_attribute_entities value')) (\<lambda>decoded.
       if list_ex is_ascii_control decoded \<or> \<not> valid_utf8 decoded then None
       else (let content_id = normalize_url_content_id decoded in if content_id \<noteq> [] then Some content_id else None))"

definition inline_image_content_type_is_safe :: "string \<Rightarrow> bool" where
  "inline_image_content_type_is_safe content_type \<longleftrightarrow>
     to_ascii_lowercase (trim content_type) \<in>
       {''image/avif'', ''image/gif'', ''image/jpeg'', ''image/png'', ''image/webp''}"

section \<open>Choosing the images\<close>

text \<open>
  One candidate; the state is what the scope has selected, the part indexes selected by any
  scope, and the total of their decoded sizes.
\<close>

definition select_candidate ::
  "string set \<Rightarrow> nat \<Rightarrow> nat \<Rightarrow> attachment \<Rightarrow> (string \<times> nat) list \<times> nat set \<times> nat \<Rightarrow> (string \<times> nat) list \<times> nat set \<times> nat"
where
  "select_candidate referenced max_inline_image_bytes max_total_inline_image_bytes attachment state =
     (case state of (selected, selected_part_indexes, selected_total_bytes) \<Rightarrow>
      case map_option normalize_url_content_id (at_content_id attachment) of
        None \<Rightarrow> state
      | Some content_id \<Rightarrow>
          if content_id = [] \<or> at_decode_error attachment \<noteq> None \<or>
             \<not> inline_image_content_type_is_safe (at_content_type attachment) \<or>
             content_id \<notin> referenced \<or> map_of selected content_id \<noteq> None \<or>
             at_size attachment = 0 \<or> at_size attachment > max_inline_image_bytes
          then state
          else if at_part_index attachment \<in> selected_part_indexes
          then (selected @ [(content_id, at_part_index attachment)], selected_part_indexes, selected_total_bytes)
          else (case checked_add selected_total_bytes (at_size attachment) of
                  None \<Rightarrow> state
                | Some next_total \<Rightarrow>
                    if next_total > max_total_inline_image_bytes then state
                    else (selected @ [(content_id, at_part_index attachment)],
                          insert (at_part_index attachment) selected_part_indexes, next_total)))"

definition select_inline_cid_segment_candidates ::
  "attachment list \<Rightarrow> string set \<Rightarrow> nat set \<times> nat \<Rightarrow> nat \<Rightarrow> nat \<Rightarrow> (string \<times> nat) list \<times> nat set \<times> nat" where
  "select_inline_cid_segment_candidates candidates referenced budget max_inline_image_bytes max_total_inline_image_bytes =
     fold (select_candidate referenced max_inline_image_bytes max_total_inline_image_bytes) candidates ([], budget)"

definition attachments_by_part_index :: "attachment list \<Rightarrow> nat \<Rightarrow> attachment option" where
  "attachments_by_part_index attachments = map_of (rev (map (\<lambda>a. (at_part_index a, a)) attachments))"

definition scope_candidates :: "attachment list \<Rightarrow> prepared_scope \<Rightarrow> attachment list" where
  "scope_candidates attachments scope =
     (case ps_part_indexes scope of
        Some part_indexes \<Rightarrow> List.map_filter (attachments_by_part_index attachments) part_indexes
      | None \<Rightarrow> attachments)"

definition referenced_cids :: "inline_lib \<Rightarrow> string \<Rightarrow> string set" where
  "referenced_cids lib segment =
     set (List.map_filter (\<lambda>(start, stop, cid). decode_cid_url_content_id cid) (il_cid_captures lib segment))"

fun select_segments ::
  "inline_lib \<Rightarrow> string \<Rightarrow> attachment list \<Rightarrow> nat \<Rightarrow> nat \<Rightarrow> prepared_scope list \<Rightarrow> nat set \<times> nat \<Rightarrow>
   segment_selection list \<times> nat set \<times> nat" where
  "select_segments lib html attachments max_image max_total [] budget = ([], budget)"
| "select_segments lib html attachments max_image max_total (scope # scopes) budget =
     (case str_get html (ps_start scope) (ps_end scope) of
        None \<Rightarrow> select_segments lib html attachments max_image max_total scopes budget
      | Some segment \<Rightarrow>
          (let (selected, budget) = select_inline_cid_segment_candidates (scope_candidates attachments scope)
                 (referenced_cids lib segment) budget max_image max_total;
               (segments, budget) = select_segments lib html attachments max_image max_total scopes budget in
           (\<lparr>ss_start = ps_start scope, ss_end = ps_end scope, ss_part_indexes = selected\<rparr> # segments, budget)))"

text \<open>The extracted images that may be inlined, again within the budget.\<close>

definition add_resource ::
  "inline_lib \<Rightarrow> nat \<Rightarrow> nat \<Rightarrow> extracted_attachment \<Rightarrow> nat \<times> (nat \<times> inline_resource) list \<Rightarrow> nat \<times> (nat \<times> inline_resource) list"
where
  "add_resource lib max_image max_total attachment state =
     (case state of (total_bytes, resources) \<Rightarrow>
      case ea_content_id attachment of
        None \<Rightarrow> state
      | Some content_id \<Rightarrow>
          if \<not> inline_image_content_type_is_safe (ea_content_type attachment) \<or>
             ea_bytes attachment = [] \<or> length (ea_bytes attachment) > max_image
          then state
          else (let content_id = normalize_url_content_id content_id in
            if content_id = [] \<or> map_of resources (ea_part_index attachment) \<noteq> None then state
            else (case checked_add total_bytes (length (ea_bytes attachment)) of
                    None \<Rightarrow> state
                  | Some next_total \<Rightarrow>
                      if next_total > max_total then state
                      else (next_total, resources @ [(ea_part_index attachment,
                        \<lparr>ir_content_id = content_id,
                         ir_data_uri = ''data:'' @ ea_content_type attachment @ '';base64,'' @
                           il_base64 lib (ea_bytes attachment)\<rparr>)]))))"

definition collect_resources ::
  "inline_lib \<Rightarrow> string \<Rightarrow> nat \<Rightarrow> nat \<Rightarrow> nat set \<Rightarrow> (nat \<times> inline_resource) list" where
  "collect_resources lib source max_image max_total selected_part_indexes =
     (if selected_part_indexes = {} then []
      else (case extract_attachment_parts_detailed_with_limits (il_mime lib) source
                   (sorted_list_of_set selected_part_indexes)
                   (default_limits\<lparr>max_decoded_part_bytes := max_image, max_total_decoded_bytes := max_total\<rparr>) of
              Inl _ \<Rightarrow> []
            | Inr report \<Rightarrow> snd (fold (add_resource lib max_image max_total) (er_attachments report) (0, []))))"

section \<open>Replacing references\<close>

text \<open>The string literal \<open>src=""\<close>.\<close>

definition empty_src :: string where "empty_src = ''src='' @ [DQ, DQ]"

record 'r replacement =
  rp_output :: string
  rp_last_end :: nat
  rp_projected_len :: nat
  rp_resolved :: nat
  rp_lookup :: 'r

text \<open>One match; \<open>resource_for\<close> carries the state of the caller's closure.\<close>

definition replace_cid ::
  "string \<Rightarrow> nat \<Rightarrow> nat \<Rightarrow> (nat \<Rightarrow> nat \<Rightarrow> string \<Rightarrow> 'r \<Rightarrow> string option \<times> 'r) \<Rightarrow> nat \<times> nat \<times> string \<Rightarrow>
   'r replacement \<Rightarrow> 'r replacement" where
  "replace_cid html max_output_bytes max_resolved_references resource_for capture st =
     (case capture of (start, stop, cid) \<Rightarrow>
      let resolution_fits_base_document = length html \<le> max_output_bytes;
          effective_output_limit = max max_output_bytes (length html);
          output = rp_output st @ slice (rp_last_end st) start html;
          (resource, lookup) =
            (case decode_cid_url_content_id cid of
               None \<Rightarrow> (None, rp_lookup st)
             | Some content_id \<Rightarrow> resource_for start stop content_id (rp_lookup st));
          replacement_len = (case resource of
              None \<Rightarrow> length empty_src | Some resource \<Rightarrow> length empty_src + length resource);
          candidate_len = (rp_projected_len st - (stop - start)) + replacement_len in
      case resource of
        Some resource \<Rightarrow>
          if resolution_fits_base_document \<and> rp_resolved st < max_resolved_references \<and>
             candidate_len \<le> effective_output_limit
          then \<lparr>rp_output = output @ ''src='' @ [DQ] @ resource @ [DQ], rp_last_end = stop,
                rp_projected_len = candidate_len, rp_resolved = rp_resolved st + 1, rp_lookup = lookup\<rparr>
          else \<lparr>rp_output = output @ empty_src, rp_last_end = stop,
                rp_projected_len = (rp_projected_len st - (stop - start)) + length empty_src,
                rp_resolved = rp_resolved st, rp_lookup = lookup\<rparr>
      | None \<Rightarrow> \<lparr>rp_output = output @ empty_src, rp_last_end = stop,
                rp_projected_len = (rp_projected_len st - (stop - start)) + length empty_src,
                rp_resolved = rp_resolved st, rp_lookup = lookup\<rparr>)"

definition replace_all_cids ::
  "string \<Rightarrow> (nat \<times> nat \<times> string) list \<Rightarrow> nat \<Rightarrow> nat \<Rightarrow>
   (nat \<Rightarrow> nat \<Rightarrow> string \<Rightarrow> 'r \<Rightarrow> string option \<times> 'r) \<Rightarrow> 'r \<Rightarrow> 'r replacement" where
  "replace_all_cids html captures max_output_bytes max_resolved_references resource_for lookup =
     fold (replace_cid html max_output_bytes max_resolved_references resource_for) captures
       \<lparr>rp_output = [], rp_last_end = 0, rp_projected_len = length html, rp_resolved = 0, rp_lookup = lookup\<rparr>"

definition replace_cid_sources_bounded_by ::
  "string \<Rightarrow> (nat \<times> nat \<times> string) list \<Rightarrow> nat \<Rightarrow> nat \<Rightarrow>
   (nat \<Rightarrow> nat \<Rightarrow> string \<Rightarrow> 'r \<Rightarrow> string option \<times> 'r) \<Rightarrow> 'r \<Rightarrow> string" where
  "replace_cid_sources_bounded_by html captures max_output_bytes max_resolved_references resource_for lookup =
     (let st = replace_all_cids html captures max_output_bytes max_resolved_references resource_for lookup in
      rp_output st @ drop (rp_last_end st) html)"

text \<open>The closure: its state is the list of segments not left behind yet.\<close>

definition segment_resource ::
  "(nat \<times> inline_resource) list \<Rightarrow> nat \<Rightarrow> nat \<Rightarrow> string \<Rightarrow> segment_selection list \<Rightarrow>
   string option \<times> segment_selection list" where
  "segment_resource resources start stop content_id segments =
     (let segments = dropWhile (\<lambda>segment. start \<ge> ss_end segment) segments in
      (case segments of
         [] \<Rightarrow> None
       | segment # _ \<Rightarrow>
           if start < ss_start segment \<or> stop > ss_end segment then None
           else Option.bind (map_of (ss_part_indexes segment) content_id) (\<lambda>part_index.
                  Option.bind (map_of resources part_index) (\<lambda>resource.
                    if ir_content_id resource = content_id then Some (ir_data_uri resource) else None)),
       segments))"

definition resolve_inline_cid_images_scoped_with_limits ::
  "inline_lib \<Rightarrow> string \<Rightarrow> prepared_scope list \<Rightarrow> parsed_message \<Rightarrow> string \<Rightarrow> nat \<Rightarrow> nat \<Rightarrow> string" where
  "resolve_inline_cid_images_scoped_with_limits lib html cid_scopes parsed source max_image max_total =
     (if il_cid_captures lib html = [] then html
      else (let (segments, selected_part_indexes, selected_total_bytes) =
                  select_segments lib html (pg_attachments parsed) max_image max_total cid_scopes ({}, 0);
                resources = collect_resources lib source max_image max_total selected_part_indexes in
            replace_cid_sources_bounded_by html (il_cid_captures lib html) MAX_INLINE_IMAGE_HTML_BYTES
              MAX_INLINE_IMAGE_REFERENCES (segment_resource resources) segments))"

definition resolve_inline_cid_images ::
  "inline_lib \<Rightarrow> string \<Rightarrow> prepared_scope list \<Rightarrow> parsed_message \<Rightarrow> string \<Rightarrow> string" where
  "resolve_inline_cid_images lib html cid_scopes parsed source =
     resolve_inline_cid_images_scoped_with_limits lib html cid_scopes parsed source
       MAX_INLINE_IMAGE_BYTES MAX_TOTAL_INLINE_IMAGE_BYTES"

section \<open>Blocking remote images and the documents\<close>

definition data_image_src :: string where
  "data_image_src = ''src='' @ [DQ] @ ''data:image/''"

definition blocked_image_span :: string where
  "blocked_image_span = ''<span class='' @ [DQ] @ ''notm-blocked-image'' @ [DQ] @ ''>[image blocked]</span>''"

definition tag_boundary :: "string \<Rightarrow> bool" where
  "tag_boundary rest \<longleftrightarrow>
     (case rest of [] \<Rightarrow> True | c # _ \<Rightarrow> c = CHR ''>'' \<or> c = CHR ''/'' \<or> is_ascii_whitespace c)"

text \<open>What is left from \<open>pos\<close> on is the argument; the text already copied is in front of the result.\<close>

function strip_remote_img_tags :: "string \<Rightarrow> string" where
  "strip_remote_img_tags html =
     (case windows_position ''<img'' (to_ascii_lowercase html) of
        None \<Rightarrow> html
      | Some start \<Rightarrow>
          if \<not> tag_boundary (drop (start + 4) (to_ascii_lowercase html))
          then take (start + 4) html @ strip_remote_img_tags (drop (start + 4) html)
          else take start html @
            (case windows_position ''>'' (drop start (to_ascii_lowercase html)) of
               None \<Rightarrow> []
             | Some relative_end \<Rightarrow>
                 (let end_of_tag = start + relative_end + 1; tag = slice start end_of_tag html in
                  (if has_infix data_image_src (to_ascii_lowercase tag) then tag else blocked_image_span) @
                  strip_remote_img_tags (drop end_of_tag html))))"
  by pat_completeness auto
termination
  by (relation "measure length") (auto dest!: windows_position_Some)

declare strip_remote_img_tags.simps [simp del]

definition quoted :: "string \<Rightarrow> string" where
  "quoted s = DQ # s @ [DQ]"

text \<open>The keyword \<open>none\<close> of a policy, between apostrophes.\<close>

definition single_quoted :: "string \<Rightarrow> string" where
  "single_quoted s = CHR 0x27 # s @ [CHR 0x27]"

definition content_security_policy :: "string \<Rightarrow> string" where
  "content_security_policy image_sources =
     ''default-src '' @ single_quoted ''none'' @ ''; img-src '' @ image_sources @
     ''; style-src '' @ single_quoted ''unsafe-inline'' @
     concat (map (\<lambda>directive. ''; '' @ directive @ '' '' @ single_quoted ''none'')
       [''script-src'', ''connect-src'', ''frame-src'', ''font-src'', ''media-src'', ''object-src'', ''base-uri'',
        ''form-action''])"

lemma length_quoted [simp]: "length (quoted s) = length s + 2"
  by (simp add: quoted_def)

definition document_lines_before :: "string \<Rightarrow> string list" where
  "document_lines_before image_sources =
    [''<!doctype html>'',
     ''<html>'',
     ''<head>'',
     ''<meta charset='' @ quoted ''utf-8'' @ ''>'',
     ''<meta http-equiv='' @ quoted ''Content-Security-Policy'' @ '' content='' @
       quoted (content_security_policy image_sources) @ ''>'',
     ''<meta name='' @ quoted ''color-scheme'' @ '' content='' @ quoted ''light'' @ ''>'',
     ''<style>'',
     '':root {'',
     ''  color-scheme: light;'',
     ''  font: 15px system-ui, sans-serif;'',
     ''  background: #ffffff;'',
     ''  color: #111111;'',
     ''}'',
     ''body {'',
     ''  margin: 0;'',
     ''  padding: 16px;'',
     ''  line-height: 1.45;'',
     ''  overflow-wrap: anywhere;'',
     ''  background: #ffffff;'',
     ''  color: #111111;'',
     ''}'',
     ''.notm-blocked-image {'',
     ''  display: inline;'',
     ''  margin: 0;'',
     ''  padding: 0;'',
     ''  background: transparent;'',
     ''  color: #666666;'',
     ''  font-size: 12px;'',
     ''  font-style: italic;'',
     ''}'',
     ''a { color: #1155cc; }'',
     ''pre, code {'',
     ''  font-family: ui-monospace, monospace;'',
     ''  white-space: pre-wrap;'',
     ''}'',
     ''blockquote {'',
     ''  margin-inline-start: 0.8em;'',
     ''  padding-inline-start: 0.8em;'',
     ''  color: #555555;'',
     ''}'',
     ''table {'',
     ''  border-collapse: collapse;'',
     ''  max-width: 100%;'',
     ''}'',
     ''td, th {'',
     ''  border: 0;'',
     ''  padding: 0;'',
     ''  vertical-align: top;'',
     ''}'',
     ''</style>'',
     ''</head>'',
     ''<body>'']"

definition visual_html_document :: "string \<Rightarrow> bool \<Rightarrow> string" where
  "visual_html_document body allow_remote_images =
     (let image_sources = (if allow_remote_images then ''data: http: https:'' else ''data:'') in
      concat (map (\<lambda>line. line @ [LF]) (document_lines_before image_sources)) @ body @ [LF] @ ''</body>'' @ [LF] @ ''</html>'')"

definition prepare_html :: "inline_lib \<Rightarrow> parsed_message \<Rightarrow> string \<Rightarrow> nat \<Rightarrow> prepared_html" where
  "prepare_html lib parsed source max_bytes =
     (case pg_html_body parsed of
        None \<Rightarrow> HtmlMissing
      | Some html \<Rightarrow>
          if trim html = [] then HtmlMissing
          else if length html > max_bytes
          then HtmlUnavailable (length html)
                 (''HTML body is '' @ show_nat (length html) @ '' bytes; the responsive rendering limit is '' @
                  show_nat max_bytes @ '' bytes; use Text or Raw Source view'')
          else (let (sanitized, sanitized_cid_scopes) =
                      sanitize_html_with_cid_part_scopes (il_html lib) html (pg_html_cid_part_scopes parsed);
                    sanitized = resolve_inline_cid_images lib sanitized sanitized_cid_scopes parsed source;
                    images_allowed = visual_html_document sanitized True;
                    blocked_body = strip_remote_img_tags sanitized;
                    images_blocked = visual_html_document blocked_body False in
                HtmlReady (length html) images_allowed images_blocked))"

section \<open>Blocked images\<close>

text \<open>
  The image tags of a document: from \<open><img\<close> at a tag boundary to the next \<open>>\<close>.
\<close>

function img_tags :: "string \<Rightarrow> string list" where
  "img_tags html =
     (case windows_position ''<img'' (to_ascii_lowercase html) of
        None \<Rightarrow> []
      | Some start \<Rightarrow>
          if \<not> tag_boundary (drop (start + 4) (to_ascii_lowercase html)) then img_tags (drop (start + 4) html)
          else (case windows_position ''>'' (drop start (to_ascii_lowercase html)) of
                  None \<Rightarrow> []
                | Some e \<Rightarrow> take (e + 1) (drop start html) # img_tags (drop (start + e + 1) html)))"
  by pat_completeness auto
termination
  by (relation "measure length") (auto dest!: windows_position_Some)

declare img_tags.simps [simp del]

text \<open>The two scanners, case by case.\<close>

lemma img_tags_cases:
  "windows_position ''<img'' (to_ascii_lowercase html) = None \<Longrightarrow> img_tags html = []"
  "windows_position ''<img'' (to_ascii_lowercase html) = Some i \<Longrightarrow>
     \<not> tag_boundary (drop (i + 4) (to_ascii_lowercase html)) \<Longrightarrow> img_tags html = img_tags (drop (i + 4) html)"
  "windows_position ''<img'' (to_ascii_lowercase html) = Some i \<Longrightarrow>
     tag_boundary (drop (i + 4) (to_ascii_lowercase html)) \<Longrightarrow>
     windows_position ''>'' (drop i (to_ascii_lowercase html)) = None \<Longrightarrow> img_tags html = []"
  "windows_position ''<img'' (to_ascii_lowercase html) = Some i \<Longrightarrow>
     tag_boundary (drop (i + 4) (to_ascii_lowercase html)) \<Longrightarrow>
     windows_position ''>'' (drop i (to_ascii_lowercase html)) = Some e \<Longrightarrow>
     img_tags html = take (e + 1) (drop i html) # img_tags (drop (i + e + 1) html)"
  by (subst img_tags.simps, simp)+

lemma strip_remote_cases:
  "windows_position ''<img'' (to_ascii_lowercase html) = None \<Longrightarrow> strip_remote_img_tags html = html"
  "windows_position ''<img'' (to_ascii_lowercase html) = Some i \<Longrightarrow>
     \<not> tag_boundary (drop (i + 4) (to_ascii_lowercase html)) \<Longrightarrow>
     strip_remote_img_tags html = take (i + 4) html @ strip_remote_img_tags (drop (i + 4) html)"
  "windows_position ''<img'' (to_ascii_lowercase html) = Some i \<Longrightarrow>
     tag_boundary (drop (i + 4) (to_ascii_lowercase html)) \<Longrightarrow>
     windows_position ''>'' (drop i (to_ascii_lowercase html)) = None \<Longrightarrow> strip_remote_img_tags html = take i html"
  "windows_position ''<img'' (to_ascii_lowercase html) = Some i \<Longrightarrow>
     tag_boundary (drop (i + 4) (to_ascii_lowercase html)) \<Longrightarrow>
     windows_position ''>'' (drop i (to_ascii_lowercase html)) = Some e \<Longrightarrow>
     strip_remote_img_tags html = take i html @
       (if has_infix data_image_src (to_ascii_lowercase (slice i (i + e + 1) html)) then slice i (i + e + 1) html
        else blocked_image_span) @ strip_remote_img_tags (drop (i + e + 1) html)"
  by (subst strip_remote_img_tags.simps, simp add: Let_def)+

lemma starts_with_nth:
  "starts_with s p \<longleftrightarrow> length p \<le> length s \<and> (\<forall>i < length p. s ! i = p ! i)"
  by (auto simp: starts_with_def list_eq_iff_nth_eq min_def)

lemma windows_position_fits:
  "windows_position n s = Some i \<Longrightarrow> i + length n \<le> length s"
proof (induction s arbitrary: i)
  case (Cons x s)
  then show ?case by (auto simp: starts_with_nth split: if_splits)
qed simp

text \<open>The first occurrence stays the first one when what follows it changes.\<close>

lemma windows_position_take:
  assumes "windows_position n s = Some i" "i + length n \<le> k" "n \<noteq> []"
  shows "windows_position n (take k s @ t) = Some i"
  using assms
proof (induction s arbitrary: i k)
  case (Cons x s)
  have fits: "i + length n \<le> length (x # s)" by (rule windows_position_fits [OF Cons.prems(1)])
  have same: "starts_with (take k (x # s) @ t) n = starts_with (x # s) n"
    using fits Cons.prems(2) by (auto simp: starts_with_nth nth_append)
  show ?case
  proof (cases "starts_with (x # s) n")
    case True
    then have "i = 0" "0 < k" using Cons.prems by (auto simp: neq_Nil_conv)
    then obtain k' where "k = Suc k'" by (cases k) auto
    then show ?thesis using True same \<open>i = 0\<close> by simp
  next
    case False
    with Cons.prems(1) obtain i' where i': "windows_position n s = Some i'" "i = Suc i'" by auto
    with Cons.prems(2) obtain k' where k': "k = Suc k'" "i' + length n \<le> k'" by (cases k) auto
    show ?thesis using Cons.IH [OF i'(1) k'(2) Cons.prems(3)] same False by (simp add: k' i')
  qed
qed simp

text \<open>No occurrence in the first part, and none across the border.\<close>

lemma starts_with_take: "starts_with (take k s) n \<Longrightarrow> starts_with s n"
  by (auto simp: starts_with_nth)

lemma windows_position_none_before:
  "windows_position n s = Some i \<Longrightarrow> windows_position n (take i s) = None"
proof (induction s arbitrary: i)
  case (Cons x s)
  show ?case
  proof (cases "starts_with (x # s) n")
    case False
    with Cons.prems obtain i' where i': "windows_position n s = Some i'" "i = Suc i'" by auto
    have "\<not> starts_with (take (Suc i') (x # s)) n" using False starts_with_take by blast
    then show ?thesis using Cons.IH [OF i'(1)] by (simp add: i')
  qed (use Cons.prems in auto)
qed simp

lemma windows_position_append:
  assumes "windows_position n a = None" "n \<noteq> []"
    and "\<And>j. j < length a \<Longrightarrow> starts_with (drop j (a @ b)) n \<Longrightarrow> starts_with (drop j a) n"
  shows "windows_position n (a @ b) = map_option (\<lambda>i. length a + i) (windows_position n b)"
  using assms(1,3)
proof (induction a)
  case Nil
  then show ?case by (simp add: option.map_ident)
next
  case (Cons x a)
  have "\<not> starts_with (x # a) n" using Cons.prems(1) by auto
  then have "\<not> starts_with (x # a @ b) n" using Cons.prems(2) [of 0] by auto
  moreover have "windows_position n (a @ b) = map_option (\<lambda>i. length a + i) (windows_position n b)"
  proof (rule Cons.IH)
    show "windows_position n a = None" using Cons.prems(1) by (auto split: if_splits)
    show "starts_with (drop j a) n" if "j < length a" "starts_with (drop j (a @ b)) n" for j
      using Cons.prems(2) [of "Suc j"] that by simp
  qed
  ultimately show ?case by (simp add: option.map_comp comp_def)
qed

lemma starts_with_inside:
  "j + length n \<le> length a \<Longrightarrow> starts_with (drop j (a @ b)) n \<Longrightarrow> starts_with (drop j a) n"
  by (simp add: starts_with_def)

lemma no_straddle_last:
  assumes "a \<noteq> []" "last a \<notin> set n" "j < length a" "starts_with (drop j (a @ b)) n"
  shows "starts_with (drop j a) n"
proof (rule ccontr)
  assume neg: "\<not> starts_with (drop j a) n"
  have pre: "length n \<le> length (drop j (a @ b))" "\<And>i. i < length n \<Longrightarrow> (a @ b) ! (j + i) = n ! i"
    using assms(3,4) by (auto simp: starts_with_nth simp del: drop_append)
  have "length a < j + length n"
    using neg starts_with_inside [OF _ assms(4)] by (meson not_le)
  then have k: "length a - 1 - j < length n" using assms(3) by linarith
  have "(a @ b) ! (j + (length a - 1 - j)) = last a"
    using assms(1,3) by (simp add: nth_append last_conv_nth)
  then have "last a = n ! (length a - 1 - j)" using pre(2) [OF k] by simp
  then show False using k assms(2) by (metis nth_mem)
qed

lemma no_straddle_hd:
  assumes "b \<noteq> []" "hd b \<notin> set (tl n)" "j < length a" "starts_with (drop j (a @ b)) n"
  shows "starts_with (drop j a) n"
proof (rule ccontr)
  assume neg: "\<not> starts_with (drop j a) n"
  have pre: "length n \<le> length (drop j (a @ b))" "\<And>i. i < length n \<Longrightarrow> (a @ b) ! (j + i) = n ! i"
    using assms(3,4) by (auto simp: starts_with_nth simp del: drop_append)
  have k: "length a - j < length n"
  proof (rule ccontr)
    assume "\<not> length a - j < length n"
    then have "j + length n \<le> length a" using assms(3) by linarith
    then show False using neg starts_with_inside [OF _ assms(4)] by blast
  qed
  have "(a @ b) ! (j + (length a - j)) = hd b"
    using assms(1,3) by (simp add: nth_append hd_conv_nth)
  then have eq: "hd b = n ! (length a - j)" using pre(2) [OF k] by simp
  obtain m where m: "length a - j = Suc m" using assms(3) by (metis Suc_diff_Suc)
  have "hd b = tl n ! m" "m < length (tl n)" using eq k by (simp_all add: m nth_tl)
  then show False using assms(2) by (metis nth_mem)
qed

lemma img_tags_skip:
  assumes "windows_position ''<img'' (to_ascii_lowercase a) = None" "a \<noteq> []" "last a = CHR ''>''"
  shows "img_tags (a @ b) = img_tags b"
proof -
  let ?a = "to_ascii_lowercase a" and ?b = "to_ascii_lowercase b"
  have e: "last ?a = to_ascii_lower (CHR ''>'')" unfolding last_map [OF assms(2)] assms(3) ..
  have ne: "to_ascii_lower (CHR ''>'') \<notin> set ''<img''" by code_simp
  have last: "last ?a \<notin> set ''<img''" unfolding e by (rule ne)
  have "?a \<noteq> []" using assms(2) by simp
  then have "windows_position ''<img'' (?a @ ?b) = map_option (\<lambda>i. length ?a + i) (windows_position ''<img'' ?b)"
    by (intro windows_position_append assms(1) no_straddle_last [OF _ last]) simp_all
  then have w: "windows_position ''<img'' (to_ascii_lowercase (a @ b)) =
      map_option (\<lambda>i. length a + i) (windows_position ''<img'' (to_ascii_lowercase b))" by simp
  show ?thesis
    by (subst (1 2) img_tags.simps, unfold w) (simp split: option.split add: add.assoc)
qed

lemma tag_boundary_Nil [simp]: "tag_boundary []"
  by (simp add: tag_boundary_def)

lemma img_at_start:
  assumes "windows_position ''<img'' (to_ascii_lowercase html) = Some start"
  shows "take 4 (drop start (to_ascii_lowercase html)) = ''<img''"
    and "windows_position ''>'' (drop start (to_ascii_lowercase html)) = Some e \<Longrightarrow> 4 \<le> e \<and> start + e < length html"
proof -
  show i: "take 4 (drop start (to_ascii_lowercase html)) = ''<img''"
    using windows_position_Some [OF assms] by (simp add: starts_with_def eval_nat_numeral)
  assume e: "windows_position ''>'' (drop start (to_ascii_lowercase html)) = Some e"
  from windows_position_Some [OF e] have lt: "e < length html - start"
    and at: "take 1 (drop e (drop start (to_ascii_lowercase html))) = ''>''"
    by (simp_all add: starts_with_def)
  have "drop start (to_ascii_lowercase html) ! e = CHR ''>''"
    using at lt by (metis drop_drop length_map length_drop take_Suc_conv_app_nth take_eq_Nil One_nat_def append_Nil
        hd_drop_conv_nth hd_take list.sel(1) zero_less_one)
  moreover have "drop start (to_ascii_lowercase html) ! e = ''<img'' ! e" if "e < 4"
    using i that by (metis nth_take)
  ultimately have "4 \<le> e" by (cases "e < 4") (auto simp: less_Suc_eq numeral_eq_Suc nth_Cons')
  then show "4 \<le> e \<and> start + e < length html" using lt by simp
qed

lemma blocked_span_no_img:
  "windows_position ''<img'' (to_ascii_lowercase blocked_image_span) = None" "last blocked_image_span = CHR ''>''"
  "hd blocked_image_span = CHR ''<''" "blocked_image_span \<noteq> []"
  by code_simp+

lemma to_ascii_lower_other: "to_ascii_lower c = d \<Longrightarrow> \<not> is_ascii_lower d \<Longrightarrow> c = d"
  by (auto simp: to_ascii_lower_def is_ascii_upper_def is_ascii_lower_def split: if_splits)

lemma tag_boundary_hd:
  "xs \<noteq> [] \<Longrightarrow> ys \<noteq> [] \<Longrightarrow> hd xs = hd ys \<Longrightarrow>
   tag_boundary (to_ascii_lowercase xs) = tag_boundary (to_ascii_lowercase ys)"
  by (cases xs; cases ys) (simp_all add: tag_boundary_def)

lemma strip_keeps_hd:
  assumes "strip_remote_img_tags html \<noteq> []"
  shows "html \<noteq> [] \<and> hd (strip_remote_img_tags html) = hd html"
proof (cases "windows_position ''<img'' (to_ascii_lowercase html)")
  case None
  then show ?thesis using assms strip_remote_cases(1) by simp
next
  case (Some i)
  have lt: "i < length html" using windows_position_Some [OF Some] by simp
  then have ne: "html \<noteq> []" by auto
  show ?thesis
  proof (cases "tag_boundary (drop (i + 4) (to_ascii_lowercase html))")
    case False
    then show ?thesis using strip_remote_cases(2) [OF Some] ne by (simp add: hd_append)
  next
    case b: True
    show ?thesis
    proof (cases "windows_position ''>'' (drop i (to_ascii_lowercase html))")
      case None
      then show ?thesis using strip_remote_cases(3) [OF Some b] assms ne by simp
    next
      case e: (Some e)
      have tag: "slice i (i + e + 1) html \<noteq> []" "i = 0 \<Longrightarrow> hd (slice i (i + e + 1) html) = hd html"
        using lt by (simp_all add: Rust_Str.slice_def)
      have "hd html = CHR ''<''" if "i = 0"
      proof (rule to_ascii_lower_other)
        show "to_ascii_lower (hd html) = CHR ''<''"
          using img_at_start(1) [OF Some] ne that by (cases html) auto
      qed code_simp
      then show ?thesis
        using strip_remote_cases(4) [OF Some b e] tag ne blocked_span_no_img(3,4) by (cases i) (simp_all add: hd_append)
    qed
  qed
qed

lemma strip_keeps_boundary:
  "strip_remote_img_tags html \<noteq> [] \<Longrightarrow>
   tag_boundary (to_ascii_lowercase (strip_remote_img_tags html)) = tag_boundary (to_ascii_lowercase html)"
  using tag_boundary_hd strip_keeps_hd by blast

definition data_image_tag :: "string \<Rightarrow> bool" where
  "data_image_tag tag \<longleftrightarrow> has_infix data_image_src (to_ascii_lowercase tag)"

lemma strip_leaves_data_images:
  "tag \<in> set (img_tags (strip_remote_img_tags html)) \<Longrightarrow> data_image_tag tag"
proof (induction html rule: strip_remote_img_tags.induct)
  case (1 html)
  let ?L = "to_ascii_lowercase html"
  show ?case
  proof (cases "windows_position ''<img'' ?L")
    case None
    then show ?thesis using "1.prems" by (simp add: strip_remote_cases(1) img_tags_cases(1))
  next
    case (Some start)
    note at = img_at_start [OF Some]
    have L: "to_ascii_lowercase (take k html @ t) = take k ?L @ to_ascii_lowercase t" for k t
      by (simp add: take_map)
    have none: "windows_position ''<img'' (take start ?L) = None"
      by (rule windows_position_none_before [OF Some])
    show ?thesis
    proof (cases "tag_boundary (drop (start + 4) ?L)")
      case False
      let ?rest = "strip_remote_img_tags (drop (start + 4) html)"
      have out: "strip_remote_img_tags html = take (start + 4) html @ ?rest"
        by (rule strip_remote_cases(2) [OF Some False])
      have "drop (start + 4) ?L \<noteq> []" using False by (metis tag_boundary_Nil)
      then have long: "start + 4 \<le> length html" by simp
      have w: "windows_position ''<img'' (take (start + 4) ?L @ to_ascii_lowercase ?rest) = Some start"
        by (rule windows_position_take [OF Some]) simp_all
      show ?thesis
      proof (cases "?rest = []")
        case True
        have "img_tags (take (start + 4) html) = []"
        proof -
          have "windows_position ''>'' (drop start (take (start + 4) ?L)) = None"
          proof -
            have "drop start (take (start + 4) ?L) = ''<img''" using at(1) by (simp add: drop_take)
            then show ?thesis by (simp add: starts_with_def)
          qed
          then show ?thesis
            using w True img_tags_cases(3) [of "take (start + 4) html" start] by (simp add: take_map)
        qed
        then show ?thesis using "1.prems" out True by simp
      next
        case ne: False
        have "\<not> tag_boundary (to_ascii_lowercase ?rest)"
          using strip_keeps_boundary [OF ne] False by (simp add: drop_map)
        then have "img_tags (strip_remote_img_tags html) = img_tags ?rest"
          unfolding out using w long img_tags_cases(2) [of "take (start + 4) html @ ?rest" start] by (simp add: take_map)
        then show ?thesis using "1.IH"(1) [OF Some] False "1.prems" by simp
      qed
    next
      case True
      show ?thesis
      proof (cases "windows_position ''>'' (drop start ?L)")
        case None
        then have "strip_remote_img_tags html = take start html"
          by (rule strip_remote_cases(3) [OF Some True])
        then show ?thesis using "1.prems" none img_tags_cases(1) [of "take start html"] by (simp add: take_map)
      next
        case e: (Some e)
        let ?tag = "slice start (start + e + 1) html"
          and ?rest = "strip_remote_img_tags (drop (start + e + 1) html)"
        have rest: "tag \<in> set (img_tags ?rest) \<Longrightarrow> data_image_tag tag"
          using "1.IH"(2) [OF Some _ e refl refl] True by simp
        show ?thesis
        proof (cases "data_image_tag ?tag")
          case False
          then have out: "strip_remote_img_tags html = (take start html @ blocked_image_span) @ ?rest"
            using strip_remote_cases(4) [OF Some True e] by (simp add: data_image_tag_def)
          have "windows_position ''<img'' (to_ascii_lowercase (take start html @ blocked_image_span)) = None"
          proof -
            have "windows_position ''<img'' (take start ?L @ to_ascii_lowercase blocked_image_span) =
                map_option (\<lambda>i. length (take start ?L) + i)
                  (windows_position ''<img'' (to_ascii_lowercase blocked_image_span))"
            proof (rule windows_position_append [OF none])
              have "to_ascii_lowercase blocked_image_span \<noteq> []" "hd (to_ascii_lowercase blocked_image_span) \<notin> set (tl ''<img'')"
                by code_simp+
              from no_straddle_hd [OF this] show "starts_with (drop j (take start ?L)) ''<img''"
                if "j < length (take start ?L)"
                  "starts_with (drop j (take start ?L @ to_ascii_lowercase blocked_image_span)) ''<img''" for j
                using that by blast
            qed simp
            then show ?thesis by (simp add: take_map blocked_span_no_img)
          qed
          from img_tags_skip [OF this] have "img_tags (strip_remote_img_tags html) = img_tags ?rest"
            unfolding out using blocked_span_no_img by simp
          then show ?thesis using "1.prems" rest by simp
        next
          case data: True
          have cut: "take start html @ ?tag = take (start + e + 1) html"
            by (simp add: Rust_Str.slice_def take_add [symmetric] drop_take add.commute)
          have out: "strip_remote_img_tags html = take (start + e + 1) html @ ?rest"
            using strip_remote_cases(4) [OF Some True e] data cut
            by (simp add: data_image_tag_def flip: append_assoc)
          have len: "start + e < length html" "4 \<le> e" using at(2) [OF e] by auto
          have w: "windows_position ''<img'' (take (start + e + 1) ?L @ to_ascii_lowercase ?rest) = Some start"
            using len by (intro windows_position_take [OF Some]) simp_all
          have "drop (start + 4) (take (start + e + 1) ?L @ to_ascii_lowercase ?rest) =
              take (e - 3) (drop (start + 4) ?L) @ to_ascii_lowercase ?rest"
            using len by (simp add: drop_take)
          moreover have "tag_boundary (take (e - 3) (drop (start + 4) ?L) @ t)" for t
            using True len by (cases "drop (start + 4) ?L"; cases "e - 3") (auto simp: tag_boundary_def)
          ultimately have b: "tag_boundary (drop (start + 4) (take (start + e + 1) ?L @ to_ascii_lowercase ?rest))"
            by simp
          have "drop start (take (start + e + 1) ?L @ to_ascii_lowercase ?rest) =
              take (e + 1) (drop start ?L) @ to_ascii_lowercase ?rest"
            using len by (simp add: drop_take)
          then have g: "windows_position ''>'' (drop start (take (start + e + 1) ?L @ to_ascii_lowercase ?rest)) = Some e"
            using windows_position_take [OF e, of "e + 1"] by simp
          have "img_tags (strip_remote_img_tags html) = ?tag # img_tags ?rest"
            unfolding out
            using img_tags_cases(4) [of "take (start + e + 1) html @ ?rest" start e] w b g len
            by (simp add: take_map Rust_Str.slice_def drop_take)
          then show ?thesis using "1.prems" rest data by auto
        qed
      qed
    qed
  qed
qed

section \<open>Inlined images\<close>

text \<open>
  What is relied on of the regular expression: matches are in order and do not overlap, and each
  is \<open>src="cid:\<close> in some case (nine characters), the captured text, which is not empty, and the
  closing quote.
\<close>

fun captures_from :: "string \<Rightarrow> nat \<Rightarrow> (nat \<times> nat \<times> string) list \<Rightarrow> bool" where
  "captures_from html pos [] \<longleftrightarrow> pos \<le> length html"
| "captures_from html pos ((start, stop, cid) # captures) \<longleftrightarrow>
     pos \<le> start \<and> start + 10 + length cid \<le> stop \<and> cid \<noteq> [] \<and>
     slice (stop - length cid - 1) stop html = cid @ [DQ] \<and> captures_from html stop captures"

definition capture_laws :: "inline_lib \<Rightarrow> bool" where
  "capture_laws lib \<longleftrightarrow> (\<forall>html. captures_from html 0 (il_cid_captures lib html))"

text \<open>The text with each match replaced by a source attribute of the chosen value.\<close>

fun splice :: "string \<Rightarrow> nat \<Rightarrow> (nat \<times> nat \<times> string) list \<Rightarrow> string option list \<Rightarrow> string" where
  "splice html pos ((start, stop, cid) # captures) (choice # choices) =
     slice pos start html @ ''src='' @ quoted (case choice of Some uri \<Rightarrow> uri | None \<Rightarrow> []) @
     splice html stop captures choices"
| "splice html pos captures choices = drop pos html"

definition chosen :: "string option list \<Rightarrow> nat" where
  "chosen choices = length (filter (\<lambda>c. c \<noteq> None) choices)"

lemma captures_from_le: "captures_from html pos captures \<Longrightarrow> pos \<le> length html"
  by (induction html pos captures rule: captures_from.induct) auto

text \<open>One step keeps the projected length exact and within the limit.\<close>

definition replacement_ok :: "string \<Rightarrow> nat \<Rightarrow> nat \<Rightarrow> 'r replacement \<Rightarrow> bool" where
  "replacement_ok html max_out max_refs st \<longleftrightarrow>
     rp_last_end st \<le> length html \<and>
     rp_projected_len st = length (rp_output st) + (length html - rp_last_end st) \<and>
     rp_projected_len st \<le> max max_out (length html) \<and> rp_resolved st \<le> max_refs"

lemma replace_cid_step:
  assumes ok: "replacement_ok html max_out max_refs st"
    and at: "rp_last_end st \<le> start" "start + 10 + length cid \<le> stop" "stop \<le> length html"
  obtains choice lookup where
    "replace_cid html max_out max_refs resource_for (start, stop, cid) st =
       \<lparr>rp_output = rp_output st @ slice (rp_last_end st) start html @ ''src='' @
          quoted (case choice of Some uri \<Rightarrow> uri | None \<Rightarrow> []),
        rp_last_end = stop,
        rp_projected_len = rp_projected_len st - (stop - start) + 6 +
          (case choice of Some uri \<Rightarrow> length uri | None \<Rightarrow> 0),
        rp_resolved = rp_resolved st + chosen [choice],
        rp_lookup = lookup\<rparr>"
    and "choice = None \<or> rp_resolved st < max_refs \<and>
       rp_projected_len st - (stop - start) + 6 + length (the choice) \<le> max max_out (length html)"
    and "decode_cid_url_content_id cid = None \<and> choice = None \<and> lookup = rp_lookup st \<or>
       (\<exists>content_id. decode_cid_url_content_id cid = Some content_id \<and>
          lookup = snd (resource_for start stop content_id (rp_lookup st)) \<and>
          (choice = None \<or> choice = fst (resource_for start stop content_id (rp_lookup st))))"
proof -
  have src: "empty_src = ''src='' @ quoted []" "length empty_src = 6" by (simp_all add: empty_src_def quoted_def)
  show thesis
  proof (cases "decode_cid_url_content_id cid")
    case None
    show thesis
      by (rule that [of None "rp_lookup st"]) (simp_all add: None replace_cid_def Let_def src chosen_def)
  next
    case (Some content_id)
    obtain resource lookup where r: "resource_for start stop content_id (rp_lookup st) = (resource, lookup)" by fastforce
    let ?choice = "if length html \<le> max_out \<and> rp_resolved st < max_refs \<and>
        rp_projected_len st - (stop - start) + 6 + length (the resource) \<le> max max_out (length html)
      then resource else None"
    show thesis
      by (rule that [of ?choice lookup])
        (auto simp: Some r replace_cid_def Let_def src chosen_def quoted_def split: option.split)
  qed
qed

text \<open>
  All matches: \<open>choices\<close> says what each was replaced with; whatever the lookup offers while its
  state satisfies \<open>keeps\<close> is \<open>good\<close>.
\<close>

definition choice_good ::
  "(nat \<Rightarrow> nat \<Rightarrow> string \<Rightarrow> string \<Rightarrow> bool) \<Rightarrow> nat \<times> nat \<times> string \<Rightarrow> string option \<Rightarrow> bool" where
  "choice_good good capture choice \<longleftrightarrow>
     (case choice of None \<Rightarrow> True
      | Some uri \<Rightarrow> (case capture of (start, stop, cid) \<Rightarrow>
          \<exists>content_id. decode_cid_url_content_id cid = Some content_id \<and> good start stop content_id uri))"

lemma replace_all:
  assumes "captures_from html (rp_last_end st) captures" "replacement_ok html max_out max_refs st"
    and "keeps (rp_lookup st)"
    and step: "\<And>start stop content_id l. keeps l \<Longrightarrow> keeps (snd (resource_for start stop content_id l)) \<and>
       (\<forall>uri. fst (resource_for start stop content_id l) = Some uri \<longrightarrow> good start stop content_id uri)"
  shows "\<exists>choices st'. fold (replace_cid html max_out max_refs resource_for) captures st = st' \<and>
     replacement_ok html max_out max_refs st' \<and>
     rp_output st' @ drop (rp_last_end st') html = rp_output st @ splice html (rp_last_end st) captures choices \<and>
     rp_resolved st' = rp_resolved st + chosen choices \<and> list_all2 (choice_good good) captures choices"
  using assms(1-3)
proof (induction captures arbitrary: st)
  case Nil
  then show ?case by (intro exI [of _ "[]"]) (simp add: chosen_def)
next
  case (Cons capture captures)
  obtain start stop cid where c: "capture = (start, stop, cid)" by (cases capture)
  have at: "rp_last_end st \<le> start" "start + 10 + length cid \<le> stop" "stop \<le> length html"
    and rest: "captures_from html stop captures"
    using Cons.prems(1) captures_from_le by (auto simp: c)
  obtain choice lookup where
    run: "replace_cid html max_out max_refs resource_for (start, stop, cid) st =
       \<lparr>rp_output = rp_output st @ slice (rp_last_end st) start html @ ''src='' @
          quoted (case choice of Some uri \<Rightarrow> uri | None \<Rightarrow> []),
        rp_last_end = stop,
        rp_projected_len = rp_projected_len st - (stop - start) + 6 +
          (case choice of Some uri \<Rightarrow> length uri | None \<Rightarrow> 0),
        rp_resolved = rp_resolved st + chosen [choice],
        rp_lookup = lookup\<rparr>"
    and limit: "choice = None \<or> rp_resolved st < max_refs \<and>
       rp_projected_len st - (stop - start) + 6 + length (the choice) \<le> max max_out (length html)"
    and from_lookup: "decode_cid_url_content_id cid = None \<and> choice = None \<and> lookup = rp_lookup st \<or>
       (\<exists>content_id. decode_cid_url_content_id cid = Some content_id \<and>
          lookup = snd (resource_for start stop content_id (rp_lookup st)) \<and>
          (choice = None \<or> choice = fst (resource_for start stop content_id (rp_lookup st))))"
    using replace_cid_step [OF Cons.prems(2) at] by metis
  let ?st = "replace_cid html max_out max_refs resource_for (start, stop, cid) st"
  have "replacement_ok html max_out max_refs ?st"
    using Cons.prems(2) at limit unfolding run replacement_ok_def
    by (cases choice) (auto simp: length_slice chosen_def)
  moreover have good: "keeps lookup \<and> choice_good good capture choice"
    using from_lookup step [OF Cons.prems(3)] Cons.prems(3)
    by (auto simp: c choice_good_def split: option.split)
  moreover have "rp_last_end ?st = stop" "rp_lookup ?st = lookup" by (simp_all add: run)
  ultimately obtain choices st' where
    fold: "fold (replace_cid html max_out max_refs resource_for) captures ?st = st'"
      "replacement_ok html max_out max_refs st'"
      "rp_output st' @ drop (rp_last_end st') html = rp_output ?st @ splice html stop captures choices"
      "rp_resolved st' = rp_resolved ?st + chosen choices" "list_all2 (choice_good good) captures choices"
    using Cons.IH [of ?st] rest by auto
  show ?case
  proof (intro exI conjI)
    show "fold (replace_cid html max_out max_refs resource_for) (capture # captures) st = st'"
      using fold(1) by (simp add: c)
    show "rp_output st' @ drop (rp_last_end st') html =
        rp_output st @ splice html (rp_last_end st) (capture # captures) (choice # choices)"
      using fold(3) by (simp add: run c)
    show "rp_resolved st' = rp_resolved st + chosen (choice # choices)"
      using fold(4) by (simp add: run chosen_def)
    show "list_all2 (choice_good good) (capture # captures) (choice # choices)" using fold(5) good by simp
  qed (rule fold(2))
qed

section \<open>Where the inlined images come from\<close>

lemma map_of_snoc: "map_of (xs @ [(k, v)]) x = Some y \<Longrightarrow> map_of xs x = Some y \<or> x = k \<and> y = v"
  by (auto simp: map_add_def split: option.splits if_splits)

lemma select_candidate_parts:
  assumes "map_of (fst (select_candidate referenced max_image max_total a st)) cid = Some i"
  shows "map_of (fst st) cid = Some i \<or> i = at_part_index a \<and> map_option normalize_url_content_id (at_content_id a) = Some cid"
  using assms map_of_snoc [of "fst st"]
  by (cases st) (auto simp: select_candidate_def Let_def split: option.splits if_splits)

lemma select_candidates_parts:
  "map_of (fst (fold (select_candidate referenced max_image max_total) as st)) cid = Some i \<Longrightarrow>
   map_of (fst st) cid = Some i \<or> i \<in> at_part_index ` set as"
proof (induction as arbitrary: st)
  case (Cons a as)
  let ?st = "select_candidate referenced max_image max_total a st"
  have "map_of (fst ?st) cid = Some i \<or> i \<in> at_part_index ` set as"
    by (rule Cons.IH) (use Cons.prems in simp)
  then show ?case
  proof
    assume "map_of (fst ?st) cid = Some i"
    from select_candidate_parts [OF this] show ?thesis by auto
  qed simp
qed simp

lemma attachments_by_part_index_Some:
  "attachments_by_part_index as i = Some a \<Longrightarrow> a \<in> set as \<and> at_part_index a = i"
  by (auto simp: attachments_by_part_index_def dest!: map_of_SomeD)

lemma scope_candidates_parts:
  "ps_part_indexes scope = Some indexes \<Longrightarrow> at_part_index ` set (scope_candidates as scope) \<subseteq> set indexes"
  by (auto simp: scope_candidates_def map_filter_def dest: attachments_by_part_index_Some)

text \<open>A selected segment belongs to a scope and names only parts the scope admits.\<close>

definition segment_ok :: "prepared_scope list \<Rightarrow> segment_selection \<Rightarrow> bool" where
  "segment_ok scopes segment \<longleftrightarrow>
     (\<exists>scope \<in> set scopes. ss_start segment = ps_start scope \<and> ss_end segment = ps_end scope \<and>
        (\<forall>cid i indexes. map_of (ss_part_indexes segment) cid = Some i \<longrightarrow>
           ps_part_indexes scope = Some indexes \<longrightarrow> i \<in> set indexes))"

lemma select_segments_ok:
  "list_all (segment_ok scopes) (fst (select_segments lib html as max_image max_total scopes budget))"
proof -
  have "set sub \<subseteq> set scopes \<Longrightarrow>
      list_all (segment_ok scopes) (fst (select_segments lib html as max_image max_total sub budget))" for sub
  proof (induction sub arbitrary: budget)
    case (Cons scope sub)
    show ?case
    proof (cases "str_get html (ps_start scope) (ps_end scope)")
      case None
      then show ?thesis using Cons by simp
    next
      case (Some segment)
      obtain selected budget' where s: "select_inline_cid_segment_candidates (scope_candidates as scope)
          (referenced_cids lib segment) budget max_image max_total = (selected, budget')" by (metis surj_pair)
      have parts: "i \<in> set indexes" if "map_of selected cid = Some i" "ps_part_indexes scope = Some indexes" for cid i indexes
      proof -
        have "map_of (fst (fold (select_candidate (referenced_cids lib segment) max_image max_total)
            (scope_candidates as scope) ([], budget))) cid = Some i"
          using that(1) s by (simp add: select_inline_cid_segment_candidates_def)
        from select_candidates_parts [OF this] scope_candidates_parts [OF that(2), of as] show ?thesis by auto
      qed
      have "segment_ok scopes \<lparr>ss_start = ps_start scope, ss_end = ps_end scope, ss_part_indexes = selected\<rparr>"
        unfolding segment_ok_def using Cons.prems parts by (intro bexI [of _ scope]) auto
      moreover have "list_all (segment_ok scopes) (fst (select_segments lib html as max_image max_total sub budget'))"
        using Cons by simp
      ultimately show ?thesis
        using s Some by (cases "select_segments lib html as max_image max_total sub budget'") (simp add: Let_def)
    qed
  qed simp
  then show ?thesis by blast
qed

definition resource_of :: "inline_lib \<Rightarrow> extracted_attachment \<Rightarrow> nat \<times> inline_resource" where
  "resource_of lib a =
     (ea_part_index a,
      \<lparr>ir_content_id = normalize_url_content_id (the (ea_content_id a)),
       ir_data_uri = ''data:'' @ ea_content_type a @ '';base64,'' @ il_base64 lib (ea_bytes a)\<rparr>)"

definition inlinable :: "nat \<Rightarrow> extracted_attachment \<Rightarrow> bool" where
  "inlinable max_image a \<longleftrightarrow>
     ea_content_id a \<noteq> None \<and> inline_image_content_type_is_safe (ea_content_type a) \<and>
     0 < length (ea_bytes a) \<and> length (ea_bytes a) \<le> max_image"

definition total_bytes :: "extracted_attachment list \<Rightarrow> nat" where
  "total_bytes used = sum_list (map (\<lambda>a. length (ea_bytes a)) used)"

text \<open>What \<open>add_resource\<close> has collected, as the list of the attachments used.\<close>

lemma add_resource_used:
  assumes "(sofar, resources) = (total_bytes used, map (resource_of lib) used)"
    and "list_all (inlinable max_image) used" "distinct (map ea_part_index used)" "sofar \<le> max_total"
  shows "\<exists>used'. add_resource lib max_image max_total a (sofar, resources) = (total_bytes used', map (resource_of lib) used') \<and>
    (used' = used \<or> used' = used @ [a]) \<and> list_all (inlinable max_image) used' \<and>
    distinct (map ea_part_index used') \<and> total_bytes used' \<le> max_total"
proof (cases "add_resource lib max_image max_total a (sofar, resources) = (sofar, resources)")
  case True
  then show ?thesis using assms by auto
next
  case False
  then have a: "inlinable max_image a" "map_of resources (ea_part_index a) = None"
    and new: "sofar + length (ea_bytes a) \<le> max_total"
      "add_resource lib max_image max_total a (sofar, resources) =
         (sofar + length (ea_bytes a), resources @ [resource_of lib a])"
    by (auto simp: add_resource_def Let_def checked_add_def inlinable_def resource_of_def split: option.splits if_splits)
  from a(2) have "ea_part_index a \<notin> set (map ea_part_index used)"
    using assms(1) by (simp add: map_of_eq_None_iff resource_of_def image_image)
  with a new assms show ?thesis by (intro exI [of _ "used @ [a]"]) (auto simp: total_bytes_def)
qed

lemma add_resources_used:
  assumes "list_all (inlinable max_image) used" "distinct (map ea_part_index used)" "total_bytes used \<le> max_total"
  shows "\<exists>used'. fold (add_resource lib max_image max_total) as (total_bytes used, map (resource_of lib) used) =
      (total_bytes used', map (resource_of lib) used') \<and>
    set used' \<subseteq> set used \<union> set as \<and> list_all (inlinable max_image) used' \<and>
    distinct (map ea_part_index used') \<and> total_bytes used' \<le> max_total"
  using assms
proof (induction as arbitrary: used)
  case (Cons a as)
  from add_resource_used [OF refl Cons.prems] obtain used1 where u:
    "add_resource lib max_image max_total a (total_bytes used, map (resource_of lib) used) =
       (total_bytes used1, map (resource_of lib) used1)"
    "used1 = used \<or> used1 = used @ [a]" "list_all (inlinable max_image) used1"
    "distinct (map ea_part_index used1)" "total_bytes used1 \<le> max_total" by blast
  from Cons.IH [OF u(3-5)] obtain used2 where
    "fold (add_resource lib max_image max_total) as (total_bytes used1, map (resource_of lib) used1) =
       (total_bytes used2, map (resource_of lib) used2)"
    "set used2 \<subseteq> set used1 \<union> set as" "list_all (inlinable max_image) used2"
    "distinct (map ea_part_index used2)" "total_bytes used2 \<le> max_total" by blast
  with u show ?case by (intro exI [of _ used2]) auto
qed auto

text \<open>What the message's own source yields.\<close>

definition extracted :: "inline_lib \<Rightarrow> string \<Rightarrow> extracted_attachment list \<Rightarrow> bool" where
  "extracted lib source used \<longleftrightarrow>
     used = [] \<or> (\<exists>parts limits report.
       extract_attachment_parts_detailed_with_limits (il_mime lib) source parts limits = Inr report \<and>
       set used \<subseteq> set (er_attachments report))"

lemma collect_resources_used:
  "\<exists>used. collect_resources lib source max_image max_total selected = map (resource_of lib) used \<and>
     extracted lib source used \<and> list_all (inlinable max_image) used \<and>
     distinct (map ea_part_index used) \<and> total_bytes used \<le> max_total"
proof (cases "selected = {}")
  case True
  then show ?thesis by (intro exI [of _ "[]"]) (simp add: collect_resources_def extracted_def total_bytes_def)
next
  case False
  let ?e = "extract_attachment_parts_detailed_with_limits (il_mime lib) source (sorted_list_of_set selected)
    (default_limits\<lparr>max_decoded_part_bytes := max_image, max_total_decoded_bytes := max_total\<rparr>)"
  show ?thesis
  proof (cases ?e)
    case (Inl e)
    then show ?thesis using False
      by (intro exI [of _ "[]"]) (simp add: collect_resources_def extracted_def total_bytes_def)
  next
    case (Inr report)
    obtain used where u:
      "fold (add_resource lib max_image max_total) (er_attachments report) (0, []) =
         (total_bytes used, map (resource_of lib) used)"
      "set used \<subseteq> set (er_attachments report)" "list_all (inlinable max_image) used"
      "distinct (map ea_part_index used)" "total_bytes used \<le> max_total"
      using add_resources_used [of max_image "[]" max_total lib "er_attachments report"] by (auto simp: total_bytes_def)
    then show ?thesis
      using Inr False by (intro exI [of _ used]) (auto simp: collect_resources_def extracted_def)
  qed
qed

definition inlined_from ::
  "inline_lib \<Rightarrow> prepared_scope list \<Rightarrow> extracted_attachment list \<Rightarrow> nat \<Rightarrow> nat \<Rightarrow> string \<Rightarrow> string \<Rightarrow> bool" where
  "inlined_from lib scopes used start stop content_id uri \<longleftrightarrow>
     (\<exists>scope \<in> set scopes. \<exists>a \<in> set used.
        ps_start scope \<le> start \<and> stop \<le> ps_end scope \<and>
        (\<forall>indexes. ps_part_indexes scope = Some indexes \<longrightarrow> ea_part_index a \<in> set indexes) \<and>
        map_option normalize_url_content_id (ea_content_id a) = Some content_id \<and>
        uri = ''data:'' @ ea_content_type a @ '';base64,'' @ il_base64 lib (ea_bytes a))"

lemma segment_resource_good:
  assumes "list_all (segment_ok scopes) segments" "list_all (inlinable max_image) used"
  shows "list_all (segment_ok scopes) (snd (segment_resource (map (resource_of lib) used) start stop cid segments))"
    and "fst (segment_resource (map (resource_of lib) used) start stop cid segments) = Some uri \<Longrightarrow>
      inlined_from lib scopes used start stop cid uri"
proof -
  let ?rest = "dropWhile (\<lambda>segment. start \<ge> ss_end segment) segments"
  have rest: "list_all (segment_ok scopes) ?rest"
    using assms(1) by (auto simp: list_all_iff dest: set_dropWhileD)
  then show "list_all (segment_ok scopes) (snd (segment_resource (map (resource_of lib) used) start stop cid segments))"
    by (simp add: segment_resource_def Let_def)
  assume "fst (segment_resource (map (resource_of lib) used) start stop cid segments) = Some uri"
  then obtain segment more part resource where r: "?rest = segment # more"
    "ss_start segment \<le> start" "stop \<le> ss_end segment" "map_of (ss_part_indexes segment) cid = Some part"
    "map_of (map (resource_of lib) used) part = Some resource" "ir_content_id resource = cid" "uri = ir_data_uri resource"
    by (auto simp: segment_resource_def Let_def bind_eq_Some_conv split: list.splits if_splits)
  from r(5) obtain a where a: "a \<in> set used" "resource_of lib a = (part, resource)"
    by (auto dest!: map_of_SomeD)
  obtain scope where scope: "scope \<in> set scopes" "ss_start segment = ps_start scope" "ss_end segment = ps_end scope"
    "\<And>indexes. ps_part_indexes scope = Some indexes \<Longrightarrow> part \<in> set indexes"
    using rest r(1,4) by (auto simp: segment_ok_def)
  have "ea_content_id a \<noteq> None" using assms(2) a(1) by (auto simp: list_all_iff inlinable_def)
  then have "map_option normalize_url_content_id (ea_content_id a) = Some cid"
    "uri = ''data:'' @ ea_content_type a @ '';base64,'' @ il_base64 lib (ea_bytes a)" "part = ea_part_index a"
    using a(2) r(6,7) by (auto simp: resource_of_def)
  then show "inlined_from lib scopes used start stop cid uri"
    unfolding inlined_from_def using scope a(1) r(2,3) by auto
qed

text \<open>
  C32. Inlined images come from the message itself and stay within their budgets.  The result is
  the sanitized document with every \<open>cid:\<close> source replaced, either by nothing or by the data URI
  of an attachment of this message that has the referenced content identifier, a safe image type
  and at most four megabytes, and that the scope around the reference admits.  The attachments
  used have distinct parts and at most eight megabytes together; at most 2048 references are
  filled, and a document that fits into sixteen megabytes still does.
\<close>

theorem inlined_images_come_from_the_message:
  assumes "capture_laws lib"
  shows "\<exists>used choices.
    resolve_inline_cid_images lib html scopes parsed source = splice html 0 (il_cid_captures lib html) choices \<and>
    list_all2 (choice_good (inlined_from lib scopes used)) (il_cid_captures lib html) choices \<and>
    extracted lib source used \<and> list_all (inlinable MAX_INLINE_IMAGE_BYTES) used \<and>
    distinct (map ea_part_index used) \<and> total_bytes used \<le> MAX_TOTAL_INLINE_IMAGE_BYTES \<and>
    chosen choices \<le> MAX_INLINE_IMAGE_REFERENCES \<and>
    length (resolve_inline_cid_images lib html scopes parsed source) \<le> max MAX_INLINE_IMAGE_HTML_BYTES (length html)"
proof (cases "il_cid_captures lib html = []")
  case True
  then show ?thesis
    by (intro exI [of _ "[]"])
      (simp add: resolve_inline_cid_images_def resolve_inline_cid_images_scoped_with_limits_def extracted_def
        total_bytes_def chosen_def)
next
  case False
  let ?c = "il_cid_captures lib html"
  obtain segments selected sofar where seg: "select_segments lib html (pg_attachments parsed) MAX_INLINE_IMAGE_BYTES
      MAX_TOTAL_INLINE_IMAGE_BYTES scopes ({}, 0) = (segments, selected, sofar)" by (metis surj_pair)
  have segments: "list_all (segment_ok scopes) segments" using select_segments_ok [of scopes lib html] seg by (metis fst_conv)
  obtain used where u: "collect_resources lib source MAX_INLINE_IMAGE_BYTES MAX_TOTAL_INLINE_IMAGE_BYTES selected =
      map (resource_of lib) used" "extracted lib source used" "list_all (inlinable MAX_INLINE_IMAGE_BYTES) used"
      "distinct (map ea_part_index used)" "total_bytes used \<le> MAX_TOTAL_INLINE_IMAGE_BYTES"
    using collect_resources_used by blast
  let ?st = "\<lparr>rp_output = [], rp_last_end = 0, rp_projected_len = length html, rp_resolved = 0, rp_lookup = segments\<rparr>"
  have "\<exists>choices st'. fold (replace_cid html MAX_INLINE_IMAGE_HTML_BYTES MAX_INLINE_IMAGE_REFERENCES
        (segment_resource (map (resource_of lib) used))) ?c ?st = st' \<and>
     replacement_ok html MAX_INLINE_IMAGE_HTML_BYTES MAX_INLINE_IMAGE_REFERENCES st' \<and>
     rp_output st' @ drop (rp_last_end st') html = rp_output ?st @ splice html (rp_last_end ?st) ?c choices \<and>
     rp_resolved st' = rp_resolved ?st + chosen choices \<and> list_all2 (choice_good (inlined_from lib scopes used)) ?c choices"
  proof (rule replace_all [where keeps = "list_all (segment_ok scopes)"])
    show "captures_from html (rp_last_end ?st) ?c" using assms by (simp add: capture_laws_def)
    show "list_all (segment_ok scopes) (rp_lookup ?st)" using segments by simp
  qed (use segment_resource_good [OF _ u(3)] in \<open>auto simp: replacement_ok_def\<close>)
  then obtain choices st' where st':
    "fold (replace_cid html MAX_INLINE_IMAGE_HTML_BYTES MAX_INLINE_IMAGE_REFERENCES
        (segment_resource (map (resource_of lib) used))) ?c ?st = st'"
    "replacement_ok html MAX_INLINE_IMAGE_HTML_BYTES MAX_INLINE_IMAGE_REFERENCES st'"
    "rp_output st' @ drop (rp_last_end st') html = splice html 0 ?c choices"
    "rp_resolved st' = chosen choices" "list_all2 (choice_good (inlined_from lib scopes used)) ?c choices"
    by auto
  have r: "resolve_inline_cid_images lib html scopes parsed source = rp_output st' @ drop (rp_last_end st') html"
    using False seg u(1) st'(1)
    by (simp add: resolve_inline_cid_images_def resolve_inline_cid_images_scoped_with_limits_def
        replace_cid_sources_bounded_by_def replace_all_cids_def Let_def)
  have "length (rp_output st' @ drop (rp_last_end st') html) \<le> max MAX_INLINE_IMAGE_HTML_BYTES (length html)"
    "rp_resolved st' \<le> MAX_INLINE_IMAGE_REFERENCES"
    using st'(2) unfolding replacement_ok_def by (metis length_append length_drop, blast)
  then show ?thesis
    using u st'(3-5) unfolding r by (intro exI [of _ used] exI [of _ choices]) simp
qed

lemma has_infix_context: "has_infix n s \<Longrightarrow> has_infix n (p @ s @ q)"
  unfolding has_infix_iff by (metis append_assoc)

lemma document_states_policy:
  "has_infix (''; img-src data:; style-src '') (concat (map (\<lambda>line. line @ [LF]) (document_lines_before ''data:'')))"
proof -
  let ?meta = "''<meta http-equiv='' @ quoted ''Content-Security-Policy'' @ '' content='' @
    quoted (content_security_policy ''data:'') @ ''>''"
  have "?meta \<in> set (document_lines_before ''data:'')" unfolding document_lines_before_def by (simp only: list.set insert_iff simp_thms)
  then obtain before after where "document_lines_before ''data:'' = before @ ?meta # after" by (meson split_list)
  then have "\<exists>p q. concat (map (\<lambda>line. line @ [LF]) (document_lines_before ''data:'')) = p @ ?meta @ q"
    by (intro exI [of _ "concat (map (\<lambda>line. line @ [LF]) before)"] exI [of _ "LF # concat (map (\<lambda>line. line @ [LF]) after)"]) simp
  then obtain p q where c: "concat (map (\<lambda>line. line @ [LF]) (document_lines_before ''data:'')) = p @ ?meta @ q" by blast
  have "has_infix (''; img-src data:; style-src '') (content_security_policy ''data:'')" by code_simp
  from has_infix_context [OF this, of "''<meta http-equiv='' @ quoted ''Content-Security-Policy'' @ '' content='' @ [DQ]" "DQ # ''>''"]
  have "has_infix (''; img-src data:; style-src '') ?meta" by (simp add: quoted_def)
  from has_infix_context [OF this] show ?thesis unfolding c .
qed

text \<open>
  C33. A document with remote images blocked shows none.  When the HTML body can be prepared it
  was within the rendering limit; the document for blocked images is the standard document
  around a body whose every image tag has a \<open>data:image/\<close> source, and its policy allows images
  from data URIs only.
\<close>

theorem blocked_document_shows_no_remote_image:
  assumes "prepare_html lib parsed source max_bytes = HtmlReady original_len images_allowed images_blocked"
  shows "original_len \<le> max_bytes \<and>
    has_infix (''; img-src data:; style-src '') images_blocked \<and>
    (\<exists>body. images_blocked = visual_html_document body False \<and>
       (\<forall>tag \<in> set (img_tags body). data_image_tag tag))"
proof -
  obtain html where html: "pg_html_body parsed = Some html" "length html \<le> max_bytes" "original_len = length html"
    using assms by (auto simp: prepare_html_def Let_def split: option.splits if_splits prod.splits)
  obtain body where body: "images_blocked = visual_html_document (strip_remote_img_tags body) False"
    using assms html by (auto simp: prepare_html_def Let_def split: if_splits prod.splits)
  let ?before = "concat (map (\<lambda>line. line @ [LF]) (document_lines_before ''data:''))"
  have "images_blocked = [] @ ?before @ (strip_remote_img_tags body @ [LF] @ ''</body>'' @ [LF] @ ''</html>'')"
    unfolding body visual_html_document_def Let_def if_False append_Nil ..
  then have "has_infix (''; img-src data:; style-src '') images_blocked"
    using has_infix_context [OF document_states_policy] by (simp only:)
  then show ?thesis using html body strip_leaves_data_images by blast
qed

section \<open>An image inlined\<close>

text \<open>The expression as a scanner over double-quoted lower-case \<open>cid:\<close> sources.\<close>

function find_cids :: "string \<Rightarrow> nat \<Rightarrow> (nat \<times> nat \<times> string) list" where
  "find_cids html pos =
     (case windows_position (''src='' @ [DQ] @ ''cid:'') (drop pos html) of
        None \<Rightarrow> []
      | Some i \<Rightarrow>
          (let start = pos + i; cid = start + 9 in
           case windows_position [DQ] (drop cid html) of
             None \<Rightarrow> []
           | Some k \<Rightarrow>
               if k = 0 then find_cids html cid
               else (start, cid + k + 1, slice cid (cid + k) html) # find_cids html (cid + k + 1)))"
  by pat_completeness auto
termination
  by (relation "measure (\<lambda>(html, pos). length html - pos)") (auto dest!: windows_position_Some)

declare find_cids.simps [simp del]

lemma captures_from_mono: "captures_from html pos captures \<Longrightarrow> pos' \<le> pos \<Longrightarrow> captures_from html pos' captures"
  by (cases captures) auto

lemma find_cids_captures: "pos \<le> length html \<Longrightarrow> captures_from html pos (find_cids html pos)"
proof (induction html pos rule: find_cids.induct)
  case (1 html pos)
  let ?src = "''src='' @ [DQ] @ ''cid:''"
  show ?case
  proof (cases "windows_position ?src (drop pos html)")
    case None
    then show ?thesis using "1.prems" by (subst find_cids.simps) simp
  next
    case i: (Some i)
    have in1: "pos + i + 9 \<le> length html"
      using windows_position_fits [OF i] "1.prems" by simp
    show ?thesis
    proof (cases "windows_position [DQ] (drop (pos + i + 9) html)")
      case None
      then show ?thesis using i "1.prems" by (subst find_cids.simps) (simp add: Let_def)
    next
      case k: (Some k)
      have in2: "pos + i + 9 + k < length html"
        using windows_position_Some [OF k] by (simp add: less_diff_conv add.commute)
      show ?thesis
      proof (cases "k = 0")
        case True
        then have "find_cids html pos = find_cids html (pos + i + 9)"
          using i k by (subst find_cids.simps) (simp add: Let_def)
        moreover have "captures_from html (pos + i + 9) (find_cids html (pos + i + 9))"
          using "1.IH"(1) [OF i refl refl k True] in1 by simp
        ultimately show ?thesis by (auto intro: captures_from_mono)
      next
        case False
        have "take 1 (drop k (drop (pos + i + 9) html)) = [DQ]"
          using windows_position_Some [OF k] by (simp add: starts_with_def)
        then have dq: "html ! (pos + i + 9 + k) = DQ" using in2 by (simp add: take_Suc hd_drop_conv_nth add.commute)
        have "slice (pos + i + 9) (pos + i + 9 + k + 1) html = slice (pos + i + 9) (pos + i + 9 + k) html @ [DQ]"
          using in2 dq by (simp add: Rust_Str.slice_def take_Suc_conv_app_nth)
        moreover have "length (slice (pos + i + 9) (pos + i + 9 + k) html) = k" using in2 by (simp add: length_slice)
        moreover have "find_cids html pos = (pos + i, pos + i + 9 + k + 1, slice (pos + i + 9) (pos + i + 9 + k) html) #
            find_cids html (pos + i + 9 + k + 1)"
          using i k False by (subst find_cids.simps) (simp add: Let_def)
        moreover have "captures_from html (pos + i + 9 + k + 1) (find_cids html (pos + i + 9 + k + 1))"
          using "1.IH"(2) [OF i refl refl k False] in2 by simp
        ultimately show ?thesis using False by (auto simp: add_ac simp flip: length_0_conv)
      qed
    qed
  qed
qed

definition image_part :: mime_part where
  "image_part = (plain_part ''image/png'' ''abc'' True)
     \<lparr>mp_first_value := (\<lambda>name. if name = ''Content-ID'' then Some ''<a>'' else None)\<rparr>"

definition image_lib :: inline_lib where
  "image_lib =
     \<lparr>il_html = \<lparr>hm_clean = (\<lambda>_ html. html), hm_html2text = (\<lambda>html _. Inr html)\<rparr>,
      il_mime = sample_lib\<lparr>mml_parse_mail := (\<lambda>_. Inr (ParsedMail image_part []))\<rparr>,
      il_cid_captures = (\<lambda>html. find_cids html 0), il_base64 = (\<lambda>bytes. bytes)\<rparr>"

definition image_html :: string where
  "image_html = ''<img src='' @ quoted ''cid:a'' @ ''><img src='' @ quoted ''cid:b'' @ ''>''"

definition image_message :: parsed_message where
  "image_message =
     \<lparr>pg_headers = Mapping.empty, pg_subject = [], pg_from = [], pg_to = [], pg_cc = [], pg_reply_to = [],
      pg_message_id = [], pg_references = [], pg_in_reply_to = [], pg_text_body = [],
      pg_html_body = Some image_html, pg_html_cid_part_scopes = [], pg_safe_body = [], pg_decode_warnings = [],
      pg_attachments = [\<lparr>at_part_index = 0, at_filename = None, at_content_type = ''image/png'', at_size = 3,
        at_content_id = Some ''<a>'', at_decode_warnings = [], at_decode_error = None\<rparr>],
      pg_mime_tree = [], pg_classification = \<lparr>mc_calendar_parts = [], mc_crypto_parts = []\<rparr>\<rparr>"

definition whole_document :: "string \<Rightarrow> prepared_scope list" where
  "whole_document html = [\<lparr>ps_start = 0, ps_end = length html, ps_part_indexes = None\<rparr>]"

lemma image_resolved:
  "resolve_inline_cid_images image_lib image_html (whole_document image_html) image_message ''x'' =
     ''<img src='' @ quoted ''data:image/png;base64,abc'' @ ''><img src='' @ quoted [] @ ''>''"
  by code_simp

theorem inlined_images_come_from_the_message_witness:
  "\<exists>used choices.
     splice image_html 0 (find_cids image_html 0) choices =
       ''<img src='' @ quoted ''data:image/png;base64,abc'' @ ''><img src='' @ quoted [] @ ''>'' \<and>
     extracted image_lib ''x'' used \<and> list_all (inlinable MAX_INLINE_IMAGE_BYTES) used"
proof -
  have "capture_laws image_lib" by (simp add: capture_laws_def image_lib_def find_cids_captures)
  from inlined_images_come_from_the_message [OF this, of image_html "whole_document image_html" image_message "''x''"]
  have "\<exists>used choices. ''<img src='' @ quoted ''data:image/png;base64,abc'' @ ''><img src='' @ quoted [] @ ''>'' =
       splice image_html 0 (il_cid_captures image_lib image_html) choices \<and>
     extracted image_lib ''x'' used \<and> list_all (inlinable MAX_INLINE_IMAGE_BYTES) used"
    unfolding image_resolved by blast
  moreover have "il_cid_captures image_lib image_html = find_cids image_html 0" by (simp add: image_lib_def)
  ultimately show ?thesis by metis
qed

theorem blocked_document_shows_no_remote_image_witness:
  "\<exists>allowed blocked. prepare_html image_lib (image_message\<lparr>pg_attachments := []\<rparr>) ''x'' 100 = HtmlReady 34 allowed blocked \<and>
     has_infix (''; img-src data:; style-src '') blocked"
proof -
  let ?m = "image_message\<lparr>pg_attachments := []\<rparr>"
  have "(case prepare_html image_lib ?m ''x'' 100 of HtmlReady n _ _ \<Rightarrow> n = 34 | _ \<Rightarrow> False)" by code_simp
  then obtain allowed blocked where h: "prepare_html image_lib ?m ''x'' 100 = HtmlReady 34 allowed blocked"
    by (auto split: prepared_html.splits)
  from blocked_document_shows_no_remote_image [OF h] h show ?thesis by blast
qed

end
