(* ===== verification/Loader_Preflight.thy ===== *)
theory Loader_Preflight
  imports Mime_Scan
begin

text \<open>
  The structural scan of \<open>notm-ui/src/thread\_loader.rs\<close>, which counts MIME parts and
  attachments before anything is decoded and may be cancelled at any part.  The header parsers
  are external; \<open>poll\<close> asks whether the load was cancelled and carries the state of the world.
\<close>

section \<open>Data\<close>

definition MAX_MIME_NESTING_DEPTH :: nat where "MAX_MIME_NESTING_DEPTH = 64"

record loader_lib =
  ll_headers :: header_lib
  ll_disposition_param :: "string \<Rightarrow> string \<Rightarrow> string option"

record mime_preflight_limits =
  ml_attachment_count :: nat
  ml_part_count :: nat

record mime_preflight_state =
  mt_attachment_like_count :: nat
  mt_part_count :: nat

datatype mime_preflight_failure =
    PreflightCancelled
  | DepthLimit
  | PartLimit nat nat
  | AttachmentLimit nat nat nat
  | MalformedHeaders string

definition is_recoverable_parse_failure :: "mime_preflight_failure \<Rightarrow> bool" where
  "is_recoverable_parse_failure failure \<longleftrightarrow>
     (case failure of DepthLimit \<Rightarrow> True | MalformedHeaders _ \<Rightarrow> True | _ \<Rightarrow> False)"

fun show_preflight_failure :: "mime_preflight_failure \<Rightarrow> string" where
  "show_preflight_failure PreflightCancelled = ''thread preparation was cancelled''"
| "show_preflight_failure DepthLimit =
     ''message MIME nesting depth exceeds the responsive limit of '' @ show_nat MAX_MIME_NESTING_DEPTH"
| "show_preflight_failure (PartLimit visited limit) =
     ''message has at least '' @ show_nat visited @ '' MIME parts; remaining prepared MIME-part limit is '' @ show_nat limit"
| "show_preflight_failure (AttachmentLimit attachments visited limit) =
     ''message has at least '' @ show_nat attachments @ '' attachment-like MIME parts after visiting '' @
     show_nat visited @ '' MIME parts; remaining prepared attachment-count limit is '' @ show_nat limit"
| "show_preflight_failure (MalformedHeaders err) = ''message MIME headers could not be parsed: '' @ err"

record mime_preflight =
  mf_attachment_like_count :: nat
  mf_part_count :: nat
  mf_parse_error :: "string option"

section \<open>Boundary lines\<close>

definition find_bytes :: "string \<Rightarrow> nat \<Rightarrow> string \<Rightarrow> nat option" where
  "find_bytes bytes start needle =
     (if start > length bytes \<or> length needle > length bytes then None
      else map_option (\<lambda>index. start + index) (windows_position needle (drop start bytes)))"

record mime_boundary_line =
  mb_start :: nat
  mb_next_line_start :: "nat option"
  mb_closing :: bool

definition parse_mime_boundary_line :: "string \<Rightarrow> nat \<Rightarrow> nat \<Rightarrow> mime_boundary_line option" where
  "parse_mime_boundary_line bytes start marker_len =
     (let cursor = start + marker_len;
          closing = (cursor + 2 \<le> length bytes \<and> slice cursor (cursor + 2) bytes = ''--'');
          cursor = (if closing then cursor + 2 else cursor);
          cursor = skip_blank bytes cursor in
      case get_at bytes cursor of
        None \<Rightarrow> Some \<lparr>mb_start = start, mb_next_line_start = None, mb_closing = closing\<rparr>
      | Some c \<Rightarrow>
          if c = LF then Some \<lparr>mb_start = start, mb_next_line_start = Some (cursor + 1), mb_closing = closing\<rparr>
          else if c = CR \<and> get_at bytes (cursor + 1) = Some LF
          then Some \<lparr>mb_start = start, mb_next_line_start = Some (cursor + 2), mb_closing = closing\<rparr>
          else None)"

lemma find_bytes_eq: "needle \<noteq> [] \<Longrightarrow> find_bytes bytes start needle = find_subslice bytes start needle"
  by (simp add: find_bytes_def find_subslice_def)

lemma find_bytes_Some:
  "find_bytes bytes start needle = Some i \<Longrightarrow> start \<le> i \<and> i < length bytes"
  by (auto simp: find_bytes_def split: if_splits dest!: windows_position_Some)

function find_mime_boundary_from :: "string \<Rightarrow> nat \<Rightarrow> string \<Rightarrow> nat \<Rightarrow> mime_boundary_line option" where
  "find_mime_boundary_from bytes start marker search_start =
     (case find_bytes bytes search_start marker of
        None \<Rightarrow> None
      | Some index \<Rightarrow>
          (case (if index = start \<or> bytes ! (index - 1) = LF
                 then parse_mime_boundary_line bytes index (length marker) else None) of
             Some line \<Rightarrow> Some line
           | None \<Rightarrow> find_mime_boundary_from bytes start marker (index + 1)))"
  by pat_completeness auto
termination
  by (relation "measure (\<lambda>(bytes, start, marker, from). length bytes - from)") (auto dest!: find_bytes_Some)

declare find_mime_boundary_from.simps [simp del]

definition find_mime_boundary_line :: "string \<Rightarrow> nat \<Rightarrow> string \<Rightarrow> mime_boundary_line option" where
  "find_mime_boundary_line bytes start marker = find_mime_boundary_from bytes start marker start"

definition strip_trailing_crlf :: "string \<Rightarrow> nat \<Rightarrow> nat \<Rightarrow> nat" where
  "strip_trailing_crlf bytes start stop =
     (if stop > start \<and> bytes ! (stop - 1) = LF
      then (let stop = stop - 1 in if stop > start \<and> bytes ! (stop - 1) = CR then stop - 1 else stop)
      else stop)"

lemma skip_blank_ge: "i \<le> skip_blank bytes i"
proof (induction bytes i rule: skip_blank.induct)
  case (1 h i)
  show ?case
  proof (cases "get_at h i = Some SP \<or> get_at h i = Some HT")
    case True
    then have "skip_blank h i = skip_blank h (i + 1)" by (subst skip_blank.simps) simp
    with "1.IH" [OF True] show ?thesis by simp
  next
    case False
    then show ?thesis by (subst skip_blank.simps) simp
  qed
qed

text \<open>A boundary line read at \<open>start\<close>: what follows the marker and the blanks decides it.\<close>

definition boundary_line_at :: "string \<Rightarrow> nat \<Rightarrow> bool \<Rightarrow> nat \<Rightarrow> mime_boundary_line option" where
  "boundary_line_at bytes start closing cursor =
     (case get_at bytes cursor of
        None \<Rightarrow> Some \<lparr>mb_start = start, mb_next_line_start = None, mb_closing = closing\<rparr>
      | Some c \<Rightarrow>
          if c = LF then Some \<lparr>mb_start = start, mb_next_line_start = Some (cursor + 1), mb_closing = closing\<rparr>
          else if c = CR \<and> get_at bytes (cursor + 1) = Some LF
          then Some \<lparr>mb_start = start, mb_next_line_start = Some (cursor + 2), mb_closing = closing\<rparr>
          else None)"

lemma parse_boundary_line_at:
  "parse_mime_boundary_line bytes start n =
     (let closing = (start + n + 2 \<le> length bytes \<and> slice (start + n) (start + n + 2) bytes = ''--'') in
      boundary_line_at bytes start closing (skip_blank bytes (if closing then start + n + 2 else start + n)))"
  unfolding parse_mime_boundary_line_def boundary_line_at_def Let_def ..

lemma boundary_line_at_fields:
  assumes "boundary_line_at bytes start closing cursor = Some line" "start \<le> cursor"
  shows "mb_start line = start \<and> mb_closing line = closing \<and>
    (\<forall>p. mb_next_line_start line = Some p \<longrightarrow> start < p \<and> p \<le> length bytes)"
  using assms by (auto simp: boundary_line_at_def get_at_Some split: option.splits if_splits)

lemma parse_line_fields:
  assumes "parse_mime_boundary_line bytes start n = Some line"
  shows "mb_start line = start \<and> (\<forall>p. mb_next_line_start line = Some p \<longrightarrow> start < p \<and> p \<le> length bytes)"
proof -
  let ?closing = "start + n + 2 \<le> length bytes \<and> slice (start + n) (start + n + 2) bytes = ''--''"
  let ?i = "if ?closing then start + n + 2 else start + n"
  have "boundary_line_at bytes start ?closing (skip_blank bytes ?i) = Some line"
    using assms unfolding parse_boundary_line_at Let_def .
  moreover have "start \<le> skip_blank bytes ?i" by (rule order.trans [OF _ skip_blank_ge]) simp
  ultimately show ?thesis using boundary_line_at_fields by blast
qed

lemma find_mime_boundary_from_Some:
  "find_mime_boundary_from bytes start marker from' = Some line \<Longrightarrow>
     from' \<le> mb_start line \<and> (\<forall>p. mb_next_line_start line = Some p \<longrightarrow> mb_start line < p \<and> p \<le> length bytes)"
proof (induction bytes start marker from' rule: find_mime_boundary_from.induct)
  case (1 bytes start marker from')
  obtain i where i: "find_bytes bytes from' marker = Some i"
    using "1.prems" by (subst (asm) find_mime_boundary_from.simps) (auto split: option.splits)
  let ?line = "if i = start \<or> bytes ! (i - 1) = LF then parse_mime_boundary_line bytes i (length marker) else None"
  show ?case
  proof (cases ?line)
    case None
    then have "find_mime_boundary_from bytes start marker (i + 1) = Some line"
      using "1.prems" i by (subst (asm) find_mime_boundary_from.simps) simp
    from "1.IH" [OF i None this] find_bytes_Some [OF i] show ?thesis by auto
  next
    case (Some line')
    then have "line' = line" using "1.prems" i by (subst (asm) find_mime_boundary_from.simps) simp
    with Some find_bytes_Some [OF i] show ?thesis by (auto split: if_splits dest!: parse_line_fields)
  qed
qed

section \<open>The scan\<close>

text \<open>The content of the parts between the boundary lines, from the first line on.\<close>

function mime_child_slices :: "string \<Rightarrow> string \<Rightarrow> mime_boundary_line \<Rightarrow> string list" where
  "mime_child_slices bytes marker boundary_line =
     (case (if mb_closing boundary_line then None else mb_next_line_start boundary_line) of
        None \<Rightarrow> []
      | Some part_start \<Rightarrow>
          (let next_boundary = find_mime_boundary_line bytes part_start marker;
               part_end = (case next_boundary of
                             Some line \<Rightarrow> strip_trailing_crlf bytes part_start (mb_start line)
                           | None \<Rightarrow> length bytes) in
           slice part_start part_end bytes #
           (case next_boundary of None \<Rightarrow> [] | Some line \<Rightarrow> mime_child_slices bytes marker line)))"
  by pat_completeness auto
termination
proof (relation "measure (\<lambda>(bytes, marker, line).
    case mb_next_line_start line of None \<Rightarrow> 0 | Some p \<Rightarrow> length bytes + 1 - p)", goal_cases)
  case (2 bytes marker line part_start next_boundary part_end nb)
  then have "find_mime_boundary_from bytes part_start marker part_start = Some nb"
    by (simp add: find_mime_boundary_line_def)
  note n = find_mime_boundary_from_Some [OF this]
  have "mb_next_line_start line = Some part_start" using 2(1) by (auto split: if_splits)
  moreover have "part_start \<le> length bytes"
    using 2 by (auto simp: find_mime_boundary_line_def find_bytes_def split: if_splits option.splits
        elim!: find_mime_boundary_from.elims)
  ultimately show ?case using n by (auto split: option.split)
qed simp

declare mime_child_slices.simps [simp del]

fun run_children ::
  "('w \<Rightarrow> bool \<times> 'w) \<Rightarrow> (string \<Rightarrow> mime_preflight_state \<Rightarrow> 'w \<Rightarrow> mime_preflight_failure option \<times> mime_preflight_state \<times> 'w) \<Rightarrow>
   string list \<Rightarrow> mime_preflight_state \<Rightarrow> 'w \<Rightarrow> mime_preflight_failure option \<times> mime_preflight_state \<times> 'w" where
  "run_children poll visit [] state w = (None, state, w)"
| "run_children poll visit (child # subparts) state w =
     (case poll w of
        (True, w) \<Rightarrow> (Some PreflightCancelled, state, w)
      | (False, w) \<Rightarrow>
          (case visit child state w of
             (Some failure, state, w) \<Rightarrow> (Some failure, state, w)
           | (None, state, w) \<Rightarrow> run_children poll visit subparts state w))"

lemma run_children_cong [fundef_cong]:
  "poll = poll' \<Longrightarrow> subparts = subparts' \<Longrightarrow> state = state' \<Longrightarrow> w = w' \<Longrightarrow>
   (\<And>child state w. child \<in> set subparts' \<Longrightarrow> visit child state w = visit' child state w) \<Longrightarrow>
   run_children poll visit subparts state w = run_children poll' visit' subparts' state' w'"
  by (induction subparts arbitrary: subparts' state state' w w') (auto split: prod.split bool.split option.split)

definition loader_crypto_related :: "string \<Rightarrow> bool" where
  "loader_crypto_related mimetype \<longleftrightarrow>
     mimetype \<in> {''application/pgp-encrypted'', ''application/pgp-signature'', ''application/pgp-keys'',
       ''application/pkcs7-signature'', ''application/x-pkcs7-signature'', ''application/pkcs7-mime'',
       ''application/x-pkcs7-mime''}"

definition loader_content_type :: "loader_lib \<Rightarrow> (string \<Rightarrow> string option) \<Rightarrow> bool \<Rightarrow> content_type" where
  "loader_content_type lib headers in_multipart_digest =
     hl_parse_content_type (ll_headers lib)
       (case headers ''Content-Type'' of
          Some value' \<Rightarrow> value'
        | None \<Rightarrow> if in_multipart_digest then ''message/rfc822'' else ''text/plain'')"

definition leaf_attachment_like :: "loader_lib \<Rightarrow> (string \<Rightarrow> string option) \<Rightarrow> content_type \<Rightarrow> bool" where
  "leaf_attachment_like lib headers content_type =
     (let disposition_value = headers ''Content-Disposition'';
          filename = (case ct_param content_type ''name'' of
              Some name \<Rightarrow> Some name
            | None \<Rightarrow> Option.bind disposition_value (\<lambda>v. ll_disposition_param lib v ''filename''));
          is_attachment = (filename \<noteq> None \<or>
            (case disposition_value of Some v \<Rightarrow> has_infix ''attachment'' (to_ascii_lowercase v) | None \<Rightarrow> False)) in
      is_attachment \<or> eq_ignore_ascii_case (ct_mimetype content_type) ''text/calendar'' \<or>
      (\<not> loader_crypto_related (ct_mimetype content_type) \<and> \<not> starts_with (ct_mimetype content_type) ''text/''))"

text \<open>The subparts of a multipart body, when it has a boundary line that opens one.\<close>

definition multipart_children :: "string \<Rightarrow> content_type \<Rightarrow> nat \<Rightarrow> string list" where
  "multipart_children bytes content_type body_start =
     (if starts_with (ct_mimetype content_type) ''multipart/'' \<and> body_start < length bytes
      then (case ct_param content_type ''boundary'' of
              None \<Rightarrow> []
            | Some boundary \<Rightarrow>
                (case find_mime_boundary_line bytes body_start (''--'' @ boundary) of
                   None \<Rightarrow> []
                 | Some first_boundary \<Rightarrow> mime_child_slices bytes (''--'' @ boundary) first_boundary))
      else [])"

definition visit_leaf ::
  "mime_preflight_limits \<Rightarrow> bool \<Rightarrow> mime_preflight_state \<Rightarrow> mime_preflight_failure option \<times> mime_preflight_state" where
  "visit_leaf limits attachment_like state =
     (if attachment_like
      then (let state = state\<lparr>mt_attachment_like_count := mt_attachment_like_count state + 1\<rparr> in
            if mt_attachment_like_count state > ml_attachment_count limits
            then (Some (AttachmentLimit (mt_attachment_like_count state) (mt_part_count state) (ml_attachment_count limits)), state)
            else (None, state))
      else (None, state))"

function preflight_mime_part ::
  "loader_lib \<Rightarrow> ('w \<Rightarrow> bool \<times> 'w) \<Rightarrow> mime_preflight_limits \<Rightarrow> string \<Rightarrow> bool \<Rightarrow> nat \<Rightarrow> mime_preflight_state \<Rightarrow> 'w \<Rightarrow>
   mime_preflight_failure option \<times> mime_preflight_state \<times> 'w" where
  "preflight_mime_part lib poll limits bytes in_multipart_digest depth state w =
     (case poll w of
        (True, w) \<Rightarrow> (Some PreflightCancelled, state, w)
      | (False, w) \<Rightarrow>
          if depth > MAX_MIME_NESTING_DEPTH then (Some DepthLimit, state, w)
          else (let state = state\<lparr>mt_part_count := mt_part_count state + 1\<rparr> in
            if mt_part_count state > ml_part_count limits
            then (Some (PartLimit (mt_part_count state) (ml_part_count limits)), state, w)
            else (case hl_parse_headers (ll_headers lib) bytes of
                Inl err \<Rightarrow> (Some (MalformedHeaders err), state, w)
              | Inr (headers, body_start) \<Rightarrow>
                  (let content_type = loader_content_type lib headers in_multipart_digest;
                       subparts = multipart_children bytes content_type body_start;
                       child_is_digest = (ct_mimetype content_type = ''multipart/digest'') in
                   if subparts \<noteq> []
                   then run_children poll (\<lambda>child state w. preflight_mime_part lib poll limits child child_is_digest (depth + 1) state w)
                          subparts state w
                   else (case visit_leaf limits (leaf_attachment_like lib headers content_type) state of
                           (failure, state) \<Rightarrow> (failure, state, w))))))"
  by pat_completeness auto
termination
  by (relation "measure (\<lambda>(lib, poll, limits, bytes, digest, depth, state, w). MAX_MIME_NESTING_DEPTH + 1 - depth)") auto

declare preflight_mime_part.simps [simp del]

definition preflight_mime ::
  "loader_lib \<Rightarrow> ('w \<Rightarrow> bool \<times> 'w) \<Rightarrow> string \<Rightarrow> mime_preflight_limits \<Rightarrow> 'w \<Rightarrow> (mime_preflight_failure + mime_preflight) \<times> 'w" where
  "preflight_mime lib poll bytes limits w =
     (case preflight_mime_part lib poll limits bytes False 0 \<lparr>mt_attachment_like_count = 0, mt_part_count = 0\<rparr> w of
        (failure, state, w) \<Rightarrow>
          (case failure of
             None \<Rightarrow> (Inr \<lparr>mf_attachment_like_count = mt_attachment_like_count state, mf_part_count = mt_part_count state,
                           mf_parse_error = None\<rparr>, w)
           | Some err \<Rightarrow>
               if is_recoverable_parse_failure err
               then (Inr \<lparr>mf_attachment_like_count = mt_attachment_like_count state, mf_part_count = mt_part_count state,
                          mf_parse_error = Some (show_preflight_failure err)\<rparr>, w)
               else (Inl err, w)))"

section \<open>The boundary scanner and that of the mail core\<close>

lemma skip_blank_le: "i \<le> length bytes \<Longrightarrow> skip_blank bytes i \<le> length bytes"
proof (induction bytes i rule: skip_blank.induct)
  case (1 h i)
  show ?case
  proof (cases "get_at h i = Some SP \<or> get_at h i = Some HT")
    case True
    then have "skip_blank h i = skip_blank h (i + 1)" by (subst skip_blank.simps) simp
    moreover have "i + 1 \<le> length h" using True by (auto simp: get_at_Some)
    ultimately show ?thesis using "1.IH" [OF True] by simp
  next
    case False
    then show ?thesis using "1.prems" by (subst skip_blank.simps) simp
  qed
qed

lemma boundary_line_at_iff:
  "cursor \<le> length bytes \<Longrightarrow> boundary_line_at bytes start closing cursor \<noteq> None \<longleftrightarrow>
     cursor = length bytes \<or> get_at bytes cursor = Some LF \<or>
     get_at bytes cursor = Some CR \<and> get_at bytes (cursor + 1) = Some LF"
  by (cases "get_at bytes cursor") (simp_all add: boundary_line_at_def, simp_all add: get_at_Some get_at_None)

lemma parse_line_iff_suffix:
  assumes "i + n \<le> length bytes"
  shows "parse_mime_boundary_line bytes i n \<noteq> None \<longleftrightarrow> valid_boundary_line_suffix bytes (i + n)"
proof -
  let ?closing = "i + n + 2 \<le> length bytes \<and> slice (i + n) (i + n + 2) bytes = ''--''"
  let ?c = "skip_blank bytes (if ?closing then i + n + 2 else i + n)"
  have le: "?c \<le> length bytes" using assms by (intro skip_blank_le) simp
  have "parse_mime_boundary_line bytes i n \<noteq> None \<longleftrightarrow>
      ?c = length bytes \<or> get_at bytes ?c = Some LF \<or> get_at bytes ?c = Some CR \<and> get_at bytes (?c + 1) = Some LF"
    unfolding parse_boundary_line_at Let_def by (rule boundary_line_at_iff [OF le])
  also have "\<dots> \<longleftrightarrow> valid_boundary_line_suffix bytes (i + n)"
    unfolding valid_boundary_line_suffix_def Let_def ..
  finally show ?thesis .
qed

lemma find_boundary_from_agrees:
  "marker \<noteq> [] \<Longrightarrow> map_option mb_start (find_mime_boundary_from bytes start marker from') =
     find_line_prefix_from bytes start marker from'"
proof (induction bytes start marker from' rule: find_mime_boundary_from.induct)
  case (1 bytes start marker from')
  note eq = find_bytes_eq [OF "1.prems"]
  show ?case
  proof (cases "find_bytes bytes from' marker")
    case None
    then show ?thesis
      by (subst find_mime_boundary_from.simps, subst find_line_prefix_from.simps) (simp add: eq)
  next
    case (Some i)
    then have fits: "i + length marker \<le> length bytes" using find_subslice_Some eq by metis
    let ?line = "if i = start \<or> bytes ! (i - 1) = LF then parse_mime_boundary_line bytes i (length marker) else None"
    show ?thesis
    proof (cases ?line)
      case None
      then have "\<not> ((i = start \<or> bytes ! (i - 1) = LF) \<and> valid_boundary_line_suffix bytes (i + length marker))"
        using parse_line_iff_suffix [OF fits] by (auto split: if_splits)
      then show ?thesis
        using "1.IH" [OF Some None "1.prems"] None Some
        by (subst find_mime_boundary_from.simps, subst find_line_prefix_from.simps) (auto simp: eq)
    next
      case line: (Some line)
      then have "(i = start \<or> bytes ! (i - 1) = LF) \<and> valid_boundary_line_suffix bytes (i + length marker)"
        using parse_line_iff_suffix [OF fits] by (auto split: if_splits)
      moreover have "mb_start line = i" using line parse_line_fields by (auto split: if_splits)
      ultimately show ?thesis
        using line Some
        by (subst find_mime_boundary_from.simps, subst find_line_prefix_from.simps) (simp add: eq)
    qed
  qed
qed

section \<open>The outline of a message\<close>

text \<open>
  What the scan sees of a message, part by part in depth-first order, with neither limits nor
  cancellation: a part nested too deeply, unreadable headers, a container, or a leaf that is or
  is not like an attachment.
\<close>

datatype outline_part =
    TooDeep
  | Unreadable string
  | Container
  | Leaf bool

function mime_outline :: "loader_lib \<Rightarrow> string \<Rightarrow> bool \<Rightarrow> nat \<Rightarrow> outline_part list" where
  "mime_outline lib bytes in_multipart_digest depth =
     (if depth > MAX_MIME_NESTING_DEPTH then [TooDeep]
      else (case hl_parse_headers (ll_headers lib) bytes of
          Inl err \<Rightarrow> [Unreadable err]
        | Inr (headers, body_start) \<Rightarrow>
            (let content_type = loader_content_type lib headers in_multipart_digest;
                 subparts = multipart_children bytes content_type body_start in
             if subparts \<noteq> []
             then Container # concat (map (\<lambda>child.
               mime_outline lib child (ct_mimetype content_type = ''multipart/digest'') (depth + 1)) subparts)
             else [Leaf (leaf_attachment_like lib headers content_type)])))"
  by pat_completeness auto
termination
  by (relation "measure (\<lambda>(lib, bytes, digest, depth). MAX_MIME_NESTING_DEPTH + 1 - depth)") auto

declare mime_outline.simps [simp del]

fun scan_outline ::
  "mime_preflight_limits \<Rightarrow> outline_part list \<Rightarrow> mime_preflight_state \<Rightarrow> mime_preflight_failure option \<times> mime_preflight_state"
where
  "scan_outline limits [] state = (None, state)"
| "scan_outline limits (part # parts) state =
     (if part = TooDeep then (Some DepthLimit, state)
      else (let state = state\<lparr>mt_part_count := mt_part_count state + 1\<rparr> in
        if mt_part_count state > ml_part_count limits
        then (Some (PartLimit (mt_part_count state) (ml_part_count limits)), state)
        else (case (case part of Unreadable err \<Rightarrow> (Some (MalformedHeaders err), state)
                     | Leaf attachment_like \<Rightarrow> visit_leaf limits attachment_like state
                     | _ \<Rightarrow> (None, state)) of
                (Some failure, state) \<Rightarrow> (Some failure, state)
              | (None, state) \<Rightarrow> scan_outline limits parts state)))"

lemma scan_outline_append:
  "scan_outline limits (ps @ qs) state =
     (case scan_outline limits ps state of
        (Some failure, state) \<Rightarrow> (Some failure, state)
      | (None, state) \<Rightarrow> scan_outline limits qs state)"
  by (induction ps arbitrary: state) (auto simp: Let_def split: prod.split option.split outline_part.split)

lemma run_children_scan:
  assumes "\<And>w. poll w = (False, w)"
    and "\<And>child state w. child \<in> set subparts \<Longrightarrow>
      visit child state w = (case scan_outline limits (outline child) state of (f, state) \<Rightarrow> (f, state, w))"
  shows "run_children poll visit subparts state w =
    (case scan_outline limits (concat (map outline subparts)) state of (f, state) \<Rightarrow> (f, state, w))"
  using assms(2)
proof (induction subparts arbitrary: state)
  case (Cons child subparts)
  then show ?case
    by (auto simp: assms(1) scan_outline_append split: prod.split option.split)
qed simp

lemma preflight_part_scan:
  assumes "\<And>w. poll w = (False, w)"
  shows "preflight_mime_part lib poll limits bytes digest depth state w =
    (case scan_outline limits (mime_outline lib bytes digest depth) state of (f, state) \<Rightarrow> (f, state, w))"
proof (induction lib bytes digest depth arbitrary: state w rule: mime_outline.induct)
  case (1 lib bytes digest depth)
  show ?case
  proof (cases "depth > MAX_MIME_NESTING_DEPTH")
    case True
    then show ?thesis
      by (subst preflight_mime_part.simps, subst mime_outline.simps) (simp add: assms)
  next
    case shallow: False
    show ?thesis
    proof (cases "hl_parse_headers (ll_headers lib) bytes")
      case (Inl err)
      then show ?thesis using shallow
        by (subst preflight_mime_part.simps, subst mime_outline.simps) (simp add: assms Let_def)
    next
      case (Inr parsed)
      obtain headers body_start where p: "parsed = (headers, body_start)" by fastforce
      define content_type where "content_type = loader_content_type lib headers digest"
      define subparts where "subparts = multipart_children bytes content_type body_start"
      show ?thesis
      proof (cases "subparts = []")
        case True
        then show ?thesis using shallow Inr p
          by (subst preflight_mime_part.simps, subst mime_outline.simps)
            (auto simp: assms Let_def visit_leaf_def subparts_def content_type_def)
      next
        case False
        let ?digest = "ct_mimetype content_type = ''multipart/digest''"
        have outline: "mime_outline lib bytes digest depth =
            Container # concat (map (\<lambda>child. mime_outline lib child ?digest (depth + 1)) subparts)"
          using shallow Inr p False
          by (subst mime_outline.simps) (simp add: Let_def subparts_def content_type_def)
        have children: "run_children poll
             (\<lambda>child state w. preflight_mime_part lib poll limits child ?digest (depth + 1) state w) subparts state w =
           (case scan_outline limits (concat (map (\<lambda>child. mime_outline lib child ?digest (depth + 1)) subparts)) state of
              (f, state) \<Rightarrow> (f, state, w))" for state w
          using "1.IH" [OF shallow Inr p [symmetric] content_type_def subparts_def False]
          by (intro run_children_scan assms) simp
        show ?thesis
          unfolding outline using shallow Inr p False
          by (subst preflight_mime_part.simps) (simp add: assms Let_def children [simplified] flip: content_type_def subparts_def)
      qed
    qed
  qed
qed

section \<open>What the scan admits\<close>

definition attachment_parts :: "outline_part list \<Rightarrow> nat" where
  "attachment_parts parts = length (filter (\<lambda>p. p = Leaf True) parts)"

definition sound_part :: "outline_part \<Rightarrow> bool" where
  "sound_part p \<longleftrightarrow> (case p of Container \<Rightarrow> True | Leaf _ \<Rightarrow> True | _ \<Rightarrow> False)"

lemma scan_outline_iff:
  "scan_outline limits parts state = (None, state') \<longleftrightarrow>
     list_all sound_part parts \<and>
     (parts \<noteq> [] \<longrightarrow> mt_part_count state + length parts \<le> ml_part_count limits) \<and>
     (attachment_parts parts > 0 \<longrightarrow> mt_attachment_like_count state + attachment_parts parts \<le> ml_attachment_count limits) \<and>
     state' = state\<lparr>mt_attachment_like_count := mt_attachment_like_count state + attachment_parts parts,
                    mt_part_count := mt_part_count state + length parts\<rparr>"
proof (induction parts arbitrary: state)
  case Nil
  then show ?case by (cases state) (auto simp: attachment_parts_def)
next
  case (Cons p parts)
  show ?case
  proof (cases p)
    case (Leaf b)
    then show ?thesis
      by (cases b) (auto simp: Cons.IH Let_def visit_leaf_def attachment_parts_def sound_part_def)
  qed (auto simp: Cons.IH Let_def attachment_parts_def sound_part_def)
qed

text \<open>Whatever the scan reports without a hard failure, its counts are within the limits.\<close>

definition counts_within :: "mime_preflight_limits \<Rightarrow> mime_preflight_state \<Rightarrow> bool" where
  "counts_within limits state \<longleftrightarrow>
     mt_attachment_like_count state \<le> ml_attachment_count limits \<and> mt_part_count state \<le> ml_part_count limits"

definition soft_failure :: "mime_preflight_failure option \<Rightarrow> bool" where
  "soft_failure f \<longleftrightarrow> (case f of None \<Rightarrow> True | Some e \<Rightarrow> is_recoverable_parse_failure e)"

lemma run_children_within:
  assumes "run_children poll visit subparts state w = (f, state', w')" "counts_within limits state" "soft_failure f"
    and "\<And>child state w f state' w'. child \<in> set subparts \<Longrightarrow> visit child state w = (f, state', w') \<Longrightarrow>
      counts_within limits state \<Longrightarrow> soft_failure f \<Longrightarrow> counts_within limits state'"
  shows "counts_within limits state'"
  using assms
proof (induction subparts arbitrary: state w)
  case (Cons child subparts)
  obtain c w1 where p: "poll w = (c, w1)" by fastforce
  obtain g state1 w2 where v: "visit child state w1 = (g, state1, w2)" by (metis surj_pair)
  have c: "\<not> c" using Cons.prems(1,3) p by (cases c) (auto simp: soft_failure_def is_recoverable_parse_failure_def)
  show ?case
  proof (cases g)
    case None
    then have "run_children poll visit subparts state1 w2 = (f, state', w')"
      using Cons.prems(1) p c v by simp
    moreover have "counts_within limits state1"
      using Cons.prems(4) [OF _ v Cons.prems(2)] None by (simp add: soft_failure_def)
    ultimately show ?thesis using Cons.IH Cons.prems(3,4) by (meson list.set_intros(2))
  next
    case (Some e)
    then have "f = Some e" "state' = state1" using Cons.prems(1) p c v by auto
    then show ?thesis using Cons.prems(3) Cons.prems(4) [OF _ v Cons.prems(2)] Some by simp
  qed
qed auto

lemma preflight_part_within:
  "preflight_mime_part lib poll limits bytes digest depth state w = (f, state', w') \<Longrightarrow>
   counts_within limits state \<Longrightarrow> soft_failure f \<Longrightarrow> counts_within limits state'"
proof (induction lib bytes digest depth arbitrary: state w f state' w' rule: mime_outline.induct)
  case (1 lib bytes digest depth)
  obtain c w1 where p: "poll w = (c, w1)" by fastforce
  let ?state = "state\<lparr>mt_part_count := mt_part_count state + 1\<rparr>"
  note run = "1.prems"(1) [unfolded preflight_mime_part.simps [of lib poll limits bytes] p]
  have c: "\<not> c" using run "1.prems"(3) by (cases c) (auto simp: soft_failure_def is_recoverable_parse_failure_def)
  show ?case
  proof (cases "depth > MAX_MIME_NESTING_DEPTH")
    case True
    then show ?thesis using run c "1.prems"(2) by simp
  next
    case shallow: False
    have fits: "\<not> mt_part_count ?state > ml_part_count limits"
      using run c shallow "1.prems"(3) by (auto simp: Let_def soft_failure_def is_recoverable_parse_failure_def split: if_splits)
    then have ok: "counts_within limits ?state" using "1.prems"(2) by (simp add: counts_within_def)
    show ?thesis
    proof (cases "hl_parse_headers (ll_headers lib) bytes")
      case (Inl err)
      then show ?thesis using run c shallow fits ok by (simp add: Let_def)
    next
      case (Inr parsed)
      obtain headers body_start where h: "parsed = (headers, body_start)" by fastforce
      define content_type where "content_type = loader_content_type lib headers digest"
      define subparts where "subparts = multipart_children bytes content_type body_start"
      show ?thesis
      proof (cases "subparts = []")
        case True
        then show ?thesis using run c shallow fits ok Inr h "1.prems"(3)
          by (auto simp: Let_def visit_leaf_def subparts_def content_type_def counts_within_def soft_failure_def
              is_recoverable_parse_failure_def split: if_splits)
      next
        case False
        let ?visit = "\<lambda>child state w. preflight_mime_part lib poll limits child
          (ct_mimetype content_type = ''multipart/digest'') (depth + 1) state w"
        have "run_children poll ?visit subparts ?state w1 = (f, state', w')"
          using run c shallow fits Inr h False by (simp add: Let_def flip: content_type_def subparts_def)
        then show ?thesis
          by (rule run_children_within [OF _ ok "1.prems"(3)])
            (rule "1.IH" [OF shallow Inr h [symmetric] content_type_def subparts_def False])
      qed
    qed
  qed
qed

lemma preflight_mime_within:
  assumes "preflight_mime lib poll bytes limits w = (Inr report, w')"
  shows "mf_attachment_like_count report \<le> ml_attachment_count limits \<and> mf_part_count report \<le> ml_part_count limits"
proof -
  let ?start = "\<lparr>mt_attachment_like_count = 0, mt_part_count = 0\<rparr>"
  obtain f state w1 where run: "preflight_mime_part lib poll limits bytes False 0 ?start w = (f, state, w1)"
    by (metis surj_pair)
  then have "soft_failure f" "mf_attachment_like_count report = mt_attachment_like_count state"
    "mf_part_count report = mt_part_count state"
    using assms by (auto simp: preflight_mime_def soft_failure_def split: option.splits if_splits)
  moreover have "counts_within limits ?start" by (simp add: counts_within_def)
  ultimately show ?thesis using preflight_part_within [OF run] by (simp add: counts_within_def)
qed

text \<open>
  C34. The scan admits a message exactly when its outline is sound and within both limits, and
  then reports the outline's counts.  The outline is the depth-first list of the parts that the
  boundary lines of the message delimit; without a cancellation the scan says ``no defect'' iff
  no part is nested too deeply or has unreadable headers and neither the number of parts nor the
  number of attachment-like leaves exceeds its limit.  Boundary lines are the ones the mail core
  finds: both scanners agree on every input.
\<close>

theorem loader_scan_counts_outline:
  assumes "\<And>w. poll w = (False, w)"
  shows "(preflight_mime lib poll bytes limits w =
      (Inr \<lparr>mf_attachment_like_count = a, mf_part_count = n, mf_parse_error = None\<rparr>, w) \<longleftrightarrow>
     (let outline = mime_outline lib bytes False 0 in
      list_all sound_part outline \<and> n = length outline \<and> n \<le> ml_part_count limits \<and>
      a = attachment_parts outline \<and> a \<le> ml_attachment_count limits)) \<and>
    map_option mb_start (find_mime_boundary_line text' start (''--'' @ boundary)) =
      find_line_prefix text' start (''--'' @ boundary)"
proof -
  let ?outline = "mime_outline lib bytes False 0" and ?start = "\<lparr>mt_attachment_like_count = 0, mt_part_count = 0\<rparr>"
  obtain f state where scan: "scan_outline limits ?outline ?start = (f, state)" by fastforce
  have run: "preflight_mime_part lib poll limits bytes False 0 ?start w = (f, state, w)"
    using preflight_part_scan [OF assms] scan by simp
  have ne: "?outline \<noteq> []"
    by (subst mime_outline.simps) (auto simp: Let_def split: sum.split)
  have "preflight_mime lib poll bytes limits w =
      (Inr \<lparr>mf_attachment_like_count = a, mf_part_count = n, mf_parse_error = None\<rparr>, w) \<longleftrightarrow>
      f = None \<and> mt_attachment_like_count state = a \<and> mt_part_count state = n"
    by (auto simp: preflight_mime_def run split: option.splits)
  also have "\<dots> \<longleftrightarrow> scan_outline limits ?outline ?start = (None, \<lparr>mt_attachment_like_count = a, mt_part_count = n\<rparr>)"
    by (cases state) (auto simp: scan)
  also have "\<dots> \<longleftrightarrow> list_all sound_part ?outline \<and> n = length ?outline \<and> n \<le> ml_part_count limits \<and>
      a = attachment_parts ?outline \<and> a \<le> ml_attachment_count limits"
    unfolding scan_outline_iff using ne by auto
  finally show ?thesis
    using find_boundary_from_agrees [of "''--'' @ boundary" text' start start]
    by (simp add: Let_def find_mime_boundary_line_def find_line_prefix_def)
qed

text \<open>A multipart with two parts, one of them an image.\<close>

definition two_part_lib :: loader_lib where
  "two_part_lib =
     \<lparr>ll_headers =
        \<lparr>hl_parse_headers = (\<lambda>raw. Inr (\<lambda>name. if name = ''Content-Type'' then Some (take 1 raw) else None, 1)),
         hl_parse_content_type = (\<lambda>v. if v = ''M''
           then \<lparr>ct_mimetype = ''multipart/mixed'', ct_param = (\<lambda>k. if k = ''boundary'' then Some ''b'' else None)\<rparr>
           else if v = ''I'' then \<lparr>ct_mimetype = ''image/png'', ct_param = (\<lambda>_. None)\<rparr>
           else \<lparr>ct_mimetype = ''text/plain'', ct_param = (\<lambda>_. None)\<rparr>)\<rparr>,
      ll_disposition_param = (\<lambda>_ _. None)\<rparr>"

definition two_part_message :: string where
  "two_part_message = ''M'' @ [LF] @ ''--b'' @ [LF] @ ''T'' @ [LF] @ ''--b'' @ [LF] @ ''I'' @ [LF] @ ''--b--''"

theorem loader_scan_counts_outline_witness:
  "mime_outline two_part_lib two_part_message False 0 = [Container, Leaf False, Leaf True] \<and>
   preflight_mime two_part_lib (Pair False) two_part_message \<lparr>ml_attachment_count = 1, ml_part_count = 3\<rparr> () =
     (Inr \<lparr>mf_attachment_like_count = 1, mf_part_count = 3, mf_parse_error = None\<rparr>, ())"
proof -
  have outline: "mime_outline two_part_lib two_part_message False 0 = [Container, Leaf False, Leaf True]" by code_simp
  have "preflight_mime two_part_lib (Pair False) two_part_message \<lparr>ml_attachment_count = 1, ml_part_count = 3\<rparr> () =
     (Inr \<lparr>mf_attachment_like_count = 1, mf_part_count = 3, mf_parse_error = None\<rparr>, ())"
    by (rule loader_scan_counts_outline [THEN conjunct1, THEN iffD2])
      (simp_all add: outline Let_def attachment_parts_def sound_part_def)
  with outline show ?thesis by simp
qed

end
