(* ===== verification/Thread_Prepare.thy ===== *)
theory Thread_Prepare
  imports Inline_Images Loader_Preflight Thread_Snapshot Message_Io
    "HOL-Library.Char_ord" "HOL-Library.List_Lexorder" "HOL-Library.Product_Lexorder"
begin

text \<open>
  Preparing the messages of a thread for display (\<open>notm-ui/src/thread\_loader.rs\<close>): choosing a
  readable file per message, the structural scan, parsing, the texts and documents to show, the
  attachment list, and the byte and count budgets over the whole thread.  The world \<open>'w\<close> answers
  reads, database lookups and the question whether the load was cancelled; the sizes of Rust's
  structures are parameters.  Sums of lengths saturate as in the code.
\<close>

section \<open>Data\<close>

record preparation_limits =
  li_message_count :: nat
  li_attachment_count :: nat
  li_mime_part_count :: nat
  li_source_bytes :: nat
  li_retained_bytes :: nat
  li_html_bytes :: nat
  li_raw_bytes :: nat
  li_header_bytes :: nat

definition MAX_CANDIDATE_THREAD_IDS :: nat where "MAX_CANDIDATE_THREAD_IDS = 2048"
definition MAX_MESSAGE_FILE_CANDIDATES :: nat where "MAX_MESSAGE_FILE_CANDIDATES = 256"
definition MAX_RAW_VIEW_BYTES :: nat where "MAX_RAW_VIEW_BYTES = 4 * 1024 * 1024"
definition MAX_HEADER_VIEW_BYTES :: nat where "MAX_HEADER_VIEW_BYTES = 1024 * 1024"
definition MAX_LOADED_THREAD_MESSAGES :: nat where "MAX_LOADED_THREAD_MESSAGES = MAX_THREAD_TAG_MESSAGES"

definition DEFAULT_PREPARATION_LIMITS :: preparation_limits where
  "DEFAULT_PREPARATION_LIMITS =
     \<lparr>li_message_count = MAX_LOADED_THREAD_MESSAGES, li_attachment_count = 2048, li_mime_part_count = 4096,
      li_source_bytes = 32 * 1024 * 1024, li_retained_bytes = 96 * 1024 * 1024, li_html_bytes = 4 * 1024 * 1024,
      li_raw_bytes = MAX_RAW_VIEW_BYTES, li_header_bytes = MAX_HEADER_VIEW_BYTES\<rparr>"

record open_config =
  oc_database_path :: "string option"
  oc_config_path :: "string option"
  oc_profile :: "string option"

text \<open>The path cell of a source is new and has generation zero when a thread is prepared.\<close>

record message_source =
  sc_path :: string
  sc_generation :: nat
  sc_source_bytes :: nat
  sc_resolver :: "(open_config \<times> string) option"

definition new_source :: "string \<Rightarrow> nat \<Rightarrow> message_source" where
  "new_source path source_bytes =
     \<lparr>sc_path = path, sc_generation = 0, sc_source_bytes = source_bytes, sc_resolver = None\<rparr>"

definition with_resolver :: "open_config \<Rightarrow> string \<Rightarrow> message_source \<Rightarrow> message_source" where
  "with_resolver config message_id source = source\<lparr>sc_resolver := Some (config, message_id)\<rparr>"

record prepared_text =
  pt_expanded :: string
  pt_collapsed :: string

record prepared_message =
  pd_source :: "message_source option"
  pd_raw :: "string + string"
  pd_parsed :: "string + parsed_message"
  pd_headers :: "string + string"
  pd_text :: "string + prepared_text"
  pd_html :: prepared_html

definition failed_message :: "string \<Rightarrow> message_source option \<Rightarrow> prepared_message" where
  "failed_message err source =
     \<lparr>pd_source = source, pd_raw = Inl err, pd_parsed = Inl err, pd_headers = Inl err, pd_text = Inl err,
      pd_html = HtmlUnavailable 0 err\<rparr>"

record attachment_manifest =
  am_part_index :: nat
  am_filename :: string
  am_content_type :: string
  am_size :: nat

record prepared_file =
  pf_message :: prepared_message
  pf_attachments :: "attachment_manifest list"
  pf_attachment_like_count :: nat
  pf_mime_part_count :: nat

record prepared_attachment =
  pa_message_index :: nat
  pa_attachment_index :: nat
  pa_message_id :: string
  pa_filename :: string
  pa_content_type :: string
  pa_size :: nat
  pa_source :: message_source

record prepared_thread =
  pth_thread_id :: string
  pth_messages :: "message_summary list"
  pth_message_contents :: "(string \<times> prepared_message) list"
  pth_attachments :: "prepared_attachment list"
  pth_target_message_index :: "nat option"
  pth_retained_bytes :: nat

datatype prepare_error =
    ThreadCancelled
  | TooManyMessages nat nat
  | MetadataTooLarge nat nat
  | DetailTooLarge nat nat
  | TooManyAttachments nat nat
  | TooManyCandidates string nat
  | TooManyCandidateThreads nat
  | SourceTooLarge nat nat
  | PreflightRefused mime_preflight_failure
  | NoSourceFile
  | TargetMessageNotFound string
  | LookupFailed notmuch_error
  | OpenFailed string

fun show_prepare_error :: "prepare_error \<Rightarrow> string option" where
  "show_prepare_error ThreadCancelled = Some ''thread preparation was cancelled''"
| "show_prepare_error (TooManyMessages n limit) =
     Some (''thread has '' @ show_nat n @ '' messages; prepared-content limit is '' @ show_nat limit)"
| "show_prepare_error (MetadataTooLarge n limit) =
     Some (''thread metadata needs '' @ show_nat n @ '' bytes; prepared-content limit is '' @ show_nat limit @ '' bytes'')"
| "show_prepare_error (DetailTooLarge n limit) =
     Some (''thread detail needs at least '' @ show_nat n @ '' bytes; prepared-content limit is '' @ show_nat limit @ '' bytes'')"
| "show_prepare_error (TooManyAttachments n limit) =
     Some (''thread has at least '' @ show_nat n @ '' attachments; prepared attachment-count limit is '' @ show_nat limit)"
| "show_prepare_error (TooManyCandidates message_id n) =
     Some (''message '' @ message_id @ '' has '' @ show_nat n @ '' indexed file candidates; responsive candidate limit is '' @
       show_nat MAX_MESSAGE_FILE_CANDIDATES)"
| "show_prepare_error (TooManyCandidateThreads n) =
     Some (''message lookup has '' @ show_nat n @ '' candidate threads; the responsive lookup limit is '' @
       show_nat MAX_CANDIDATE_THREAD_IDS)"
| "show_prepare_error (SourceTooLarge n limit) =
     Some (''message source is '' @ show_nat n @ '' bytes; the per-source preparation limit is '' @ show_nat limit @ '' bytes'')"
| "show_prepare_error (PreflightRefused failure) = Some (show_preflight_failure failure)"
| "show_prepare_error NoSourceFile = Some ''message has no source file''"
| "show_prepare_error (TargetMessageNotFound message_id) = Some (''message id not found: '' @ message_id)"
| "show_prepare_error (OpenFailed err) = Some err"
| "show_prepare_error (LookupFailed _) = None"

text \<open>\<open>std::mem::size\_of\<close> of the structures.\<close>

record struct_sizes =
  sz_parsed_message :: nat
  sz_cid_scope :: nat
  sz_usize :: nat
  sz_string_pair :: nat
  sz_attachment :: nat
  sz_message_source :: nat
  sz_message_summary :: nat
  sz_prepared_attachment :: nat

record 'w prepare_env =
  pe_inline :: inline_lib
  pe_loader :: loader_lib
  pe_sizes :: struct_sizes
  pe_poll :: "'w \<Rightarrow> bool \<times> 'w"
  pe_file :: "string \<Rightarrow> 'w \<Rightarrow> (string + string) \<times> 'w"
  pe_open_message_id :: "open_config \<Rightarrow> string \<Rightarrow> 'w \<Rightarrow> (string + string \<times> (string + string)) \<times> 'w"

section \<open>Retained bytes\<close>

definition saturating_sum :: "nat list \<Rightarrow> nat" where
  "saturating_sum xs = fold (\<lambda>x sofar. min usize_max (sofar + x)) xs 0"

definition option_len :: "string option \<Rightarrow> nat" where
  "option_len s = (case s of Some t \<Rightarrow> length t | None \<Rightarrow> 0)"

definition message_source_resolver_bytes :: "open_config \<times> string \<Rightarrow> nat" where
  "message_source_resolver_bytes resolver =
     (case resolver of (config, message_id) \<Rightarrow>
        saturating_sum [length message_id, option_len (oc_database_path config), option_len (oc_config_path config),
          option_len (oc_profile config)])"

definition source_retained_bytes :: "struct_sizes \<Rightarrow> message_source \<Rightarrow> nat" where
  "source_retained_bytes sizes source =
     saturating_sum [sz_message_source sizes, length (sc_path source),
       (case sc_resolver source of Some resolver \<Rightarrow> message_source_resolver_bytes resolver | None \<Rightarrow> 0)]"

definition attachment_bytes :: "struct_sizes \<Rightarrow> attachment \<Rightarrow> nat" where
  "attachment_bytes sizes a =
     saturating_sum [sz_attachment sizes, option_len (at_filename a), length (at_content_type a),
       option_len (at_content_id a), option_len (at_decode_error a),
       saturating_sum (map length (at_decode_warnings a))]"

definition parsed_message_bytes :: "struct_sizes \<Rightarrow> parsed_message \<Rightarrow> nat" where
  "parsed_message_bytes sizes parsed =
     saturating_sum
       [sz_parsed_message sizes,
        saturating_sum (map length [pg_subject parsed, pg_from parsed, pg_to parsed, pg_cc parsed, pg_reply_to parsed,
          pg_message_id parsed, pg_references parsed, pg_in_reply_to parsed, pg_text_body parsed, pg_safe_body parsed]),
        option_len (pg_html_body parsed),
        saturating_sum (map (\<lambda>scope. saturating_sum [sz_cid_scope sizes,
          (case cs_part_indexes scope of Some indexes \<Rightarrow> min usize_max (length indexes * sz_usize sizes) | None \<Rightarrow> 0)])
          (pg_html_cid_part_scopes parsed)),
        min usize_max (\<Sum>key \<in> Mapping.keys (pg_headers parsed).
          sz_string_pair sizes + length key + option_len (Mapping.lookup (pg_headers parsed) key)),
        saturating_sum (map length (pg_decode_warnings parsed)),
        saturating_sum (map length (pg_mime_tree parsed)),
        saturating_sum (map (attachment_bytes sizes) (pg_attachments parsed))]"

definition result_str_bytes :: "string + string \<Rightarrow> nat" where
  "result_str_bytes value' = (case value' of Inr s \<Rightarrow> length s | Inl err \<Rightarrow> length err)"

definition result_parsed_message_bytes :: "struct_sizes \<Rightarrow> string + parsed_message \<Rightarrow> nat" where
  "result_parsed_message_bytes sizes value' =
     (case value' of Inr parsed \<Rightarrow> parsed_message_bytes sizes parsed | Inl err \<Rightarrow> length err)"

text \<open>Two documents are always built separately, so both are counted.\<close>

definition message_retained_bytes :: "struct_sizes \<Rightarrow> prepared_message \<Rightarrow> nat" where
  "message_retained_bytes sizes message =
     saturating_sum
       [(case pd_source message of Some source \<Rightarrow> source_retained_bytes sizes source | None \<Rightarrow> 0),
        result_str_bytes (pd_raw message),
        result_parsed_message_bytes sizes (pd_parsed message),
        result_str_bytes (pd_headers message),
        (case pd_text message of
           Inr text' \<Rightarrow> saturating_sum [length (pt_expanded text'), length (pt_collapsed text')]
         | Inl err \<Rightarrow> length err),
        (case pd_html message of
           HtmlMissing \<Rightarrow> 0
         | HtmlReady _ images_allowed images_blocked \<Rightarrow> saturating_sum [length images_allowed, length images_blocked]
         | HtmlUnavailable _ err \<Rightarrow> length err)]"

definition message_summary_bytes :: "struct_sizes \<Rightarrow> message_summary \<Rightarrow> nat" where
  "message_summary_bytes sizes message =
     saturating_sum [sz_message_summary sizes, length (ms_message_id message), length (ms_thread_id message),
       length (ms_from message), length (ms_to message), length (ms_cc message), length (ms_subject message),
       saturating_sum (map length (ms_tags message)), saturating_sum (map length (ms_filenames message))]"

definition attachment_manifest_bytes :: "struct_sizes \<Rightarrow> attachment_manifest \<Rightarrow> nat" where
  "attachment_manifest_bytes sizes a =
     saturating_sum [sz_prepared_attachment sizes, length (am_filename a), length (am_content_type a)]"

definition file_retained_bytes :: "struct_sizes \<Rightarrow> prepared_file \<Rightarrow> nat" where
  "file_retained_bytes sizes file =
     saturating_sum [message_retained_bytes sizes (pf_message file),
       sum_list (map (attachment_manifest_bytes sizes) (pf_attachments file))]"

section \<open>Texts\<close>

definition collapse_line :: "string \<Rightarrow> string list \<times> bool \<times> nat \<Rightarrow> string list \<times> bool \<times> nat" where
  "collapse_line line state =
     (case state of (out, in_quote, collapsed_count) \<Rightarrow>
      if starts_with (concat (dropWhile ws_slice (char_slices line))) ''>''
      then (if in_quote then out else out @ [''[quoted text collapsed]''], True, collapsed_count + 1)
      else (out @ [line], False, collapsed_count))"

definition render_body_with_quote_collapse :: "string \<Rightarrow> bool \<Rightarrow> string" where
  "render_body_with_quote_collapse body collapse_quotes =
     (if \<not> collapse_quotes then body
      else (case fold collapse_line (lines body) ([], False, 0) of
              (out, _, collapsed_count) \<Rightarrow> if collapsed_count = 0 then body else join [LF] out))"

definition attachment_line :: "attachment \<Rightarrow> string" where
  "attachment_line a =
     (let filename = (case at_filename a of Some f \<Rightarrow> f | None \<Rightarrow> ''unnamed'') in
      case at_decode_error a of
        Some err \<Rightarrow> ''- '' @ filename @ '' ('' @ at_content_type a @ '', decode failed: '' @ err @ '')'' @ [LF]
      | None \<Rightarrow>
          if at_decode_warnings a = []
          then ''- '' @ filename @ '' ('' @ at_content_type a @ '', '' @ show_nat (at_size a) @ '' bytes)'' @ [LF]
          else ''- '' @ filename @ '' ('' @ at_content_type a @ '', '' @ show_nat (at_size a) @
                 '' bytes; decoded with warning)'' @ [LF])"

definition render_parsed_message_text :: "parsed_message \<Rightarrow> bool \<Rightarrow> string" where
  "render_parsed_message_text parsed collapse_quotes =
     (let rendered = render_body_with_quote_collapse (pg_safe_body parsed) collapse_quotes;
          rendered = (if pg_decode_warnings parsed = [] then rendered
            else rendered @ (if rendered = [] then [] else [LF, LF]) @ ''MIME decode warnings:'' @ [LF] @
              concat (map (\<lambda>warning. ''- '' @ warning @ [LF]) (pg_decode_warnings parsed)));
          rendered = (if pg_attachments parsed = [] then rendered
            else rendered @ [LF, LF] @ ''Attachments:'' @ [LF] @ concat (map attachment_line (pg_attachments parsed))) in
      rendered @ [LF, LF] @ ''MIME tree:'' @ [LF] @ concat (map (\<lambda>node. ''  '' @ node @ [LF]) (pg_mime_tree parsed)))"

definition text_too_long :: "string \<Rightarrow> nat \<Rightarrow> nat \<Rightarrow> string" where
  "text_too_long what n max_bytes =
     what @ show_nat n @ '' bytes; the responsive text-view limit is '' @ show_nat max_bytes @ '' bytes''"

definition prepare_text :: "parsed_message \<Rightarrow> nat \<Rightarrow> string + prepared_text" where
  "prepare_text parsed max_bytes =
     (let expanded = render_parsed_message_text parsed False in
      if length expanded > max_bytes then Inl (text_too_long ''rendered text is '' (length expanded) max_bytes)
      else (let collapsed = render_parsed_message_text parsed True in
            if length collapsed > max_bytes then Inl (text_too_long ''rendered text is '' (length collapsed) max_bytes)
            else Inr \<lparr>pt_expanded = expanded, pt_collapsed = collapsed\<rparr>))"

definition prepare_parse_failure_text :: "string \<Rightarrow> nat \<Rightarrow> string + prepared_text" where
  "prepare_parse_failure_text err max_bytes =
     (let rendered = ''Could not parse body: '' @ err @ [LF] in
      if length rendered > max_bytes then Inl (text_too_long ''parse failure text is '' (length rendered) max_bytes)
      else Inr \<lparr>pt_expanded = rendered, pt_collapsed = rendered\<rparr>)"

definition find_header_end :: "string \<Rightarrow> nat option" where
  "find_header_end bytes =
     (case windows_position (CRLF @ CRLF) bytes of
        Some i \<Rightarrow> Some i
      | None \<Rightarrow> windows_position [LF, LF] bytes)"

definition prepare_header_block :: "string \<Rightarrow> nat \<Rightarrow> string + string" where
  "prepare_header_block bytes max_bytes =
     (let stop = (case find_header_end bytes of Some i \<Rightarrow> i | None \<Rightarrow> length bytes) in
      if stop > max_bytes then Inl (text_too_long ''message headers are '' stop max_bytes)
      else Inr (from_utf8_lossy (take stop bytes)))"

definition decodable_attachment_manifest :: "parsed_message \<Rightarrow> attachment_manifest list" where
  "decodable_attachment_manifest parsed =
     map (\<lambda>a. \<lparr>am_part_index = at_part_index a,
               am_filename = (case at_filename a of Some f \<Rightarrow> f | None \<Rightarrow> ''attachment.bin''),
               am_content_type = at_content_type a, am_size = at_size a\<rparr>)
       (filter (\<lambda>a. at_decode_error a = None) (pg_attachments parsed))"

text \<open>The views of a prepared message.\<close>

definition raw_shared :: "prepared_message \<Rightarrow> string + string" where
  "raw_shared message =
     and_then (pd_raw message) (\<lambda>raw.
       if length raw > MAX_RAW_VIEW_BYTES then Inl (text_too_long ''raw source is '' (length raw) MAX_RAW_VIEW_BYTES)
       else Inr raw)"

definition view_headers :: "prepared_message \<Rightarrow> string + string" where
  "view_headers message =
     and_then (pd_headers message) (\<lambda>headers.
       if length headers > MAX_HEADER_VIEW_BYTES
       then Inl (text_too_long ''message headers are '' (length headers) MAX_HEADER_VIEW_BYTES)
       else Inr headers)"

definition rendered_text :: "prepared_message \<Rightarrow> bool \<Rightarrow> string + string" where
  "rendered_text message collapse_quotes =
     and_then (pd_text message) (\<lambda>text'.
       let rendered = (if collapse_quotes then pt_collapsed text' else pt_expanded text') in
       if length rendered > MAX_TEXT_VIEW_BYTES
       then Inl (text_too_long ''rendered text is '' (length rendered) MAX_TEXT_VIEW_BYTES)
       else Inr rendered)"

definition has_html :: "prepared_message \<Rightarrow> bool" where
  "has_html message \<longleftrightarrow>
     (case pd_html message of HtmlReady _ _ _ \<Rightarrow> True | HtmlUnavailable original_len _ \<Rightarrow> original_len \<ge> 1 | HtmlMissing \<Rightarrow> False)"

definition html_document :: "prepared_message \<Rightarrow> bool \<Rightarrow> string + string" where
  "html_document message allow_remote_images =
     (case pd_html message of
        HtmlMissing \<Rightarrow> Inl ''selected message has no HTML body''
      | HtmlReady _ images_allowed images_blocked \<Rightarrow> Inr (if allow_remote_images then images_allowed else images_blocked)
      | HtmlUnavailable _ err \<Rightarrow> Inl err)"

definition html_original_len :: "prepared_message \<Rightarrow> nat" where
  "html_original_len message =
     (case pd_html message of HtmlMissing \<Rightarrow> 0 | HtmlReady n _ _ \<Rightarrow> n | HtmlUnavailable n _ \<Rightarrow> n)"

definition html_render_error :: "prepared_message \<Rightarrow> string option" where
  "html_render_error message = (case pd_html message of HtmlUnavailable _ err \<Rightarrow> Some err | _ \<Rightarrow> None)"

section \<open>Preparing a message\<close>

text \<open>Results in the world: the error stops the rest.\<close>

definition then_do :: "('w \<Rightarrow> ('e + 'a) \<times> 'w) \<Rightarrow> ('a \<Rightarrow> 'w \<Rightarrow> ('e + 'b) \<times> 'w) \<Rightarrow> 'w \<Rightarrow> ('e + 'b) \<times> 'w" where
  "then_do m f w = (case m w of (Inl e, w) \<Rightarrow> (Inl e, w) | (Inr x, w) \<Rightarrow> f x w)"

definition check_running :: "'w prepare_env \<Rightarrow> 'w \<Rightarrow> (prepare_error + unit) \<times> 'w" where
  "check_running env w = (case pe_poll env w of (True, w) \<Rightarrow> (Inl ThreadCancelled, w) | (False, w) \<Rightarrow> (Inr (), w))"

definition check_that :: "bool \<Rightarrow> prepare_error \<Rightarrow> 'w \<Rightarrow> (prepare_error + unit) \<times> 'w" where
  "check_that condition err w = (if condition then Inr () else Inl err, w)"

text \<open>\<open>reader.take(limit).read\_to\_end\<close> of a file's content, and the bound.\<close>

definition read_reader_bounded :: "string + string \<Rightarrow> nat \<Rightarrow> string + string" where
  "read_reader_bounded content max_bytes =
     (case content of
        Inl err \<Rightarrow> Inl err
      | Inr all \<Rightarrow>
          (let limit = min usize_max (max_bytes + 1); bytes = take limit all in
           if length bytes \<le> max_bytes then Inr bytes
           else Inl (''message source exceeds the '' @ show_nat max_bytes @ ''-byte per-source preparation limit'')))"

definition read_bounded :: "'w prepare_env \<Rightarrow> string \<Rightarrow> nat \<Rightarrow> 'w \<Rightarrow> (string + string) \<times> 'w" where
  "read_bounded env path max_bytes w =
     (case pe_file env path w of (content, w) \<Rightarrow> (read_reader_bounded content max_bytes, w))"

text \<open>
  Paths are ordered and compared by their components, as \<open>std::path\<close> does on Unix: the root,
  a leading dot, parents, names; repeated separators and other dots are ignored.
\<close>

definition path_component :: "bool \<Rightarrow> string \<Rightarrow> (nat \<times> string) list" where
  "path_component first name =
     (if name = [] then (if first then [(0, [])] else [])
      else if name = ''.'' then (if first then [(1, [])] else [])
      else if name = ''..'' then [(2, [])]
      else [(3, name)])"

definition path_key :: "string \<Rightarrow> (nat \<times> string) list" where
  "path_key path =
     (if path = [] then []
      else (case split_char CHR ''/'' path of
              [] \<Rightarrow> []
            | first # rest \<Rightarrow> path_component True first @ concat (map (path_component False) rest)))"

fun dedup_paths :: "string list \<Rightarrow> string list" where
  "dedup_paths (x # y # xs) = (if path_key x = path_key y then dedup_paths (x # xs) else x # dedup_paths (y # xs))"
| "dedup_paths xs = xs"

definition sorted_candidates :: "string list \<Rightarrow> string list" where
  "sorted_candidates filenames = dedup_paths (sort_key path_key filenames)"

definition scan_structure ::
  "'w prepare_env \<Rightarrow> string \<Rightarrow> mime_preflight_limits \<Rightarrow> 'w \<Rightarrow> (prepare_error + mime_preflight) \<times> 'w" where
  "scan_structure env bytes limits w =
     (case preflight_mime (pe_loader env) (pe_poll env) bytes limits w of (r, w) \<Rightarrow> (map_err PreflightRefused r, w))"

text \<open>What is derived from the bytes; the code asks between the steps whether it was cancelled.\<close>

definition prepared_contents ::
  "'w prepare_env \<Rightarrow> string \<Rightarrow> string \<Rightarrow> preparation_limits \<Rightarrow> mime_preflight \<Rightarrow> prepared_file" where
  "prepared_contents env path bytes limits preflight =
     (let source = new_source path (length bytes);
          raw = (if length bytes \<le> li_raw_bytes limits then Inr (from_utf8_lossy bytes)
                 else Inl (text_too_long ''raw source is '' (length bytes) (li_raw_bytes limits)));
          headers = prepare_header_block bytes (li_header_bytes limits);
          parsed = (case mf_parse_error preflight of
              Some err \<Rightarrow> Inl err
            | None \<Rightarrow> map_err (mml_show_error (il_mime (pe_inline env))) (parse_rfc5322 (il_mime (pe_inline env)) bytes));
          attachments = (case parsed of Inr m \<Rightarrow> decodable_attachment_manifest m | Inl _ \<Rightarrow> []);
          (text', html) = (case parsed of
              Inr m \<Rightarrow> (prepare_text m MAX_TEXT_VIEW_BYTES, prepare_html (pe_inline env) m bytes (li_html_bytes limits))
            | Inl err \<Rightarrow> (prepare_parse_failure_text err MAX_TEXT_VIEW_BYTES, HtmlUnavailable 0 err)) in
      \<lparr>pf_message = \<lparr>pd_source = Some source, pd_raw = raw, pd_parsed = parsed, pd_headers = headers,
                     pd_text = text', pd_html = html\<rparr>,
       pf_attachments = attachments,
       pf_attachment_like_count = mf_attachment_like_count preflight,
       pf_mime_part_count = mf_part_count preflight\<rparr>)"

definition prepare_message_with_parser ::
  "'w prepare_env \<Rightarrow> string \<Rightarrow> string + string \<Rightarrow> preparation_limits \<Rightarrow> nat \<Rightarrow> nat \<Rightarrow>
   'w \<Rightarrow> (prepare_error + prepared_file) \<times> 'w" where
  "prepare_message_with_parser env path content limits remaining_attachment_count remaining_mime_part_count =
     then_do (check_running env) (\<lambda>_.
       case content of
         Inl err \<Rightarrow> Pair (Inr \<lparr>pf_message = failed_message err (Some (new_source path 0)), pf_attachments = [],
                               pf_attachment_like_count = 0, pf_mime_part_count = 0\<rparr>)
       | Inr bytes \<Rightarrow>
           then_do (check_that (length bytes \<le> li_source_bytes limits) (SourceTooLarge (length bytes) (li_source_bytes limits))) (\<lambda>_.
           then_do (check_running env) (\<lambda>_.
           then_do (scan_structure env bytes \<lparr>ml_attachment_count = remaining_attachment_count,
                      ml_part_count = remaining_mime_part_count\<rparr>) (\<lambda>preflight.
           then_do (check_running env) (\<lambda>_.
           then_do (check_running env) (\<lambda>_.
           then_do (check_running env) (\<lambda>_.
             Pair (Inr (prepared_contents env path bytes limits preflight)))))))))"

definition prepare_message_bytes ::
  "'w prepare_env \<Rightarrow> string \<Rightarrow> string \<Rightarrow> preparation_limits \<Rightarrow> nat \<Rightarrow> nat \<Rightarrow> 'w \<Rightarrow> (prepare_error + prepared_file) \<times> 'w" where
  "prepare_message_bytes env path bytes = prepare_message_with_parser env path (Inr bytes)"

definition attach_message_source_resolver :: "open_config option \<Rightarrow> string \<Rightarrow> prepared_file \<Rightarrow> prepared_file" where
  "attach_message_source_resolver resolver_config message_id prepared =
     (case (resolver_config, pd_source (pf_message prepared)) of
        (Some config, Some source) \<Rightarrow>
          prepared\<lparr>pf_message := (pf_message prepared)\<lparr>pd_source := Some (with_resolver config message_id source)\<rparr>\<rparr>
      | _ \<Rightarrow> prepared)"

definition add_failure :: "string \<Rightarrow> string list \<Rightarrow> string list" where
  "add_failure failure failures = (if length failures < 8 then failures @ [failure] else failures)"

text \<open>The loop over the candidate files: the prepared file, or the failures noted.\<close>

fun try_candidates ::
  "'w prepare_env \<Rightarrow> (string \<Rightarrow> nat \<Rightarrow> 'w \<Rightarrow> (string + string) \<times> 'w) \<Rightarrow>
   (string \<Rightarrow> string \<Rightarrow> 'w \<Rightarrow> (prepare_error + prepared_file) \<times> 'w) \<Rightarrow> nat \<Rightarrow> string list \<Rightarrow> string list \<Rightarrow>
   'w \<Rightarrow> (prepare_error + string list + prepared_file) \<times> 'w" where
  "try_candidates env read prepare source_bytes [] failures w = (Inr (Inl failures), w)"
| "try_candidates env read prepare source_bytes (path # paths) failures w =
     then_do (check_running env) (\<lambda>_ w.
       case read path source_bytes w of
         (Inr bytes, w) \<Rightarrow> then_do (prepare path bytes) (\<lambda>file. Pair (Inr (Inr file))) w
       | (Inl err, w) \<Rightarrow> try_candidates env read prepare source_bytes paths
           (add_failure (from_utf8_lossy path @ '': '' @ err) failures) w) w"

definition no_readable_file :: "string \<Rightarrow> string list \<Rightarrow> string list \<Rightarrow> string" where
  "no_readable_file message_id candidates failures =
     (let omitted = length candidates - length failures in
      ''message '' @ message_id @ '' has no readable indexed file: '' @ join ''; '' failures @
      (if omitted > 0 then ''; '' @ show_nat omitted @ '' more candidate(s) failed'' else []))"

definition unreadable_file :: "message_summary \<Rightarrow> open_config option \<Rightarrow> string list \<Rightarrow> string list \<Rightarrow> prepared_file" where
  "unreadable_file summary resolver_config candidates failures =
     (let err = no_readable_file (ms_message_id summary) candidates failures;
          source = (case candidates of
              [] \<Rightarrow> None
            | path # _ \<Rightarrow> Some (case resolver_config of
                  Some config \<Rightarrow> with_resolver config (ms_message_id summary) (new_source path 0)
                | None \<Rightarrow> new_source path 0)) in
      \<lparr>pf_message = failed_message err source, pf_attachments = [], pf_attachment_like_count = 0, pf_mime_part_count = 0\<rparr>)"

text \<open>After the candidates failed: the current file of the message, if it can be found.\<close>

definition prepare_current ::
  "'w prepare_env \<Rightarrow> message_summary \<Rightarrow> open_config option \<Rightarrow>
   (string \<Rightarrow> string \<Rightarrow> 'w \<Rightarrow> (prepare_error + prepared_file) \<times> 'w) \<Rightarrow> nat \<Rightarrow> string list \<Rightarrow> string list \<Rightarrow>
   'w \<Rightarrow> (prepare_error + prepared_file) \<times> 'w" where
  "prepare_current env summary resolver_config prepare source_bytes candidates failures =
     (case resolver_config of
        None \<Rightarrow> Pair (Inr (unreadable_file summary resolver_config candidates failures))
      | Some config \<Rightarrow>
          then_do (check_running env) (\<lambda>_ w.
            case pe_open_message_id env config (ms_message_id summary) w of
              (Inl err, w) \<Rightarrow> (Inr (unreadable_file summary resolver_config candidates
                            (add_failure (''current Notmuch lookup: '' @ err) failures)), w)
            | (Inr (path, content), w) \<Rightarrow>
                (case read_reader_bounded content source_bytes of
                   Inr bytes \<Rightarrow> prepare path bytes w
                 | Inl err \<Rightarrow> (Inr (unreadable_file summary resolver_config candidates
                            (add_failure (''current Notmuch lookup: '' @ err) failures)), w))))"
definition prepare_message_candidates ::
  "'w prepare_env \<Rightarrow> message_summary \<Rightarrow> open_config option \<Rightarrow> (string \<Rightarrow> nat \<Rightarrow> 'w \<Rightarrow> (string + string) \<times> 'w) \<Rightarrow>
   preparation_limits \<Rightarrow> nat \<Rightarrow> nat \<Rightarrow> 'w \<Rightarrow> (prepare_error + prepared_file) \<times> 'w" where
  "prepare_message_candidates env summary resolver_config read limits remaining_attachment_count remaining_mime_part_count =
     then_do (check_that (length (ms_filenames summary) \<le> MAX_MESSAGE_FILE_CANDIDATES)
                (TooManyCandidates (ms_message_id summary) (length (ms_filenames summary)))) (\<lambda>_.
     (let candidates = sorted_candidates (ms_filenames summary);
          prepare = (\<lambda>path bytes. then_do
            (prepare_message_bytes env path bytes limits remaining_attachment_count remaining_mime_part_count)
            (\<lambda>file. Pair (Inr (attach_message_source_resolver resolver_config (ms_message_id summary) file)))) in
      then_do (try_candidates env read prepare (li_source_bytes limits) candidates []) (\<lambda>outcome.
        case outcome of
          Inr file \<Rightarrow> Pair (Inr file)
        | Inl failures \<Rightarrow> prepare_current env summary resolver_config prepare (li_source_bytes limits) candidates failures)))"

section \<open>Preparing a thread\<close>

record thread_progress =
  tg_contents :: "(string \<times> prepared_message) list"
  tg_attachments :: "prepared_attachment list"
  tg_attachment_like_count :: nat
  tg_mime_part_count :: nat
  tg_retained_bytes :: nat

text \<open>The attachments of one message; each shares the message's source.\<close>

definition thread_attachments :: "nat \<Rightarrow> message_summary \<Rightarrow> prepared_file \<Rightarrow> prepare_error + prepared_attachment list" where
  "thread_attachments message_index message prepared =
     (case (pf_attachments prepared, pd_source (pf_message prepared)) of
        ([], _) \<Rightarrow> Inr []
      | (_, None) \<Rightarrow> Inl NoSourceFile
      | (manifest, Some source) \<Rightarrow>
          Inr (map (\<lambda>a. \<lparr>pa_message_index = message_index, pa_attachment_index = am_part_index a,
                          pa_message_id = ms_message_id message, pa_filename = am_filename a,
                          pa_content_type = am_content_type a, pa_size = am_size a, pa_source = source\<rparr>) manifest))"

definition add_message ::
  "'w prepare_env \<Rightarrow> preparation_limits \<Rightarrow> nat \<Rightarrow> message_summary \<Rightarrow> prepared_file \<Rightarrow> thread_progress \<Rightarrow>
   'w \<Rightarrow> (prepare_error + thread_progress) \<times> 'w" where
  "add_message env limits message_index message prepared progress =
     (let id_bytes = length (ms_message_id message);
          prepared_bytes = saturating_sum [file_retained_bytes (pe_sizes env) prepared, id_bytes,
            min usize_max (length (pf_attachments prepared) * id_bytes)];
          next_retained_bytes = saturating_sum [tg_retained_bytes progress, prepared_bytes] in
      then_do (check_that (next_retained_bytes \<le> li_retained_bytes limits)
                 (DetailTooLarge next_retained_bytes (li_retained_bytes limits))) (\<lambda>_.
      (let next_attachment_count = length (tg_attachments progress) + length (pf_attachments prepared) in
       then_do (check_that (next_attachment_count \<le> li_attachment_count limits)
                  (TooManyAttachments next_attachment_count (li_attachment_count limits))) (\<lambda>_.
       then_do (Pair (thread_attachments message_index message prepared)) (\<lambda>attachments.
       then_do (check_running env) (\<lambda>_.
         Pair (Inr
           \<lparr>tg_contents = AList.update (ms_message_id message) (pf_message prepared) (tg_contents progress),
            tg_attachments = tg_attachments progress @ attachments,
            tg_attachment_like_count = tg_attachment_like_count progress + pf_attachment_like_count prepared,
            tg_mime_part_count = tg_mime_part_count progress + pf_mime_part_count prepared,
            tg_retained_bytes = next_retained_bytes\<rparr>)))))))"

fun prepare_messages ::
  "'w prepare_env \<Rightarrow> open_config option \<Rightarrow> (string \<Rightarrow> nat \<Rightarrow> 'w \<Rightarrow> (string + string) \<times> 'w) \<Rightarrow> preparation_limits \<Rightarrow>
   nat \<Rightarrow> message_summary list \<Rightarrow> thread_progress \<Rightarrow> 'w \<Rightarrow> (prepare_error + thread_progress) \<times> 'w" where
  "prepare_messages env resolver_config read limits message_index [] progress w = (Inr progress, w)"
| "prepare_messages env resolver_config read limits message_index (message # messages) progress w =
     then_do (check_running env) (\<lambda>_.
     then_do (prepare_message_candidates env message resolver_config read limits
                (li_attachment_count limits - tg_attachment_like_count progress)
                (li_mime_part_count limits - tg_mime_part_count progress)) (\<lambda>prepared.
     then_do (add_message env limits message_index message prepared progress) (\<lambda>progress.
       prepare_messages env resolver_config read limits (message_index + 1) messages progress))) w"

definition position_of :: "('a \<Rightarrow> bool) \<Rightarrow> 'a list \<Rightarrow> nat option" where
  "position_of P xs = (if list_ex P xs then Some (length (takeWhile (\<lambda>x. \<not> P x) xs)) else None)"

definition prepare_thread_with_resolution ::
  "'w prepare_env \<Rightarrow> string \<Rightarrow> message_summary list \<Rightarrow> string option \<Rightarrow> preparation_limits \<Rightarrow> open_config option \<Rightarrow>
   (string \<Rightarrow> nat \<Rightarrow> 'w \<Rightarrow> (string + string) \<times> 'w) \<Rightarrow> 'w \<Rightarrow> (prepare_error + prepared_thread) \<times> 'w" where
  "prepare_thread_with_resolution env thread_id messages target_message_id limits resolver_config read =
     then_do (check_running env) (\<lambda>_.
     then_do (check_that (length messages \<le> li_message_count limits)
                (TooManyMessages (length messages) (li_message_count limits))) (\<lambda>_.
     (let target_message_index = Option.bind target_message_id (\<lambda>target.
            position_of (\<lambda>message. ms_message_id message = target) messages);
          retained_bytes = saturating_sum [length thread_id,
            sum_list (map (message_summary_bytes (pe_sizes env)) messages)] in
      then_do (check_that (retained_bytes \<le> li_retained_bytes limits)
                 (MetadataTooLarge retained_bytes (li_retained_bytes limits))) (\<lambda>_.
      then_do (prepare_messages env resolver_config read limits 0 messages
                 \<lparr>tg_contents = [], tg_attachments = [], tg_attachment_like_count = 0, tg_mime_part_count = 0,
                  tg_retained_bytes = retained_bytes\<rparr>) (\<lambda>progress.
        Pair (Inr
          \<lparr>pth_thread_id = thread_id, pth_messages = messages, pth_message_contents = tg_contents progress,
           pth_attachments = tg_attachments progress, pth_target_message_index = target_message_index,
           pth_retained_bytes = tg_retained_bytes progress\<rparr>))))))"

section \<open>Loading a thread\<close>

text \<open>The delay is in nanoseconds; it is slept in slices of ten milliseconds.\<close>

function sleep_cancellable :: "'w prepare_env \<Rightarrow> nat \<Rightarrow> 'w \<Rightarrow> (prepare_error + unit) \<times> 'w" where
  "sleep_cancellable env remaining w =
     (if remaining = 0 then check_running env w
      else (case check_running env w of
              (Inl e, w) \<Rightarrow> (Inl e, w)
            | (Inr _, w) \<Rightarrow> sleep_cancellable env (remaining - min remaining 10000000) w))"
  by pat_completeness auto
termination by (relation "measure (\<lambda>(env, remaining, w). remaining)") auto

declare sleep_cancellable.simps [simp del]

record thread_load_request =
  tr_generation :: nat
  tr_config :: open_config
  tr_thread_id :: string
  tr_candidate_thread_ids :: "string list"
  tr_target_message_id :: "string option"
  tr_delay :: nat

record 'w load_env =
  le_env :: "'w prepare_env"
  le_open :: "open_config \<Rightarrow> 'w \<Rightarrow> (notmuch_error + unit) \<times> 'w"
  le_find_message :: "string \<Rightarrow> 'w \<Rightarrow> (notmuch_error + message_summary option) \<times> 'w"
  le_query :: "'w query_lib"

definition lookup_failed :: "(notmuch_error + 'a) \<times> 'w \<Rightarrow> (prepare_error + 'a) \<times> 'w" where
  "lookup_failed rw = (case rw of (r, w) \<Rightarrow> (map_err LookupFailed r, w))"

text \<open>
  Which thread is loaded: the target's own, unless it lies outside the candidates, in which case
  the selected one stays.
\<close>

definition loaded_thread ::
  "'w load_env \<Rightarrow> thread_load_request \<Rightarrow> 'w \<Rightarrow> (prepare_error + string) \<times> 'w" where
  "loaded_thread le request =
     (case tr_target_message_id request of
        None \<Rightarrow> Pair (Inr (tr_thread_id request))
      | Some target \<Rightarrow>
          then_do (\<lambda>w. lookup_failed (le_find_message le target w)) (\<lambda>found.
            case found of
              None \<Rightarrow> Pair (Inl (TargetMessageNotFound target))
            | Some message \<Rightarrow>
                if tr_candidate_thread_ids request = [] \<or>
                   ms_thread_id message \<in> set (tr_candidate_thread_ids request)
                then Pair (Inr (ms_thread_id message)) else Pair (Inr (tr_thread_id request))))"

definition load_thread_with_reader ::
  "'w load_env \<Rightarrow> thread_load_request \<Rightarrow> (string \<Rightarrow> nat \<Rightarrow> 'w \<Rightarrow> (string + string) \<times> 'w) \<Rightarrow>
   'w \<Rightarrow> (prepare_error + prepared_thread) \<times> 'w" where
  "load_thread_with_reader le request read =
     (let env = le_env le in
      then_do (sleep_cancellable env (tr_delay request)) (\<lambda>_.
      then_do (check_running env) (\<lambda>_.
      then_do (check_that (length (tr_candidate_thread_ids request) \<le> MAX_CANDIDATE_THREAD_IDS)
                 (TooManyCandidateThreads (length (tr_candidate_thread_ids request)))) (\<lambda>_.
      then_do (\<lambda>w. lookup_failed (le_open le (tr_config request) w)) (\<lambda>_.
      then_do (check_running env) (\<lambda>_.
      then_do (loaded_thread le request) (\<lambda>thread_id.
      then_do (check_running env) (\<lambda>_.
      then_do (\<lambda>w. lookup_failed (thread_messages_bounded (le_query le) thread_id
                 (li_message_count DEFAULT_PREPARATION_LIMITS) w)) (\<lambda>messages.
      then_do (check_running env) (\<lambda>_.
        prepare_thread_with_resolution env thread_id messages (tr_target_message_id request)
          DEFAULT_PREPARATION_LIMITS (Some (tr_config request)) read))))))))))"

definition load_thread ::
  "'w load_env \<Rightarrow> thread_load_request \<Rightarrow> 'w \<Rightarrow> (prepare_error + prepared_thread) \<times> 'w" where
  "load_thread le request = load_thread_with_reader le request (read_bounded (le_env le))"

section \<open>Success, step by step\<close>

lemma then_do_Inr:
  "then_do m f w = (Inr y, w') \<longleftrightarrow> (\<exists>x w1. m w = (Inr x, w1) \<and> f x w1 = (Inr y, w'))"
  by (auto simp: then_do_def split: prod.splits sum.splits)

lemma check_running_Inr: "check_running env w = (Inr u, w') \<longleftrightarrow> pe_poll env w = (False, w')"
  by (auto simp: check_running_def split: prod.splits bool.splits)

lemma check_that_Inr: "check_that c e w = (Inr u, w') \<longleftrightarrow> c \<and> w' = w"
  by (auto simp: check_that_def)

lemmas prepare_Inr = then_do_Inr check_running_Inr check_that_Inr

text \<open>A prepared file lists what its parsed message lists, within what was left of the budgets.\<close>

definition file_ok :: "nat \<Rightarrow> nat \<Rightarrow> prepared_file \<Rightarrow> bool" where
  "file_ok attachments parts file \<longleftrightarrow>
     pf_attachment_like_count file \<le> attachments \<and> pf_mime_part_count file \<le> parts \<and>
     (pf_attachments file = [] \<or>
      pd_source (pf_message file) \<noteq> None \<and>
      (\<exists>m. pd_parsed (pf_message file) = Inr m \<and> pf_attachments file = decodable_attachment_manifest m))"

lemma scan_structure_Inr:
  "scan_structure env bytes limits w = (Inr p, w') \<longleftrightarrow>
     preflight_mime (pe_loader env) (pe_poll env) bytes limits w = (Inr p, w')"
  by (cases "preflight_mime (pe_loader env) (pe_poll env) bytes limits w") (auto simp: scan_structure_def map_err_Inr)

lemma prepare_message_ok:
  assumes "prepare_message_with_parser env path content limits ra rm w = (Inr pf, w')"
  shows "file_ok ra rm pf"
proof (cases content)
  case (Inl err)
  then show ?thesis using assms
    by (auto simp: prepare_message_with_parser_def prepare_Inr file_ok_def)
next
  case (Inr bytes)
  obtain preflight w1 w2 where pre: "preflight_mime (pe_loader env) (pe_poll env) bytes
      \<lparr>ml_attachment_count = ra, ml_part_count = rm\<rparr> w1 = (Inr preflight, w2)"
    and pf: "pf = prepared_contents env path bytes limits preflight"
    using assms Inr by (auto simp: prepare_message_with_parser_def prepare_Inr scan_structure_Inr)
  have counts: "pf_attachment_like_count pf = mf_attachment_like_count preflight"
      "pf_mime_part_count pf = mf_part_count preflight"
    and attachments: "pd_source (pf_message pf) \<noteq> None"
      "pf_attachments pf = (case pd_parsed (pf_message pf) of Inr m \<Rightarrow> decodable_attachment_manifest m | Inl _ \<Rightarrow> [])"
    unfolding pf by (simp_all add: prepared_contents_def Let_def split: prod.split)
  from preflight_mime_within [OF pre] counts attachments show ?thesis
    by (auto simp: file_ok_def split: sum.splits)
qed

lemma attach_resolver_ok:
  "file_ok ra rm file \<Longrightarrow> file_ok ra rm (attach_message_source_resolver config message_id file)"
  by (auto simp: file_ok_def attach_message_source_resolver_def split: option.splits)

lemma try_candidates_ok:
  assumes "\<And>path bytes w pf w'. prepare path bytes w = (Inr pf, w') \<Longrightarrow> P pf"
    and "try_candidates env read prepare source_bytes paths failures w = (Inr (Inr pf), w')"
  shows "P pf"
  using assms(2)
proof (induction paths arbitrary: failures w)
  case (Cons path paths)
  obtain w1 where "pe_poll env w = (False, w1)" using Cons.prems by (auto simp: prepare_Inr)
  moreover obtain r w2 where "read path source_bytes w1 = (r, w2)" by fastforce
  ultimately show ?case using Cons assms(1) by (cases r) (auto simp: prepare_Inr)
qed simp

lemma unreadable_file_ok: "file_ok ra rm (unreadable_file summary config candidates failures)"
  by (simp add: unreadable_file_def file_ok_def Let_def)

lemma prepare_current_ok:
  assumes "\<And>path bytes w pf w'. prepare path bytes w = (Inr pf, w') \<Longrightarrow> file_ok ra rm pf"
    and "prepare_current env summary config prepare source_bytes candidates failures w = (Inr pf, w')"
  shows "file_ok ra rm pf"
proof (cases config)
  case None
  then show ?thesis using assms(2) by (auto simp: prepare_current_def unreadable_file_ok)
next
  case (Some config')
  obtain w1 where p: "pe_poll env w = (False, w1)" using assms(2) Some by (auto simp: prepare_current_def prepare_Inr)
  obtain r w2 where o: "pe_open_message_id env config' (ms_message_id summary) w1 = (r, w2)" by fastforce
  show ?thesis
  proof (cases r)
    case (Inl err)
    then show ?thesis using assms(2) Some p o by (auto simp: prepare_current_def prepare_Inr unreadable_file_ok)
  next
    case (Inr found)
    obtain path content where f: "found = (path, content)" by fastforce
    show ?thesis using assms Some p o Inr f
      by (cases "read_reader_bounded content source_bytes") (auto simp: prepare_current_def prepare_Inr unreadable_file_ok)
  qed
qed

lemma prepare_message_candidates_ok:
  assumes "prepare_message_candidates env summary config read limits ra rm w = (Inr pf, w')"
  shows "file_ok ra rm pf"
proof -
  let ?prepare = "\<lambda>path bytes. then_do (prepare_message_bytes env path bytes limits ra rm)
    (\<lambda>pf. Pair (Inr (attach_message_source_resolver config (ms_message_id summary) pf)))"
  have prepared: "file_ok ra rm pf" if "?prepare path bytes w = (Inr pf, w')" for path bytes w pf w'
    using that by (auto simp: prepare_Inr prepare_message_bytes_def intro: attach_resolver_ok dest: prepare_message_ok)
  obtain outcome w1 where t: "try_candidates env read ?prepare (li_source_bytes limits)
      (sorted_candidates (ms_filenames summary)) [] w = (Inr outcome, w1)"
    and rest: "(case outcome of Inr pf \<Rightarrow> Pair (Inr pf)
        | Inl failures \<Rightarrow> prepare_current env summary config ?prepare (li_source_bytes limits)
            (sorted_candidates (ms_filenames summary)) failures) w1 = (Inr pf, w')"
    using assms by (auto simp: prepare_message_candidates_def Let_def then_do_Inr check_that_Inr)
  show ?thesis
  proof (cases outcome)
    case (Inr f)
    then have "f = pf" using rest by simp
    then show ?thesis using t Inr by (intro try_candidates_ok [OF prepared, where failures = "[]"]) simp_all
  next
    case (Inl failures)
    then show ?thesis using rest by (intro prepare_current_ok [OF prepared]) simp_all
  qed
qed

section \<open>The invariant of the loop over the messages\<close>

text \<open>An attachment row names its message, and is a decodable attachment of what was parsed from it.\<close>

definition row_of_message :: "message_summary list \<Rightarrow> (string \<times> prepared_message) list \<Rightarrow> prepared_attachment \<Rightarrow> bool" where
  "row_of_message messages contents row \<longleftrightarrow>
     pa_message_index row < length messages \<and>
     ms_message_id (messages ! pa_message_index row) = pa_message_id row \<and>
     (\<exists>content m a. map_of contents (pa_message_id row) = Some content \<and> pd_parsed content = Inr m \<and>
        pd_source content = Some (pa_source row) \<and> a \<in> set (pg_attachments m) \<and> at_decode_error a = None \<and>
        at_part_index a = pa_attachment_index row \<and> at_size a = pa_size row \<and>
        at_content_type a = pa_content_type row)"

definition progress_ok :: "preparation_limits \<Rightarrow> message_summary list \<Rightarrow> thread_progress \<Rightarrow> bool" where
  "progress_ok limits seen progress \<longleftrightarrow>
     tg_retained_bytes progress \<le> li_retained_bytes limits \<and>
     length (tg_attachments progress) \<le> li_attachment_count limits \<and>
     tg_attachment_like_count progress \<le> li_attachment_count limits \<and>
     tg_mime_part_count progress \<le> li_mime_part_count limits \<and>
     map fst (tg_contents progress) = map ms_message_id seen \<and>
     (\<forall>row \<in> set (tg_attachments progress). row_of_message seen (tg_contents progress) row)"

lemma thread_attachments_Inr:
  assumes "thread_attachments i message pf = Inr rows"
  shows "length rows = length (pf_attachments pf)"
    and "row \<in> set rows \<Longrightarrow> \<exists>a source. a \<in> set (pf_attachments pf) \<and> pd_source (pf_message pf) = Some source \<and>
      row = \<lparr>pa_message_index = i, pa_attachment_index = am_part_index a, pa_message_id = ms_message_id message,
             pa_filename = am_filename a, pa_content_type = am_content_type a, pa_size = am_size a, pa_source = source\<rparr>"
  using assms by (auto simp: thread_attachments_def split: list.splits option.splits)

lemma row_of_older_message:
  assumes "row_of_message seen contents row" "message_id \<notin> ms_message_id ` set seen"
  shows "row_of_message (seen @ [message]) (AList.update message_id content contents) row"
proof -
  have "pa_message_id row = ms_message_id (seen ! pa_message_index row)" "pa_message_index row < length seen"
    using assms(1) by (simp_all add: row_of_message_def)
  then have "pa_message_id row \<noteq> message_id" using assms(2) nth_mem by force
  then show ?thesis using assms(1) unfolding row_of_message_def
    by (simp add: update_conv' nth_append)
qed

lemma row_of_new_message:
  assumes "thread_attachments (length seen) message pf = Inr rows" "row \<in> set rows" "file_ok ra rm pf"
  shows "row_of_message (seen @ [message]) (AList.update (ms_message_id message) (pf_message pf) contents) row"
proof -
  obtain a source where a: "a \<in> set (pf_attachments pf)" "pd_source (pf_message pf) = Some source"
    and row: "row = \<lparr>pa_message_index = length seen, pa_attachment_index = am_part_index a,
      pa_message_id = ms_message_id message, pa_filename = am_filename a, pa_content_type = am_content_type a,
      pa_size = am_size a, pa_source = source\<rparr>"
    using thread_attachments_Inr(2) [OF assms(1,2)] by auto
  obtain m where m: "pd_parsed (pf_message pf) = Inr m" "pf_attachments pf = decodable_attachment_manifest m"
    using assms(3) a(1) by (auto simp: file_ok_def)
  obtain b where "b \<in> set (pg_attachments m)" "at_decode_error b = None" "am_part_index a = at_part_index b"
      "am_content_type a = at_content_type b" "am_size a = at_size b"
    using a(1) m(2) by (auto simp: decodable_attachment_manifest_def)
  then show ?thesis using a m row by (auto simp: row_of_message_def update_conv')
qed

lemma update_new: "k \<notin> set (map fst al) \<Longrightarrow> AList.update k v al = al @ [(k, v)]"
  by (induction al) auto

text \<open>What is counted is at least what is kept, unless the count is saturated.\<close>

lemma saturating_sum_eq: "saturating_sum xs = min usize_max (sum_list xs)"
proof -
  have "fold (\<lambda>x sofar. min usize_max (sofar + x)) xs a = min usize_max (a + sum_list xs)" if "a \<le> usize_max" for a
    using that by (induction xs arbitrary: a) auto
  from this [of 0] show ?thesis by (simp add: saturating_sum_def)
qed

definition contents_bytes :: "struct_sizes \<Rightarrow> (string \<times> prepared_message) list \<Rightarrow> nat" where
  "contents_bytes sizes contents = sum_list (map (\<lambda>(message_id, content). message_retained_bytes sizes content) contents)"

text \<open>An attachment row keeps its structure, its names and a copy of the message's identifier.\<close>

definition rows_bytes :: "struct_sizes \<Rightarrow> prepared_attachment list \<Rightarrow> nat" where
  "rows_bytes sizes rows =
     sum_list (map (\<lambda>row. sz_prepared_attachment sizes + length (pa_filename row) + length (pa_content_type row) +
       length (pa_message_id row)) rows)"

definition identifiers_bytes :: "(string \<times> prepared_message) list \<Rightarrow> nat" where
  "identifiers_bytes contents = sum_list (map (\<lambda>(message_id, content). length message_id) contents)"

definition bytes_counted :: "struct_sizes \<Rightarrow> nat \<Rightarrow> thread_progress \<Rightarrow> bool" where
  "bytes_counted sizes metadata progress \<longleftrightarrow>
     min usize_max (metadata + identifiers_bytes (tg_contents progress) + contents_bytes sizes (tg_contents progress) +
       rows_bytes sizes (tg_attachments progress)) \<le> tg_retained_bytes progress"

lemma sum_of_minima: "min (m :: nat) (sum_list xs) \<le> sum_list (map (min m) xs)"
  by (induction xs) (auto simp: min_def split: if_splits)

lemma new_rows_bytes:
  assumes "thread_attachments i message pf = Inr rows"
  shows "rows_bytes sizes rows =
    sum_list (map (\<lambda>a. sz_prepared_attachment sizes + length (am_filename a) + length (am_content_type a)) (pf_attachments pf)) +
    length (pf_attachments pf) * length (ms_message_id message)"
proof -
  let ?row = "\<lambda>source a. \<lparr>pa_message_index = i, pa_attachment_index = am_part_index a,
     pa_message_id = ms_message_id message, pa_filename = am_filename a, pa_content_type = am_content_type a,
     pa_size = am_size a, pa_source = source\<rparr>"
  have "pf_attachments pf = [] \<and> rows = [] \<or> (\<exists>source. rows = map (?row source) (pf_attachments pf))"
    using assms by (auto simp: thread_attachments_def split: list.splits option.splits)
  moreover have "rows_bytes sizes (map (?row source) as) =
      sum_list (map (\<lambda>a. sz_prepared_attachment sizes + length (am_filename a) + length (am_content_type a)) as) +
      length as * length (ms_message_id message)" for source as
    by (induction as) (simp_all add: rows_bytes_def)
  ultimately show ?thesis by (auto simp: rows_bytes_def)
qed

lemma saturated_add: "min m x \<le> (a :: nat) \<Longrightarrow> min m (r + x) \<le> min m (r + a)"
  by (simp add: min_def split: if_splits)

lemma file_retained_bytes_ge:
  "min usize_max (message_retained_bytes sizes (pf_message pf) +
     sum_list (map (\<lambda>a. sz_prepared_attachment sizes + length (am_filename a) + length (am_content_type a)) (pf_attachments pf)))
   \<le> file_retained_bytes sizes pf"
proof -
  let ?x = "\<lambda>a. sz_prepared_attachment sizes + length (am_filename a) + length (am_content_type a)"
  have "map (attachment_manifest_bytes sizes) (pf_attachments pf) = map (min usize_max) (map ?x (pf_attachments pf))"
    by (simp add: attachment_manifest_bytes_def saturating_sum_eq add.assoc)
  then have "file_retained_bytes sizes pf = min usize_max (message_retained_bytes sizes (pf_message pf) +
      sum_list (map (min usize_max) (map ?x (pf_attachments pf))))"
    by (simp only: file_retained_bytes_def saturating_sum_eq sum_list.Cons sum_list.Nil add_0_right)
  with saturated_add [OF sum_of_minima] show ?thesis by metis
qed

lemma saturated_step:
  assumes "min m (a + b + c + d) \<le> (r :: nat)" "min m (e + f) \<le> g"
  shows "min m (a + (b + i) + (c + e) + (d + (f + n))) \<le> min m (r + min m (g + i + min m n))"
  using assms by (simp add: min_def split: if_splits)

lemma add_message_counted:
  assumes "add_message env limits i message pf progress w = (Inr progress', w')"
    and "bytes_counted (pe_sizes env) metadata progress"
    and "ms_message_id message \<notin> set (map fst (tg_contents progress))"
  shows "bytes_counted (pe_sizes env) metadata progress'"
proof -
  let ?n = "length (pf_attachments pf) * length (ms_message_id message)"
  obtain rows where rows: "thread_attachments i message pf = Inr rows"
    and contents: "tg_contents progress' = tg_contents progress @ [(ms_message_id message, pf_message pf)]"
    and attachments: "tg_attachments progress' = tg_attachments progress @ rows"
    and bytes: "tg_retained_bytes progress' = saturating_sum [tg_retained_bytes progress,
       saturating_sum [file_retained_bytes (pe_sizes env) pf, length (ms_message_id message), min usize_max ?n]]"
    using assms(1) update_new [OF assms(3), of "pf_message pf"] by (auto simp: add_message_def Let_def prepare_Inr)
  have retained: "tg_retained_bytes progress' = min usize_max (tg_retained_bytes progress +
      min usize_max (file_retained_bytes (pe_sizes env) pf + length (ms_message_id message) + min usize_max ?n))"
    by (simp add: bytes saturating_sum_eq add.assoc)
  have all: "identifiers_bytes (tg_contents progress') = identifiers_bytes (tg_contents progress) + length (ms_message_id message)"
    "contents_bytes (pe_sizes env) (tg_contents progress') =
       contents_bytes (pe_sizes env) (tg_contents progress) + message_retained_bytes (pe_sizes env) (pf_message pf)"
    "rows_bytes (pe_sizes env) (tg_attachments progress') = rows_bytes (pe_sizes env) (tg_attachments progress) +
       (sum_list (map (\<lambda>a. sz_prepared_attachment (pe_sizes env) + length (am_filename a) + length (am_content_type a))
          (pf_attachments pf)) + ?n)"
    unfolding new_rows_bytes [OF rows, symmetric]
    by (simp_all add: contents attachments identifiers_bytes_def contents_bytes_def rows_bytes_def)
  show ?thesis
    unfolding bytes_counted_def all retained
    by (rule saturated_step [OF assms(2) [unfolded bytes_counted_def] file_retained_bytes_ge])
qed

lemma add_message_ok:
  assumes "add_message env limits (length seen) message pf progress w = (Inr progress', w')"
    and ok: "progress_ok limits seen progress"
    and pf: "file_ok (li_attachment_count limits - tg_attachment_like_count progress)
      (li_mime_part_count limits - tg_mime_part_count progress) pf"
    and new: "ms_message_id message \<notin> ms_message_id ` set seen"
  shows "progress_ok limits (seen @ [message]) progress'"
proof -
  obtain rows where rows: "thread_attachments (length seen) message pf = Inr rows"
    and fits: "tg_retained_bytes progress' \<le> li_retained_bytes limits"
      "length (tg_attachments progress) + length (pf_attachments pf) \<le> li_attachment_count limits"
    and progress': "tg_contents progress' = AList.update (ms_message_id message) (pf_message pf) (tg_contents progress)"
      "tg_attachments progress' = tg_attachments progress @ rows"
      "tg_attachment_like_count progress' = tg_attachment_like_count progress + pf_attachment_like_count pf"
      "tg_mime_part_count progress' = tg_mime_part_count progress + pf_mime_part_count pf"
    using assms(1) by (auto simp: add_message_def Let_def prepare_Inr)
  have "map fst (tg_contents progress') = map ms_message_id (seen @ [message])"
    using ok new by (simp add: progress' progress_ok_def update_new)
  moreover have "\<forall>row \<in> set (tg_attachments progress'). row_of_message (seen @ [message]) (tg_contents progress') row"
    using ok new row_of_older_message row_of_new_message [OF rows _ pf] by (auto simp: progress' progress_ok_def)
  moreover have "tg_attachment_like_count progress + pf_attachment_like_count pf \<le> li_attachment_count limits"
      "tg_mime_part_count progress + pf_mime_part_count pf \<le> li_mime_part_count limits"
    using ok pf unfolding progress_ok_def file_ok_def by linarith+
  ultimately show ?thesis using fits by (simp add: progress_ok_def progress' thread_attachments_Inr(1) [OF rows])
qed

lemma prepare_messages_ok:
  "prepare_messages env config read limits (length seen) messages progress w = (Inr progress', w') \<Longrightarrow>
   progress_ok limits seen progress \<Longrightarrow> distinct (map ms_message_id (seen @ messages)) \<Longrightarrow>
   bytes_counted (pe_sizes env) metadata progress \<Longrightarrow>
   progress_ok limits (seen @ messages) progress' \<and> bytes_counted (pe_sizes env) metadata progress'"
proof (induction messages arbitrary: seen progress w)
  case (Cons message messages)
  obtain pf next_progress w1 w2 w3 w4 where
    prepared: "prepare_message_candidates env message config read limits
      (li_attachment_count limits - tg_attachment_like_count progress)
      (li_mime_part_count limits - tg_mime_part_count progress) w1 = (Inr pf, w2)"
    and added: "add_message env limits (length seen) message pf progress w2 = (Inr next_progress, w3)"
    and rest: "prepare_messages env config read limits (length (seen @ [message])) messages next_progress w3 = (Inr progress', w')"
    using Cons.prems(1) by (auto simp: prepare_Inr)
  have new: "ms_message_id message \<notin> ms_message_id ` set seen" using Cons.prems(3) by auto
  then have ok: "progress_ok limits (seen @ [message]) next_progress"
    using add_message_ok [OF added Cons.prems(2) prepare_message_candidates_ok [OF prepared]] by blast
  have "bytes_counted (pe_sizes env) metadata next_progress"
  proof (rule add_message_counted [OF added Cons.prems(4)])
    have keys: "map fst (tg_contents progress) = map ms_message_id seen" using Cons.prems(2) by (simp add: progress_ok_def)
    show "ms_message_id message \<notin> set (map fst (tg_contents progress))" unfolding keys using new by simp
  qed
  from Cons.IH [OF rest ok _ this] Cons.prems(3) show ?case by simp
qed simp

lemma position_of_None: "position_of P xs = None \<longleftrightarrow> (\<forall>x \<in> set xs. \<not> P x)"
  by (auto simp: position_of_def list_ex_iff)

lemma position_of_Some:
  assumes "position_of P xs = Some i"
  shows "i < length xs" "P (xs ! i)" "j < i \<Longrightarrow> \<not> P (xs ! j)"
proof -
  have i: "i = length (takeWhile (\<lambda>x. \<not> P x) xs)" and ex: "\<exists>x \<in> set xs. P x"
    using assms by (auto simp: position_of_def list_ex_iff split: if_splits)
  from ex have less: "length (takeWhile (\<lambda>x. \<not> P x) xs) < length xs" by (induction xs) auto
  then show "i < length xs" by (simp add: i)
  show "P (xs ! i)" using nth_length_takeWhile [OF less] by (simp add: i)
  show "\<not> P (xs ! j)" if "j < i"
    using that nth_mem [of j "takeWhile (\<lambda>x. \<not> P x) xs"] by (auto simp: i takeWhile_nth dest: set_takeWhileD)
qed

section \<open>The text a prepared thread keeps\<close>

text \<open>
  The strings of what is kept, counted without the code's own counting functions: no structure
  sizes and no saturation.
\<close>

definition summary_text :: "message_summary \<Rightarrow> nat" where
  "summary_text message =
     length (ms_message_id message) + length (ms_thread_id message) + length (ms_from message) + length (ms_to message) +
     length (ms_cc message) + length (ms_subject message) + sum_list (map length (ms_tags message)) +
     sum_list (map length (ms_filenames message))"

definition attachment_text :: "attachment \<Rightarrow> nat" where
  "attachment_text a =
     option_len (at_filename a) + length (at_content_type a) + option_len (at_content_id a) +
     option_len (at_decode_error a) + sum_list (map length (at_decode_warnings a))"

definition parsed_text :: "parsed_message \<Rightarrow> nat" where
  "parsed_text m =
     length (pg_subject m) + length (pg_from m) + length (pg_to m) + length (pg_cc m) + length (pg_reply_to m) +
     length (pg_message_id m) + length (pg_references m) + length (pg_in_reply_to m) + length (pg_text_body m) +
     length (pg_safe_body m) + option_len (pg_html_body m) +
     (\<Sum>key \<in> Mapping.keys (pg_headers m). length key + option_len (Mapping.lookup (pg_headers m) key)) +
     sum_list (map length (pg_decode_warnings m)) + sum_list (map length (pg_mime_tree m)) +
     sum_list (map attachment_text (pg_attachments m))"

definition content_text :: "prepared_message \<Rightarrow> nat" where
  "content_text content =
     (case pd_source content of Some source \<Rightarrow> length (sc_path source) | None \<Rightarrow> 0) +
     (case pd_raw content of Inr raw \<Rightarrow> length raw | Inl err \<Rightarrow> length err) +
     (case pd_parsed content of Inr m \<Rightarrow> parsed_text m | Inl err \<Rightarrow> length err) +
     (case pd_headers content of Inr headers \<Rightarrow> length headers | Inl err \<Rightarrow> length err) +
     (case pd_text content of Inr t \<Rightarrow> length (pt_expanded t) + length (pt_collapsed t) | Inl err \<Rightarrow> length err) +
     (case pd_html content of
        HtmlMissing \<Rightarrow> 0
      | HtmlReady _ images_allowed images_blocked \<Rightarrow> length images_allowed + length images_blocked
      | HtmlUnavailable _ err \<Rightarrow> length err)"

definition thread_text :: "prepared_thread \<Rightarrow> nat" where
  "thread_text thread =
     length (pth_thread_id thread) + sum_list (map summary_text (pth_messages thread)) +
     sum_list (map (\<lambda>(message_id, content). length message_id + content_text content) (pth_message_contents thread)) +
     sum_list (map (\<lambda>row. length (pa_message_id row) + length (pa_filename row) + length (pa_content_type row))
       (pth_attachments thread))"

abbreviation covers :: "nat \<Rightarrow> nat \<Rightarrow> bool" where
  "covers x y \<equiv> min usize_max x \<le> y"

lemma sum_covers: "list_all2 covers xs ys \<Longrightarrow> covers (sum_list xs) (sum_list ys)"
  by (induction rule: list_all2_induct) (auto simp: min_def split: if_splits)

lemma saturating_covers: "list_all2 covers xs ys \<Longrightarrow> covers (sum_list xs) (saturating_sum ys)"
  using sum_covers by (simp add: saturating_sum_eq)

lemma covers_map: "(\<And>x. covers (f x) (g x)) \<Longrightarrow> list_all2 covers (map f xs) (map g xs)"
  by (simp add: list.rel_map list.rel_refl)

lemma covers_less: "x \<le> y \<Longrightarrow> covers x y"
  by simp

lemma attachment_text_counted: "covers (attachment_text a) (attachment_bytes sizes a)"
proof -
  have "attachment_text a = sum_list [0, option_len (at_filename a), length (at_content_type a),
      option_len (at_content_id a), option_len (at_decode_error a), sum_list (map length (at_decode_warnings a))]"
    by (simp add: attachment_text_def)
  also have "covers \<dots> (attachment_bytes sizes a)"
    unfolding attachment_bytes_def by (intro saturating_covers) (simp add: saturating_sum_eq)
  finally show ?thesis .
qed

lemma summary_text_counted: "covers (summary_text m) (message_summary_bytes sizes m)"
proof -
  have "summary_text m = sum_list [0, length (ms_message_id m), length (ms_thread_id m),
       length (ms_from m), length (ms_to m), length (ms_cc m), length (ms_subject m),
       sum_list (map length (ms_tags m)), sum_list (map length (ms_filenames m))]"
    by (simp add: summary_text_def)
  also have "covers \<dots> (message_summary_bytes sizes m)"
    unfolding message_summary_bytes_def by (intro saturating_covers) (simp add: saturating_sum_eq)
  finally show ?thesis .
qed

lemma parsed_text_counted: "covers (parsed_text m) (parsed_message_bytes sizes m)"
proof -
  let ?fields = "[pg_subject m, pg_from m, pg_to m, pg_cc m, pg_reply_to m,
      pg_message_id m, pg_references m, pg_in_reply_to m, pg_text_body m, pg_safe_body m]"
  let ?headers = "\<Sum>key \<in> Mapping.keys (pg_headers m). length key + option_len (Mapping.lookup (pg_headers m) key)"
  have "parsed_text m = sum_list [0, sum_list (map length ?fields), option_len (pg_html_body m), 0, ?headers,
      sum_list (map length (pg_decode_warnings m)), sum_list (map length (pg_mime_tree m)),
      sum_list (map attachment_text (pg_attachments m))]"
    by (simp add: parsed_text_def)
  also have "covers \<dots> (parsed_message_bytes sizes m)"
    unfolding parsed_message_bytes_def
  proof (rule saturating_covers, intro list.rel_intros)
    show "covers (sum_list (map length ?fields)) (saturating_sum (map length ?fields))"
      by (simp add: saturating_sum_eq)
    have "?headers \<le> (\<Sum>key \<in> Mapping.keys (pg_headers m).
        sz_string_pair sizes + length key + option_len (Mapping.lookup (pg_headers m) key))"
      by (rule sum_mono) simp
    then show "covers ?headers (min usize_max (\<Sum>key \<in> Mapping.keys (pg_headers m).
        sz_string_pair sizes + length key + option_len (Mapping.lookup (pg_headers m) key)))" by simp
    show "covers (sum_list (map attachment_text (pg_attachments m)))
        (saturating_sum (map (attachment_bytes sizes) (pg_attachments m)))"
      by (intro saturating_covers covers_map attachment_text_counted)
  qed (simp_all add: saturating_sum_eq)
  finally show ?thesis .
qed

lemma content_text_counted: "covers (content_text c) (message_retained_bytes sizes c)"
proof -
  let ?source = "case pd_source c of Some source \<Rightarrow> length (sc_path source) | None \<Rightarrow> 0"
  let ?parsed = "case pd_parsed c of Inr m \<Rightarrow> parsed_text m | Inl err \<Rightarrow> length err"
  let ?text = "case pd_text c of Inr t \<Rightarrow> length (pt_expanded t) + length (pt_collapsed t) | Inl err \<Rightarrow> length err"
  let ?html = "case pd_html c of HtmlMissing \<Rightarrow> 0
      | HtmlReady _ images_allowed images_blocked \<Rightarrow> length images_allowed + length images_blocked
      | HtmlUnavailable _ err \<Rightarrow> length err"
  have "content_text c = sum_list [?source, case pd_raw c of Inr raw \<Rightarrow> length raw | Inl err \<Rightarrow> length err, ?parsed,
      case pd_headers c of Inr headers \<Rightarrow> length headers | Inl err \<Rightarrow> length err, ?text, ?html]"
    by (simp add: content_text_def)
  also have "covers \<dots> (message_retained_bytes sizes c)"
    unfolding message_retained_bytes_def
  proof (rule saturating_covers, intro list.rel_intros)
    show "covers ?source (case pd_source c of Some source \<Rightarrow> source_retained_bytes sizes source | None \<Rightarrow> 0)"
      by (auto simp: source_retained_bytes_def saturating_sum_eq split: option.split)
    show "covers ?parsed (result_parsed_message_bytes sizes (pd_parsed c))"
      by (simp add: result_parsed_message_bytes_def parsed_text_counted split: sum.split)
    show "covers ?text (case pd_text c of
        Inr text' \<Rightarrow> saturating_sum [length (pt_expanded text'), length (pt_collapsed text')] | Inl err \<Rightarrow> length err)"
      by (simp add: saturating_sum_eq split: sum.split)
    show "covers ?html (case pd_html c of HtmlMissing \<Rightarrow> 0
         | HtmlReady _ images_allowed images_blocked \<Rightarrow> saturating_sum [length images_allowed, length images_blocked]
         | HtmlUnavailable _ err \<Rightarrow> length err)"
      by (simp add: saturating_sum_eq split: prepared_html.split)
  qed (simp_all add: result_str_bytes_def split: sum.split)
  finally show ?thesis .
qed

text \<open>When the sum is not saturated, neither are its parts.\<close>

lemma thread_text_counted:
  assumes "length thread_id + sum_list (map (message_summary_bytes sizes) messages) + identifiers_bytes contents +
      contents_bytes sizes contents + rows_bytes sizes rows \<le> n" "n < usize_max"
  shows "length thread_id + sum_list (map summary_text messages) +
      sum_list (map (\<lambda>(message_id, content). length message_id + content_text content) contents) +
      sum_list (map (\<lambda>row. length (pa_message_id row) + length (pa_filename row) + length (pa_content_type row)) rows) \<le> n"
proof -
  have "covers (sum_list (map summary_text messages)) (sum_list (map (message_summary_bytes sizes) messages))"
    by (intro sum_covers covers_map summary_text_counted)
  moreover have "sum_list (map (\<lambda>(message_id, content). length message_id + content_text content) contents) =
      identifiers_bytes contents + sum_list (map (content_text \<circ> snd) contents)"
    by (induction contents) (auto simp: identifiers_bytes_def)
  moreover have "covers (sum_list (map (content_text \<circ> snd) contents)) (contents_bytes sizes contents)"
    unfolding contents_bytes_def case_prod_beta comp_def by (intro sum_covers covers_map content_text_counted)
  moreover have "sum_list (map (\<lambda>row. length (pa_message_id row) + length (pa_filename row) + length (pa_content_type row)) rows)
      \<le> rows_bytes sizes rows"
    unfolding rows_bytes_def by (rule sum_list_mono) simp
  ultimately show ?thesis using assms by (simp add: min_def split: if_splits)
qed

section \<open>A prepared thread stays within its limits\<close>

text \<open>
  C35. A thread that is prepared has at most the allowed number of messages, bytes and attachments.
  Its contents are one per message (the ordered map of the code is the association list in the order
  of insertion).  The bytes counted are at least those of the
  metadata, of every content kept under its identifier, and of every attachment row kept, structure
  sizes included; in particular the number of bytes counted is no less than that of all the text the
  thread keeps.  Every attachment row names its message by its index and its identifier, and is a
  decodable attachment of the message parsed for it, from the same source.  The target index is that
  of the message with the wanted identifier, and is missing only when there is none.
\<close>

theorem prepared_thread_within_limits:
  assumes "prepare_thread_with_resolution env thread_id messages target limits config read w = (Inr thread, w')"
    and "distinct (map ms_message_id messages)" and "li_retained_bytes limits < usize_max"
  shows "pth_thread_id thread = thread_id \<and> pth_messages thread = messages \<and>
     length (pth_messages thread) \<le> li_message_count limits \<and>
     length (pth_attachments thread) \<le> li_attachment_count limits \<and>
     length (pth_thread_id thread) + sum_list (map (message_summary_bytes (pe_sizes env)) (pth_messages thread)) +
       identifiers_bytes (pth_message_contents thread) + contents_bytes (pe_sizes env) (pth_message_contents thread) +
       rows_bytes (pe_sizes env) (pth_attachments thread) \<le> pth_retained_bytes thread \<and>
     thread_text thread \<le> pth_retained_bytes thread \<and>
     pth_retained_bytes thread \<le> li_retained_bytes limits \<and>
     map fst (pth_message_contents thread) = map ms_message_id (pth_messages thread) \<and>
     list_all (row_of_message (pth_messages thread) (pth_message_contents thread)) (pth_attachments thread) \<and>
     (case pth_target_message_index thread of
        None \<Rightarrow> target \<notin> Some ` ms_message_id ` set messages
      | Some i \<Rightarrow> i < length messages \<and> target = Some (ms_message_id (messages ! i)))"
proof -
  let ?metadata = "length thread_id + sum_list (map (message_summary_bytes (pe_sizes env)) messages)"
  let ?start = "\<lparr>tg_contents = [], tg_attachments = [], tg_attachment_like_count = 0, tg_mime_part_count = 0,
    tg_retained_bytes = min usize_max ?metadata\<rparr>"
  obtain progress w1 w2 where few: "length messages \<le> li_message_count limits"
    and fits: "min usize_max ?metadata \<le> li_retained_bytes limits"
    and loop: "prepare_messages env config read limits (length ([] :: message_summary list)) messages ?start w1 = (Inr progress, w2)"
    and thread: "thread = \<lparr>pth_thread_id = thread_id, pth_messages = messages, pth_message_contents = tg_contents progress,
           pth_attachments = tg_attachments progress,
           pth_target_message_index = Option.bind target (\<lambda>target. position_of (\<lambda>message. ms_message_id message = target) messages),
           pth_retained_bytes = tg_retained_bytes progress\<rparr>"
    using assms(1) by (auto simp: prepare_thread_with_resolution_def Let_def prepare_Inr saturating_sum_eq)
  have ok: "progress_ok limits messages progress" and counts: "bytes_counted (pe_sizes env) ?metadata progress"
    using prepare_messages_ok [OF loop, of ?metadata] assms(2) fits
    by (simp_all add: progress_ok_def bytes_counted_def contents_bytes_def identifiers_bytes_def rows_bytes_def)
  have bytes: "?metadata + identifiers_bytes (tg_contents progress) + contents_bytes (pe_sizes env) (tg_contents progress) +
      rows_bytes (pe_sizes env) (tg_attachments progress) \<le> tg_retained_bytes progress"
    using counts ok assms(3) by (auto simp: bytes_counted_def progress_ok_def min_def split: if_splits)
  moreover have "tg_retained_bytes progress < usize_max" using ok assms(3) by (simp add: progress_ok_def)
  ultimately have kept: "thread_text thread \<le> tg_retained_bytes progress"
    unfolding thread_text_def thread by (simp only: prepared_thread.simps thread_text_counted)
  have index: "case Option.bind target (\<lambda>target. position_of (\<lambda>message. ms_message_id message = target) messages) of
        None \<Rightarrow> target \<notin> Some ` ms_message_id ` set messages
      | Some i \<Rightarrow> i < length messages \<and> target = Some (ms_message_id (messages ! i))"
    by (cases target)
       (auto simp: position_of_None bind_eq_Some_conv dest: position_of_Some(1,2) split: option.split)
  show ?thesis using few ok bytes kept index by (simp add: thread progress_ok_def list_all_iff)
qed

definition preparing_env :: "unit prepare_env" where
  "preparing_env =
     \<lparr>pe_inline = image_lib, pe_loader = two_part_lib,
      pe_sizes = \<lparr>sz_parsed_message = 480, sz_cid_scope = 40, sz_usize = 8, sz_string_pair = 48, sz_attachment = 136,
        sz_message_source = 64, sz_message_summary = 200, sz_prepared_attachment = 112\<rparr>,
      pe_poll = Pair False, pe_file = (\<lambda>path. Pair (Inr two_part_message)),
      pe_open_message_id = (\<lambda>config message_id. Pair (Inl ''no such message''))\<rparr>"

definition one_message :: message_summary where
  "one_message =
     \<lparr>ms_message_id = ''m@x'', ms_thread_id = ''0001'', ms_date = 0, ms_from = [], ms_to = [], ms_cc = [],
      ms_subject = [], ms_tags = [''inbox''], ms_filenames = [''/mail/b'', ''/mail/a'']\<rparr>"

lemma one_message_file:
  "case prepare_message_candidates preparing_env one_message None (read_bounded preparing_env) DEFAULT_PREPARATION_LIMITS
     2048 4096 () of
     (Inr pf, _) \<Rightarrow> map am_content_type (pf_attachments pf) = [''image/png''] \<and> pd_source (pf_message pf) \<noteq> None \<and>
       file_retained_bytes (pe_sizes preparing_env) pf < 100000
   | (Inl _, _) \<Rightarrow> False"
  by code_simp

lemma one_message_prepared:
  "\<exists>thread. prepare_thread_with_resolution preparing_env ''0001'' [one_message] (Some ''m@x'') DEFAULT_PREPARATION_LIMITS
     None (read_bounded preparing_env) () = (Inr thread, ()) \<and>
     map pa_content_type (pth_attachments thread) = [''image/png'']"
proof -
  obtain pf where pf: "prepare_message_candidates preparing_env one_message None (read_bounded preparing_env)
      DEFAULT_PREPARATION_LIMITS 2048 4096 () = (Inr pf, ())"
    and types: "map am_content_type (pf_attachments pf) = [''image/png'']"
    and source: "pd_source (pf_message pf) \<noteq> None" and small: "file_retained_bytes (pe_sizes preparing_env) pf < 100000"
    using one_message_file by (auto split: prod.splits sum.splits)
  obtain row where row: "pf_attachments pf = [row]" "am_content_type row = ''image/png''"
    using types by (auto simp: map_eq_Cons_conv)
  obtain rows where rows: "thread_attachments 0 one_message pf = Inr rows" "map pa_content_type rows = [''image/png'']"
    using source row by (auto simp: thread_attachments_def)
  have running: "check_running preparing_env = Pair (Inr ())" by (rule ext) (simp add: check_running_def preparing_env_def)
  let ?metadata = "saturating_sum [length ''0001'', sum_list (map (message_summary_bytes (pe_sizes preparing_env)) [one_message])]"
  let ?start = "\<lparr>tg_contents = [], tg_attachments = [], tg_attachment_like_count = 0, tg_mime_part_count = 0,
    tg_retained_bytes = ?metadata\<rparr>"
  have metadata: "?metadata < 1000" by code_simp
  have id: "length (ms_message_id one_message) = 3" by code_simp
  have "saturating_sum [?metadata, saturating_sum [file_retained_bytes (pe_sizes preparing_env) pf,
      length (ms_message_id one_message),
      min usize_max (length (pf_attachments pf) * length (ms_message_id one_message))]] \<le> 200000"
    using small metadata row id by (simp add: saturating_sum_eq)
  then have fits: "saturating_sum [?metadata, saturating_sum [file_retained_bytes (pe_sizes preparing_env) pf,
      length (ms_message_id one_message),
      min usize_max (length (pf_attachments pf) * length (ms_message_id one_message))]]
        \<le> li_retained_bytes DEFAULT_PREPARATION_LIMITS"
    by (simp add: DEFAULT_PREPARATION_LIMITS_def)
  have limits: "1 \<le> li_message_count DEFAULT_PREPARATION_LIMITS" "li_attachment_count DEFAULT_PREPARATION_LIMITS = 2048"
      "li_mime_part_count DEFAULT_PREPARATION_LIMITS = 4096" "?metadata \<le> li_retained_bytes DEFAULT_PREPARATION_LIMITS"
    using metadata by (simp_all add: DEFAULT_PREPARATION_LIMITS_def MAX_LOADED_THREAD_MESSAGES_def MAX_THREAD_TAG_MESSAGES_def)
  obtain progress where progress: "add_message preparing_env DEFAULT_PREPARATION_LIMITS 0 one_message pf ?start () =
      (Inr progress, ())" "tg_attachments progress = rows"
    using fits limits rows row by (simp add: add_message_def Let_def then_do_def running check_that_def)
  have "prepare_messages preparing_env None (read_bounded preparing_env) DEFAULT_PREPARATION_LIMITS 0 [one_message] ?start ()
      = (Inr progress, ())"
    using pf progress(1) limits by (simp add: then_do_def running)
  then show ?thesis
    using progress(2) rows(2) limits(1,4)
    by (simp add: prepare_thread_with_resolution_def Let_def then_do_def running check_that_def del: prepare_messages.simps)
qed

theorem prepared_thread_within_limits_witness:
  "\<exists>thread :: prepared_thread. map pa_content_type (pth_attachments thread) = [''image/png''] \<and>
     list_all (row_of_message [one_message] (pth_message_contents thread)) (pth_attachments thread) \<and>
     pth_retained_bytes thread \<le> 96 * 1024 * 1024"
proof -
  obtain thread where ok: "prepare_thread_with_resolution preparing_env ''0001'' [one_message] (Some ''m@x'')
      DEFAULT_PREPARATION_LIMITS None (read_bounded preparing_env) () = (Inr thread, ())"
    and types: "map pa_content_type (pth_attachments thread) = [''image/png'']"
    by (rule exE [OF one_message_prepared]) (elim conjE)
  have limit: "li_retained_bytes DEFAULT_PREPARATION_LIMITS < usize_max"
      "li_retained_bytes DEFAULT_PREPARATION_LIMITS = 96 * 1024 * 1024"
    by (simp_all add: DEFAULT_PREPARATION_LIMITS_def usize_max_def)
  have single: "distinct (map ms_message_id [one_message])" by simp
  note all = prepared_thread_within_limits [OF ok single limit(1)]
  have messages: "pth_messages thread = [one_message]" by (rule all [THEN conjunct2, THEN conjunct1])
  have rows: "list_all (row_of_message [one_message] (pth_message_contents thread)) (pth_attachments thread)"
    unfolding messages [symmetric] using all by (elim conjE)
  have "pth_retained_bytes thread \<le> 96 * 1024 * 1024"
    unfolding limit(2) [symmetric] using all by (elim conjE)
  with types rows show ?thesis by (intro exI [of _ thread] conjI)
qed

end
