(* ===== verification/Coordinators.thy ===== *)
theory Coordinators
  imports Machine
begin

text \<open>
  Coordinators of background work (\<open>notm-ui/src/thread\_loader.rs\<close>, \<open>draft\_recovery.rs\<close>,
  \<open>composer\_preparation.rs\<close>, \<open>attachment\_io.rs\<close>, \<open>draft\_io.rs\<close>).  Each hands out a token
  per piece of work; a result is taken only while its token is the active one.  The common
  contract is a locale, with one interpretation per coordinator; generations are \<open>u64\<close> and
  saturate.
\<close>

section \<open>The contract\<close>

datatype ('a, 'g) coordinator_op = BeginWork 'a | CancelWork | FinishWork 'g

text \<open>A sequence of operations: the tokens issued, in order, and the last state.\<close>

fun coordinate ::
  "('a \<Rightarrow> 's \<Rightarrow> 'g option \<times> 's) \<Rightarrow> ('s \<Rightarrow> 's) \<Rightarrow> ('s \<Rightarrow> 'g \<Rightarrow> bool \<times> 's) \<Rightarrow>
   ('a, 'g) coordinator_op list \<Rightarrow> 's \<Rightarrow> 'g list \<times> 's" where
  "coordinate issue cancel finish [] s = ([], s)"
| "coordinate issue cancel finish (BeginWork a # ops) s =
     (case issue a s of (token, s') \<Rightarrow>
       (case coordinate issue cancel finish ops s' of (issued, s'') \<Rightarrow>
          ((case token of Some g \<Rightarrow> g # issued | None \<Rightarrow> issued), s'')))"
| "coordinate issue cancel finish (CancelWork # ops) s = coordinate issue cancel finish ops (cancel s)"
| "coordinate issue cancel finish (FinishWork g # ops) s = coordinate issue cancel finish ops (snd (finish s g))"

locale coordinator =
  fixes issue :: "'a \<Rightarrow> 's \<Rightarrow> 'g option \<times> 's"
    and cancel :: "'s \<Rightarrow> 's"
    and accepts :: "'s \<Rightarrow> 'g \<Rightarrow> bool"
    and finish :: "'s \<Rightarrow> 'g \<Rightarrow> bool \<times> 's"
    and inv :: "'s \<Rightarrow> bool"
    and active :: "'s \<Rightarrow> 'g option"
    and stamp :: "'s \<Rightarrow> nat"
    and token_stamp :: "'g \<Rightarrow> nat"
  assumes issue_inv: "inv s \<Longrightarrow> inv (snd (issue a s))"
    and issue_some: "inv s \<Longrightarrow> issue a s = (Some g, s') \<Longrightarrow> stamp s < u64_max \<Longrightarrow>
          active s' = Some g \<and> token_stamp g = stamp s + 1 \<and> stamp s' = stamp s + 1"
    and issue_none: "inv s \<Longrightarrow> issue a s = (None, s') \<Longrightarrow> s' = s"
    and cancel_inv: "inv s \<Longrightarrow> inv (cancel s)"
    and cancel_active: "inv s \<Longrightarrow> active (cancel s) = None"
    and cancel_stamp: "stamp s \<le> stamp (cancel s) \<and> stamp (cancel s) \<le> stamp s + 1"
    and accepts_active: "inv s \<Longrightarrow> accepts s g \<longleftrightarrow> active s = Some g"
    and finish_inv: "inv s \<Longrightarrow> inv (snd (finish s g))"
    and finish_accepts: "inv s \<Longrightarrow> fst (finish s g) \<longleftrightarrow> accepts s g"
    and finish_active: "inv s \<Longrightarrow> active (snd (finish s g)) = (if accepts s g then None else active s)"
    and finish_stamp: "stamp (snd (finish s g)) = stamp s"
begin

abbreviation run :: "('a, 'g) coordinator_op list \<Rightarrow> 's \<Rightarrow> 'g list \<times> 's" where
  "run \<equiv> coordinate issue cancel finish"

lemma run_keeps:
  "inv s \<Longrightarrow> stamp s + length ops \<le> u64_max \<Longrightarrow> run ops s = (issued, s') \<Longrightarrow>
   inv s' \<and> stamp s' \<le> stamp s + length ops"
proof (induction ops arbitrary: s issued)
  case (Cons op ops)
  show ?case
  proof (cases op)
    case (BeginWork a)
    obtain token s1 where i: "issue a s = (token, s1)" by fastforce
    obtain issued' where r: "run ops s1 = (issued', s')" using Cons.prems(3) BeginWork i by (auto split: prod.splits)
    have "stamp s1 \<le> stamp s + 1"
      using issue_some [OF Cons.prems(1)] issue_none [OF Cons.prems(1)] i Cons.prems(2)
      by (cases token) (fastforce)+
    moreover have "inv s1" using issue_inv [OF Cons.prems(1), of a] i by simp
    ultimately show ?thesis using Cons.IH [OF _ _ r] Cons.prems(2) by fastforce
  next
    case CancelWork
    then show ?thesis using Cons.IH [of "cancel s"] Cons.prems cancel_inv [OF Cons.prems(1)] cancel_stamp [of s] by fastforce
  next
    case (FinishWork g)
    then show ?thesis using Cons.IH [of "snd (finish s g)"] Cons.prems finish_inv [OF Cons.prems(1)] finish_stamp [of s g]
      by fastforce
  qed
qed simp

text \<open>A token that is not active any more stays inactive.\<close>

lemma stale_stays_stale:
  "inv s \<Longrightarrow> stamp s + length ops \<le> u64_max \<Longrightarrow> run ops s = (issued, s') \<Longrightarrow>
   active s \<noteq> Some g \<Longrightarrow> token_stamp g \<le> stamp s \<Longrightarrow> active s' \<noteq> Some g"
proof (induction ops arbitrary: s issued)
  case (Cons op ops)
  show ?case
  proof (cases op)
    case (BeginWork a)
    obtain token s1 where i: "issue a s = (token, s1)" by fastforce
    obtain issued' where r: "run ops s1 = (issued', s')" using Cons.prems(3) BeginWork i by (auto split: prod.splits)
    have inv: "inv s1" using issue_inv [OF Cons.prems(1), of a] i by simp
    show ?thesis
    proof (cases token)
      case None
      then have "s1 = s" using issue_none [OF Cons.prems(1)] i by simp
      then show ?thesis using Cons.IH [OF inv _ r] Cons.prems by simp
    next
      case (Some g')
      then have new: "active s1 = Some g'" "token_stamp g' = stamp s + 1" "stamp s1 = stamp s + 1"
        using issue_some [OF Cons.prems(1)] i Cons.prems(2) by auto
      then have "active s1 \<noteq> Some g" using Cons.prems(5) by auto
      then show ?thesis using Cons.IH [OF inv _ r] Cons.prems(2,5) new(3) by simp
    qed
  next
    case CancelWork
    then show ?thesis
      using Cons.IH [of "cancel s"] Cons.prems cancel_inv [OF Cons.prems(1)] cancel_active [OF Cons.prems(1)] cancel_stamp [of s]
      by fastforce
  next
    case (FinishWork g')
    then show ?thesis
      using Cons.IH [of "snd (finish s g')"] Cons.prems finish_inv [OF Cons.prems(1)] finish_stamp [of s g']
        finish_active [OF Cons.prems(1)] by (auto split: if_splits)
  qed
qed simp

text \<open>A token is accepted until newer work begins, the work is cancelled or its result was taken.\<close>

lemma active_after:
  "inv s \<Longrightarrow> stamp s + length ops \<le> u64_max \<Longrightarrow> run ops s = (issued, s') \<Longrightarrow>
   active s = Some g \<Longrightarrow> token_stamp g \<le> stamp s \<Longrightarrow>
   active s' = Some g \<longleftrightarrow> issued = [] \<and> CancelWork \<notin> set ops \<and> FinishWork g \<notin> set ops"
proof (induction ops arbitrary: s issued)
  case (Cons op ops)
  show ?case
  proof (cases op)
    case (BeginWork a)
    obtain token s1 where i: "issue a s = (token, s1)" by fastforce
    obtain issued' where r: "run ops s1 = (issued', s')" using Cons.prems(3) BeginWork i by (auto split: prod.splits)
    have inv: "inv s1" using issue_inv [OF Cons.prems(1), of a] i by simp
    show ?thesis
    proof (cases token)
      case None
      then have "s1 = s" "issued' = issued" using issue_none [OF Cons.prems(1)] i r Cons.prems(3) BeginWork by auto
      then show ?thesis using Cons.IH [OF inv _ r] Cons.prems BeginWork by simp
    next
      case (Some g')
      then have new: "active s1 = Some g'" "token_stamp g' = stamp s + 1" "stamp s1 = stamp s + 1"
        using issue_some [OF Cons.prems(1)] i Cons.prems(2) by auto
      then have "active s1 \<noteq> Some g" using Cons.prems(5) by auto
      then have "active s' \<noteq> Some g" using stale_stays_stale [OF inv _ r] Cons.prems(2,5) new(3) by simp
      moreover have "issued \<noteq> []" using Some i r Cons.prems(3) BeginWork by auto
      ultimately show ?thesis by simp
    qed
  next
    case CancelWork
    then show ?thesis
      using stale_stays_stale [of "cancel s" ops issued s' g] Cons.prems cancel_inv [OF Cons.prems(1)]
        cancel_active [OF Cons.prems(1)] cancel_stamp [of s]
      by fastforce
  next
    case (FinishWork g')
    let ?s = "snd (finish s g')"
    note next' = finish_inv [OF Cons.prems(1), of g'] finish_stamp [of s g'] finish_active [OF Cons.prems(1), of g']
      accepts_active [OF Cons.prems(1), of g']
    have r: "run ops ?s = (issued, s')" using Cons.prems(3) FinishWork by simp
    show ?thesis
    proof (cases "g' = g")
      case True
      then have "active s' \<noteq> Some g" using stale_stays_stale [OF next'(1) _ r] next' Cons.prems by simp
      then show ?thesis using True FinishWork by simp
    next
      case False
      then show ?thesis using Cons.IH [OF next'(1) _ r] next' Cons.prems FinishWork by auto
    qed
  qed
qed simp

lemma accepted_iff_undisturbed:
  assumes "inv s" "stamp s + length ops < u64_max" "issue a s = (Some g, s1)" "run ops s1 = (issued, s2)"
  shows "accepts s2 g \<longleftrightarrow> issued = [] \<and> CancelWork \<notin> set ops \<and> FinishWork g \<notin> set ops"
proof -
  have new: "active s1 = Some g" "token_stamp g = stamp s + 1" "stamp s1 = stamp s + 1"
    using issue_some [OF assms(1,3)] assms(2) by auto
  have inv: "inv s1" using issue_inv [OF assms(1), of a] assms(3) by simp
  have "inv s2" using run_keeps [OF inv _ assms(4)] new(3) assms(2) by simp
  then show ?thesis using active_after [OF inv _ assms(4) new(1)] new assms(2) accepts_active by simp
qed

lemma accepted_from:
  assumes "inv s0" "run before s0 = (earlier, s)" "stamp s0 + length before + length ops < u64_max"
    and "issue a s = (Some g, s1)" "run ops s1 = (issued, s2)"
  shows "accepts s2 g \<longleftrightarrow> issued = [] \<and> CancelWork \<notin> set ops \<and> FinishWork g \<notin> set ops"
proof -
  have "inv s" "stamp s \<le> stamp s0 + length before" using run_keeps [OF assms(1) _ assms(2)] assms(3) by auto
  then show ?thesis using accepted_iff_undisturbed [OF _ _ assms(4,5)] assms(3) by simp
qed

end

section \<open>Recovery of drafts\<close>

record draft_recovery_coordinator =
  dr_generation :: nat
  dr_active :: "nat option"

definition recovery_default :: draft_recovery_coordinator where
  "recovery_default = \<lparr>dr_generation = 0, dr_active = None\<rparr>"

definition recovery_begin :: "draft_recovery_coordinator \<Rightarrow> nat \<times> draft_recovery_coordinator" where
  "recovery_begin c =
     (let generation = saturating_succ (dr_generation c) in
      (generation, c\<lparr>dr_generation := generation, dr_active := Some generation\<rparr>))"

definition recovery_cancel :: "draft_recovery_coordinator \<Rightarrow> draft_recovery_coordinator" where
  "recovery_cancel c = c\<lparr>dr_generation := saturating_succ (dr_generation c), dr_active := None\<rparr>"

definition recovery_accepts :: "draft_recovery_coordinator \<Rightarrow> nat \<Rightarrow> bool" where
  "recovery_accepts c generation \<longleftrightarrow> dr_active c = Some generation"

definition recovery_finish :: "draft_recovery_coordinator \<Rightarrow> nat \<Rightarrow> bool \<times> draft_recovery_coordinator" where
  "recovery_finish c generation =
     (if \<not> recovery_accepts c generation then (False, c) else (True, c\<lparr>dr_active := None\<rparr>))"

text \<open>A coordinator whose work always begins, as an instance of the contract.\<close>

definition always :: "('s \<Rightarrow> 'g \<times> 's) \<Rightarrow> unit \<Rightarrow> 's \<Rightarrow> 'g option \<times> 's" where
  "always issue _ s = (case issue s of (g, s) \<Rightarrow> (Some g, s))"

interpretation recovery: coordinator "always recovery_begin" recovery_cancel recovery_accepts recovery_finish
    "\<lambda>c. True" dr_active dr_generation "\<lambda>g. g"
  by unfold_locales
    (auto simp: always_def recovery_begin_def recovery_cancel_def recovery_accepts_def recovery_finish_def Let_def
      saturating_succ_less saturating_succ_bounds split: prod.splits)

section \<open>Preparation for the composer\<close>

text \<open>The generation is also in a cell that the worker reads.\<close>

record composer_preparation_coordinator =
  cp_next_generation :: nat
  cp_active :: "nat option"
  cp_current_generation :: nat

definition preparation_default :: composer_preparation_coordinator where
  "preparation_default = \<lparr>cp_next_generation = 0, cp_active = None, cp_current_generation = 0\<rparr>"

definition preparation_begin :: "composer_preparation_coordinator \<Rightarrow> nat \<times> composer_preparation_coordinator" where
  "preparation_begin c =
     (let generation = saturating_succ (cp_next_generation c) in
      (generation, c\<lparr>cp_next_generation := generation, cp_active := Some generation,
                    cp_current_generation := generation\<rparr>))"

definition preparation_cancel :: "composer_preparation_coordinator \<Rightarrow> composer_preparation_coordinator" where
  "preparation_cancel c =
     (let generation = saturating_succ (cp_next_generation c) in
      c\<lparr>cp_next_generation := generation, cp_active := None, cp_current_generation := generation\<rparr>)"

definition preparation_accepts :: "composer_preparation_coordinator \<Rightarrow> nat \<Rightarrow> bool" where
  "preparation_accepts c generation \<longleftrightarrow> cp_active c = Some generation \<and> cp_current_generation c = generation"

definition preparation_finish :: "composer_preparation_coordinator \<Rightarrow> nat \<Rightarrow> bool \<times> composer_preparation_coordinator" where
  "preparation_finish c generation =
     (if \<not> preparation_accepts c generation then (False, c) else (True, c\<lparr>cp_active := None\<rparr>))"

text \<open>\<open>ComposerPreparationToken::cancelled\<close> of the token with this generation.\<close>

definition preparation_cancelled :: "composer_preparation_coordinator \<Rightarrow> nat \<Rightarrow> bool" where
  "preparation_cancelled c generation \<longleftrightarrow> cp_current_generation c \<noteq> generation"

definition preparation_consistent :: "composer_preparation_coordinator \<Rightarrow> bool" where
  "preparation_consistent c \<longleftrightarrow>
     cp_current_generation c = cp_next_generation c \<and> (\<forall>g. cp_active c = Some g \<longrightarrow> g = cp_next_generation c)"

interpretation preparation: coordinator "always preparation_begin" preparation_cancel preparation_accepts preparation_finish
    preparation_consistent cp_active cp_next_generation "\<lambda>g. g"
  by unfold_locales
    (auto simp: always_def preparation_begin_def preparation_cancel_def preparation_accepts_def preparation_finish_def
      preparation_consistent_def Let_def saturating_succ_less saturating_succ_bounds split: prod.splits)

section \<open>Saving and opening attachments\<close>

record attachment_io_token =
  ak_generation :: nat
  ak_request_id :: nat

record attachment_io_coordinator =
  ac_generation :: nat
  ac_next_request_id :: nat
  ac_active :: "attachment_io_token option"

definition attachment_default :: attachment_io_coordinator where
  "attachment_default = \<lparr>ac_generation = 0, ac_next_request_id = 0, ac_active = None\<rparr>"

definition attachment_begin :: "attachment_io_coordinator \<Rightarrow> attachment_io_token \<times> attachment_io_coordinator" where
  "attachment_begin c =
     (let generation = saturating_succ (ac_generation c); request_id = saturating_succ (ac_next_request_id c);
          token = \<lparr>ak_generation = generation, ak_request_id = request_id\<rparr> in
      (token, c\<lparr>ac_generation := generation, ac_next_request_id := request_id, ac_active := Some token\<rparr>))"

definition attachment_cancel :: "attachment_io_coordinator \<Rightarrow> attachment_io_coordinator" where
  "attachment_cancel c = c\<lparr>ac_generation := saturating_succ (ac_generation c), ac_active := None\<rparr>"

definition attachment_accepts :: "attachment_io_coordinator \<Rightarrow> attachment_io_token \<Rightarrow> bool" where
  "attachment_accepts c token \<longleftrightarrow> ac_active c = Some token"

definition attachment_finish :: "attachment_io_coordinator \<Rightarrow> attachment_io_token \<Rightarrow> bool \<times> attachment_io_coordinator" where
  "attachment_finish c token =
     (if \<not> attachment_accepts c token then (False, c) else (True, c\<lparr>ac_active := None\<rparr>))"

interpretation attachment: coordinator "always attachment_begin" attachment_cancel attachment_accepts attachment_finish
    "\<lambda>c. True" ac_active ac_generation ak_generation
  by unfold_locales
    (auto simp: always_def attachment_begin_def attachment_cancel_def attachment_accepts_def attachment_finish_def Let_def
      saturating_succ_less saturating_succ_bounds split: prod.splits)

section \<open>Loading named drafts\<close>

record draft_io_coordinator =
  di_next_generation :: nat
  di_active_generation :: "nat option"
  di_active_migration :: bool
  di_completed_generation :: "nat option"

definition draft_io_default :: draft_io_coordinator where
  "draft_io_default =
     \<lparr>di_next_generation = 0, di_active_generation = None, di_active_migration = False, di_completed_generation = None\<rparr>"

text \<open>A migration of the store is not replaced by newer work.\<close>

definition draft_io_begin :: "bool \<Rightarrow> draft_io_coordinator \<Rightarrow> nat option \<times> draft_io_coordinator" where
  "draft_io_begin migrate_legacy c =
     (if di_active_migration c then (None, c)
      else (let generation = saturating_succ (di_next_generation c) in
            (Some generation, c\<lparr>di_next_generation := generation, di_active_generation := Some generation,
                                di_active_migration := migrate_legacy\<rparr>)))"

definition draft_io_accepts :: "draft_io_coordinator \<Rightarrow> nat \<Rightarrow> bool" where
  "draft_io_accepts c generation \<longleftrightarrow> di_active_generation c = Some generation"

definition draft_io_finish :: "draft_io_coordinator \<Rightarrow> nat \<Rightarrow> bool \<times> draft_io_coordinator" where
  "draft_io_finish c generation =
     (if \<not> draft_io_accepts c generation then (False, c)
      else (True, c\<lparr>di_active_generation := None, di_active_migration := False,
                    di_completed_generation := Some generation\<rparr>))"

definition draft_io_cancel :: "draft_io_coordinator \<Rightarrow> draft_io_coordinator" where
  "draft_io_cancel c = c\<lparr>di_active_generation := None, di_active_migration := False\<rparr>"

definition migration_in_progress :: "draft_io_coordinator \<Rightarrow> bool" where
  "migration_in_progress c \<longleftrightarrow> di_active_generation c \<noteq> None \<and> di_active_migration c"

interpretation draft_io: coordinator draft_io_begin draft_io_cancel draft_io_accepts draft_io_finish
    "\<lambda>c. True" di_active_generation di_next_generation "\<lambda>g. g"
  by unfold_locales
    (auto simp: draft_io_begin_def draft_io_cancel_def draft_io_accepts_def draft_io_finish_def Let_def
      saturating_succ_less split: if_splits)

section \<open>Only the newest work is taken\<close>

lemma always_Some: "issue s = (g, s') \<Longrightarrow> always issue () s = (Some g, s')"
  by (simp add: always_def)

text \<open>
  C36. The result of work of a composer, begun with a token, is taken exactly while nothing has
  been begun, cancelled or taken for it since: a stale worker never gets its result in, and the
  newest always does.
\<close>

theorem newest_preparation_wins:
  assumes "coordinate (always preparation_begin) preparation_cancel preparation_finish before preparation_default = (earlier, c)"
    and "preparation_begin c = (g, c1)"
    and "coordinate (always preparation_begin) preparation_cancel preparation_finish ops c1 = (issued, c2)"
    and "length before + length ops < u64_max"
  shows "preparation_accepts c2 g \<longleftrightarrow> issued = [] \<and> CancelWork \<notin> set ops \<and> FinishWork g \<notin> set ops"
  using preparation.accepted_from [OF _ assms(1) _ always_Some [of preparation_begin, OF assms(2)] assms(3)] assms(4)
  by (simp add: preparation_default_def preparation_consistent_def)

theorem newest_preparation_wins_witness:
  "\<not> preparation_accepts \<lparr>cp_next_generation = 2, cp_active = Some 2, cp_current_generation = 2\<rparr> 1"
proof -
  have "preparation_accepts \<lparr>cp_next_generation = 2, cp_active = Some 2, cp_current_generation = 2\<rparr> 1 \<longleftrightarrow>
      [2::nat] = [] \<and> CancelWork \<notin> set [BeginWork (), FinishWork (1::nat)] \<and>
      FinishWork (1::nat) \<notin> set [BeginWork (), FinishWork (1::nat)]"
    by (rule newest_preparation_wins [where before = "[]" and earlier = "[]" and c = preparation_default
          and ?c1.0 = "\<lparr>cp_next_generation = 1, cp_active = Some 1, cp_current_generation = 1\<rparr>"])
      (simp_all add: always_def preparation_begin_def preparation_default_def preparation_finish_def
        preparation_accepts_def saturating_succ_def u64_max_def)
  then show ?thesis by simp
qed

lemma newest_recovery_wins:
  assumes "coordinate (always recovery_begin) recovery_cancel recovery_finish before recovery_default = (earlier, c)"
    and "recovery_begin c = (g, c1)"
    and "coordinate (always recovery_begin) recovery_cancel recovery_finish ops c1 = (issued, c2)"
    and "length before + length ops < u64_max"
  shows "recovery_accepts c2 g \<longleftrightarrow> issued = [] \<and> CancelWork \<notin> set ops \<and> FinishWork g \<notin> set ops"
  using recovery.accepted_from [OF _ assms(1) _ always_Some [of recovery_begin, OF assms(2)] assms(3)] assms(4)
  by (simp add: recovery_default_def)

lemma newest_attachment_work_wins:
  assumes "coordinate (always attachment_begin) attachment_cancel attachment_finish before attachment_default = (earlier, c)"
    and "attachment_begin c = (g, c1)"
    and "coordinate (always attachment_begin) attachment_cancel attachment_finish ops c1 = (issued, c2)"
    and "length before + length ops < u64_max"
  shows "attachment_accepts c2 g \<longleftrightarrow> issued = [] \<and> CancelWork \<notin> set ops \<and> FinishWork g \<notin> set ops"
  using attachment.accepted_from [OF _ assms(1) _ always_Some [of attachment_begin, OF assms(2)] assms(3)] assms(4)
  by (simp add: attachment_default_def)

lemma newest_draft_load_wins:
  assumes "coordinate draft_io_begin draft_io_cancel draft_io_finish before draft_io_default = (earlier, c)"
    and "draft_io_begin migrate c = (Some g, c1)"
    and "coordinate draft_io_begin draft_io_cancel draft_io_finish ops c1 = (issued, c2)"
    and "length before + length ops < u64_max"
  shows "draft_io_accepts c2 g \<longleftrightarrow> issued = [] \<and> CancelWork \<notin> set ops \<and> FinishWork g \<notin> set ops"
  using draft_io.accepted_from [OF _ assms(1) _ assms(2,3)] assms(4) by (simp add: draft_io_default_def)

text \<open>While the store is migrated nothing else is begun.\<close>

lemma migration_held:
  "di_active_generation c = Some g \<Longrightarrow> di_active_migration c \<Longrightarrow>
   coordinate draft_io_begin draft_io_cancel draft_io_finish ops c = (issued, c') \<Longrightarrow>
   CancelWork \<notin> set ops \<Longrightarrow> FinishWork g \<notin> set ops \<Longrightarrow> issued = [] \<and> c' = c"
proof (induction ops arbitrary: c issued)
  case (Cons op ops)
  show ?case
  proof (cases op)
    case (BeginWork migrate)
    have refused: "draft_io_begin migrate c = (None, c)" using Cons.prems(2) by (simp add: draft_io_begin_def)
    have "coordinate draft_io_begin draft_io_cancel draft_io_finish ops c = (issued, c')"
      using Cons.prems(3) BeginWork refused by (simp split: prod.splits)
    then show ?thesis using Cons by simp
  next
    case (FinishWork h)
    then have "snd (draft_io_finish c h) = c" using Cons.prems by (simp add: draft_io_finish_def draft_io_accepts_def)
    then show ?thesis using Cons FinishWork by simp
  qed (use Cons in simp)
qed simp

text \<open>
  C37. Once a load that migrates the old store has begun, no other load of named drafts begins,
  and its result is still taken, until it is finished or cancelled.
\<close>

theorem migration_is_not_replaced:
  assumes "draft_io_begin True c = (Some g, c1)"
    and "coordinate draft_io_begin draft_io_cancel draft_io_finish ops c1 = (issued, c2)"
    and "CancelWork \<notin> set ops" "FinishWork g \<notin> set ops"
  shows "issued = [] \<and> draft_io_accepts c2 g \<and> migration_in_progress c2"
proof -
  have "di_active_generation c1 = Some g" "di_active_migration c1"
    using assms(1) by (auto simp: draft_io_begin_def Let_def split: if_splits)
  with migration_held [OF this assms(2-4)] show ?thesis
    by (simp add: draft_io_accepts_def migration_in_progress_def)
qed

theorem migration_is_not_replaced_witness:
  "draft_io_accepts \<lparr>di_next_generation = 1, di_active_generation = Some 1, di_active_migration = True,
     di_completed_generation = None\<rparr> 1"
proof -
  have "[] = ([] :: nat list) \<and> draft_io_accepts \<lparr>di_next_generation = 1, di_active_generation = Some 1,
        di_active_migration = True, di_completed_generation = None\<rparr> 1 \<and>
      migration_in_progress \<lparr>di_next_generation = 1, di_active_generation = Some 1, di_active_migration = True,
        di_completed_generation = None\<rparr>"
    by (rule migration_is_not_replaced [where c = draft_io_default and ops = "[BeginWork False, FinishWork 0, BeginWork True]"
          and ?c1.0 = "\<lparr>di_next_generation = 1, di_active_generation = Some 1, di_active_migration = True,
            di_completed_generation = None\<rparr>"])
      (simp_all add: draft_io_begin_def draft_io_default_def draft_io_finish_def draft_io_accepts_def
        saturating_succ_def u64_max_def)
  then show ?thesis by simp
qed

end
