(* ===== verification/Thread_Loader.thy ===== *)
theory Thread_Loader
  imports Thread_Prepare Coordinators "HOL-Library.Sublist"
begin

text \<open>
  The service that loads threads in the background (\<open>notm-ui/src/thread\_loader.rs\<close>): requests
  go through a channel to one worker thread, which takes the newest and prepares it; a newer
  request or a cancellation raises the flag of the older one.  Each job has its own flag, here a
  number.  The user interface thread and the worker interleave at their accesses to the channel
  and to the flags; \<open>submit\<close> and \<open>cancel\<close> of the user interface are single steps, since the
  worker sees their effects only through the last of their accesses or through a flag that is
  only ever raised.
\<close>

section \<open>State\<close>

type_synonym load_result = "prepare_error + prepared_thread"

record thread_load_response =
  tp_generation :: nat
  tp_result :: load_result

record thread_load_job =
  lj_request :: thread_load_request
  lj_cancelled :: nat

datatype thread_loader_command = LoadJob thread_load_job | CancelJob

record thread_loader_metrics =
  lm_active_preparations :: nat
  lm_peak_active_preparations :: nat
  lm_submitted :: nat
  lm_cancelled :: nat
  lm_coalesced :: nat

definition metrics_default :: thread_loader_metrics where
  "metrics_default = \<lparr>lm_active_preparations = 0, lm_peak_active_preparations = 0, lm_submitted = 0, lm_cancelled = 0,
                     lm_coalesced = 0\<rparr>"

definition begin_preparation :: "thread_loader_metrics \<Rightarrow> thread_loader_metrics" where
  "begin_preparation m =
     m\<lparr>lm_active_preparations := lm_active_preparations m + 1,
       lm_peak_active_preparations := max (lm_peak_active_preparations m) (lm_active_preparations m + 1)\<rparr>"

definition finish_preparation :: "thread_loader_metrics \<Rightarrow> thread_loader_metrics" where
  "finish_preparation m = m\<lparr>lm_active_preparations := lm_active_preparations m - 1\<rparr>"

text \<open>Where the worker is in its loop.\<close>

datatype worker_phase =
    Receiving
  | Draining "thread_load_job option"
  | Loading thread_load_job
  | Clearing thread_load_job load_result
  | Responding thread_load_job load_result

record thread_loader =
  sv_connected :: bool
  sv_start_error :: "string option"
  sv_queue :: "thread_loader_command list"
  sv_active_cancel :: "nat option"
  sv_flags :: "nat \<Rightarrow> bool"
  sv_jobs :: nat
  sv_metrics :: thread_loader_metrics
  sv_worker :: worker_phase
  sv_responses :: "(nat \<times> thread_load_response) list"

definition new_loader :: "string option \<Rightarrow> thread_loader" where
  "new_loader start_error =
     \<lparr>sv_connected = (start_error = None), sv_start_error = start_error, sv_queue = [], sv_active_cancel = None,
      sv_flags = (\<lambda>_. False), sv_jobs = 0, sv_metrics = metrics_default, sv_worker = Receiving, sv_responses = []\<rparr>"

section \<open>The side of the user interface\<close>

definition cancel_active :: "thread_loader \<Rightarrow> thread_loader" where
  "cancel_active s =
     (case sv_active_cancel s of
        None \<Rightarrow> s
      | Some flag \<Rightarrow>
          (let s = s\<lparr>sv_active_cancel := None\<rparr> in
           if sv_flags s flag then s
           else s\<lparr>sv_flags := (sv_flags s)(flag := True),
                  sv_metrics := (sv_metrics s)\<lparr>lm_cancelled := lm_cancelled (sv_metrics s) + 1\<rparr>\<rparr>))"

definition add_job :: "thread_load_request \<Rightarrow> thread_loader \<Rightarrow> nat \<times> thread_loader" where
  "add_job request s =
     (let s = s\<lparr>sv_metrics := (sv_metrics s)\<lparr>lm_submitted := lm_submitted (sv_metrics s) + 1\<rparr>\<rparr>;
          s = cancel_active s;
          flag = sv_jobs s in
      (flag, s\<lparr>sv_jobs := flag + 1, sv_active_cancel := Some flag\<rparr>))"

definition submit :: "thread_load_request \<Rightarrow> thread_loader \<Rightarrow> thread_loader" where
  "submit request s =
     (case add_job request s of (flag, s) \<Rightarrow>
        if sv_connected s
        then s\<lparr>sv_queue := sv_queue s @ [LoadJob \<lparr>lj_request = request, lj_cancelled = flag\<rparr>]\<rparr>
        else (let s = cancel_active s;
                  err = (case sv_start_error s of Some err \<Rightarrow> err | None \<Rightarrow> ''thread loader worker disconnected'') in
              s\<lparr>sv_responses := sv_responses s @
                  [(flag, \<lparr>tp_generation = tr_generation request, tp_result = Inl (OpenFailed err)\<rparr>)]\<rparr>))"

definition cancel_load :: "thread_loader \<Rightarrow> thread_loader" where
  "cancel_load s =
     (let s = cancel_active s in
      if sv_connected s then s\<lparr>sv_queue := sv_queue s @ [CancelJob]\<rparr> else s)"

section \<open>The worker\<close>

definition taken :: "thread_loader_command \<Rightarrow> thread_load_job option" where
  "taken command = (case command of LoadJob job \<Rightarrow> Some job | CancelJob \<Rightarrow> None)"

definition receive_first :: "thread_loader \<Rightarrow> thread_loader option" where
  "receive_first s =
     (case (sv_worker s, sv_queue s) of
        (Receiving, command # queue) \<Rightarrow> Some (s\<lparr>sv_queue := queue, sv_worker := Draining (taken command)\<rparr>)
      | _ \<Rightarrow> None)"

definition drain_one :: "thread_loader \<Rightarrow> thread_loader option" where
  "drain_one s =
     (case (sv_worker s, sv_queue s) of
        (Draining latest, command # queue) \<Rightarrow>
          Some (s\<lparr>sv_queue := queue, sv_worker := Draining (taken command),
                  sv_metrics := (if latest \<noteq> None
                    then (sv_metrics s)\<lparr>lm_coalesced := lm_coalesced (sv_metrics s) + 1\<rparr> else sv_metrics s)\<rparr>)
      | _ \<Rightarrow> None)"

definition latest_thread_load_job :: "thread_loader \<Rightarrow> thread_loader option" where
  "latest_thread_load_job s =
     (case (sv_worker s, sv_queue s) of
        (Draining None, []) \<Rightarrow> Some (s\<lparr>sv_worker := Receiving\<rparr>)
      | (Draining (Some job), []) \<Rightarrow>
          Some (s\<lparr>sv_worker := Loading job, sv_metrics := begin_preparation (sv_metrics s)\<rparr>)
      | _ \<Rightarrow> None)"

definition loader_returns :: "load_result \<Rightarrow> thread_loader \<Rightarrow> thread_loader option" where
  "loader_returns result s =
     (case sv_worker s of
        Loading job \<Rightarrow> Some (s\<lparr>sv_worker := Clearing job result, sv_metrics := finish_preparation (sv_metrics s)\<rparr>)
      | _ \<Rightarrow> None)"

definition clear_active :: "thread_loader \<Rightarrow> thread_loader option" where
  "clear_active s =
     (case sv_worker s of
        Clearing job result \<Rightarrow>
          Some (s\<lparr>sv_worker := Responding job result,
                  sv_active_cancel := (if sv_active_cancel s = Some (lj_cancelled job) then None else sv_active_cancel s)\<rparr>)
      | _ \<Rightarrow> None)"

definition send_response :: "thread_loader \<Rightarrow> thread_loader option" where
  "send_response s =
     (case sv_worker s of
        Responding job result \<Rightarrow>
          Some (s\<lparr>sv_worker := Receiving,
                  sv_responses := sv_responses s @
                    [(lj_cancelled job, \<lparr>tp_generation = tr_generation (lj_request job), tp_result = result\<rparr>)]\<rparr>)
      | _ \<Rightarrow> None)"

datatype worker_event = ReceiveFirst | DrainOne | LatestJob | LoaderReturns load_result | ClearActive | SendResponse

fun worker_step :: "worker_event \<Rightarrow> thread_loader \<Rightarrow> thread_loader option" where
  "worker_step ReceiveFirst s = receive_first s"
| "worker_step DrainOne s = drain_one s"
| "worker_step LatestJob s = latest_thread_load_job s"
| "worker_step (LoaderReturns result) s = loader_returns result s"
| "worker_step ClearActive s = clear_active s"
| "worker_step SendResponse s = send_response s"

section \<open>The coordinator\<close>

record thread_load_coordinator =
  tc_generation :: nat
  tc_active :: "nat option"
  tc_loader :: thread_loader

definition thread_load_begin :: "thread_load_coordinator \<Rightarrow> nat \<times> thread_load_coordinator" where
  "thread_load_begin c =
     (let generation = saturating_succ (tc_generation c) in
      (generation, c\<lparr>tc_loader := cancel_load (tc_loader c), tc_generation := generation, tc_active := Some generation\<rparr>))"

definition thread_load_cancel :: "thread_load_coordinator \<Rightarrow> thread_load_coordinator" where
  "thread_load_cancel c =
     c\<lparr>tc_loader := cancel_load (tc_loader c), tc_generation := saturating_succ (tc_generation c), tc_active := None\<rparr>"

definition thread_load_accepts :: "thread_load_coordinator \<Rightarrow> nat \<Rightarrow> bool" where
  "thread_load_accepts c generation \<longleftrightarrow> tc_active c = Some generation"

definition thread_load_finish :: "thread_load_coordinator \<Rightarrow> nat \<Rightarrow> bool \<times> thread_load_coordinator" where
  "thread_load_finish c generation =
     (if \<not> thread_load_accepts c generation then (False, c) else (True, c\<lparr>tc_active := None\<rparr>))"

definition thread_load_spawn :: "thread_load_request \<Rightarrow> thread_load_coordinator \<Rightarrow> thread_load_coordinator" where
  "thread_load_spawn request c = c\<lparr>tc_loader := submit request (tc_loader c)\<rparr>"

interpretation thread_load: coordinator "always thread_load_begin" thread_load_cancel thread_load_accepts thread_load_finish
    "\<lambda>c. True" tc_active tc_generation "\<lambda>g. g"
  by unfold_locales
    (auto simp: always_def thread_load_begin_def thread_load_cancel_def thread_load_accepts_def thread_load_finish_def
      Let_def saturating_succ_less saturating_succ_bounds split: prod.splits)

text \<open>Everything that happens to the service.\<close>

datatype loader_event = Submit thread_load_request | Cancel | Worker worker_event

fun loader_step :: "loader_event \<Rightarrow> thread_loader \<Rightarrow> thread_loader option" where
  "loader_step (Submit request) s = Some (submit request s)"
| "loader_step Cancel s = Some (cancel_load s)"
| "loader_step (Worker e) s = worker_step e s"

definition fresh_loader :: "thread_loader \<Rightarrow> bool" where
  "fresh_loader s \<longleftrightarrow> (\<exists>start_error. s = new_loader start_error)"

section \<open>Invariants\<close>

definition queued_jobs :: "thread_loader \<Rightarrow> nat list" where
  "queued_jobs s = concat (map (\<lambda>c. case c of LoadJob job \<Rightarrow> [lj_cancelled job] | CancelJob \<Rightarrow> []) (sv_queue s))"

definition job_ids :: "thread_load_job option \<Rightarrow> nat list" where
  "job_ids job = (case job of Some job \<Rightarrow> [lj_cancelled job] | None \<Rightarrow> [])"

definition wanted_jobs :: "worker_phase \<Rightarrow> nat list" where
  "wanted_jobs phase = (case phase of Draining job \<Rightarrow> job_ids job | Loading job \<Rightarrow> [lj_cancelled job] | _ \<Rightarrow> [])"

definition loaded_jobs :: "worker_phase \<Rightarrow> nat list" where
  "loaded_jobs phase =
     (case phase of Clearing job _ \<Rightarrow> [lj_cancelled job] | Responding job _ \<Rightarrow> [lj_cancelled job] | _ \<Rightarrow> [])"

definition pending_jobs :: "thread_loader \<Rightarrow> nat list" where
  "pending_jobs s = wanted_jobs (sv_worker s) @ queued_jobs s"

definition all_jobs :: "thread_loader \<Rightarrow> nat list" where
  "all_jobs s = map fst (sv_responses s) @ loaded_jobs (sv_worker s) @ pending_jobs s"

definition metrics_right :: "thread_loader \<Rightarrow> bool" where
  "metrics_right s \<longleftrightarrow>
     lm_active_preparations (sv_metrics s) = (case sv_worker s of Loading _ \<Rightarrow> 1 | _ \<Rightarrow> 0) \<and>
     lm_peak_active_preparations (sv_metrics s) \<le> 1 \<and>
     lm_submitted (sv_metrics s) = sv_jobs s \<and>
     sv_jobs s = length (all_jobs s) + lm_coalesced (sv_metrics s)"

definition jobs_right :: "thread_loader \<Rightarrow> bool" where
  "jobs_right s \<longleftrightarrow>
     sorted_wrt (<) (all_jobs s) \<and> (\<forall>flag \<in> set (all_jobs s). flag < sv_jobs s) \<and>
     (\<forall>flag \<in> set (pending_jobs s). \<not> sv_flags s flag \<longrightarrow> sv_active_cancel s = Some flag) \<and>
     (\<forall>flag. sv_active_cancel s = Some flag \<longrightarrow> flag + 1 = sv_jobs s \<and> \<not> sv_flags s flag) \<and>
     (\<forall>flag. sv_flags s flag \<longrightarrow> flag < sv_jobs s)"

definition loader_right :: "thread_loader \<Rightarrow> bool" where
  "loader_right s \<longleftrightarrow> metrics_right s \<and> jobs_right s \<and> (sv_connected s \<or> sv_queue s = [] \<and> sv_worker s = Receiving)"

lemmas job_lists = queued_jobs_def job_ids_def wanted_jobs_def loaded_jobs_def pending_jobs_def all_jobs_def taken_def

lemma jobs_of_metrics [simp]:
  "all_jobs (s\<lparr>sv_metrics := x\<rparr>) = all_jobs s" "pending_jobs (s\<lparr>sv_metrics := x\<rparr>) = pending_jobs s"
  by (simp_all add: job_lists)

lemma new_loader_right: "loader_right (new_loader start_error)"
  by (simp add: loader_right_def metrics_right_def jobs_right_def new_loader_def metrics_default_def job_lists)

text \<open>The steps, one equation each.\<close>

lemma receive_first_Some:
  "receive_first s = Some s' \<longleftrightarrow>
     (\<exists>command queue. sv_worker s = Receiving \<and> sv_queue s = command # queue \<and>
        s' = s\<lparr>sv_queue := queue, sv_worker := Draining (taken command)\<rparr>)"
  by (auto simp: receive_first_def split: worker_phase.splits list.splits)

lemma drain_one_Some:
  "drain_one s = Some s' \<longleftrightarrow>
     (\<exists>latest command queue. sv_worker s = Draining latest \<and> sv_queue s = command # queue \<and>
        s' = s\<lparr>sv_queue := queue, sv_worker := Draining (taken command),
               sv_metrics := (if latest \<noteq> None
                 then (sv_metrics s)\<lparr>lm_coalesced := lm_coalesced (sv_metrics s) + 1\<rparr> else sv_metrics s)\<rparr>)"
  by (auto simp: drain_one_def split: worker_phase.splits list.splits)

lemma latest_job_Some:
  "latest_thread_load_job s = Some s' \<longleftrightarrow>
     sv_queue s = [] \<and>
     (sv_worker s = Draining None \<and> s' = s\<lparr>sv_worker := Receiving\<rparr> \<or>
      (\<exists>job. sv_worker s = Draining (Some job) \<and>
         s' = s\<lparr>sv_worker := Loading job, sv_metrics := begin_preparation (sv_metrics s)\<rparr>))"
  by (auto simp: latest_thread_load_job_def split: worker_phase.splits list.splits option.splits)

lemma loader_returns_Some:
  "loader_returns result s = Some s' \<longleftrightarrow>
     (\<exists>job. sv_worker s = Loading job \<and>
        s' = s\<lparr>sv_worker := Clearing job result, sv_metrics := finish_preparation (sv_metrics s)\<rparr>)"
  by (auto simp: loader_returns_def split: worker_phase.splits)

lemma clear_active_Some:
  "clear_active s = Some s' \<longleftrightarrow>
     (\<exists>job result. sv_worker s = Clearing job result \<and>
        s' = s\<lparr>sv_worker := Responding job result,
               sv_active_cancel := (if sv_active_cancel s = Some (lj_cancelled job) then None else sv_active_cancel s)\<rparr>)"
  by (auto simp: clear_active_def split: worker_phase.splits)

lemma send_response_Some:
  "send_response s = Some s' \<longleftrightarrow>
     (\<exists>job result. sv_worker s = Responding job result \<and>
        s' = s\<lparr>sv_worker := Receiving,
               sv_responses := sv_responses s @
                 [(lj_cancelled job, \<lparr>tp_generation = tr_generation (lj_request job), tp_result = result\<rparr>)]\<rparr>)"
  by (auto simp: send_response_def split: worker_phase.splits)

lemmas worker_Some = receive_first_Some drain_one_Some latest_job_Some loader_returns_Some clear_active_Some
  send_response_Some

lemma worker_step_keeps_jobs:
  assumes "worker_step e s = Some s'"
  shows "sv_jobs s' = sv_jobs s" "sv_flags s' = sv_flags s" "sv_connected s' = sv_connected s"
  using assms by (cases e; auto simp: worker_Some)+

text \<open>A step of the worker moves jobs forward, or drops one that it counts.\<close>

lemma worker_step_jobs:
  assumes "worker_step e s = Some s'"
  shows "subseq (all_jobs s') (all_jobs s) \<and> set (pending_jobs s') \<subseteq> set (pending_jobs s) \<and>
    length (all_jobs s') + lm_coalesced (sv_metrics s') = length (all_jobs s) + lm_coalesced (sv_metrics s)"
proof (cases e)
  case ReceiveFirst
  then obtain command queue where w: "sv_worker s = Receiving" "sv_queue s = command # queue"
    and s': "s' = s\<lparr>sv_queue := queue, sv_worker := Draining (taken command)\<rparr>"
    using assms by (auto simp: receive_first_Some)
  show ?thesis by (cases command) (simp_all add: s' w job_lists)
next
  case DrainOne
  then obtain latest command queue where
    w: "sv_worker s = Draining latest" "sv_queue s = command # queue"
    and s': "s' = s\<lparr>sv_queue := queue, sv_worker := Draining (taken command),
       sv_metrics := (if latest \<noteq> None
         then (sv_metrics s)\<lparr>lm_coalesced := lm_coalesced (sv_metrics s) + 1\<rparr> else sv_metrics s)\<rparr>"
    using assms by (auto simp: drain_one_Some)
  have "all_jobs s = map fst (sv_responses s) @ job_ids latest @ pending_jobs s'"
      "all_jobs s' = map fst (sv_responses s) @ pending_jobs s'" "pending_jobs s = job_ids latest @ pending_jobs s'"
    by (cases command; simp add: s' w job_lists)+
  moreover have "lm_coalesced (sv_metrics s') = lm_coalesced (sv_metrics s) + length (job_ids latest)"
    by (simp add: s' job_ids_def split: option.split)
  ultimately show ?thesis by (auto intro: list_emb_append_mono list_emb_append2)
next
  case LatestJob
  then show ?thesis using assms by (auto simp: worker_Some job_lists begin_preparation_def)
next
  case (LoaderReturns result)
  then show ?thesis using assms by (auto simp: worker_Some job_lists finish_preparation_def)
next
  case ClearActive
  then show ?thesis using assms by (auto simp: worker_Some job_lists)
next
  case SendResponse
  then show ?thesis using assms by (auto simp: worker_Some job_lists)
qed

lemma jobs_rightI:
  assumes "sorted_wrt (<) (all_jobs s)" "\<And>flag. flag \<in> set (all_jobs s) \<Longrightarrow> flag < sv_jobs s"
    and "\<And>flag. flag \<in> set (pending_jobs s) \<Longrightarrow> \<not> sv_flags s flag \<Longrightarrow> sv_active_cancel s = Some flag"
    and "\<And>flag. sv_active_cancel s = Some flag \<Longrightarrow> flag + 1 = sv_jobs s \<and> \<not> sv_flags s flag"
    and "\<And>flag. sv_flags s flag \<Longrightarrow> flag < sv_jobs s"
  shows "jobs_right s"
  using assms unfolding jobs_right_def by blast

lemma subseq_set: "subseq xs ys \<Longrightarrow> set xs \<subseteq> set ys"
  by (auto dest: list_emb_set)

lemma sorted_wrt_subseq: "subseq xs ys \<Longrightarrow> sorted_wrt P ys \<Longrightarrow> sorted_wrt P xs"
  by (induction rule: list_emb.induct) (auto dest: subseq_set)

lemma jobs_right_sub:
  assumes "jobs_right s" "subseq (all_jobs s') (all_jobs s)" "set (pending_jobs s') \<subseteq> set (pending_jobs s)"
    and "sv_jobs s' = sv_jobs s" "sv_flags s' = sv_flags s"
    and "sv_active_cancel s' = sv_active_cancel s \<or>
      sv_active_cancel s' = None \<and> (\<forall>flag \<in> set (pending_jobs s'). sv_active_cancel s \<noteq> Some flag)"
  shows "jobs_right s'"
proof -
  have "set (all_jobs s') \<subseteq> set (all_jobs s)" using assms(2) by (rule subseq_set)
  moreover have "sorted_wrt (<) (all_jobs s')"
    using sorted_wrt_subseq [OF assms(2)] assms(1) by (simp add: jobs_right_def)
  ultimately show ?thesis using assms(1,3-6) unfolding jobs_right_def by auto
qed

lemma worker_step_right:
  assumes "loader_right s" "worker_step e s = Some s'"
  shows "loader_right s'"
proof -
  have right: "metrics_right s" "jobs_right s" "sv_connected s \<or> sv_queue s = [] \<and> sv_worker s = Receiving"
    using assms(1) by (simp_all add: loader_right_def)
  note moved = worker_step_jobs [OF assms(2)] and same = worker_step_keeps_jobs [OF assms(2)]
  have cleared: "sv_active_cancel s' = sv_active_cancel s \<or>
      sv_active_cancel s' = None \<and> (\<forall>flag \<in> set (pending_jobs s'). sv_active_cancel s \<noteq> Some flag)"
  proof (cases "e = ClearActive")
    case True
    then obtain job result where w: "sv_worker s = Clearing job result"
      and s': "s' = s\<lparr>sv_worker := Responding job result,
        sv_active_cancel := (if sv_active_cancel s = Some (lj_cancelled job) then None else sv_active_cancel s)\<rparr>"
      using assms(2) by (auto simp: clear_active_Some)
    have "lj_cancelled job \<notin> set (pending_jobs s')"
      using right(2) w by (auto simp: jobs_right_def s' job_lists sorted_wrt_append)
    then show ?thesis by (auto simp: s')
  next
    case False
    then show ?thesis using assms(2) by (cases e) (auto simp: worker_Some)
  qed
  have jobs: "jobs_right s'" using jobs_right_sub [OF right(2) _ _ same(1,2) cleared] moved by blast
  have "lm_active_preparations (sv_metrics s') = (case sv_worker s' of Loading _ \<Rightarrow> 1 | _ \<Rightarrow> 0)"
      "lm_peak_active_preparations (sv_metrics s') \<le> 1" "lm_submitted (sv_metrics s') = lm_submitted (sv_metrics s)"
    using right(1) assms(2)
    by (cases e; auto simp: worker_Some metrics_right_def begin_preparation_def finish_preparation_def
        split: worker_phase.splits)+
  then have "metrics_right s'" using moved right(1) same(1) by (simp add: metrics_right_def)
  moreover have "sv_connected s'"
    using right(3) assms(2) same(3) by (cases e) (auto simp: worker_Some)
  ultimately show ?thesis using jobs by (simp add: loader_right_def)
qed

lemma cancel_active_same:
  "all_jobs (cancel_active s) = all_jobs s" "pending_jobs (cancel_active s) = pending_jobs s"
  "sv_jobs (cancel_active s) = sv_jobs s" "sv_active_cancel (cancel_active s) = None"
  "sv_worker (cancel_active s) = sv_worker s" "sv_queue (cancel_active s) = sv_queue s"
  "sv_connected (cancel_active s) = sv_connected s" "sv_responses (cancel_active s) = sv_responses s"
  "lm_coalesced (sv_metrics (cancel_active s)) = lm_coalesced (sv_metrics s)"
  "lm_submitted (sv_metrics (cancel_active s)) = lm_submitted (sv_metrics s)"
  "lm_active_preparations (sv_metrics (cancel_active s)) = lm_active_preparations (sv_metrics s)"
  "lm_peak_active_preparations (sv_metrics (cancel_active s)) = lm_peak_active_preparations (sv_metrics s)"
  by (simp_all add: cancel_active_def Let_def job_lists split: option.split)

lemma cancel_active_flags:
  assumes "jobs_right s"
  shows "flag \<in> set (pending_jobs s) \<Longrightarrow> sv_flags (cancel_active s) flag"
    and "sv_flags (cancel_active s) flag \<Longrightarrow> flag < sv_jobs s"
proof -
  have pending: "\<And>flag. flag \<in> set (pending_jobs s) \<Longrightarrow> \<not> sv_flags s flag \<Longrightarrow> sv_active_cancel s = Some flag"
    and active: "\<And>flag. sv_active_cancel s = Some flag \<Longrightarrow> flag + 1 = sv_jobs s"
    and below: "\<And>flag. sv_flags s flag \<Longrightarrow> flag < sv_jobs s"
    using assms unfolding jobs_right_def by blast+
  have flags: "sv_flags (cancel_active s) flag \<longleftrightarrow> sv_flags s flag \<or> sv_active_cancel s = Some flag" for flag
    by (auto simp: cancel_active_def Let_def split: option.split)
  show "flag \<in> set (pending_jobs s) \<Longrightarrow> sv_flags (cancel_active s) flag" using pending flags by blast
  show "sv_flags (cancel_active s) flag \<Longrightarrow> flag < sv_jobs s" using flags below active by fastforce
qed

text \<open>After \<open>cancel\_active\<close> every job that still waits or runs is cancelled.\<close>

lemma cancel_load_right:
  assumes "loader_right s"
  shows "loader_right (cancel_load s)"
proof -
  have right: "metrics_right s" "jobs_right s" using assms by (simp_all add: loader_right_def)
  have same: "all_jobs (cancel_load s) = all_jobs s" "pending_jobs (cancel_load s) = pending_jobs s"
      "sv_jobs (cancel_load s) = sv_jobs s" "sv_active_cancel (cancel_load s) = None"
      "sv_flags (cancel_load s) = sv_flags (cancel_active s)" "sv_metrics (cancel_load s) = sv_metrics (cancel_active s)"
      "sv_worker (cancel_load s) = sv_worker s" "sv_connected (cancel_load s) = sv_connected s"
    using cancel_active_same [of s] by (simp_all add: cancel_load_def Let_def job_lists)
  have "jobs_right (cancel_load s)"
  proof (rule jobs_rightI, unfold same)
    show "sorted_wrt (<) (all_jobs s)" "\<And>flag. flag \<in> set (all_jobs s) \<Longrightarrow> flag < sv_jobs s"
      using right(2) unfolding jobs_right_def by blast+
  qed (use cancel_active_flags [OF right(2)] in simp_all)
  moreover have "metrics_right (cancel_load s)"
    using right(1) by (simp add: metrics_right_def same cancel_active_same)
  moreover have "sv_connected s \<or> sv_queue (cancel_load s) = [] \<and> sv_worker s = Receiving"
    using assms cancel_active_same(6,7) [of s] by (auto simp: loader_right_def cancel_load_def Let_def)
  ultimately show ?thesis by (simp add: loader_right_def same)
qed

lemma submit_right:
  assumes "loader_right s"
  shows "loader_right (submit request s)"
proof -
  let ?m = "s\<lparr>sv_metrics := (sv_metrics s)\<lparr>lm_submitted := lm_submitted (sv_metrics s) + 1\<rparr>\<rparr>"
  let ?c = "cancel_active ?m"
  have right: "metrics_right s" "jobs_right s" using assms by (simp_all add: loader_right_def)
  have m: "all_jobs ?m = all_jobs s" "pending_jobs ?m = pending_jobs s" by (simp_all add: job_lists)
  have jobs: "jobs_right ?m" by (rule jobs_right_sub [OF right(2)]) (simp_all add: m)
  note flags = cancel_active_flags [OF jobs]
  have new: "\<not> sv_flags ?c (sv_jobs s)" using flags(2) by fastforce
  have sorted: "sorted_wrt (<) (all_jobs s)" and below: "\<And>flag. flag \<in> set (all_jobs s) \<Longrightarrow> flag < sv_jobs s"
    using right(2) unfolding jobs_right_def by blast+
  let ?s = "submit request s"
  show ?thesis
  proof (cases "sv_connected s")
    case True
    have s': "?s = ?c\<lparr>sv_jobs := sv_jobs s + 1, sv_active_cancel := Some (sv_jobs s),
        sv_queue := sv_queue s @ [LoadJob \<lparr>lj_request = request, lj_cancelled = sv_jobs s\<rparr>]\<rparr>"
      using True by (simp add: submit_def add_job_def Let_def cancel_active_same)
    have lists: "all_jobs ?s = all_jobs s @ [sv_jobs s]" "pending_jobs ?s = pending_jobs s @ [sv_jobs s]"
      by (simp_all add: s' job_lists cancel_active_same)
    have "jobs_right ?s"
    proof (rule jobs_rightI, unfold lists)
      show "sorted_wrt (<) (all_jobs s @ [sv_jobs s])" using sorted by (simp add: sorted_wrt_append below)
      show "flag < sv_jobs ?s" if "flag \<in> set (all_jobs s @ [sv_jobs s])" for flag
        using that below [of flag] by (auto simp: s')
      show "sv_active_cancel ?s = Some flag" if "flag \<in> set (pending_jobs s @ [sv_jobs s])" "\<not> sv_flags ?s flag" for flag
        using that flags(1) [of flag] by (auto simp: s' m)
      show "flag + 1 = sv_jobs ?s \<and> \<not> sv_flags ?s flag" if "sv_active_cancel ?s = Some flag" for flag
        using that new by (simp add: s')
      show "flag < sv_jobs ?s" if "sv_flags ?s flag" for flag
        using that flags(2) [of flag] by (simp add: s')
    qed
    moreover have "metrics_right ?s"
      using right(1) by (simp add: metrics_right_def lists) (simp add: s' cancel_active_same)
    ultimately show ?thesis using True by (simp add: loader_right_def s' cancel_active_same)
  next
    case False
    have idle: "sv_queue s = []" "sv_worker s = Receiving" using assms False by (simp_all add: loader_right_def)
    obtain err where s': "?s = ?c\<lparr>sv_jobs := sv_jobs s + 1, sv_active_cancel := None,
        sv_flags := (sv_flags ?c)(sv_jobs s := True),
        sv_metrics := (sv_metrics ?c)\<lparr>lm_cancelled := lm_cancelled (sv_metrics ?c) + 1\<rparr>,
        sv_responses := sv_responses s @ [(sv_jobs s, \<lparr>tp_generation = tr_generation request, tp_result = Inl (OpenFailed err)\<rparr>)]\<rparr>"
      using False new
      by (cases "sv_start_error s") (simp_all add: submit_def add_job_def Let_def cancel_active_same cancel_active_def [of "_\<lparr>sv_jobs := _, sv_active_cancel := _\<rparr>"])
    have lists: "all_jobs ?s = all_jobs s @ [sv_jobs s]" "pending_jobs ?s = []"
      using idle by (simp_all add: s' job_lists cancel_active_same)
    have "jobs_right ?s"
    proof (rule jobs_rightI, unfold lists)
      show "sorted_wrt (<) (all_jobs s @ [sv_jobs s])" using sorted by (simp add: sorted_wrt_append below)
      show "flag < sv_jobs ?s" if "flag \<in> set (all_jobs s @ [sv_jobs s])" for flag
        using that below [of flag] by (auto simp: s')
      show "sv_active_cancel ?s = Some flag" if "flag \<in> set []" for flag using that by simp
      show "flag + 1 = sv_jobs ?s \<and> \<not> sv_flags ?s flag" if "sv_active_cancel ?s = Some flag" for flag
        using that by (simp add: s')
      show "flag < sv_jobs ?s" if "sv_flags ?s flag" for flag
        using that flags(2) [of flag] by (auto simp: s' split: if_splits)
    qed
    moreover have "metrics_right ?s"
      using right(1) by (simp add: metrics_right_def lists) (simp add: s' cancel_active_same)
    ultimately show ?thesis using idle by (simp add: loader_right_def s' cancel_active_same)
  qed
qed

interpretation loader: machine_invariant loader_step fresh_loader loader_right
proof
  show "fresh_loader s \<Longrightarrow> loader_right s" for s using new_loader_right by (auto simp: fresh_loader_def)
  show "loader_right s \<Longrightarrow> loader_step a s = Some s' \<Longrightarrow> loader_right s'" for s a s'
    by (cases a) (auto intro: worker_step_right submit_right cancel_load_right)
qed

section \<open>Progress of the worker\<close>

definition worker_rank :: "thread_loader \<Rightarrow> nat" where
  "worker_rank s =
     5 * length (sv_queue s) +
     (case sv_worker s of Receiving \<Rightarrow> 0 | Responding _ _ \<Rightarrow> 1 | Clearing _ _ \<Rightarrow> 2 | Loading _ \<Rightarrow> 3 | Draining _ \<Rightarrow> 4)"

lemma worker_step_rank: "worker_step e s = Some s' \<Longrightarrow> worker_rank s' < worker_rank s"
  by (cases e) (auto simp: worker_Some worker_rank_def split: option.split)

lemma worker_run_rank:
  "run_steps loader_step (map Worker es) s = Some s' \<Longrightarrow> length es + worker_rank s' \<le> worker_rank s"
proof (induction es arbitrary: s)
  case (Cons e es)
  then obtain s1 where "worker_step e s = Some s1" "run_steps loader_step (map Worker es) s1 = Some s'"
    by (auto split: bind_splits)
  with Cons.IH worker_step_rank show ?case by fastforce
qed simp

text \<open>A worker that cannot move waits for a command, with none in the channel.\<close>

lemma worker_rests:
  assumes "\<And>e. worker_step e s = None"
  shows "sv_worker s = Receiving \<and> sv_queue s = []"
proof (cases "sv_worker s")
  case Receiving
  then show ?thesis using assms [of ReceiveFirst] by (cases "sv_queue s") (auto simp: receive_first_def)
next
  case (Draining job)
  then show ?thesis using assms [of DrainOne] assms [of LatestJob]
    by (cases "sv_queue s"; cases job) (auto simp: drain_one_def latest_thread_load_job_def)
next
  case (Loading job)
  then show ?thesis using assms [of "LoaderReturns undefined"] by (simp add: loader_returns_def)
next
  case (Clearing job result)
  then show ?thesis using assms [of ClearActive] by (simp add: clear_active_def)
next
  case (Responding job result)
  then show ?thesis using assms [of SendResponse] by (simp add: send_response_def)
qed

text \<open>Where the newest job is, when nothing was submitted or cancelled after it.\<close>

definition newest_tracked :: "thread_load_job \<Rightarrow> thread_loader \<Rightarrow> bool" where
  "newest_tracked job s \<longleftrightarrow>
     (\<exists>older. sv_queue s = older @ [LoadJob job]) \<or>
     sv_queue s = [] \<and>
       (sv_worker s = Draining (Some job) \<or> sv_worker s = Loading job \<or>
        (\<exists>result. sv_worker s = Clearing job result \<or> sv_worker s = Responding job result) \<or>
        sv_worker s = Receiving \<and>
          (\<exists>older result. sv_responses s = older @
             [(lj_cancelled job, \<lparr>tp_generation = tr_generation (lj_request job), tp_result = result\<rparr>)]))"

lemma newest_stays_tracked:
  assumes "newest_tracked job s" "worker_step e s = Some s'"
  shows "newest_tracked job s'"
proof (cases "sv_queue s")
  case Nil
  then show ?thesis using assms by (cases e) (auto simp: newest_tracked_def worker_Some)
next
  case (Cons command queue)
  then obtain older where older: "command # queue = older @ [LoadJob job]" using assms(1) by (auto simp: newest_tracked_def)
  show ?thesis
  proof (cases older)
    case Nil
    then show ?thesis using assms(2) older Cons by (cases e) (auto simp: newest_tracked_def worker_Some taken_def)
  next
    case (Cons first rest)
    then have "queue = rest @ [LoadJob job]" using older by simp
    then show ?thesis using assms(2) \<open>sv_queue s = command # queue\<close>
      by (cases e) (auto simp: newest_tracked_def worker_Some)
  qed
qed

lemma newest_tracked_run:
  "newest_tracked job s \<Longrightarrow> run_steps loader_step (map Worker es) s = Some s' \<Longrightarrow> newest_tracked job s'"
proof (induction es arbitrary: s)
  case (Cons e es)
  then obtain s1 where "worker_step e s = Some s1" "run_steps loader_step (map Worker es) s1 = Some s'"
    by (auto split: bind_splits)
  with Cons newest_stays_tracked show ?case by blast
qed simp

section \<open>Properties\<close>

text \<open>
  C38. Whatever is submitted, cancelled and loaded in whatever order, the service never prepares two
  threads at once, answers no request twice, and every request is answered, or counted as coalesced,
  or still on its way.  Of the requests that still wait or run only the newest can be one that is
  not cancelled.
\<close>

theorem loads_accounted_for:
  assumes "reachable loader_step fresh_loader s"
  shows "lm_peak_active_preparations (sv_metrics s) \<le> 1 \<and>
     distinct (map fst (sv_responses s)) \<and>
     lm_submitted (sv_metrics s) =
       length (sv_responses s) + length (loaded_jobs (sv_worker s)) + length (pending_jobs s) + lm_coalesced (sv_metrics s) \<and>
     list_all (\<lambda>flag. sv_flags s flag \<or> flag + 1 = lm_submitted (sv_metrics s)) (pending_jobs s)"
proof -
  have right: "metrics_right s" "jobs_right s" using loader.holds [OF assms] by (simp_all add: loader_right_def)
  have "sorted_wrt (<) (map fst (sv_responses s))"
    using right(2) by (auto simp: jobs_right_def all_jobs_def sorted_wrt_append)
  then have "distinct (map fst (sv_responses s))" by (simp add: strict_sorted_iff)
  moreover have "\<forall>flag \<in> set (pending_jobs s). sv_flags s flag \<or> flag + 1 = sv_jobs s"
    using right(2) unfolding jobs_right_def by blast
  ultimately show ?thesis using right(1) by (auto simp: metrics_right_def all_jobs_def list_all_iff)
qed

definition sample_request :: "nat \<Rightarrow> thread_load_request" where
  "sample_request generation =
     \<lparr>tr_generation = generation, tr_config = \<lparr>oc_database_path = None, oc_config_path = None, oc_profile = None\<rparr>,
      tr_thread_id = ''0001'', tr_candidate_thread_ids = [], tr_target_message_id = None, tr_delay = 0\<rparr>"

lemma new_loader_reachable: "reachable loader_step fresh_loader (new_loader None)"
  by (rule reachable.start) (simp add: fresh_loader_def exI [of _ None])

theorem loads_accounted_for_witness:
  "let s = submit (sample_request 2) (submit (sample_request 1) (new_loader None)) in
   list_all (\<lambda>flag. sv_flags s flag \<or> flag + 1 = lm_submitted (sv_metrics s)) (pending_jobs s) \<and>
   pending_jobs s = [0, 1] \<and> lm_submitted (sv_metrics s) = 2"
proof -
  let ?s = "submit (sample_request 2) (submit (sample_request 1) (new_loader None))"
  have "reachable loader_step fresh_loader ?s"
    by (rule reachable_run [OF new_loader_reachable, where as = "[Submit (sample_request 1), Submit (sample_request 2)]"]) simp
  note all = loads_accounted_for [OF this]
  have "pending_jobs ?s = [0, 1]" "lm_submitted (sv_metrics ?s) = 2" by code_simp+
  with all show ?thesis unfolding Let_def by blast
qed

text \<open>
  C39. A request that is neither replaced nor cancelled is answered: the worker comes to rest after a
  bounded number of steps, and then the last response is that of the request.
\<close>

theorem newest_load_is_answered:
  assumes "reachable loader_step fresh_loader s" "sv_connected s"
    and "run_steps loader_step (map Worker es) (submit request s) = Some s'"
  shows "length es \<le> worker_rank (submit request s) \<and>
    ((\<forall>e. worker_step e s' = None) \<longrightarrow>
     (\<exists>result. sv_responses s' \<noteq> [] \<and>
        last (sv_responses s') = (lm_submitted (sv_metrics s), \<lparr>tp_generation = tr_generation request, tp_result = result\<rparr>)))"
proof -
  let ?job = "\<lparr>lj_request = request, lj_cancelled = sv_jobs s\<rparr>"
  have jobs: "sv_jobs s = lm_submitted (sv_metrics s)"
    using loader.holds [OF assms(1)] by (simp add: loader_right_def metrics_right_def)
  have "sv_queue (submit request s) = sv_queue s @ [LoadJob ?job]"
    using assms(2) by (simp add: submit_def add_job_def Let_def cancel_active_same)
  then have "newest_tracked ?job (submit request s)" by (simp add: newest_tracked_def)
  then have tracked: "newest_tracked ?job s'" using assms(3) by (rule newest_tracked_run)
  have "\<exists>result. sv_responses s' \<noteq> [] \<and>
        last (sv_responses s') = (sv_jobs s, \<lparr>tp_generation = tr_generation request, tp_result = result\<rparr>)"
    if "\<forall>e. worker_step e s' = None"
    using worker_rests [of s'] that tracked by (auto simp: newest_tracked_def)
  then show ?thesis using worker_run_rank [OF assms(3)] jobs by auto
qed

theorem newest_load_is_answered_witness:
  "let es = [ReceiveFirst, LatestJob, LoaderReturns (Inl ThreadCancelled), ClearActive, SendResponse] in
   (\<exists>s'. run_steps loader_step (map Worker es) (submit (sample_request 7) (new_loader None)) = Some s') \<and>
   length es \<le> worker_rank (submit (sample_request 7) (new_loader None))"
proof -
  let ?es = "[ReceiveFirst, LatestJob, LoaderReturns (Inl ThreadCancelled), ClearActive, SendResponse]"
  have "run_steps loader_step (map Worker ?es) (submit (sample_request 7) (new_loader None)) \<noteq> None" by code_simp
  then obtain s' where run: "run_steps loader_step (map Worker ?es) (submit (sample_request 7) (new_loader None)) = Some s'"
    by auto
  have "sv_connected (new_loader None)" by (simp add: new_loader_def)
  from newest_load_is_answered [OF new_loader_reachable this run] run show ?thesis
    unfolding Let_def by blast
qed

lemma newest_thread_load_wins:
  assumes "coordinate (always thread_load_begin) thread_load_cancel thread_load_finish before
      \<lparr>tc_generation = 0, tc_active = None, tc_loader = new_loader start_error\<rparr> = (earlier, c)"
    and "thread_load_begin c = (g, c1)"
    and "coordinate (always thread_load_begin) thread_load_cancel thread_load_finish ops (thread_load_spawn request c1) = (issued, c2)"
    and "length before + length ops < u64_max"
  shows "thread_load_accepts c2 g \<longleftrightarrow> issued = [] \<and> CancelWork \<notin> set ops \<and> FinishWork g \<notin> set ops"
proof -
  have inv: "tc_generation c \<le> length before"
    using thread_load.run_keeps [OF _ _ assms(1)] assms(4) by simp
  have "tc_active (thread_load_spawn request c1) = Some g" "g \<le> tc_generation (thread_load_spawn request c1)"
      "tc_generation (thread_load_spawn request c1) \<le> tc_generation c + 1"
    using assms(2) by (auto simp: thread_load_begin_def thread_load_spawn_def Let_def saturating_succ_bounds)
  then show ?thesis using thread_load.active_after [OF _ _ assms(3)] inv assms(4)
    by (simp add: thread_load_accepts_def)
qed

end
