(* ===== verification/Message_Source.thy ===== *)
theory Message_Source
  imports Thread_Prepare Tag_Mutation Machine
begin

text \<open>
  The file of a message that is shown (\<open>MessageSource\<close> and \<open>AuthoritativePathMap\<close> in
  \<open>notm-ui/src/thread\_loader.rs\<close>).  Clones of a source share one cell with the current path
  and a generation; tagging may rename the file and remap the cell while a read is going on.  The
  cell is part of the world, so that reads can be interleaved with changes of it by other threads;
  what those may do is a hypothesis.
\<close>

section \<open>The path cell\<close>

record path_cell =
  cl_path :: string
  cl_generation :: nat

definition new_cell :: "string \<Rightarrow> path_cell" where
  "new_cell path = \<lparr>cl_path = path, cl_generation = 0\<rparr>"

text \<open>Paths are equal when their components are.\<close>

definition same_path :: "string \<Rightarrow> string \<Rightarrow> bool" where
  "same_path p q \<longleftrightarrow> path_key p = path_key q"

definition path_snapshot :: "path_cell \<Rightarrow> string \<times> nat" where
  "path_snapshot cell = (cl_path cell, cl_generation cell)"

definition replace_path_if_generation :: "path_cell \<Rightarrow> nat \<Rightarrow> string \<Rightarrow> bool \<times> path_cell" where
  "replace_path_if_generation cell expected_generation path =
     (if cl_generation cell \<noteq> expected_generation then (False, cell)
      else (True, if same_path (cl_path cell) path then cell
                  else \<lparr>cl_path = path, cl_generation = saturating_succ (cl_generation cell)\<rparr>))"

text \<open>The first change of a state whose previous path is the current one.\<close>

definition follow_state :: "message_path_state \<Rightarrow> string \<Rightarrow> string" where
  "follow_state state path =
     (case find (\<lambda>change. same_path (pc_previous_path change) path) (ps_path_changes state) of
        Some change \<Rightarrow> pc_current_path change
      | None \<Rightarrow> path)"

definition apply_matching_path_states :: "message_path_state list \<Rightarrow> path_cell \<Rightarrow> bool \<times> path_cell" where
  "apply_matching_path_states path_states cell =
     (let path = fold follow_state path_states (cl_path cell);
          generation = (if same_path path (cl_path cell) then cl_generation cell
                        else saturating_succ (cl_generation cell)) in
      (path_states = [] \<or> list_ex (\<lambda>p. same_path p path) (ps_paths (last path_states)),
       \<lparr>cl_path = path, cl_generation = generation\<rparr>))"

definition apply_to_source :: "message_path_state list \<Rightarrow> string \<Rightarrow> path_cell \<Rightarrow> bool \<times> path_cell" where
  "apply_to_source path_states message_id cell =
     (let states = filter (\<lambda>state. ps_message_id state = message_id) path_states in
      if states = [] then (True, cell) else apply_matching_path_states states cell)"

section \<open>Reading\<close>

text \<open>
  Files, the current path and content of a message in the database, and what other threads do
  between two accesses; all of them may change the cell.
\<close>

record 'w source_env =
  se_file :: "string \<Rightarrow> path_cell \<times> 'w \<Rightarrow> (string + string) \<times> (path_cell \<times> 'w)"
  se_open_message_id :: "open_config \<Rightarrow> string \<Rightarrow> path_cell \<times> 'w \<Rightarrow> (string + string \<times> (string + string)) \<times> (path_cell \<times> 'w)"
  se_others :: "path_cell \<times> 'w \<Rightarrow> path_cell \<times> 'w"

definition read_current :: "'w source_env \<Rightarrow> string \<Rightarrow> nat \<Rightarrow> path_cell \<times> 'w \<Rightarrow> (string + string) \<times> (path_cell \<times> 'w)" where
  "read_current env path max_bytes w =
     (case se_file env path w of (content, w) \<Rightarrow> (read_reader_bounded content max_bytes, w))"

definition unavailable_context :: "string \<Rightarrow> string \<Rightarrow> string \<Rightarrow> string" where
  "unavailable_context cached_path cached_error message_id =
     ''cached message path '' @ from_utf8_lossy cached_path @ '' was unavailable ('' @ cached_error @
     ''); resolving current file for '' @ message_id"

definition resolve_current ::
  "'w source_env \<Rightarrow> open_config \<times> string \<Rightarrow> string \<Rightarrow> string \<Rightarrow> nat \<Rightarrow> path_cell \<times> 'w \<Rightarrow>
   (string + string \<times> string) \<times> (path_cell \<times> 'w)" where
  "resolve_current env resolver cached_path cached_error max_bytes w =
     (case resolver of (config, message_id) \<Rightarrow>
        (case se_open_message_id env config message_id w of (found, w) \<Rightarrow>
           (and_then found (\<lambda>(path, content).
              map_ok (Pair path) (map_err (\<lambda>_. unavailable_context cached_path cached_error message_id)
                (read_reader_bounded content max_bytes))), w)))"

text \<open>One round of the loop: \<open>None\<close> is \<open>continue\<close>.\<close>

definition read_attempt ::
  "'w source_env \<Rightarrow> (open_config \<times> string) option \<Rightarrow> nat \<Rightarrow> path_cell \<times> 'w \<Rightarrow>
   (string + string \<times> string) option \<times> (path_cell \<times> 'w)" where
  "read_attempt env resolver max_bytes w =
     (case path_snapshot (fst w) of (cached_path, generation) \<Rightarrow>
        (case read_current env cached_path max_bytes w of
           (Inr bytes, w) \<Rightarrow>
             if cl_generation (fst w) = generation then (Some (Inr (cached_path, bytes)), w) else (None, w)
         | (Inl cached_error, w) \<Rightarrow>
             if cl_generation (fst w) \<noteq> generation then (None, w)
             else (case resolver of
                     None \<Rightarrow> (Some (Inl cached_error), w)
                   | Some resolver \<Rightarrow>
                       (case resolve_current env resolver cached_path cached_error max_bytes w of (resolved, w) \<Rightarrow>
                          if cl_generation (fst w) \<noteq> generation then (None, w)
                          else (case resolved of
                                  Inl err \<Rightarrow> (Some (Inl err), w)
                                | Inr (resolved_path, bytes) \<Rightarrow>
                                    (case se_others env w of (cell, w) \<Rightarrow>
                                       (case replace_path_if_generation cell generation resolved_path of
                                          (True, cell) \<Rightarrow> (Some (Inr (resolved_path, bytes)), (cell, w))
                                        | (False, cell) \<Rightarrow> (None, (cell, w)))))))))"

fun read_attempts ::
  "'w source_env \<Rightarrow> (open_config \<times> string) option \<Rightarrow> nat \<Rightarrow> nat \<Rightarrow> path_cell \<times> 'w \<Rightarrow>
   (string + string \<times> string) \<times> (path_cell \<times> 'w)" where
  "read_attempts env resolver max_bytes 0 w = (Inl ''message source path changed repeatedly while it was being read'', w)"
| "read_attempts env resolver max_bytes (Suc n) w =
     (case read_attempt env resolver max_bytes w of
        (Some result, w) \<Rightarrow> (result, w)
      | (None, w) \<Rightarrow> read_attempts env resolver max_bytes n w)"

definition read_bounded_with_path ::
  "'w source_env \<Rightarrow> (open_config \<times> string) option \<Rightarrow> nat \<Rightarrow> path_cell \<times> 'w \<Rightarrow>
   (string + string \<times> string) \<times> (path_cell \<times> 'w)" where
  "read_bounded_with_path env resolver max_bytes = read_attempts env resolver max_bytes 8"

definition source_read_bounded ::
  "'w source_env \<Rightarrow> (open_config \<times> string) option \<Rightarrow> nat \<Rightarrow> path_cell \<times> 'w \<Rightarrow> (string + string) \<times> (path_cell \<times> 'w)" where
  "source_read_bounded env resolver max_bytes w =
     (case read_bounded_with_path env resolver max_bytes w of (result, w) \<Rightarrow> (map_ok snd result, w))"

section \<open>What other threads may do to the cell\<close>

text \<open>They remap it after tagging, or replace its path after a lookup of their own.\<close>

inductive cell_moves :: "path_cell \<Rightarrow> path_cell \<Rightarrow> bool" where
  still: "cell_moves cell cell"
| remapped: "cell_moves cell cell' \<Longrightarrow> cell_moves cell (snd (apply_matching_path_states states cell'))"
| replaced: "cell_moves cell cell' \<Longrightarrow> cell_moves cell (snd (replace_path_if_generation cell' generation path))"

definition interference :: "'w source_env \<Rightarrow> bool" where
  "interference env \<longleftrightarrow>
     (\<forall>path cell w r cell' w'. se_file env path (cell, w) = (r, (cell', w')) \<longrightarrow> cell_moves cell cell') \<and>
     (\<forall>config message_id cell w r cell' w'.
        se_open_message_id env config message_id (cell, w) = (r, (cell', w')) \<longrightarrow> cell_moves cell cell') \<and>
     (\<forall>cell w cell' w'. se_others env (cell, w) = (cell', w') \<longrightarrow> cell_moves cell cell')"

lemma same_path_refl [simp]: "same_path p p"
  by (simp add: same_path_def)

lemma same_path_sym: "same_path p q \<longleftrightarrow> same_path q p"
  by (auto simp: same_path_def)

text \<open>As long as generations are not exhausted, an unchanged generation means the same file.\<close>

lemma cell_moves_generation:
  "cell_moves cell cell' \<Longrightarrow>
     cl_generation cell \<le> cl_generation cell' \<and>
     (cl_generation cell' < u64_max \<longrightarrow> cl_generation cell' = cl_generation cell \<longrightarrow> same_path (cl_path cell) (cl_path cell'))"
proof (induction rule: cell_moves.induct)
  case (still cell)
  then show ?case by simp
next
  case (remapped cell cell' states)
  then show ?case
    using saturating_succ_bounds [of "cl_generation cell'"] saturating_succ_below [of "cl_generation cell'"]
    by (auto simp: apply_matching_path_states_def Let_def same_path_def)
next
  case (replaced cell cell' generation path)
  then show ?case
    using saturating_succ_bounds [of "cl_generation cell'"] saturating_succ_below [of "cl_generation cell'"]
    by (auto simp: replace_path_if_generation_def same_path_def)
qed

lemma cell_moves_trans: "cell_moves b c \<Longrightarrow> cell_moves a b \<Longrightarrow> cell_moves a c"
  by (induction rule: cell_moves.induct) (auto intro: cell_moves.intros)

section \<open>What is read\<close>

text \<open>The answer of a round holds at its end: the cell still names the file that was read.\<close>

definition read_from :: "'w source_env \<Rightarrow> string \<Rightarrow> string \<Rightarrow> nat \<Rightarrow> bool" where
  "read_from env path bytes max_bytes \<longleftrightarrow>
     (\<exists>w w'. read_current env path max_bytes w = (Inr bytes, w')) \<or>
     (\<exists>config message_id w content w'.
        se_open_message_id env config message_id w = (Inr (path, content), w') \<and>
        read_reader_bounded content max_bytes = Inr bytes)"

lemma reader_bounded: "read_reader_bounded content max_bytes = Inr bytes \<Longrightarrow> length bytes \<le> max_bytes"
  by (auto simp: read_reader_bounded_def Let_def split: sum.splits if_splits)

lemma read_current_bounded: "read_current env path max_bytes w = (Inr bytes, w') \<Longrightarrow> length bytes \<le> max_bytes"
  by (cases "se_file env path w") (auto simp: read_current_def dest: reader_bounded)

lemma read_from_bounded: "read_from env path bytes max_bytes \<Longrightarrow> length bytes \<le> max_bytes"
  using read_current_bounded reader_bounded unfolding read_from_def by blast

lemma interferenceD:
  assumes "interference env"
  shows "se_file env path (cell, w) = (r, (cell', w')) \<Longrightarrow> cell_moves cell cell'"
    and "se_open_message_id env config message_id (cell, w) = (found, (cell', w')) \<Longrightarrow> cell_moves cell cell'"
    and "se_others env (cell, w) = (cell', w') \<Longrightarrow> cell_moves cell cell'"
  using assms unfolding interference_def by blast+

lemma read_current_moves:
  assumes "interference env" "read_current env path max_bytes (cell, w) = (r, (cell', w'))"
  shows "cell_moves cell cell'"
proof -
  obtain content where "se_file env path (cell, w) = (content, (cell', w'))"
    using assms(2) by (auto simp: read_current_def split: prod.splits)
  then show ?thesis by (rule interferenceD(1) [OF assms(1)])
qed

lemma resolve_current_read:
  assumes "resolve_current env resolver p e max_bytes w = (Inr (path, bytes), w')"
  shows "read_from env path bytes max_bytes"
proof -
  obtain config message_id where r: "resolver = (config, message_id)" by fastforce
  obtain found w1 where f: "se_open_message_id env config message_id w = (found, w1)" by (metis surj_pair)
  have "and_then found (\<lambda>(path, content). map_ok (Pair path)
      (map_err (\<lambda>_. unavailable_context p e message_id) (read_reader_bounded content max_bytes))) = Inr (path, bytes)"
    using assms r f by (simp add: resolve_current_def)
  then obtain content where "found = Inr (path, content)" "read_reader_bounded content max_bytes = Inr bytes"
    by (auto simp: result_simps)
  then show ?thesis using f unfolding read_from_def by blast
qed

lemma replaced_path:
  "replace_path_if_generation cell generation path = (True, cell') \<Longrightarrow> same_path path (cl_path cell')"
  by (auto simp: replace_path_if_generation_def same_path_def split: if_splits)

lemma attempt_holds:
  assumes env: "interference env"
    and ok: "read_attempt env resolver max_bytes (cell, w) = (Some (Inr (path, bytes)), (cell', w'))"
    and fresh: "cl_generation cell' < u64_max"
  shows "same_path path (cl_path cell') \<and> read_from env path bytes max_bytes"
proof -
  obtain r cell1 w1 where read: "read_current env (cl_path cell) max_bytes (cell, w) = (r, (cell1, w1))"
    by (metis surj_pair)
  show ?thesis
  proof (cases r)
    case (Inr bytes')
    then have "cl_generation cell1 = cl_generation cell" "path = cl_path cell" "bytes = bytes'" "cell' = cell1"
      using ok read by (auto simp: read_attempt_def path_snapshot_def split: if_splits)
    moreover have "cell_moves cell cell1" by (rule read_current_moves [OF env read])
    ultimately show ?thesis
      using cell_moves_generation [of cell cell1] fresh read Inr by (auto simp: read_from_def)
  next
    case (Inl cached_error)
    then obtain res where unchanged: "cl_generation cell1 = cl_generation cell" and res: "resolver = Some res"
      using ok read by (auto simp: read_attempt_def path_snapshot_def split: if_splits option.splits)
    obtain resolved cell2 w2 where resolve:
      "resolve_current env res (cl_path cell) cached_error max_bytes (cell1, w1) = (resolved, (cell2, w2))"
      by (metis surj_pair)
    obtain cell3 w3 where others: "se_others env (cell2, w2) = (cell3, w3)" by (metis surj_pair)
    have "resolved = Inr (path, bytes) \<and> replace_path_if_generation cell3 (cl_generation cell) path = (True, cell')"
      using ok read Inl unchanged res resolve others
      by (auto simp: read_attempt_def path_snapshot_def split: if_splits sum.splits prod.splits bool.splits)
    then show ?thesis using replaced_path resolve_current_read resolve by blast
  qed
qed

lemma attempts_hold:
  "interference env \<Longrightarrow> read_attempts env resolver max_bytes n (cell, w) = (Inr (path, bytes), (cell', w')) \<Longrightarrow>
   cl_generation cell' < u64_max \<Longrightarrow> same_path path (cl_path cell') \<and> read_from env path bytes max_bytes"
proof (induction n arbitrary: cell w)
  case (Suc n)
  obtain result cell1 w1 where a: "read_attempt env resolver max_bytes (cell, w) = (result, (cell1, w1))"
    by (metis surj_pair)
  show ?case
  proof (cases result)
    case None
    then show ?thesis using Suc a by simp
  next
    case (Some r)
    then show ?thesis using Suc.prems a attempt_holds by simp
  qed
qed simp

text \<open>
  C40. Whatever other threads do to the path of a message while its source is read, a read that
  succeeds returns at most the allowed bytes, read from the path it returns, and that is the path the
  source has when the read returns.
\<close>

theorem read_names_current_file:
  assumes "interference env"
    and "read_bounded_with_path env resolver max_bytes (cell, w) = (Inr (path, bytes), (cell', w'))"
    and "cl_generation cell' < u64_max"
  shows "same_path path (cl_path cell') \<and> read_from env path bytes max_bytes \<and> length bytes \<le> max_bytes"
  using attempts_hold [OF assms(1) _ assms(3)] assms(2) read_from_bounded unfolding read_bounded_with_path_def by blast

text \<open>A file renamed by tagging while it is read: the first round fails, the second reads the new path.\<close>

definition renaming_env :: "unit source_env" where
  "renaming_env =
     \<lparr>se_file = (\<lambda>path (cell, w).
        if path = ''/cur/a'' then (Inl ''gone'', (snd (apply_matching_path_states
          [\<lparr>ps_message_id = ''m'', ps_paths = [''/cur/b''],
            ps_path_changes = [\<lparr>pc_previous_path = ''/cur/a'', pc_current_path = ''/cur/b''\<rparr>]\<rparr>] cell), w))
        else (Inr ''Subject: x'', (cell, w))),
      se_open_message_id = (\<lambda>_ _ w. (Inl ''closed'', w)), se_others = (\<lambda>w. w)\<rparr>"

theorem read_names_current_file_witness:
  "read_bounded_with_path renaming_env None 100 (new_cell ''/cur/a'', ()) =
     (Inr (''/cur/b'', ''Subject: x''), (\<lparr>cl_path = ''/cur/b'', cl_generation = 1\<rparr>, ())) \<and>
   length ''Subject: x'' \<le> (100 :: nat)"
proof -
  have read: "read_bounded_with_path renaming_env None 100 (new_cell ''/cur/a'', ()) =
     (Inr (''/cur/b'', ''Subject: x''), (\<lparr>cl_path = ''/cur/b'', cl_generation = 1\<rparr>, ()))"
    by code_simp
  have "interference renaming_env"
    by (auto simp: interference_def renaming_env_def intro: cell_moves.intros split: if_splits)
  from read_names_current_file [OF this read] read show ?thesis by (simp add: u64_max_def)
qed

end
