(* ===== verification/Named_Drafts.thy ===== *)
theory Named_Drafts
  imports Message_Io Thread_Snapshot "HOL-Library.AList" "HOL-Library.Option_ord"
begin

text \<open>
  Named drafts on disk (\<open>notm-ui/src/draft\_io.rs\<close>, and saving one in
  \<open>notm-ui/src/widgets/composer.rs\<close>): the move of an old store into the current directory, the scan
  that lists the drafts, and the check that a save keeps the store within its budgets.

  The store is a list of files, in the order in which directories list them; a path is a directory
  and a name, directories being given in normal form.  Errors of the file system, the JSON format,
  the clock and the random identifiers are a parameter.  Sums of sizes stay far below \<open>usize::MAX\<close>
  because every one of them is limited, so the overflow branches of \<open>checked\_add\<close> are left out.
\<close>

section \<open>Data\<close>

definition MAX_NAMED_DRAFTS :: nat where "MAX_NAMED_DRAFTS = 256"
definition MAX_NAMED_DRAFT_BYTES :: nat where "MAX_NAMED_DRAFT_BYTES = 2 * 1024 * 1024"
definition MAX_NAMED_DRAFT_TOTAL_BYTES :: nat where "MAX_NAMED_DRAFT_TOTAL_BYTES = 32 * 1024 * 1024"
definition MAX_NAMED_DRAFT_WARNING_DETAILS :: nat where "MAX_NAMED_DRAFT_WARNING_DETAILS = 3"
definition MAX_NAMED_DRAFT_WARNING_BYTES :: nat where "MAX_NAMED_DRAFT_WARNING_BYTES = 1024"

record compose_fields =
  cf_from :: string
  cf_to :: string
  cf_cc :: string
  cf_bcc :: string
  cf_subject :: string
  cf_body :: string
  cf_attachments :: "string list"
  cf_in_reply_to :: "string option"
  cf_references :: "string list"
  cf_text_reply_quote :: "string option"
  cf_html_reply_quote :: "string option"

definition fields_has_content :: "compose_fields \<Rightarrow> bool" where
  "fields_has_content draft \<longleftrightarrow>
     trim (cf_to draft) \<noteq> [] \<or> trim (cf_cc draft) \<noteq> [] \<or> trim (cf_bcc draft) \<noteq> [] \<or>
     trim (cf_subject draft) \<noteq> [] \<or> trim (cf_body draft) \<noteq> [] \<or> cf_attachments draft \<noteq> []"

type_synonym draft_path = "string \<times> string"

record draft_node =
  nd_metadata :: "string + bool"
  nd_modified :: "nat option"
  nd_content :: "string + string"

type_synonym draft_store = "(draft_path \<times> draft_node) list"

text \<open>
  A failed write reports whether the new file was already in place (only the directory could then
  not be synced).
\<close>

record draft_env =
  dn_parse :: "string \<Rightarrow> string + compose_fields"
  dn_serialize :: "compose_fields \<Rightarrow> string + string"
  dn_list_error :: "string \<Rightarrow> string option"
  dn_private_error :: "string \<Rightarrow> string option"
  dn_write_error :: "draft_path \<Rightarrow> (string \<times> bool) option"
  dn_remove_error :: "draft_path \<Rightarrow> string option"
  dn_uuid :: "nat \<Rightarrow> string"
  dn_now :: "nat option"
  dn_stamp :: string

definition show_path :: "draft_path \<Rightarrow> string" where
  "show_path path = from_utf8_lossy (fst path @ ''/'' @ snd path)"

text \<open>\<open>path.extension() == "json"\<close>: the part after the last dot, which is not the first character.\<close>

definition has_json_extension :: "string \<Rightarrow> bool" where
  "has_json_extension name \<longleftrightarrow> length name > 5 \<and> drop (length name - 5) name = ''.json''"

section \<open>The file system\<close>

definition regular_file :: "nat option \<Rightarrow> string \<Rightarrow> draft_node" where
  "regular_file modified bytes = \<lparr>nd_metadata = Inr True, nd_modified = modified, nd_content = Inr bytes\<rparr>"

definition atomic_write_durable :: "draft_env \<Rightarrow> draft_path \<Rightarrow> string \<Rightarrow> draft_store \<Rightarrow> (string + unit) \<times> draft_store" where
  "atomic_write_durable env path bytes store =
     (let written = AList.update path (regular_file (dn_now env) bytes) store in
      case dn_write_error env path of
        None \<Rightarrow> (Inr (), written)
      | Some (err, renamed) \<Rightarrow>
          (Inl (''writing '' @ show_path path @ '' atomically: '' @ err), if renamed then written else store))"

definition remove_file_if_present :: "draft_env \<Rightarrow> draft_path \<Rightarrow> draft_store \<Rightarrow> (string + unit) \<times> draft_store" where
  "remove_file_if_present env path store =
     (case dn_remove_error env path of
        Some err \<Rightarrow> (Inl (''removing '' @ show_path path @ '': '' @ err), store)
      | None \<Rightarrow> (Inr (), AList.delete path store))"

definition ensure_private_directory :: "draft_env \<Rightarrow> string \<Rightarrow> string + unit" where
  "ensure_private_directory env dir = (case dn_private_error env dir of Some err \<Rightarrow> Inl err | None \<Rightarrow> Inr ())"

definition too_many_drafts :: "nat \<Rightarrow> string" where
  "too_many_drafts n = ''named draft store contains '' @ show_nat n @ '' JSON files; limit is '' @ show_nat MAX_NAMED_DRAFTS"

definition ensure_count :: "nat \<Rightarrow> string + unit" where
  "ensure_count n = ensure (n \<le> MAX_NAMED_DRAFTS) (too_many_drafts n)"

definition json_paths :: "string \<Rightarrow> draft_store \<Rightarrow> draft_path list" where
  "json_paths dir store = filter (\<lambda>path. fst path = dir \<and> has_json_extension (snd path)) (map fst store)"

definition json_entries :: "draft_env \<Rightarrow> draft_store \<Rightarrow> string \<Rightarrow> string + draft_path list" where
  "json_entries env store dir =
     (case dn_list_error env dir of
        Some err \<Rightarrow> Inl (''listing named drafts in '' @ from_utf8_lossy dir @ '': '' @ err)
      | None \<Rightarrow>
          (let paths = json_paths dir store in
           if length paths > MAX_NAMED_DRAFTS then Inl (too_many_drafts (MAX_NAMED_DRAFTS + 1)) else Inr paths))"

text \<open>At most one byte more than the limit is read.\<close>

definition read_named_draft :: "draft_store \<Rightarrow> draft_path \<Rightarrow> string + string" where
  "read_named_draft store path =
     (case map_of store path of
        None \<Rightarrow> Inl (''opening named draft '' @ show_path path)
      | Some node \<Rightarrow>
          (case nd_content node of
             Inl err \<Rightarrow> Inl (''reading named draft '' @ show_path path @ '': '' @ err)
           | Inr content \<Rightarrow> Inr (take (MAX_NAMED_DRAFT_BYTES + 1) content)))"

definition charge_named_draft_bytes :: "nat \<Rightarrow> nat \<Rightarrow> string + nat" where
  "charge_named_draft_bytes total_bytes bytes =
     (if total_bytes + bytes \<le> MAX_NAMED_DRAFT_TOTAL_BYTES then Inr (total_bytes + bytes)
      else Inl (''named draft store exceeds the '' @ show_nat MAX_NAMED_DRAFT_TOTAL_BYTES @ ''-byte total limit''))"

definition draft_too_large :: "draft_path \<Rightarrow> string" where
  "draft_too_large path =
     ''named draft '' @ show_path path @ '' exceeds the '' @ show_nat MAX_NAMED_DRAFT_BYTES @ ''-byte limit''"

definition read_bounded_draft :: "draft_store \<Rightarrow> draft_path \<Rightarrow> nat \<Rightarrow> string + (string \<times> nat)" where
  "read_bounded_draft store path total_bytes =
     and_then (read_named_draft store path) (\<lambda>bytes.
     and_then (ensure (length bytes \<le> MAX_NAMED_DRAFT_BYTES) (draft_too_large path)) (\<lambda>_.
       map_ok (Pair bytes) (charge_named_draft_bytes total_bytes (length bytes))))"

section \<open>Migration of the old store\<close>

datatype legacy_migration_error = RejectedEntry string | FatalError string

fun into_anyhow :: "legacy_migration_error \<Rightarrow> string" where
  "into_anyhow (RejectedEntry err) = err"
| "into_anyhow (FatalError err) = err"

record legacy_migration =
  lg_source :: draft_path
  lg_destination :: "draft_path option"
  lg_bytes :: string

text \<open>The total is charged also for an entry that is then rejected for its size.\<close>

definition read_bounded_for_migration ::
  "draft_store \<Rightarrow> draft_path \<Rightarrow> nat \<Rightarrow> (legacy_migration_error + string) \<times> nat" where
  "read_bounded_for_migration store path total_bytes =
     (case read_named_draft store path of
        Inl err \<Rightarrow> (Inl (RejectedEntry err), total_bytes)
      | Inr bytes \<Rightarrow>
          (case charge_named_draft_bytes total_bytes (length bytes) of
             Inl err \<Rightarrow> (Inl (FatalError err), total_bytes)
           | Inr total_bytes \<Rightarrow>
               (if length bytes > MAX_NAMED_DRAFT_BYTES then Inl (RejectedEntry (draft_too_large path)) else Inr bytes,
                total_bytes)))"

fun read_current_drafts ::
  "draft_store \<Rightarrow> draft_path list \<Rightarrow> nat \<Rightarrow> legacy_migration_error + ((string \<times> string) list \<times> nat)" where
  "read_current_drafts store [] total_bytes = Inr ([], total_bytes)"
| "read_current_drafts store (path # paths) total_bytes =
     (case read_bounded_for_migration store path total_bytes of
        (Inl err, _) \<Rightarrow> Inl err
      | (Inr bytes, total_bytes) \<Rightarrow>
          map_ok (\<lambda>(by_name, total_bytes). ((snd path, bytes) # by_name, total_bytes))
            (read_current_drafts store paths total_bytes))"

text \<open>
  A destination that is not occupied; the search is bounded by one more than the occupied ones,
  which is enough for distinct identifiers (\<open>unoccupied\_found\<close> below).
\<close>

definition legacy_destination :: "draft_env \<Rightarrow> string \<Rightarrow> string \<Rightarrow> nat \<Rightarrow> draft_path" where
  "legacy_destination env dir filename n = (dir, ''legacy-'' @ dn_uuid env n @ ''-'' @ from_utf8_lossy filename)"

fun unoccupied_destination ::
  "draft_env \<Rightarrow> string \<Rightarrow> string \<Rightarrow> draft_path list \<Rightarrow> nat \<Rightarrow> nat \<Rightarrow> draft_path \<times> nat" where
  "unoccupied_destination env dir filename occupied 0 n = (legacy_destination env dir filename n, n + 1)"
| "unoccupied_destination env dir filename occupied (Suc fuel) n =
     (if legacy_destination env dir filename n \<notin> set occupied then (legacy_destination env dir filename n, n + 1)
      else unoccupied_destination env dir filename occupied fuel (n + 1))"

record migration_plan =
  mp_total_bytes :: nat
  mp_migrated_bytes :: nat
  mp_preserved_bytes :: nat
  mp_preserved_count :: nat
  mp_occupied :: "draft_path list"
  mp_uuids :: nat
  mp_migrations :: "legacy_migration list"

definition choose_destination ::
  "draft_env \<Rightarrow> string \<Rightarrow> (string \<times> string) list \<Rightarrow> draft_path \<Rightarrow> string \<Rightarrow> migration_plan \<Rightarrow> draft_path option \<times> nat" where
  "choose_destination env dir current_by_name source bytes plan =
     (if map_of current_by_name (snd source) = Some bytes then (None, mp_uuids plan)
      else if map_of current_by_name (snd source) \<noteq> None
      then (case unoccupied_destination env dir (snd source) (mp_occupied plan) (length (mp_occupied plan)) (mp_uuids plan) of
              (destination, n) \<Rightarrow> (Some destination, n))
      else (Some (dir, snd source), mp_uuids plan))"

definition preserve :: "nat \<Rightarrow> migration_plan \<Rightarrow> migration_plan" where
  "preserve bytes plan =
     plan\<lparr>mp_preserved_bytes := mp_preserved_bytes plan + bytes, mp_preserved_count := mp_preserved_count plan + 1\<rparr>"

definition plan_entry ::
  "draft_env \<Rightarrow> draft_store \<Rightarrow> string \<Rightarrow> (string \<times> string) list \<Rightarrow> draft_path \<Rightarrow> migration_plan \<Rightarrow>
   legacy_migration_error + migration_plan" where
  "plan_entry env store dir current_by_name source plan =
     (case read_bounded_for_migration store source (mp_total_bytes plan) of
        (Inl (RejectedEntry err), total_bytes) \<Rightarrow>
          Inr (preserve (total_bytes - mp_total_bytes plan) (plan\<lparr>mp_total_bytes := total_bytes\<rparr>))
      | (Inl (FatalError err), _) \<Rightarrow> Inl (FatalError err)
      | (Inr bytes, total_bytes) \<Rightarrow>
          (let plan = plan\<lparr>mp_total_bytes := total_bytes\<rparr> in
           if isl (dn_parse env bytes) then Inr (preserve (length bytes) plan)
           else (case choose_destination env dir current_by_name source bytes plan of
                   (destination, n) \<Rightarrow>
                     Inr (plan\<lparr>mp_uuids := n,
                               mp_occupied := (case destination of Some d \<Rightarrow> d # mp_occupied plan | None \<Rightarrow> mp_occupied plan),
                               mp_migrated_bytes := mp_migrated_bytes plan +
                                 (case destination of Some _ \<Rightarrow> length bytes | None \<Rightarrow> 0),
                               mp_migrations := mp_migrations plan @
                                 [\<lparr>lg_source = source, lg_destination = destination, lg_bytes = bytes\<rparr>]\<rparr>))))"

fun plan_entries ::
  "draft_env \<Rightarrow> draft_store \<Rightarrow> string \<Rightarrow> (string \<times> string) list \<Rightarrow> draft_path list \<Rightarrow> migration_plan \<Rightarrow>
   legacy_migration_error + migration_plan" where
  "plan_entries env store dir current_by_name [] plan = Inr plan"
| "plan_entries env store dir current_by_name (source # sources) plan =
     and_then (plan_entry env store dir current_by_name source plan)
       (plan_entries env store dir current_by_name sources)"

definition migrated_count :: "legacy_migration list \<Rightarrow> nat" where
  "migrated_count migrations = length (filter (\<lambda>m. lg_destination m \<noteq> None) migrations)"

text \<open>Everything is read and checked before the first file is touched.\<close>

definition plan_migration :: "draft_env \<Rightarrow> draft_store \<Rightarrow> string \<Rightarrow> string \<Rightarrow> legacy_migration_error + legacy_migration list" where
  "plan_migration env store dir legacy_dir =
     and_then (map_err FatalError (json_entries env store dir)) (\<lambda>current_entries.
     and_then (map_err FatalError (ensure_count (length current_entries))) (\<lambda>_.
     and_then (read_current_drafts store current_entries 0) (\<lambda>(current_by_name, current_total_bytes).
     and_then (map_err FatalError (json_entries env store legacy_dir)) (\<lambda>legacy_entries.
     and_then (map_err FatalError (ensure_count (length legacy_entries))) (\<lambda>_.
     and_then (plan_entries env store dir current_by_name legacy_entries
       \<lparr>mp_total_bytes = 0, mp_migrated_bytes = 0, mp_preserved_bytes = 0, mp_preserved_count = 0,
        mp_occupied = current_entries, mp_uuids = 0, mp_migrations = []\<rparr>) (\<lambda>plan.
     (let projected_count = length current_by_name + migrated_count (mp_migrations plan) + mp_preserved_count plan;
          projected_bytes = current_total_bytes + mp_migrated_bytes plan + mp_preserved_bytes plan in
     and_then (ensure (projected_count \<le> MAX_NAMED_DRAFTS) (FatalError
       (''named draft migration would contain '' @ show_nat projected_count @ '' JSON files; limit is '' @
        show_nat MAX_NAMED_DRAFTS))) (\<lambda>_.
     and_then (ensure (projected_bytes \<le> MAX_NAMED_DRAFT_TOTAL_BYTES) (FatalError
       (''named draft migration would use '' @ show_nat projected_bytes @ '' bytes; limit is '' @
        show_nat MAX_NAMED_DRAFT_TOTAL_BYTES))) (\<lambda>_.
     Inr (mp_migrations plan))))))))))"

definition migrate_one :: "draft_env \<Rightarrow> legacy_migration \<Rightarrow> draft_store \<Rightarrow> (string + unit) \<times> draft_store" where
  "migrate_one env migration store =
     (case lg_destination migration of
        None \<Rightarrow> remove_file_if_present env (lg_source migration) store
      | Some destination \<Rightarrow>
          (case atomic_write_durable env destination (lg_bytes migration) store of
             (Inl err, store) \<Rightarrow> (Inl err, store)
           | (Inr _, store) \<Rightarrow> remove_file_if_present env (lg_source migration) store))"

fun run_migrations :: "draft_env \<Rightarrow> legacy_migration list \<Rightarrow> draft_store \<Rightarrow> (string + unit) \<times> draft_store" where
  "run_migrations env [] store = (Inr (), store)"
| "run_migrations env (migration # migrations) store =
     (case migrate_one env migration store of
        (Inl err, store) \<Rightarrow> (Inl err, store)
      | (Inr _, store) \<Rightarrow> run_migrations env migrations store)"

definition migrate_legacy_named_drafts ::
  "draft_env \<Rightarrow> string \<Rightarrow> string \<Rightarrow> draft_store \<Rightarrow> (legacy_migration_error + nat) \<times> draft_store" where
  "migrate_legacy_named_drafts env dir legacy_dir store =
     (case plan_migration env store dir legacy_dir of
        Inl err \<Rightarrow> (Inl err, store)
      | Inr migrations \<Rightarrow>
          (case (if migrated_count migrations > 0 then ensure_private_directory env dir else Inr ()) of
             Inl err \<Rightarrow> (Inl (FatalError err), store)
           | Inr _ \<Rightarrow>
               (case run_migrations env migrations store of
                  (Inl err, store) \<Rightarrow> (Inl (FatalError err), store)
                | (Inr _, store) \<Rightarrow> (Inr (migrated_count migrations), store))))"

section \<open>Warnings\<close>

record load_warnings =
  lw_rejected_entries :: nat
  lw_migration_failed :: bool
  lw_details :: "string list"

definition no_warnings :: load_warnings where
  "no_warnings = \<lparr>lw_rejected_entries = 0, lw_migration_failed = False, lw_details = []\<rparr>"

text \<open>The ellipsis, three bytes in UTF-8.\<close>

definition ellipsis :: string where "ellipsis = [CHR 0xE2, CHR 0x80, CHR 0xA6]"

fun back_to_boundary :: "string \<Rightarrow> nat \<Rightarrow> nat" where
  "back_to_boundary value' 0 = 0"
| "back_to_boundary value' (Suc n) =
     (if Suc n < length value' \<and> is_cont (value' ! Suc n) then back_to_boundary value' n else Suc n)"

definition truncate_utf8 :: "string \<Rightarrow> nat \<Rightarrow> string" where
  "truncate_utf8 value' max_bytes =
     (if length value' \<le> max_bytes then value'
      else take (back_to_boundary value' (min (max_bytes - length ellipsis) (length value'))) value' @ ellipsis)"

definition push_detail :: "string \<Rightarrow> load_warnings \<Rightarrow> load_warnings" where
  "push_detail detail warnings =
     (if length (lw_details warnings) < MAX_NAMED_DRAFT_WARNING_DETAILS
      then warnings\<lparr>lw_details := lw_details warnings @ [truncate_utf8 detail (MAX_NAMED_DRAFT_WARNING_BYTES div 4)]\<rparr>
      else warnings)"

definition reject :: "draft_path \<Rightarrow> string \<Rightarrow> load_warnings \<Rightarrow> load_warnings" where
  "reject path err warnings =
     push_detail (show_path path @ '': '' @ err) (warnings\<lparr>lw_rejected_entries := lw_rejected_entries warnings + 1\<rparr>)"

definition migration_failed :: "string \<Rightarrow> load_warnings \<Rightarrow> load_warnings" where
  "migration_failed err warnings = push_detail (''legacy migration: '' @ err) (warnings\<lparr>lw_migration_failed := True\<rparr>)"

definition append_warnings :: "load_warnings \<Rightarrow> load_warnings \<Rightarrow> load_warnings" where
  "append_warnings warnings other =
     fold push_detail (lw_details other)
       (warnings\<lparr>lw_rejected_entries := lw_rejected_entries warnings + lw_rejected_entries other,
                 lw_migration_failed := lw_migration_failed warnings \<or> lw_migration_failed other\<rparr>)"

definition plural :: "nat \<Rightarrow> string" where
  "plural n = (if n = 1 then [] else ''s'')"

definition into_message :: "load_warnings \<Rightarrow> string option" where
  "into_message warnings =
     (let n = lw_rejected_entries warnings;
          issue_count = n + (if lw_migration_failed warnings then 1 else 0) in
      if issue_count = 0 then None
      else (let message = (
                if lw_migration_failed warnings
                then (if n = 0 then ''legacy named-draft migration could not complete''
                      else ''legacy named-draft migration could not complete and '' @ show_nat n @ '' named draft'' @
                           plural n @ '' were rejected'')
                else ''rejected '' @ show_nat n @ '' unreadable, oversized, or malformed named draft'' @ plural n);
              message = (if lw_details warnings = [] then message else message @ '': '' @ join ''; '' (lw_details warnings));
              omitted = issue_count - length (lw_details warnings);
              message = (if omitted > 0 then message @ ''; '' @ show_nat omitted @ '' additional issue(s) omitted'' else message) in
            Some (truncate_utf8 message MAX_NAMED_DRAFT_WARNING_BYTES)))"

section \<open>Listing the drafts\<close>

record named_draft_entry =
  ne_modified :: "nat option"
  ne_path :: draft_path
  ne_fields :: compose_fields

record scan_progress =
  sp_drafts :: "named_draft_entry list"
  sp_total_bytes :: nat
  sp_seen :: "(string \<times> string) list"
  sp_warnings :: load_warnings

definition reject_entry :: "draft_path \<Rightarrow> string \<Rightarrow> scan_progress \<Rightarrow> scan_progress" where
  "reject_entry path err progress = progress\<lparr>sp_warnings := reject path err (sp_warnings progress)\<rparr>"

definition per_entry_limit :: string where
  "per_entry_limit = ''exceeds the '' @ show_nat MAX_NAMED_DRAFT_BYTES @ ''-byte per-entry limit''"

definition scan_content ::
  "draft_env \<Rightarrow> draft_path \<Rightarrow> nat option \<Rightarrow> string \<Rightarrow> scan_progress \<Rightarrow> scan_progress" where
  "scan_content env path modified bytes progress =
     (if length bytes > MAX_NAMED_DRAFT_BYTES then reject_entry path per_entry_limit progress
      else (case dn_parse env bytes of
              Inl err \<Rightarrow> reject_entry path (''parsing JSON: '' @ err) progress
            | Inr draft \<Rightarrow>
                if (snd path, bytes) \<in> set (sp_seen progress) then progress
                else progress\<lparr>sp_seen := (snd path, bytes) # sp_seen progress,
                              sp_drafts := sp_drafts progress @
                                [\<lparr>ne_modified = modified, ne_path = path, ne_fields = draft\<rparr>]\<rparr>))"

definition scan_entry :: "draft_env \<Rightarrow> draft_store \<Rightarrow> draft_path \<Rightarrow> scan_progress \<Rightarrow> string + scan_progress" where
  "scan_entry env store path progress =
     (case map_of store path of
        None \<Rightarrow> Inr (reject_entry path ''reading metadata: not found'' progress)
      | Some node \<Rightarrow>
          (case nd_metadata node of
             Inl err \<Rightarrow> Inr (reject_entry path (''reading metadata: '' @ err) progress)
           | Inr False \<Rightarrow> Inr (reject_entry path ''entry is not a regular file'' progress)
           | Inr True \<Rightarrow>
               (case read_named_draft store path of
                  Inl err \<Rightarrow> Inr (reject_entry path err progress)
                | Inr bytes \<Rightarrow>
                    map_ok (\<lambda>total_bytes. scan_content env path (nd_modified node) bytes (progress\<lparr>sp_total_bytes := total_bytes\<rparr>))
                      (charge_named_draft_bytes (sp_total_bytes progress) (length bytes)))))"

fun scan_entries :: "draft_env \<Rightarrow> draft_store \<Rightarrow> draft_path list \<Rightarrow> scan_progress \<Rightarrow> string + scan_progress" where
  "scan_entries env store [] progress = Inr progress"
| "scan_entries env store (path # paths) progress =
     and_then (scan_entry env store path progress) (scan_entries env store paths)"

text \<open>\<open>sort\_by\_key(Reverse(modified))\<close> is stable.\<close>

definition newest_first :: "named_draft_entry list \<Rightarrow> named_draft_entry list" where
  "newest_first drafts = rev (sort_key ne_modified (rev drafts))"

definition scan_named_drafts ::
  "draft_env \<Rightarrow> draft_store \<Rightarrow> string \<Rightarrow> string option \<Rightarrow> string + (named_draft_entry list \<times> load_warnings)" where
  "scan_named_drafts env store dir legacy_dir =
     and_then (json_entries env store dir) (\<lambda>paths.
     and_then (case legacy_dir of Some legacy_dir \<Rightarrow> json_entries env store legacy_dir | None \<Rightarrow> Inr []) (\<lambda>legacy_paths.
     and_then (ensure_count (length (paths @ legacy_paths))) (\<lambda>_.
     map_ok (\<lambda>progress. (newest_first (sp_drafts progress), sp_warnings progress))
       (scan_entries env store (paths @ legacy_paths)
         \<lparr>sp_drafts = [], sp_total_bytes = 0, sp_seen = [], sp_warnings = no_warnings\<rparr>))))"

record named_draft_load =
  nl_drafts :: "named_draft_entry list"
  nl_migrated :: nat
  nl_warning :: "string option"

definition migrate_before_load ::
  "draft_env \<Rightarrow> string \<Rightarrow> string option \<Rightarrow> bool \<Rightarrow> draft_store \<Rightarrow> (legacy_migration_error + nat) \<times> draft_store" where
  "migrate_before_load env dir legacy_dir migrate_legacy store =
     (case legacy_dir of
        Some legacy_dir \<Rightarrow> if migrate_legacy then migrate_legacy_named_drafts env dir legacy_dir store else (Inr 0, store)
      | None \<Rightarrow> (Inr 0, store))"

definition load_scanned ::
  "draft_env \<Rightarrow> string \<Rightarrow> string option \<Rightarrow> nat \<Rightarrow> load_warnings \<Rightarrow> draft_store \<Rightarrow> string + named_draft_load" where
  "load_scanned env dir legacy_dir migrated warnings store =
     map_ok (\<lambda>(drafts, scanned).
       \<lparr>nl_drafts = drafts, nl_migrated = migrated, nl_warning = into_message (append_warnings warnings scanned)\<rparr>)
       (scan_named_drafts env store dir legacy_dir)"

definition load_named_drafts ::
  "draft_env \<Rightarrow> string \<Rightarrow> string option \<Rightarrow> bool \<Rightarrow> draft_store \<Rightarrow> (string + named_draft_load) \<times> draft_store" where
  "load_named_drafts env dir legacy_dir migrate_legacy store =
     (case migrate_before_load env dir legacy_dir migrate_legacy store of
        (Inr migrated, store) \<Rightarrow> (load_scanned env dir legacy_dir migrated no_warnings store, store)
      | (Inl (RejectedEntry err), store) \<Rightarrow>
          (load_scanned env dir legacy_dir 0 (migration_failed err no_warnings) store, store)
      | (Inl (FatalError err), store) \<Rightarrow> (Inl err, store))"

section \<open>Saving a draft\<close>

definition check_replacement :: "draft_store \<Rightarrow> string \<Rightarrow> draft_path list \<Rightarrow> draft_path option \<Rightarrow> string + unit" where
  "check_replacement store dir paths replaced =
     (case replaced of
        None \<Rightarrow> Inr ()
      | Some path \<Rightarrow>
          and_then (ensure (fst path = dir \<and> has_json_extension (snd path) \<and> path \<in> set paths)
            (''replacement named draft '' @ show_path path @ '' is not an existing JSON file directly in '' @ from_utf8_lossy dir))
          (\<lambda>_. case map_option nd_metadata (map_of store path) of
             Some (Inr is_file) \<Rightarrow>
               ensure is_file (''replacement named draft '' @ show_path path @ '' is not a file'')
           | _ \<Rightarrow> Inl (''reading replacement named draft metadata for '' @ show_path path)))"

text \<open>The bytes of the current entries, each of which must be readable, and of the replaced one.\<close>

fun charge_current ::
  "draft_store \<Rightarrow> draft_path option \<Rightarrow> draft_path list \<Rightarrow> nat \<times> nat \<Rightarrow> string + (nat \<times> nat)" where
  "charge_current store replaced [] totals = Inr totals"
| "charge_current store replaced (path # paths) (total_bytes, replaced_bytes) =
     and_then (read_bounded_draft store path total_bytes) (\<lambda>(bytes, total_bytes).
       charge_current store replaced paths
         (total_bytes, if replaced = Some path then length bytes else replaced_bytes))"

fun charge_legacy :: "draft_store \<Rightarrow> draft_path list \<Rightarrow> nat \<Rightarrow> string + nat" where
  "charge_legacy store [] total_bytes = Inr total_bytes"
| "charge_legacy store (path # paths) total_bytes =
     (case read_named_draft store path of
        Inl _ \<Rightarrow> charge_legacy store paths total_bytes
      | Inr bytes \<Rightarrow> and_then (charge_named_draft_bytes total_bytes (length bytes)) (charge_legacy store paths))"

definition legacy_paths_of :: "draft_env \<Rightarrow> draft_store \<Rightarrow> string \<Rightarrow> string option \<Rightarrow> string + draft_path list" where
  "legacy_paths_of env store dir legacy_dir =
     (case legacy_dir of
        Some legacy_dir \<Rightarrow> if legacy_dir \<noteq> dir then json_entries env store legacy_dir else Inr []
      | None \<Rightarrow> Inr [])"

definition projected_fits :: "nat \<Rightarrow> nat \<Rightarrow> nat \<Rightarrow> string + unit" where
  "projected_fits total_bytes replaced_bytes serialized_bytes =
     (let projected_bytes = total_bytes - replaced_bytes + serialized_bytes in
      ensure (projected_bytes \<le> MAX_NAMED_DRAFT_TOTAL_BYTES)
        (''named draft save would use '' @ show_nat projected_bytes @ '' bytes; limit is '' @
         show_nat MAX_NAMED_DRAFT_TOTAL_BYTES))"

definition ensure_named_draft_save_fits ::
  "draft_env \<Rightarrow> draft_store \<Rightarrow> string \<Rightarrow> string option \<Rightarrow> draft_path option \<Rightarrow> nat \<Rightarrow> string + unit" where
  "ensure_named_draft_save_fits env store dir legacy_dir replaced serialized_bytes =
     and_then (ensure (serialized_bytes \<le> MAX_NAMED_DRAFT_BYTES)
       (''named draft serializes to '' @ show_nat serialized_bytes @ '' bytes; limit is '' @ show_nat MAX_NAMED_DRAFT_BYTES)) (\<lambda>_.
     and_then (json_entries env store dir) (\<lambda>paths.
     and_then (legacy_paths_of env store dir legacy_dir) (\<lambda>legacy_paths.
     (let existing_count = length paths + length legacy_paths;
          projected_count = existing_count + (if replaced = None then 1 else 0) in
     and_then (ensure_count existing_count) (\<lambda>_.
     and_then (check_replacement store dir paths replaced) (\<lambda>_.
     and_then (ensure (projected_count \<le> MAX_NAMED_DRAFTS)
       (''named draft save would contain '' @ show_nat projected_count @ '' JSON files; limit is '' @ show_nat MAX_NAMED_DRAFTS)) (\<lambda>_.
     and_then (charge_current store replaced paths (0, 0)) (\<lambda>(total_bytes, replaced_bytes).
     and_then (charge_legacy store legacy_paths total_bytes) (\<lambda>total_bytes.
       projected_fits total_bytes replaced_bytes serialized_bytes))))))))) "

text \<open>Characters that are not ASCII letters or digits become dashes; dashes at the ends go.\<close>

definition widget_token :: "string \<Rightarrow> string" where
  "widget_token value' =
     (let mapped = map (\<lambda>c. if is_ascii_alphanumeric c then to_ascii_lower c else CHR ''-'')
            (map hd (char_slices value')) in
      rev (dropWhile (\<lambda>c. c = CHR ''-'') (rev (dropWhile (\<lambda>c. c = CHR ''-'') mapped))))"

definition new_draft_name :: "draft_env \<Rightarrow> compose_fields \<Rightarrow> string" where
  "new_draft_name env draft =
     (let slug = widget_token (cf_subject draft);
          slug = (if slug = [] then ''untitled'' else take 32 slug) in
      dn_stamp env @ ''-'' @ slug @ ''-'' @ dn_uuid env 0 @ ''.json'')"

definition bytes_to_save ::
  "draft_env \<Rightarrow> string \<Rightarrow> string option \<Rightarrow> compose_fields \<Rightarrow> draft_path option \<Rightarrow> draft_store \<Rightarrow> string + string" where
  "bytes_to_save env dir legacy_dir draft replaced store =
     and_then (ensure (fields_has_content draft) ''draft has no content'') (\<lambda>_.
     and_then (dn_serialize env draft) (\<lambda>bytes.
     and_then (ensure_named_draft_save_fits env store dir legacy_dir replaced (length bytes)) (\<lambda>_.
     map_ok (\<lambda>_. bytes) (ensure_private_directory env dir))))"

definition save_named_draft_fields ::
  "draft_env \<Rightarrow> string \<Rightarrow> string option \<Rightarrow> compose_fields \<Rightarrow> draft_path option \<Rightarrow> draft_store \<Rightarrow>
   (string + draft_path) \<times> draft_store" where
  "save_named_draft_fields env dir legacy_dir draft replaced store =
     (case bytes_to_save env dir legacy_dir draft replaced store of
        Inl err \<Rightarrow> (Inl err, store)
      | Inr bytes \<Rightarrow>
          (let path = (case replaced of Some path \<Rightarrow> path | None \<Rightarrow> (dir, new_draft_name env draft)) in
           case atomic_write_durable env path bytes store of
             (Inl err, store) \<Rightarrow> (Inl err, store)
           | (Inr _, store) \<Rightarrow> (Inr path, store)))"

section \<open>A migration loses no draft\<close>

lemma json_paths_iff: "path \<in> set (json_paths dir store) \<longleftrightarrow>
    fst path = dir \<and> has_json_extension (snd path) \<and> path \<in> fst ` set store"
  by (auto simp: json_paths_def)

lemma json_entries_Inr: "json_entries env store dir = Inr paths \<longleftrightarrow>
    dn_list_error env dir = None \<and> paths = json_paths dir store \<and> length paths \<le> MAX_NAMED_DRAFTS"
  by (auto simp: json_entries_def Let_def split: option.splits)

lemma read_named_draft_Inr: "read_named_draft store path = Inr bytes \<longleftrightarrow>
    (\<exists>node content. map_of store path = Some node \<and> nd_content node = Inr content \<and>
       bytes = take (MAX_NAMED_DRAFT_BYTES + 1) content)"
  by (auto simp: read_named_draft_def split: option.splits sum.splits)

text \<open>A file read within the limit was read to its end.\<close>

lemma read_for_migration_whole:
  assumes "read_bounded_for_migration store path sofar = (Inr bytes, sofar')"
  shows "\<exists>node. map_of store path = Some node \<and> nd_content node = Inr bytes"
proof -
  have "read_named_draft store path = Inr bytes" "length bytes \<le> MAX_NAMED_DRAFT_BYTES"
    using assms by (auto simp: read_bounded_for_migration_def split: sum.splits if_splits)
  then show ?thesis by (auto simp: read_named_draft_Inr)
qed

lemma read_current_drafts_whole:
  "read_current_drafts store paths sofar = Inr (by_name, sofar') \<Longrightarrow>
   map fst by_name = map snd paths \<and>
   (\<forall>(name, bytes) \<in> set by_name. \<exists>path \<in> set paths. snd path = name \<and>
      (\<exists>node. map_of store path = Some node \<and> nd_content node = Inr bytes))"
proof (induction paths arbitrary: sofar by_name)
  case (Cons path paths)
  obtain bytes total1 rest where r: "read_bounded_for_migration store path sofar = (Inr bytes, total1)"
    and rest: "read_current_drafts store paths total1 = Inr (rest, sofar')" and b: "by_name = (snd path, bytes) # rest"
    using Cons.prems by (auto simp: result_simps split: prod.splits sum.splits)
  from Cons.IH [OF rest] read_for_migration_whole [OF r] show ?case by (auto simp: b)
qed simp

definition uuids_fresh :: "draft_env \<Rightarrow> draft_store \<Rightarrow> bool" where
  "uuids_fresh env store \<longleftrightarrow>
     inj (dn_uuid env) \<and>
     (\<forall>path \<in> fst ` set store. \<forall>n filename. snd path \<noteq> ''legacy-'' @ dn_uuid env n @ ''-'' @ from_utf8_lossy filename)"

text \<open>The bounded search for a destination that is not occupied finds one.\<close>

lemma unoccupied_found:
  assumes "inj (dn_uuid env)"
  shows "card {k. n \<le> k \<and> legacy_destination env dir filename k \<in> set occupied} \<le> fuel \<Longrightarrow>
    unoccupied_destination env dir filename occupied fuel n = (d, m) \<Longrightarrow>
    d \<notin> set occupied \<and> (\<exists>k. d = legacy_destination env dir filename k)"
proof (induction fuel arbitrary: n)
  let ?taken = "\<lambda>n. {k. n \<le> k \<and> legacy_destination env dir filename k \<in> set occupied}"
  have inj: "inj (legacy_destination env dir filename)"
    using assms by (auto simp: inj_def legacy_destination_def)
  have finite: "finite (?taken n)" for n
  proof -
    have "?taken n \<subseteq> legacy_destination env dir filename -` set occupied" by auto
    then show ?thesis using finite_vimageI [OF finite_set inj] finite_subset by blast
  qed
  {
    case 0
    then have "?taken n = {}" using finite by simp
    then have "legacy_destination env dir filename n \<notin> set occupied" by blast
    then show ?case using 0 by auto
  next
    case (Suc fuel)
    show ?case
    proof (cases "legacy_destination env dir filename n \<in> set occupied")
      case True
      have "?taken n = insert n (?taken (n + 1))" using True by (auto simp: Suc_le_eq le_less)
      moreover have "n \<notin> ?taken (n + 1)" by simp
      ultimately have "card (?taken (n + 1)) \<le> fuel" using Suc.prems(1) finite [of "n + 1"] by simp
      then show ?thesis using Suc.IH Suc.prems(2) True by simp
    next
      case False
      then show ?thesis using Suc.prems(2) by auto
    qed
  }
qed

lemma unoccupied_fuel:
  assumes "inj (dn_uuid env)"
  shows "card {k. n \<le> k \<and> legacy_destination env dir filename k \<in> set occupied} \<le> length occupied"
proof -
  let ?S = "{k. n \<le> k \<and> legacy_destination env dir filename k \<in> set occupied}"
  have inj: "inj_on (legacy_destination env dir filename) ?S"
    using assms by (auto simp: inj_on_def inj_def legacy_destination_def)
  have "card ?S = card (legacy_destination env dir filename ` ?S)" using card_image [OF inj] by simp
  also have "\<dots> \<le> card (set occupied)" by (intro card_mono) auto
  also have "\<dots> \<le> length occupied" by (rule card_length)
  finally show ?thesis .
qed

text \<open>What a planned migration promises.\<close>

definition migration_sound :: "draft_store \<Rightarrow> string \<Rightarrow> string \<Rightarrow> legacy_migration \<Rightarrow> bool" where
  "migration_sound store dir legacy_dir m \<longleftrightarrow>
     fst (lg_source m) = legacy_dir \<and>
     (\<exists>node. map_of store (lg_source m) = Some node \<and> nd_content node = Inr (lg_bytes m)) \<and>
     (case lg_destination m of
        Some d \<Rightarrow> fst d = dir \<and> d \<notin> fst ` set store
      | None \<Rightarrow> \<exists>path node. fst path = dir \<and> map_of store path = Some node \<and> nd_content node = Inr (lg_bytes m))"

definition destinations :: "legacy_migration list \<Rightarrow> draft_path list" where
  "destinations ms = concat (map (\<lambda>m. case lg_destination m of Some d \<Rightarrow> [d] | None \<Rightarrow> []) ms)"

lemma destinations_simps [simp]:
  "destinations [] = []"
  "destinations (m # ms) = (case lg_destination m of Some d \<Rightarrow> [d] | None \<Rightarrow> []) @ destinations ms"
  "destinations (ms @ ms') = destinations ms @ destinations ms'"
  by (simp_all add: destinations_def)

text \<open>A destination is the plain name of its source, or one with a fresh identifier.\<close>

definition plan_sound :: "draft_env \<Rightarrow> draft_store \<Rightarrow> string \<Rightarrow> string \<Rightarrow> draft_path list \<Rightarrow> migration_plan \<Rightarrow> bool" where
  "plan_sound env store dir legacy_dir seen plan \<longleftrightarrow>
     list_all (migration_sound store dir legacy_dir) (mp_migrations plan) \<and>
     distinct (map lg_source (mp_migrations plan)) \<and> set (map lg_source (mp_migrations plan)) \<subseteq> set seen \<and>
     distinct (destinations (mp_migrations plan)) \<and> set (destinations (mp_migrations plan)) \<subseteq> set (mp_occupied plan) \<and>
     (\<forall>d \<in> set (destinations (mp_migrations plan)).
        d \<in> (\<lambda>source. (dir, snd source)) ` set seen \<or> (\<exists>filename k. d = legacy_destination env dir filename k))"

lemma plan_entry_sound:
  assumes ok: "plan_entry env store dir by_name source plan = Inr plan'"
    and sound: "plan_sound env store dir legacy_dir seen plan"
    and current: "map fst by_name = map snd (json_paths dir store)"
      "\<forall>(name, bytes) \<in> set by_name. \<exists>path \<in> set (json_paths dir store). snd path = name \<and>
         (\<exists>node. map_of store path = Some node \<and> nd_content node = Inr bytes)"
    and source: "source \<in> set (json_paths legacy_dir store)" "source \<notin> set seen"
    and seen: "set seen \<subseteq> set (json_paths legacy_dir store)"
    and fresh: "uuids_fresh env store"
  shows "plan_sound env store dir legacy_dir (seen @ [source]) plan'"
proof -
  have same: "plan_sound env store dir legacy_dir (seen @ [source]) p"
    if "mp_migrations p = mp_migrations plan" "mp_occupied p = mp_occupied plan" for p
    using sound that by (auto simp: plan_sound_def)
  obtain r sofar where r: "read_bounded_for_migration store source (mp_total_bytes plan) = (r, sofar)" by fastforce
  show ?thesis
  proof (cases r)
    case (Inl err)
    then show ?thesis using ok r same by (cases err) (auto simp: plan_entry_def preserve_def)
  next
    case (Inr bytes)
    show ?thesis
    proof (cases "isl (dn_parse env bytes)")
      case True
      then show ?thesis using ok r Inr same by (auto simp: plan_entry_def preserve_def Let_def)
    next
      case False
      define plan1 where "plan1 = plan\<lparr>mp_total_bytes := sofar\<rparr>"
      obtain d n where d: "choose_destination env dir by_name source bytes plan1 = (d, n)" by fastforce
      let ?m = "\<lparr>lg_source = source, lg_destination = d, lg_bytes = bytes\<rparr>"
      have plan': "mp_migrations plan' = mp_migrations plan @ [?m]"
          "mp_occupied plan' = (case d of Some d \<Rightarrow> d # mp_occupied plan | None \<Rightarrow> mp_occupied plan)"
        using ok r Inr False d by (auto simp: plan_entry_def Let_def plan1_def split: option.splits)
      note whole = read_for_migration_whole [OF r [unfolded Inr]]
      have source_dir: "fst source = legacy_dir" "has_json_extension (snd source)" "source \<in> fst ` set store"
        using source(1) by (simp_all add: json_paths_iff)
      have fresh_d: "case d of
          Some d \<Rightarrow> fst d = dir \<and> d \<notin> fst ` set store \<and> d \<notin> set (destinations (mp_migrations plan)) \<and>
            (d = (dir, snd source) \<or> (\<exists>filename k. d = legacy_destination env dir filename k))
        | None \<Rightarrow> \<exists>path node. fst path = dir \<and> map_of store path = Some node \<and> nd_content node = Inr bytes"
      proof (cases "map_of by_name (snd source)")
        case None
        then have "d = Some (dir, snd source)" using d by (auto simp: choose_destination_def)
        moreover have "(dir, snd source) \<notin> fst ` set store"
        proof
          assume "(dir, snd source) \<in> fst ` set store"
          then have "(dir, snd source) \<in> set (json_paths dir store)" using source_dir by (simp add: json_paths_iff)
          then have "snd (dir, snd source) \<in> snd ` set (json_paths dir store)" by (rule imageI)
          then have "snd source \<in> set (map snd (json_paths dir store))" by simp
          then have "snd source \<in> set (map fst by_name)" using current(1) by simp
          then show False using None by (simp add: map_of_eq_None_iff)
        qed
        moreover have "(dir, snd source) \<notin> set (destinations (mp_migrations plan))"
        proof
          assume "(dir, snd source) \<in> set (destinations (mp_migrations plan))"
          then consider "(dir, snd source) \<in> (\<lambda>s. (dir, snd s)) ` set seen"
            | filename k where "(dir, snd source) = legacy_destination env dir filename k"
            using sound unfolding plan_sound_def by blast
          then show False
          proof cases
            case 1
            then obtain s where "s \<in> set seen" "snd s = snd source" by auto
            moreover have "fst s = fst source" using \<open>s \<in> set seen\<close> seen source_dir by (auto simp: json_paths_iff)
            ultimately show False using source(2) by (metis prod.expand)
          next
            case 2
            then show False using fresh source_dir(3) by (auto simp: uuids_fresh_def legacy_destination_def)
          qed
        qed
        ultimately show ?thesis by simp
      next
        case (Some other)
        show ?thesis
        proof (cases "other = bytes")
          case True
          then have "d = None" using d Some by (auto simp: choose_destination_def)
          have "(snd source, bytes) \<in> set by_name" using Some True map_of_SomeD by fastforce
          then obtain path node where "path \<in> set (json_paths dir store)" "map_of store path = Some node"
              "nd_content node = Inr bytes"
            using current(2) by blast
          moreover have "fst path = dir" using \<open>path \<in> _\<close> by (simp add: json_paths_iff)
          ultimately show ?thesis unfolding \<open>d = None\<close> option.case by blast
        next
          case False
          then obtain dd where un: "unoccupied_destination env dir (snd source) (mp_occupied plan) (length (mp_occupied plan))
              (mp_uuids plan) = (dd, n)" and d': "d = Some dd"
            using d Some by (auto simp: choose_destination_def plan1_def split: prod.splits)
          have "inj (dn_uuid env)" using fresh by (simp add: uuids_fresh_def)
          from unoccupied_found [OF this unoccupied_fuel [OF this] un]
          obtain k where k: "dd \<notin> set (mp_occupied plan)" "dd = legacy_destination env dir (snd source) k" by blast
          have "dd \<notin> fst ` set store"
            using fresh k(2) unfolding uuids_fresh_def legacy_destination_def by force
          moreover have "dd \<notin> set (destinations (mp_migrations plan))" using k(1) sound unfolding plan_sound_def by blast
          moreover have "fst dd = dir" by (simp add: k(2) legacy_destination_def)
          ultimately show ?thesis using k(2) unfolding d' option.case by blast
        qed
      qed
      then have "migration_sound store dir legacy_dir ?m"
        using whole source_dir(1) unfolding migration_sound_def by (cases d) simp_all
      then show ?thesis
        using sound fresh_d source(2) unfolding plan_sound_def plan'
        by (auto split: option.splits)
    qed
  qed
qed

lemma plan_entries_sound:
  assumes "plan_entries env store dir by_name sources plan = Inr plan'"
    and "plan_sound env store dir legacy_dir seen plan"
    and current: "map fst by_name = map snd (json_paths dir store)"
      "\<forall>(name, bytes) \<in> set by_name. \<exists>path \<in> set (json_paths dir store). snd path = name \<and>
         (\<exists>node. map_of store path = Some node \<and> nd_content node = Inr bytes)"
    and "seen @ sources = json_paths legacy_dir store" "distinct (seen @ sources)"
    and fresh: "uuids_fresh env store"
  shows "plan_sound env store dir legacy_dir (seen @ sources) plan'"
  using assms(1,2,5,6)
proof (induction sources arbitrary: seen plan)
  case (Cons source sources)
  obtain plan1 where p: "plan_entry env store dir by_name source plan = Inr plan1"
    and rest: "plan_entries env store dir by_name sources plan1 = Inr plan'"
    using Cons.prems(1) by (auto simp: result_simps)
  have listed: "set (seen @ source # sources) = set (json_paths legacy_dir store)" using Cons.prems(3) by simp
  have "plan_sound env store dir legacy_dir (seen @ [source]) plan1"
    by (rule plan_entry_sound [OF p Cons.prems(2) current _ _ _ fresh]) (use Cons.prems(4) listed in auto)
  from Cons.IH [OF rest this] Cons.prems(3,4) show ?case by simp
qed simp

lemma plan_migration_sound:
  assumes "plan_migration env store dir legacy_dir = Inr ms" "distinct (map fst store)" "uuids_fresh env store"
  shows "list_all (migration_sound store dir legacy_dir) ms \<and> distinct (map lg_source ms) \<and> distinct (destinations ms)"
proof -
  let ?start = "\<lparr>mp_total_bytes = 0, mp_migrated_bytes = 0, mp_preserved_bytes = 0, mp_preserved_count = 0,
        mp_occupied = json_paths dir store, mp_uuids = 0, mp_migrations = []\<rparr>"
  obtain by_name n plan where current: "read_current_drafts store (json_paths dir store) 0 = Inr (by_name, n)"
    and entries: "plan_entries env store dir by_name (json_paths legacy_dir store) ?start = Inr plan"
    and ms: "ms = mp_migrations plan"
    using assms(1) by (auto simp: plan_migration_def result_simps Let_def json_entries_Inr)
  have start: "plan_sound env store dir legacy_dir [] ?start" by (simp add: plan_sound_def)
  have "distinct ([] @ json_paths legacy_dir store)" using assms(2) by (simp add: json_paths_def)
  from plan_entries_sound [OF entries start _ _ _ this assms(3)] read_current_drafts_whole [OF current]
  show ?thesis by (simp add: plan_sound_def ms)
qed

text \<open>What one migration does to the store, whether or not it succeeds.\<close>

lemma migrate_one_effect:
  assumes "migrate_one env m store = (r, store')"
  shows "path \<noteq> lg_source m \<Longrightarrow> path \<notin> set (destinations [m]) \<Longrightarrow> map_of store' path = map_of store path"
    and "lg_source m \<notin> set (destinations [m]) \<Longrightarrow>
      map_of store' (lg_source m) = map_of store (lg_source m) \<or>
      (case lg_destination m of None \<Rightarrow> True
       | Some d \<Rightarrow> map_of store' d = Some (regular_file (dn_now env) (lg_bytes m)))"
  using assms
  by (auto simp: migrate_one_def remove_file_if_present_def atomic_write_durable_def Let_def delete_conv' update_conv'
      split: option.splits prod.splits sum.splits if_splits)

text \<open>Where the bytes of a migration are after the run: at their source or in the current directory.\<close>

definition kept :: "draft_store \<Rightarrow> draft_store \<Rightarrow> string \<Rightarrow> legacy_migration \<Rightarrow> bool" where
  "kept store store' dir m \<longleftrightarrow>
     map_of store' (lg_source m) = map_of store (lg_source m) \<or>
     (\<exists>copy node. fst copy = dir \<and> map_of store' copy = Some node \<and> nd_content node = Inr (lg_bytes m))"

lemma in_destinations: "m \<in> set ms \<Longrightarrow> lg_destination m = Some d \<Longrightarrow> d \<in> set (destinations ms)"
  unfolding destinations_def by (cases d) (auto intro!: bexI [of _ m])

lemma destinations_of: "d \<in> set (destinations ms) \<Longrightarrow> \<exists>m \<in> set ms. lg_destination m = Some d"
  by (induction ms) (auto split: option.splits)

definition movable :: "draft_store \<Rightarrow> string \<Rightarrow> string \<Rightarrow> legacy_migration \<Rightarrow> bool" where
  "movable store dir legacy_dir m \<longleftrightarrow>
     fst (lg_source m) = legacy_dir \<and>
     (case lg_destination m of
        Some d \<Rightarrow> fst d = dir \<and> map_of store d = None
      | None \<Rightarrow> \<exists>path node. fst path = dir \<and> map_of store path = Some node \<and> nd_content node = Inr (lg_bytes m))"

lemma movable_None: "lg_destination m = None \<Longrightarrow> movable store dir legacy_dir m \<longleftrightarrow>
    fst (lg_source m) = legacy_dir \<and>
    (\<exists>path node. fst path = dir \<and> map_of store path = Some node \<and> nd_content node = Inr (lg_bytes m))"
  by (simp only: movable_def option.case)

lemma movable_Some: "lg_destination m = Some d \<Longrightarrow> movable store dir legacy_dir m \<longleftrightarrow>
    fst (lg_source m) = legacy_dir \<and> fst d = dir \<and> map_of store d = None"
  by (simp only: movable_def option.case)

lemma run_migrations_effect:
  "run_migrations env ms store = (r, store') \<Longrightarrow> list_all (movable store dir legacy_dir) ms \<Longrightarrow>
   distinct (map lg_source ms) \<Longrightarrow> distinct (destinations ms) \<Longrightarrow> dir \<noteq> legacy_dir \<Longrightarrow>
   (\<forall>path. path \<notin> lg_source ` set ms \<longrightarrow> path \<notin> set (destinations ms) \<longrightarrow> map_of store' path = map_of store path) \<and>
   list_all (kept store store' dir) ms"
proof (induction ms arbitrary: store)
  case Nil
  then show ?case by simp
next
  case (Cons m ms)
  have movable: "movable store dir legacy_dir m" "list_all (movable store dir legacy_dir) ms" using Cons.prems(2) by simp_all
  have in_dir: "fst d = dir" if "d \<in> set (destinations (m # ms))" for d
    using destinations_of [OF that] Cons.prems(2) by (auto simp: list_all_iff movable_def)
  have in_legacy: "fst (lg_source x) = legacy_dir" if "x \<in> set (m # ms)" for x
    using that Cons.prems(2) by (auto simp: list_all_iff movable_def)
  have apart: "lg_source x \<notin> set (destinations (m # ms))" if "x \<in> set (m # ms)" for x
    using in_dir in_legacy [OF that] Cons.prems(5) by metis
  obtain r1 store1 where one: "migrate_one env m store = (r1, store1)" by fastforce
  have sub: "set (destinations [m]) \<subseteq> set (destinations (m # ms))" by auto
  have m_apart: "lg_source m \<notin> set (destinations [m])" using apart [of m] sub by auto
  note untouched = migrate_one_effect(1) [OF one] and moved = migrate_one_effect(2) [OF one m_apart]
  have others: "map_of store1 (lg_source x) = map_of store (lg_source x)" if "x \<in> set ms" for x
    using untouched [of "lg_source x"] that apart [of x] sub Cons.prems(3) by (metis distinct.simps(2) image_eqI
        list.map(2) list.set_intros(2) list.set_map subsetD)
  have kept_m: "kept store store1 dir m"
  proof (cases "lg_destination m")
    case None
    then obtain path node where p: "fst path = dir" "map_of store path = Some node" "nd_content node = Inr (lg_bytes m)"
      using movable(1) by (auto simp: movable_def)
    have "path \<noteq> lg_source m" using p(1) in_legacy [of m] Cons.prems(5) by auto
    then have "map_of store1 path = Some node" using untouched [of path] None p(2) by simp
    then show ?thesis using p unfolding kept_def by blast
  next
    case (Some d)
    then have "fst d = dir" using in_dir by simp
    then show ?thesis using moved Some unfolding kept_def regular_file_def by fastforce
  qed
  show ?case
  proof (cases r1)
    case (Inl err)
    then have "store' = store1" using Cons.prems(1) one by simp
    then show ?thesis using untouched kept_m others by (auto simp: list_all_iff kept_def)
  next
    case (Inr u)
    then have run: "run_migrations env ms store1 = (r, store')" using Cons.prems(1) one by simp
    have still: "movable store1 dir legacy_dir x" if x: "x \<in> set ms" for x
    proof -
      have mx: "movable store dir legacy_dir x" using movable(2) x by (simp add: list_all_iff)
      show ?thesis
    proof (cases "lg_destination x")
      case None
      then obtain path node where p: "fst path = dir" "map_of store path = Some node" "nd_content node = Inr (lg_bytes x)"
        using mx unfolding movable_None [OF None] by blast
      have "path \<noteq> lg_source m" using p(1) in_legacy [of m] Cons.prems(5) by auto
      moreover have "path \<notin> set (destinations [m])"
        using p(2) movable(1) by (auto simp: movable_def split: option.splits)
      ultimately have "map_of store1 path = Some node" using untouched p(2) by simp
      moreover have "fst (lg_source x) = legacy_dir" using in_legacy [of x] x by simp
      ultimately show ?thesis unfolding movable_None [OF None] using p by blast
    next
      case (Some d)
      then have d: "d \<in> set (destinations ms)" using x in_destinations by blast
      then have "d \<notin> set (destinations [m])" using Cons.prems(4) by auto
      moreover have "d \<noteq> lg_source m" using apart [of m] d by auto
      moreover have "map_of store d = None" using mx Some by (auto simp: movable_def)
      ultimately have "map_of store1 d = None" using untouched by simp
      then show ?thesis using Some in_legacy [of x] in_dir [of d] d x by (simp add: movable_def)
    qed
    qed
    then have "list_all (movable store1 dir legacy_dir) ms" by (simp add: list_all_iff)
    then have "(\<forall>path. path \<notin> lg_source ` set ms \<longrightarrow> path \<notin> set (destinations ms) \<longrightarrow> map_of store' path = map_of store1 path) \<and>
        list_all (kept store1 store' dir) ms"
      by (rule Cons.IH [OF run]) (use Cons.prems(3-5) in auto)
    then have tail: "\<And>path. path \<notin> lg_source ` set ms \<Longrightarrow> path \<notin> set (destinations ms) \<Longrightarrow> map_of store' path = map_of store1 path"
        "list_all (kept store1 store' dir) ms"
      by blast+
    have "kept store store' dir m"
    proof (cases "map_of store1 (lg_source m) = map_of store (lg_source m)")
      case True
      have "lg_source m \<notin> lg_source ` set ms" using Cons.prems(3) by simp
      moreover have "lg_source m \<notin> set (destinations ms)" using apart [of m] by auto
      ultimately have "map_of store' (lg_source m) = map_of store1 (lg_source m)" using tail(1) by simp
      then show ?thesis using True unfolding kept_def by simp
    next
      case False
      show ?thesis
      proof (cases "lg_destination m")
        case None
        then obtain path node where p: "fst path = dir" "map_of store path = Some node" "nd_content node = Inr (lg_bytes m)"
          using movable(1) by (auto simp: movable_def)
        have "path \<noteq> lg_source x" if "x \<in> set (m # ms)" for x using p(1) in_legacy [OF that] Cons.prems(5) by auto
        then have outside: "path \<noteq> lg_source m" "path \<notin> lg_source ` set ms" by auto
        have "path \<notin> set (destinations ms)"
        proof
          assume "path \<in> set (destinations ms)"
          then obtain x where "x \<in> set ms" "lg_destination x = Some path" using destinations_of by blast
          then show False using movable(2) p(2) by (auto simp: list_all_iff movable_def)
        qed
        then have "map_of store' path = Some node" using tail(1) untouched [of path] None outside p(2) by simp
        then show ?thesis using p unfolding kept_def by blast
      next
        case (Some d)
        have d: "fst d = dir" using Some in_dir by simp
        have "map_of store1 d = Some (regular_file (dn_now env) (lg_bytes m))" using moved False Some by simp
        moreover have "d \<notin> set (destinations ms)" using Cons.prems(4) Some by simp
        moreover have "d \<notin> lg_source ` set ms" using d in_legacy Cons.prems(5) by fastforce
        ultimately have "map_of store' d = Some (regular_file (dn_now env) (lg_bytes m))" using tail(1) by simp
        then show ?thesis using d unfolding kept_def regular_file_def by fastforce
      qed
    qed
    moreover have "list_all (kept store store' dir) ms"
      using tail(2) others by (auto simp: list_all_iff kept_def)
    moreover have "map_of store' path = map_of store path"
      if "path \<notin> lg_source ` set (m # ms)" "path \<notin> set (destinations (m # ms))" for path
      using that tail(1) untouched [of path] by auto
    ultimately show ?thesis by simp
  qed
qed

text \<open>
  C24. Moving the old store of drafts into the current directory never loses and never overwrites a
  draft, even when it fails halfway.  Whatever the outcome, every file is where it was with what it
  held, or was an old draft whose bytes are now in a file of the current directory.
\<close>

theorem migration_loses_no_draft:
  assumes "migrate_legacy_named_drafts env dir legacy_dir store = (r, store')"
    and "distinct (map fst store)" "dir \<noteq> legacy_dir" "uuids_fresh env store"
    and "map_of store path = Some node"
  shows "map_of store' path = Some node \<or>
    fst path = legacy_dir \<and>
    (\<exists>copy copied. fst copy = dir \<and> map_of store' copy = Some copied \<and> \<not> isl (nd_content node) \<and>
       nd_content copied = nd_content node)"
proof (cases "plan_migration env store dir legacy_dir")
  case (Inl err)
  then show ?thesis using assms(1,5) by (simp add: migrate_legacy_named_drafts_def)
next
  case (Inr ms)
  note sound = plan_migration_sound [OF Inr assms(2,4)]
  show ?thesis
  proof (cases "store' = store")
    case True
    then show ?thesis using assms(5) by simp
  next
    case False
    then obtain r' where run: "run_migrations env ms store = (r', store')"
      using assms(1) Inr by (auto simp: migrate_legacy_named_drafts_def split: sum.splits prod.splits)
    have "list_all (movable store dir legacy_dir) ms"
      using sound by (auto simp: list_all_iff migration_sound_def movable_def map_of_eq_None_iff split: option.splits)
    then have effect: "(\<forall>path. path \<notin> lg_source ` set ms \<longrightarrow> path \<notin> set (destinations ms) \<longrightarrow>
          map_of store' path = map_of store path) \<and> list_all (kept store store' dir) ms"
      by (rule run_migrations_effect [OF run]) (use sound assms(3) in simp_all)
    then have rest: "path \<notin> lg_source ` set ms \<Longrightarrow> path \<notin> set (destinations ms) \<Longrightarrow> map_of store' path = map_of store path"
      and moved: "list_all (kept store store' dir) ms"
      by blast+
    have "path \<notin> set (destinations ms)"
    proof
      assume "path \<in> set (destinations ms)"
      then obtain m where "m \<in> set ms" "lg_destination m = Some path" using destinations_of by blast
      moreover have "migration_sound store dir legacy_dir m" using sound \<open>m \<in> set ms\<close> by (simp add: list_all_iff)
      ultimately have "path \<notin> fst ` set store" by (simp add: migration_sound_def)
      then show False using assms(5) by (metis map_of_eq_None_iff option.distinct(1))
    qed
    show ?thesis
    proof (cases "path \<in> lg_source ` set ms")
      case True
      then obtain m where m: "m \<in> set ms" "lg_source m = path" by auto
      then have "migration_sound store dir legacy_dir m" "kept store store' dir m"
        using sound moved by (auto simp: list_all_iff)
      then have "fst path = legacy_dir" "nd_content node = Inr (lg_bytes m)" "kept store store' dir m"
        using m assms(5) by (auto simp: migration_sound_def)
      then show ?thesis using m assms(5) unfolding kept_def by fastforce
    next
      case False
      then show ?thesis using rest \<open>path \<notin> set (destinations ms)\<close> assms(5) by simp
    qed
  qed
qed

text \<open>Two drafts of the same name but different contents.\<close>

definition two_stores :: draft_store where
  "two_stores =
     [((''new'', ''a.json''), regular_file (Some 1) ''A''), ((''old'', ''a.json''), regular_file (Some 2) ''B'')]"

definition plain_env :: draft_env where
  "plain_env =
     \<lparr>dn_parse = \<lambda>bytes. Inr \<lparr>cf_from = [], cf_to = [], cf_cc = [], cf_bcc = [], cf_subject = [], cf_body = bytes,
        cf_attachments = [], cf_in_reply_to = None, cf_references = [], cf_text_reply_quote = None,
        cf_html_reply_quote = None\<rparr>,
      dn_serialize = \<lambda>draft. Inr (cf_body draft), dn_list_error = \<lambda>dir. None, dn_private_error = \<lambda>dir. None,
      dn_write_error = \<lambda>path. None, dn_remove_error = \<lambda>path. None,
      dn_uuid = \<lambda>n. replicate n CHR ''u'', dn_now = Some 3, dn_stamp = ''now''\<rparr>"

lemma two_stores_migrated:
  "migrate_legacy_named_drafts plain_env ''new'' ''old'' two_stores =
     (Inr 1, [((''new'', ''a.json''), regular_file (Some 1) ''A''),
              ((''new'', ''legacy--a.json''), regular_file (Some 3) ''B'')])"
  by code_simp

lemma two_stores_fresh: "uuids_fresh plain_env two_stores" "distinct (map fst two_stores)"
  by (auto simp: uuids_fresh_def plain_env_def two_stores_def inj_def)

theorem migration_loses_no_draft_witness:
  "\<exists>copy copied. fst copy = ''new'' \<and> map_of (snd (migrate_legacy_named_drafts plain_env ''new'' ''old'' two_stores)) copy = Some copied \<and>
     nd_content copied = Inr ''B''"
proof -
  let ?node = "regular_file (Some 2) ''B''"
  have old: "map_of two_stores (''old'', ''a.json'') = Some ?node" "''new'' \<noteq> ''old''"
    by (simp_all add: two_stores_def)
  note kept = migration_loses_no_draft [OF two_stores_migrated two_stores_fresh(2) old(2) two_stores_fresh(1) old(1)]
  have "map_of (snd (migrate_legacy_named_drafts plain_env ''new'' ''old'' two_stores)) (''old'', ''a.json'') \<noteq> Some ?node"
    by (simp add: two_stores_migrated)
  with kept show ?thesis unfolding two_stores_migrated by (auto simp: regular_file_def)
qed

section \<open>A save keeps the store within its limits\<close>

lemma keys_update: "map fst (AList.update k v al) = (if k \<in> fst ` set al then map fst al else map fst al @ [k])"
  by (induction al) auto

lemma json_paths_update:
  "length (json_paths dir (AList.update path node store)) \<le>
     length (json_paths dir store) + (if path \<in> fst ` set store \<or> fst path \<noteq> dir then 0 else 1)"
  by (simp add: json_paths_def keys_update)

lemma save_fits_count:
  assumes "ensure_named_draft_save_fits env store dir legacy_dir replaced n = Inr ()"
  shows "n \<le> MAX_NAMED_DRAFT_BYTES"
    and "length (json_paths dir store) + (if replaced = None then 1 else 0) \<le> MAX_NAMED_DRAFTS"
    and "replaced = Some path \<Longrightarrow> fst path = dir \<and> path \<in> fst ` set store"
proof -
  obtain paths legacy_paths where p: "json_entries env store dir = Inr paths"
    "legacy_paths_of env store dir legacy_dir = Inr legacy_paths"
    and n: "n \<le> MAX_NAMED_DRAFT_BYTES"
    "length paths + length legacy_paths + (if replaced = None then 1 else 0) \<le> MAX_NAMED_DRAFTS"
    and r: "check_replacement store dir paths replaced = Inr ()"
    using assms by (auto simp: ensure_named_draft_save_fits_def Let_def result_simps split: if_splits)
  from n(1) show "n \<le> MAX_NAMED_DRAFT_BYTES" .
  show "length (json_paths dir store) + (if replaced = None then 1 else 0) \<le> MAX_NAMED_DRAFTS"
    using p(1) n(2) by (auto simp: json_entries_Inr)
  show "fst path = dir \<and> path \<in> fst ` set store" if "replaced = Some path"
    using r that p(1) by (auto simp: check_replacement_def result_simps json_entries_Inr json_paths_iff split: option.splits)
qed

text \<open>
  A successful save writes exactly the serialized draft, to the file it replaces or to a new one of
  the directory, changes no other file, and leaves at most the allowed number of drafts.
\<close>

theorem save_named_draft_exact:
  assumes "save_named_draft_fields env dir legacy_dir draft replaced store = (Inr path, store')"
  shows "\<exists>bytes. dn_serialize env draft = Inr bytes \<and> length bytes \<le> MAX_NAMED_DRAFT_BYTES \<and>
     map_of store' path = Some (regular_file (dn_now env) bytes) \<and>
     (\<forall>other. other \<noteq> path \<longrightarrow> map_of store' other = map_of store other) \<and>
     fst path = dir \<and> (\<forall>old. replaced = Some old \<longrightarrow> path = old) \<and>
     length (json_paths dir store') \<le> MAX_NAMED_DRAFTS"
proof -
  obtain bytes where b: "bytes_to_save env dir legacy_dir draft replaced store = Inr bytes"
    and w: "atomic_write_durable env path bytes store = (Inr (), store')"
    and path: "path = (case replaced of Some old \<Rightarrow> old | None \<Rightarrow> (dir, new_draft_name env draft))"
    using assms by (auto simp: save_named_draft_fields_def Let_def split: sum.splits prod.splits)
  from b have s: "dn_serialize env draft = Inr bytes"
    and fits: "ensure_named_draft_save_fits env store dir legacy_dir replaced (length bytes) = Inr ()"
    by (auto simp: bytes_to_save_def result_simps)
  note count = save_fits_count [OF fits]
  have store': "store' = AList.update path (regular_file (dn_now env) bytes) store"
    using w by (auto simp: atomic_write_durable_def Let_def split: option.splits)
  have in_dir: "fst path = dir" using count(3) path by (auto split: option.splits)
  have "length (json_paths dir store') \<le> MAX_NAMED_DRAFTS"
    using json_paths_update [of dir path "regular_file (dn_now env) bytes" store] count(2,3) path
    by (auto simp: store' split: option.splits if_splits)
  moreover have "map_of store' path = Some (regular_file (dn_now env) bytes)"
    "\<forall>other. other \<noteq> path \<longrightarrow> map_of store' other = map_of store other"
    by (simp_all add: store' update_conv')
  ultimately show ?thesis using s count(1) in_dir path by auto
qed

end
