(* ===== verification/Spec2Isabelle.thy ===== *)
theory Spec2Isabelle
  imports Notm_Prelude Rust_Str Lru_Cache Address Mailto Message_Id Wire Mime_Scan Mime_Walk Render Machine
    Draft_Autosave Html_Sanitize Reply_Forward Message_Io Attachment_Files Tag_Mutation Thread_Snapshot Thread_Tags Link_Hints Html_Lifecycle
    Inline_Images Loader_Preflight Thread_Prepare Coordinators Thread_Loader Message_Source Named_Drafts
begin

text \<open>
  A verification development for notm, a GTK mail client over notmuch written in Rust.

  The program.  \<open>notm-mail\<close> is the mail core: it parses addresses, mailto links, message
  identifiers and MIME messages, builds replies and forwards, renders messages to wire bytes and
  saves attachments.  \<open>notm-notmuch\<close> wraps the notmuch database.  \<open>notm-ui\<close> is the GTK
  interface: widgets, background loaders with their caches, and the controller that saves the
  draft being composed.  \<open>notm-app\<close> reads the command line and the configuration.

  Conventions.  A Rust \<open>String\<close> or byte vector is the list of its bytes (\<open>string\<close>); what Rust
  guarantees of strings is \<open>valid_utf8\<close>, a hypothesis where it matters and proved of what the
  code builds.  \<open>Result\<close> is a sum (\<open>Inl\<close> the error), \<open>Option\<close> is \<open>option\<close>, \<open>?\<close> is
  \<open>and_then\<close>, \<open>ensure!\<close> is \<open>ensure\<close>.  \<open>usize\<close> values that are lengths are \<open>nat\<close>;
  where the code checks for overflow the bound is written out (\<open>checked_add\<close>, \<open>fits_usize\<close>,
  \<open>saturating_succ\<close>).  A loop over an index is a recursive function with its measure.
  Libraries outside the repository are arguments: the records \<open>address_lib\<close> (address
  parsing), \<open>wire_lib\<close> (base64, quoted-printable), \<open>header_lib\<close> and \<open>mime_lib\<close>
  (mailparse), \<open>render_lib\<close> (dates, UUIDs, lower-casing), \<open>html_lib\<close> (ammonia, html2text),
  \<open>notmuch_lib\<close> and \<open>query_lib\<close> (libnotmuch), \<open>inline_lib\<close> (the regular expression engine,
  base64), \<open>loader_lib\<close> (header parsing).  The world that changes under a reader (files, the
  database, cancellation, other threads, the clock) is \<open>prepare_env\<close>, \<open>load_env\<close>,
  \<open>source_env\<close> or \<open>draft_env\<close>.
  What is assumed of them is a named predicate (\<open>base64_laws\<close>, \<open>qp_laws\<close>,
  \<open>address_utf8\<close>, \<open>render_laws\<close>, \<open>capture_laws\<close>, \<open>notmuch_laws\<close>, \<open>reading_laws\<close>,
  \<open>uuids_fresh\<close>), each with a concrete instance the witnesses use.

  The theories, in the order of the code.

  \<open>Notm_Prelude\<close>: results and their inversion rules (collection \<open>result_simps\<close>), lists,
  cursor loops.  \<open>Rust_Str\<close>: bytes, UTF-8, and the string functions of the standard library.
  \<open>Machine\<close>: partial step functions, runs, reachability, and the locale
  \<open>machine_invariant\<close> with the rule for invariants.

  \<open>Lru_Cache\<close> (\<open>notm-ui/src/cache.rs\<close>): a run of operations
  refines the most-recently-used-first list; keys that are in use survive.

  \<open>Address\<close>, \<open>Mailto\<close>, \<open>Message_Id\<close> (\<open>notm-mail/src/address.rs\<close>, \<open>mailto.rs\<close>,
  \<open>message\_id.rs\<close> and the identifier part of \<open>rfc5322.rs\<close>): parsing of untrusted header
  input; what is accepted is complete, clean and well formed.

  \<open>Wire\<close> and \<open>Render\<close> (\<open>notm-mail/src/rfc5322.rs\<close>, \<open>compose.rs\<close>): rendering.
  \<open>Wire\<close> has the writers of single header fields under the locale \<open>header_writer\<close>, whose
  law says that a writer appends exactly the fields it is named for; every writer of the code is
  an interpretation.  \<open>Render\<close> composes them: the header read back from the rendered bytes is
  the list of fields the message calls for, so no value can inject one, and the final check of
  the wire format never refuses what was rendered.

  \<open>Mime_Scan\<close> and \<open>Mime_Walk\<close> (\<open>notm-mail/src/mime.rs\<close>): the bounded scan before parsing
  and the traversals after it.  The scan admits exactly the messages whose tree of boundary
  slices is within the limits; listing and extraction agree on attachments; the budget is an
  interpretation of the locale \<open>walk_invariant\<close>.  \<open>Message_Io\<close> (\<open>message\_io.rs\<close>): a
  reader is the list of its read results; previews do not depend on how the bytes arrive.

  \<open>Html_Sanitize\<close>, \<open>Reply_Forward\<close>, \<open>Attachment_Files\<close> (\<open>html\_sanitize.rs\<close>,
  \<open>reply.rs\<close>, \<open>forward.rs\<close>, \<open>attachments.rs\<close>): the HTML policy, replies and forwards,
  and saving without overwriting in a file system that may fail.

  \<open>Draft_Autosave\<close> (\<open>notm-ui/src/draft\_autosave.rs\<close>): the controller with its worker,
  timer and re-entrant callbacks as a step function; every flush is answered exactly once, by
  its own write.  Request identifiers are 64-bit and saturate, so its theorems assume that
  fewer than \<open>2^64 - 1\<close> have been given out.  Two scenarios that go wrong are exhibited: a
  newer edit stranded by a flush that joins a running write, and the event of the newest edit
  not being marked as the latest (\<open>newest_edit_failure_not_latest\<close>).

  \<open>Tag_Mutation\<close>, \<open>Thread_Snapshot\<close>, \<open>Thread_Tags\<close> (\<open>notm-notmuch/src/database.rs\<close>,
  \<open>message.rs\<close>, \<open>query.rs\<close> and the tag worker and undo history of
  \<open>notm-ui/src/main\_window.rs\<close>): validation, one message, atomic batches, whole threads and
  query results; reading pages and threads at one revision and within bounds.  \<open>notmuch_laws\<close>
  says what the tag calls of libnotmuch do; \<open>reading_laws\<close> says that, under the exclusive lock
  of a writable handle, counting and searching leave the database as it is and a search of a
  thread finds as many messages as were counted.  A complete batch applied every mutation, undoing
  it restores the tags, and tagging threads changes exactly the messages they contain.

  \<open>Link_Hints\<close> (\<open>widgets/link\_hints.rs\<close>) and \<open>Html_Lifecycle\<close>
  (\<open>html\_view\_lifecycle.rs\<close>): the two state machines of the web view, as step functions
  whose scripts are answered in any order with any result, interpretations of
  \<open>machine_invariant\<close>.  Whatever is shown of a document was reported by that document since
  its load; a queued restore is carried out.  The \<open>f64\<close> numbers of a report are real numbers.

  \<open>Inline_Images\<close>, \<open>Loader_Preflight\<close>, \<open>Thread_Prepare\<close> (\<open>thread\_loader.rs\<close>): the
  HTML document of a message with its inlined and blocked images, the structural scan, and the
  preparation of a thread within its limits.  The \<open>BTreeMap\<close> of message contents is an
  association list; panics inside a preparation are not modelled.

  \<open>Coordinators\<close> (\<open>draft\_recovery.rs\<close>, \<open>composer\_preparation.rs\<close>,
  \<open>attachment\_io.rs\<close>, \<open>draft\_io.rs\<close>): the locale \<open>coordinator\<close>, for tokens that make
  a newer request supersede an older one, interpreted by the four coordinators and by the one of
  \<open>Thread_Loader\<close>.  \<open>Thread_Loader\<close> (\<open>thread\_loader.rs\<close>): the worker with its channel,
  cancellation and coalescing, an interpretation of \<open>machine_invariant\<close>; the number of steps
  after which it rests is bounded by the number of waiting commands.
  \<open>Message_Source\<close> (\<open>thread\_loader.rs\<close>): the shared path of a shown message, read while
  other threads may change everything between any two steps; a read counts as done at its last
  check of the generation.

  \<open>Named_Drafts\<close> (\<open>draft\_io.rs\<close>, \<open>widgets/composer.rs\<close>): the store of named drafts.
  The migration of the old store loses and overwrites nothing, even when it fails halfway; a save
  writes one file and stays within the limits.  Nothing else is assumed to change the two
  directories while one of these operations runs.  The search for a free name has as much fuel as
  there are occupied names, which is enough for distinct identifiers (\<open>unoccupied_found\<close>).

  Not modelled: the GTK wiring of \<open>main\_window.rs\<close> and the widgets, the FFI to notmuch, the
  transport processes, configuration files, themes and packaging; they are listed, file by file,
  with the components.
\<close>

end
